(* ===== verification/Prelude.thy ===== *)
theory Prelude
  imports Main "HOL-Library.AList" "HOL-Library.Char_ord" "HOL-Library.List_Lexorder"
begin

text \<open>
  Shared vocabulary of the development: Go's 64-bit integers with their wrap-around, instants
  and durations of package time, the byte-string functions of package strings the repository
  uses, and Go maps as association lists with distinct keys (for the maps the code iterates
  over or takes the length of).

  A Go string is its bytes, a \<^typ>\<open>string\<close>. \<open>TrimSpace\<close> knows every Unicode space by its UTF-8
  bytes. \<open>ToLower\<close> changes ASCII letters only: on text with letters outside ASCII Go also folds
  those, which this development does not model.
\<close>

named_theorems go_simps "evaluation of the modelled Go library functions"
named_theorems map_simps "Go maps as association lists"


subsection \<open>Machine integers\<close>

text \<open>An int64 (and Go's int on the supported 64-bit platform) is the integer it holds;
  arithmetic that may leave the range goes through \<open>wrap64\<close>.\<close>

definition wrap64 :: "int \<Rightarrow> int" where
  "wrap64 x = (x + 2 ^ 63) mod 2 ^ 64 - 2 ^ 63"

definition int64 :: "int \<Rightarrow> bool" where
  "int64 x \<longleftrightarrow> - (2 ^ 63) \<le> x \<and> x < 2 ^ 63"

definition maxInt64 :: int where
  "maxInt64 = 2 ^ 63 - 1"

definition minInt64 :: int where
  "minInt64 = - (2 ^ 63)"

lemma wrap64_id [simp]: "int64 x \<Longrightarrow> wrap64 x = x"
  by (simp add: wrap64_def int64_def)

lemma int64_wrap64 [simp]: "int64 (wrap64 x)"
  by (simp add: wrap64_def int64_def)

lemma wrap64_idem [simp]: "wrap64 (wrap64 x) = wrap64 x"
  by (rule wrap64_id) (rule int64_wrap64)

lemma wrap64_0 [simp]: "wrap64 0 = 0"
  by (simp add: wrap64_def)

lemma wrap64_cong: "x mod 2 ^ 64 = y mod 2 ^ 64 \<Longrightarrow> wrap64 x = wrap64 y"
  by (simp add: wrap64_def mod_add_cong)

lemma wrap64_mod: "wrap64 x mod 2 ^ 64 = x mod 2 ^ 64"
  unfolding wrap64_def by (metis add_diff_cancel_right' mod_diff_left_eq)

lemma wrap64_add_left [simp]: "wrap64 (wrap64 x + y) = wrap64 (x + y)"
  by (rule wrap64_cong) (metis mod_add_left_eq wrap64_mod)

lemma wrap64_add_right [simp]: "wrap64 (x + wrap64 y) = wrap64 (x + y)"
  by (rule wrap64_cong) (metis mod_add_right_eq wrap64_mod)

lemma wrap64_diff_left [simp]: "wrap64 (wrap64 x - y) = wrap64 (x - y)"
  by (rule wrap64_cong) (metis mod_diff_left_eq wrap64_mod)

lemma wrap64_diff_right [simp]: "wrap64 (x - wrap64 y) = wrap64 (x - y)"
  by (rule wrap64_cong) (metis mod_diff_right_eq wrap64_mod)

text \<open>Go's integer division and remainder truncate towards zero.\<close>

definition go_div :: "int \<Rightarrow> int \<Rightarrow> int" where
  "go_div a b = (if (a < 0) = (b < 0) then \<bar>a\<bar> div \<bar>b\<bar> else - (\<bar>a\<bar> div \<bar>b\<bar>))"

definition go_rem :: "int \<Rightarrow> int \<Rightarrow> int" where
  "go_rem a b = a - b * go_div a b"

lemma go_div_nonneg [simp]: "0 \<le> a \<Longrightarrow> 0 < b \<Longrightarrow> go_div a b = a div b"
  by (simp add: go_div_def)

lemma go_rem_nonneg [simp]: "0 \<le> a \<Longrightarrow> 0 < b \<Longrightarrow> go_rem a b = a mod b"
  by (simp add: go_rem_def minus_mult_div_eq_mod)


subsection \<open>Instants and durations\<close>

text \<open>A time.Time is the number of nanoseconds since the Unix epoch; \<open>zero_time\<close> is the zero
  Time, January 1 of year 1. \<open>Sub\<close> saturates at the bounds of time.Duration.\<close>

type_synonym instant = int
type_synonym duration = int

abbreviation second :: duration where "second \<equiv> 1000000000"
abbreviation minute :: duration where "minute \<equiv> 60 * second"
abbreviation hour :: duration where "hour \<equiv> 3600 * second"

definition zero_time :: instant where
  "zero_time = - 62135596800 * second"

definition IsZero :: "instant \<Rightarrow> bool" where
  "IsZero t \<longleftrightarrow> t = zero_time"

definition time_sub :: "instant \<Rightarrow> instant \<Rightarrow> duration" where
  "time_sub t u = max minInt64 (min maxInt64 (t - u))"

lemma time_sub_ge: "0 \<le> d \<Longrightarrow> d \<le> maxInt64 \<Longrightarrow> d \<le> time_sub t u \<longleftrightarrow> d \<le> t - u"
  by (auto simp: time_sub_def minInt64_def maxInt64_def)


subsection \<open>Go strings\<close>

definition ascii_space :: "char \<Rightarrow> bool" where
  "ascii_space c \<longleftrightarrow> (let n = of_char c :: nat in n = 32 \<or> (9 \<le> n \<and> n \<le> 13))"

text \<open>The UTF-8 lengths of the space rune at the start of a string, and at its end (the
  argument of the second function is the reversed string): U+0085, U+00A0, U+1680, U+2000 to
  U+200A, U+2028, U+2029, U+202F, U+205F and U+3000 beside the ASCII ones; 0 for none.\<close>

definition space2 :: "nat \<Rightarrow> nat \<Rightarrow> bool" where
  "space2 a b \<longleftrightarrow> a = 194 \<and> (b = 133 \<or> b = 160)"

definition space3 :: "nat \<Rightarrow> nat \<Rightarrow> nat \<Rightarrow> bool" where
  "space3 a b c \<longleftrightarrow>
     a = 225 \<and> b = 154 \<and> c = 128 \<or>
     a = 226 \<and> b = 128 \<and> (128 \<le> c \<and> c \<le> 138 \<or> c = 168 \<or> c = 169 \<or> c = 175) \<or>
     a = 226 \<and> b = 129 \<and> c = 159 \<or>
     a = 227 \<and> b = 128 \<and> c = 128"

fun space_len :: "string \<Rightarrow> nat" where
  "space_len [] = 0"
| "space_len (a # s) = (if ascii_space a then 1 else
     (case s of [] \<Rightarrow> 0
      | b # s' \<Rightarrow> if space2 (of_char a) (of_char b) then 2 else
          (case s' of [] \<Rightarrow> 0
           | c # _ \<Rightarrow> if space3 (of_char a) (of_char b) (of_char c) then 3 else 0)))"

fun space_len_rev :: "string \<Rightarrow> nat" where
  "space_len_rev [] = 0"
| "space_len_rev (a # s) = (if ascii_space a then 1 else
     (case s of [] \<Rightarrow> 0
      | b # s' \<Rightarrow> if space2 (of_char b) (of_char a) then 2 else
          (case s' of [] \<Rightarrow> 0
           | c # _ \<Rightarrow> if space3 (of_char c) (of_char b) (of_char a) then 3 else 0)))"

lemma space_len_Nil [simp]: "0 < space_len s \<Longrightarrow> s \<noteq> []"
  by auto

lemma space_len_rev_Nil [simp]: "0 < space_len_rev s \<Longrightarrow> s \<noteq> []"
  by auto

function strip_spaces :: "(string \<Rightarrow> nat) \<Rightarrow> string \<Rightarrow> string" where
  "strip_spaces len s = (if s \<noteq> [] \<and> 0 < len s then strip_spaces len (drop (len s) s) else s)"
  by pat_completeness auto
termination
  by (relation "measure (\<lambda>(len, s). length s)") auto

declare strip_spaces.simps [simp del]

definition TrimSpace :: "string \<Rightarrow> string" where
  "TrimSpace s = rev (strip_spaces space_len_rev (rev (strip_spaces space_len s)))"

lemma strip_spaces_Nil [simp]: "strip_spaces len [] = []"
  by (simp add: strip_spaces.simps)

lemma strip_spaces_suffix: "\<exists>p. s = p @ strip_spaces len s"
proof (induction len s rule: strip_spaces.induct)
  case (1 len s)
  show ?case
  proof (cases "s \<noteq> [] \<and> 0 < len s")
    case True
    then obtain p where "drop (len s) s = p @ strip_spaces len (drop (len s) s)"
      using 1 by blast
    then have "s = (take (len s) s @ p) @ strip_spaces len (drop (len s) s)"
      by (metis append.assoc append_take_drop_id)
    moreover from True have "strip_spaces len s = strip_spaces len (drop (len s) s)"
      by (subst strip_spaces.simps) simp
    ultimately show ?thesis by metis
  next
    case False
    then have "strip_spaces len s = s" by (subst strip_spaces.simps) auto
    then show ?thesis by simp
  qed
qed

lemma strip_spaces_stop: "strip_spaces len s = [] \<or> len (strip_spaces len s) = 0"
proof (induction len s rule: strip_spaces.induct)
  case (1 len s)
  then show ?case
    by (cases "s \<noteq> [] \<and> 0 < len s") (auto simp: strip_spaces.simps [of len s])
qed

lemma strip_spaces_fixed: "s = [] \<or> len s = 0 \<Longrightarrow> strip_spaces len s = s"
  by (subst strip_spaces.simps) auto

lemma strip_spaces_idem [simp]: "strip_spaces len (strip_spaces len s) = strip_spaces len s"
  by (rule strip_spaces_fixed) (rule strip_spaces_stop)

lemma TrimSpace_Nil [simp]: "TrimSpace [] = []"
  by (simp add: TrimSpace_def)

text \<open>A prefix of a string that starts with no space starts with none, so trimming twice is
  trimming once.\<close>

lemma space_len_prefix: "space_len (p @ q) = 0 \<Longrightarrow> space_len p = 0"
  by (cases p; cases "tl p"; cases "tl (tl p)") (auto split: if_splits list.splits)

lemma TrimSpace_idem [simp]: "TrimSpace (TrimSpace s) = TrimSpace s"
proof -
  let ?l = "strip_spaces space_len s"
  let ?r = "strip_spaces space_len_rev (rev ?l)"
  obtain p where p: "rev ?l = p @ ?r" using strip_spaces_suffix by blast
  then have l: "?l = rev ?r @ rev p" by (metis rev_append rev_rev_ident)
  have "rev ?r = [] \<or> space_len (rev ?r) = 0"
  proof (cases "?l = []")
    case False
    then have "space_len ?l = 0" using strip_spaces_stop by blast
    with l have "space_len (rev ?r) = 0" by (metis space_len_prefix)
    then show ?thesis ..
  qed (use l in simp)
  then have "strip_spaces space_len (rev ?r) = rev ?r" by (rule strip_spaces_fixed)
  then show ?thesis by (simp add: TrimSpace_def)
qed

definition char_lower :: "char \<Rightarrow> char" where
  "char_lower c = (let n = of_char c :: nat in if 65 \<le> n \<and> n \<le> 90 then char_of (n + 32) else c)"

definition char_upper :: "char \<Rightarrow> char" where
  "char_upper c = (let n = of_char c :: nat in if 97 \<le> n \<and> n \<le> 122 then char_of (n - 32) else c)"

definition ToLower :: "string \<Rightarrow> string" where
  "ToLower s = map char_lower s"

definition ToUpper :: "string \<Rightarrow> string" where
  "ToUpper s = map char_upper s"

definition EqualFold :: "string \<Rightarrow> string \<Rightarrow> bool" where
  "EqualFold s t \<longleftrightarrow> ToLower s = ToLower t"

lemma char_lower_idem [simp]: "char_lower (char_lower c) = char_lower c"
  by (simp add: char_lower_def Let_def)

lemma ToLower_idem [simp]: "ToLower (ToLower s) = ToLower s"
  by (simp add: ToLower_def)

lemma ToLower_Nil [simp]: "ToLower [] = []"
  by (simp add: ToLower_def)

lemma ToLower_eq_Nil [simp]: "ToLower s = [] \<longleftrightarrow> s = []"
  by (simp add: ToLower_def)

lemma EqualFold_refl [simp]: "EqualFold s s"
  by (simp add: EqualFold_def)

fun HasPrefix :: "string \<Rightarrow> string \<Rightarrow> bool" where
  "HasPrefix s [] = True"
| "HasPrefix [] (p # ps) = False"
| "HasPrefix (c # s) (p # ps) = (c = p \<and> HasPrefix s ps)"

definition HasSuffix :: "string \<Rightarrow> string \<Rightarrow> bool" where
  "HasSuffix s p \<longleftrightarrow> HasPrefix (rev s) (rev p)"

fun str_contains :: "string \<Rightarrow> string \<Rightarrow> bool" where
  "str_contains [] p = (p = [])"
| "str_contains (c # s) p = (HasPrefix (c # s) p \<or> str_contains s p)"

definition TrimPrefix :: "string \<Rightarrow> string \<Rightarrow> string" where
  "TrimPrefix s p = (if HasPrefix s p then drop (length p) s else s)"

text \<open>\<open>strings.TrimRight\<close> with a one-byte cut set.\<close>

definition TrimRight :: "string \<Rightarrow> char \<Rightarrow> string" where
  "TrimRight s c = rev (dropWhile (\<lambda>d. d = c) (rev s))"

lemma HasPrefix_iff: "HasPrefix s p \<longleftrightarrow> (\<exists>r. s = p @ r)"
  by (induction s p rule: HasPrefix.induct) auto

lemma HasSuffix_iff: "HasSuffix s p \<longleftrightarrow> (\<exists>r. s = r @ p)"
  unfolding HasSuffix_def HasPrefix_iff by (metis rev_append rev_rev_ident)

lemma TrimPrefix_append [simp]: "TrimPrefix (p @ s) p = s"
  by (auto simp: TrimPrefix_def HasPrefix_iff)


subsection \<open>Go maps that the code iterates over\<close>

text \<open>Such a map is an association list with distinct keys. Go iterates in an unspecified
  order; the model iterates in list order, and what it computes from an iteration is shown not
  to depend on the order where it matters.\<close>

type_synonym ('k, 'v) amap = "('k \<times> 'v) list"

abbreviation aget :: "('k, 'v) amap \<Rightarrow> 'k \<Rightarrow> 'v option" where
  "aget m k \<equiv> map_of m k"

abbreviation aset :: "'k \<Rightarrow> 'v \<Rightarrow> ('k, 'v) amap \<Rightarrow> ('k, 'v) amap" where
  "aset k v m \<equiv> AList.update k v m"

abbreviation adel :: "'k \<Rightarrow> ('k, 'v) amap \<Rightarrow> ('k, 'v) amap" where
  "adel k m \<equiv> AList.delete k m"

abbreviation akeys :: "('k, 'v) amap \<Rightarrow> 'k list" where
  "akeys m \<equiv> map fst m"

definition amap_ok :: "('k, 'v) amap \<Rightarrow> bool" where
  "amap_ok m \<longleftrightarrow> distinct (akeys m)"

lemma amap_ok_Nil [simp]: "amap_ok []"
  by (simp add: amap_ok_def)

lemma amap_ok_Cons: "amap_ok ((k, v) # m) \<longleftrightarrow> aget m k = None \<and> amap_ok m"
  by (simp add: amap_ok_def map_of_eq_None_iff)

lemma amap_ok_aset [simp]: "amap_ok m \<Longrightarrow> amap_ok (aset k v m)"
  by (simp add: amap_ok_def distinct_update)

lemma amap_ok_adel [simp]: "amap_ok m \<Longrightarrow> amap_ok (adel k m)"
  by (simp add: amap_ok_def distinct_delete)

lemma amap_ok_filter [simp]: "amap_ok m \<Longrightarrow> amap_ok (filter P m)"
  by (simp add: amap_ok_def distinct_map_filter)

lemma aget_aset [simp]: "aget (aset k v m) x = (if x = k then Some v else aget m x)"
  by (simp add: update_conv')

lemma aget_adel [simp]: "aget (adel k m) x = (if x = k then None else aget m x)"
  by (simp add: delete_conv')

lemma aget_SomeI: "amap_ok m \<Longrightarrow> (k, v) \<in> set m \<Longrightarrow> aget m k = Some v"
  by (simp add: amap_ok_def)

lemma aget_filter:
  "amap_ok m \<Longrightarrow> aget (filter P m) k = (case aget m k of Some v \<Rightarrow> if P (k, v) then Some v else None | None \<Rightarrow> None)"
proof (induction m)
  case (Cons x m)
  then show ?case
    by (cases x) (auto simp: amap_ok_Cons split: option.splits if_splits)
qed simp

lemma aget_map_values: "aget (map (\<lambda>(k, v). (k, f k v)) m) x = map_option (f x) (aget m x)"
  by (induction m) auto

lemma akeys_map_values [simp]: "akeys (map (\<lambda>(k, v). (k, f k v)) m) = akeys m"
  by (induction m) auto

lemma amap_ok_map_values [simp]: "amap_ok (map (\<lambda>(k, v). (k, f k v)) m) \<longleftrightarrow> amap_ok m"
  unfolding amap_ok_def akeys_map_values by simp

lemmas amap_simps [map_simps] = aget_aset aget_adel aget_map_values amap_ok_aset amap_ok_adel

text \<open>A sum over a map after one binding was replaced: the old value leaves, the new one
  comes.\<close>

lemma sum_list_aset:
  fixes f :: "'k \<times> 'v \<Rightarrow> int"
  assumes "amap_ok m"
  shows "sum_list (map f (aset k v m)) =
    sum_list (map f m) - (case aget m k of Some w \<Rightarrow> f (k, w) | None \<Rightarrow> 0) + f (k, v)"
  using assms
proof (induction m)
  case (Cons x m)
  then show ?case by (cases x) (auto simp: amap_ok_Cons split: option.splits)
qed simp

end
