(* ===== verification/Calendar.thy ===== *)
theory Calendar
  imports Prelude
begin

text \<open>
  Civil days in a time zone, as the accounting uses them: a zone is its list of transitions, a
  day is its number since 1970-01-01, and \<open>time.Date\<close> at midnight follows the offset search of
  Go's package time (1.18 and later). \<open>dayStart\<close> is internal/policy/cycle.go.

  Date keys ("2006-01-02") are represented by their day numbers; \<open>civil_of_day\<close> gives the year,
  month and day they print, and \<open>civil_less_mono\<close> shows that these compare (year first, as the
  zero-padded keys of the years 0 to 9999 do as strings) the way their day numbers compare.

  \<open>day_calendar\<close> is the interface the quota cycles use: the start of the day n days later is a
  boundary between the instants of earlier days and the rest. \<open>regular\<close> zones satisfy it
  (\<open>dayStart_boundary\<close>), also where a clock change removes midnight.
\<close>

type_synonym day = int


subsection \<open>The Gregorian calendar\<close>

text \<open>Days are counted from a March 1 so that leap days end a year; year, then day of the year,
  come from the 400, 100, 4 and 1 year cycles.\<close>

definition cycle_parts :: "day \<Rightarrow> int \<times> int \<times> int \<times> int" where
  "cycle_parts d =
     (let z = d + 719468; d400 = z mod 146097;
          n100 = min 3 (d400 div 36524); d100 = d400 - 36524 * n100
      in (z div 146097, n100, d100 div 1461, d100 mod 1461))"

definition march_year :: "day \<Rightarrow> int" where
  "march_year d = (let (n400, n100, n4, d4) = cycle_parts d
     in 400 * n400 + 100 * n100 + 4 * n4 + min 3 (d4 div 365))"

definition day_of_year :: "day \<Rightarrow> int" where
  "day_of_year d = (let (n400, n100, n4, d4) = cycle_parts d in d4 - 365 * min 3 (d4 div 365))"

definition month_index :: "int \<Rightarrow> int" where
  "month_index doy = (5 * doy + 2) div 153"

definition civil_of_day :: "day \<Rightarrow> int \<times> int \<times> int" where
  "civil_of_day d =
     (let doy = day_of_year d; mp = month_index doy; m = (if mp < 10 then mp + 3 else mp - 9)
      in (march_year d + (if m \<le> 2 then 1 else 0), m, doy - (153 * mp + 2) div 5 + 1))"

definition day_of_month :: "day \<Rightarrow> int" where
  "day_of_month d = snd (snd (civil_of_day d))"

lemma epoch_civil: "civil_of_day 0 = (1970, 1, 1)"
  by (simp add: civil_of_day_def day_of_year_def march_year_def month_index_def cycle_parts_def)

lemma div_mod_succ:
  fixes z M :: int
  assumes "1 < M"
  shows "z mod M < M - 1 \<and> (z + 1) div M = z div M \<and> (z + 1) mod M = z mod M + 1 \<or>
    z mod M = M - 1 \<and> (z + 1) div M = z div M + 1 \<and> (z + 1) mod M = 0"
proof -
  have z: "z = M * (z div M) + z mod M" by simp
  have b: "0 \<le> z mod M" "z mod M < M" using assms by simp_all
  show ?thesis
  proof (cases "z mod M = M - 1")
    case True
    then have "z + 1 = M * (z div M + 1)" using z unfolding distrib_left mult_1_right by linarith
    with True assms show ?thesis by simp
  next
    case False
    with b have lt: "z mod M < M - 1" by linarith
    have e: "z + 1 = M * (z div M) + (z mod M + 1)" using z by linarith
    have "(z + 1) div M = z div M" by (rule int_div_pos_eq [OF e]) (use b lt in linarith)+
    moreover have "(z + 1) mod M = z mod M + 1" by (rule int_mod_pos_eq [OF e]) (use b lt in linarith)+
    ultimately have "(z + 1) div M = z div M" "(z + 1) mod M = z mod M + 1" by blast+
    with lt show ?thesis by blast
  qed
qed

text \<open>A century of the 400-year cycle, and a year of the 4-year cycle: the last one has a day
  more.\<close>

lemma capped_div_succ:
  fixes b q :: int
  assumes "0 \<le> b" "b < 4 * q" "1 < q"
  shows "min 3 ((b + 1) div q) = min 3 (b div q) \<or>
    min 3 ((b + 1) div q) = min 3 (b div q) + 1 \<and> b - q * min 3 (b div q) = q - 1
      \<and> (b + 1) - q * min 3 ((b + 1) div q) = 0"
proof (cases "b div q < 3")
  case True
  from div_mod_succ [OF assms(3), of b] consider "(b + 1) div q = b div q"
    | "b mod q = q - 1" "(b + 1) div q = b div q + 1" by blast
  then show ?thesis
  proof cases
    case 2
    have "b = q * (b div q) + b mod q" by simp
    with 2 have "b - q * (b div q) = q - 1" "b + 1 - q * (b div q + 1) = 0"
      unfolding distrib_left by linarith+
    moreover have "min 3 (b div q) = b div q" "min 3 (b div q + 1) = b div q + 1" using True by auto
    ultimately show ?thesis using 2 by simp
  qed simp
next
  case False
  then have "3 \<le> b div q" "3 \<le> (b + 1) div q"
    using div_mod_succ [OF assms(3), of b] by auto
  then show ?thesis by (simp add: min_def)
qed

lemma capped_div_bounds:
  fixes b q :: int
  assumes "0 \<le> b" "b \<le> 4 * q" "1 < q"
  shows "0 \<le> b - q * min 3 (b div q)" "b - q * min 3 (b div q) \<le> q" "0 \<le> min 3 (b div q)"
    and "b - q * min 3 (b div q) = q \<longleftrightarrow> b = 4 * q"
proof -
  have b: "b = q * (b div q) + b mod q" "0 \<le> b mod q" "b mod q < q" using assms by simp_all
  have d: "0 \<le> b div q" "b div q \<le> 4"
  proof -
    show "0 \<le> b div q" using assms by (simp add: pos_imp_zdiv_nonneg_iff)
    have "b div q \<le> (4 * q) div q" using assms by (intro zdiv_mono1) auto
    then show "b div q \<le> 4" using assms by simp
  qed
  have "0 \<le> b - q * min 3 (b div q) \<and> b - q * min 3 (b div q) \<le> q \<and>
    (b - q * min 3 (b div q) = q \<longleftrightarrow> b = 4 * q)"
  proof (cases "b div q = 4")
    case True
    with b(1) have "b = q * 4 + b mod q" by simp
    with b(2) assms(2) have "b = 4 * q" by linarith
    with True show ?thesis using assms by auto
  next
    case False
    with d have "min 3 (b div q) = b div q" by auto
    moreover have "b - q * (b div q) = b mod q" using b(1) by linarith
    moreover have "b \<noteq> 4 * q" using False assms(3) by auto
    ultimately show ?thesis using b(2,3) by auto
  qed
  with d show "0 \<le> b - q * min 3 (b div q)" "b - q * min 3 (b div q) \<le> q" "0 \<le> min 3 (b div q)"
    "b - q * min 3 (b div q) = q \<longleftrightarrow> b = 4 * q" by auto
qed

lemma year_succ:
  "march_year (d + 1) = march_year d \<and> day_of_year (d + 1) = day_of_year d + 1 \<or>
   march_year (d + 1) = march_year d + 1 \<and> day_of_year (d + 1) = 0 \<and> 364 \<le> day_of_year d"
proof -
  define z a where "z = d + 719468" and "a = z mod 146097"
  define h where "h = (\<lambda>x::int. min 3 (x div 36524))"
  define k where "k = (\<lambda>x::int. min 3 (x div 365))"
  define c where "c = a - 36524 * h a"
  define e where "e = c mod 1461"
  have y: "march_year d = 400 * (z div 146097) + 100 * h a + 4 * (c div 1461) + k e"
    and o: "day_of_year d = e - 365 * k e"
    by (simp_all add: march_year_def day_of_year_def cycle_parts_def z_def a_def h_def k_def c_def e_def Let_def)
  define a' where "a' = (z + 1) mod 146097"
  define c' where "c' = a' - 36524 * h a'"
  define e' where "e' = c' mod 1461"
  have z1: "d + 1 + 719468 = z + 1" by (simp add: z_def)
  have y': "march_year (d + 1) = 400 * ((z + 1) div 146097) + 100 * h a' + 4 * (c' div 1461) + k e'"
    and o': "day_of_year (d + 1) = e' - 365 * k e'"
    by (simp_all add: march_year_def day_of_year_def cycle_parts_def z1 a'_def h_def k_def c'_def e'_def Let_def)
  have a: "0 \<le> a" "a < 146097" by (simp_all add: a_def)
  have c: "0 \<le> c" "c \<le> 36524" "c = 36524 \<longleftrightarrow> a = 146096"
    using capped_div_bounds [of a 36524] a by (simp_all add: c_def h_def)
  have e: "0 \<le> e" "e < 1461" by (simp_all add: e_def)
  have o_last: "e = 1460 \<longleftrightarrow> e - 365 * k e = 365" and k0: "k 0 = 0" and h0: "h 0 = 0"
    using capped_div_bounds [of e 365] e by (auto simp: k_def h_def)
  consider (new400) "a = 146096" "(z + 1) div 146097 = z div 146097 + 1" "a' = 0"
    | (same400) "a < 146096" "(z + 1) div 146097 = z div 146097" "a' = a + 1"
    using div_mod_succ [of 146097 z] by (auto simp: a_def a'_def)
  then show ?thesis
  proof cases
    case new400
    then have "h a = 3" "c = 36524" by (simp_all add: h_def c_def)
    then have "c div 1461 = 24" "e = 1460" by (simp_all add: e_def)
    moreover from this have "k e = 3" by (simp add: k_def)
    moreover have "c' = 0" "e' = 0" "c' div 1461 = 0" using new400 h0 by (simp_all add: c'_def e'_def)
    ultimately show ?thesis using y y' o o' new400 \<open>h a = 3\<close> h0 k0 by simp
  next
    case same400
    from capped_div_succ [of a 36524] a same400
    consider (same100) "h a' = h a" "c' = c + 1" | (new100) "h a' = h a + 1" "c = 36523" "c' = 0"
      by (auto simp: h_def c_def c'_def)
    then show ?thesis
    proof cases
      case new100
      then have "c div 1461 = 24" "e = 1459" by (simp_all add: e_def)
      moreover from this have "k e = 3" by (simp add: k_def)
      moreover have "e' = 0" "c' div 1461 = 0" using new100 by (simp_all add: e'_def)
      ultimately show ?thesis using y y' o o' same400 new100 k0 by simp
    next
      case same100
      consider (new4) "e = 1460" "c' div 1461 = c div 1461 + 1" "e' = 0"
        | (same4) "e < 1460" "c' div 1461 = c div 1461" "e' = e + 1"
        using div_mod_succ [of 1461 c] same100 by (auto simp: e_def e'_def)
      then show ?thesis
      proof cases
        case new4
        then have "k e = 3" by (simp add: k_def)
        with new4 show ?thesis using y y' o o' same400 same100 k0 by simp
      next
        case same4
        from capped_div_succ [of e 365] e same4
        have "k e' = k e \<or> k e' = k e + 1 \<and> e - 365 * k e = 364 \<and> e' - 365 * k e' = 0"
          by (auto simp: k_def)
        then show ?thesis
        proof
          assume "k e' = k e"
          then have "march_year (d + 1) = march_year d" "day_of_year (d + 1) = day_of_year d + 1"
            unfolding y y' o o' using same400(2) same100(1) same4(2,3) by linarith+
          then show ?thesis by simp
        next
          assume n: "k e' = k e + 1 \<and> e - 365 * k e = 364 \<and> e' - 365 * k e' = 0"
          have "march_year (d + 1) = march_year d + 1" 
            unfolding y y' using n same400(2) same100(1) same4(2) by linarith
          moreover have "day_of_year (d + 1) = 0" "day_of_year d = 364" unfolding o o' using n by blast+
          ultimately show ?thesis by simp
        qed
      qed
    qed
  qed
qed

lemma day_of_year_bounds: "0 \<le> day_of_year d" "day_of_year d \<le> 365"
proof -
  define e where "e = (case cycle_parts d of (n400, n100, n4, d4) \<Rightarrow> d4)"
  have "0 \<le> e" "e < 1461" by (simp_all add: e_def cycle_parts_def Let_def)
  moreover have "day_of_year d = e - 365 * min 3 (e div 365)"
    by (simp add: day_of_year_def e_def split_def Let_def)
  ultimately show "0 \<le> day_of_year d" "day_of_year d \<le> 365"
    using capped_div_bounds(1,2) [of e 365] by simp_all
qed

text \<open>The next civil date is the next day of the month, or the first of the next month, or
  January 1 of the next year.\<close>

lemma month_start_le: "(153 * k + 2) div 5 \<le> doy \<longleftrightarrow> k \<le> month_index doy" for k doy :: int
  unfolding month_index_def by linarith

lemma month_start_length:
  "30 \<le> (153 * (k + 1) + 2) div 5 - (153 * k + 2) div 5" "(153 * (k + 1) + 2) div 5 - (153 * k + 2) div 5 \<le> 31"
  for k :: int
proof -
  have "153 * (k + 1) + 2 = (153 * k + 5) + 30 * 5" by simp
  then have "(153 * (k + 1) + 2) div 5 = (153 * k + 5) div 5 + 30" by (simp only: div_mult_self1)
  moreover have "(153 * k + 2) div 5 \<le> (153 * k + 5) div 5" by (rule zdiv_mono1) simp_all
  moreover have "(153 * k + 5) div 5 \<le> (153 * k + 2 + 1 * 5) div 5" by (rule zdiv_mono1) simp_all
  moreover have "(153 * k + 2 + 1 * 5) div 5 = (153 * k + 2) div 5 + 1" by (subst div_mult_self1) simp_all
  ultimately show "30 \<le> (153 * (k + 1) + 2) div 5 - (153 * k + 2) div 5"
    "(153 * (k + 1) + 2) div 5 - (153 * k + 2) div 5 \<le> 31" by simp_all
qed

lemma month_index_step:
  assumes "0 \<le> doy" "doy \<le> 365"
  shows "0 \<le> month_index doy" "month_index doy \<le> 11"
    and "1 \<le> doy - (153 * month_index doy + 2) div 5 + 1" "doy - (153 * month_index doy + 2) div 5 + 1 \<le> 31"
    and "month_index (doy + 1) = month_index doy \<or>
      month_index (doy + 1) = month_index doy + 1 \<and> (doy + 1) = (153 * month_index (doy + 1) + 2) div 5
      \<and> 28 \<le> doy - (153 * month_index doy + 2) div 5 + 1"
proof -
  let ?m = "month_index doy"
  show "0 \<le> ?m" "?m \<le> 11" using assms unfolding month_index_def by linarith+
  have lo: "(153 * ?m + 2) div 5 \<le> doy" unfolding month_start_le ..
  have hi: "doy < (153 * (?m + 1) + 2) div 5" using month_start_le [of "?m + 1" doy] by linarith
  show "1 \<le> doy - (153 * ?m + 2) div 5 + 1" "doy - (153 * ?m + 2) div 5 + 1 \<le> 31"
    using lo hi month_start_length [of ?m] by linarith+
  show "month_index (doy + 1) = ?m \<or>
      month_index (doy + 1) = ?m + 1 \<and> (doy + 1) = (153 * month_index (doy + 1) + 2) div 5
      \<and> 28 \<le> doy - (153 * ?m + 2) div 5 + 1"
  proof (cases "doy + 1 < (153 * (?m + 1) + 2) div 5")
    case True
    then have "\<not> ?m + 1 \<le> month_index (doy + 1)" using month_start_le [of "?m + 1" "doy + 1"] by linarith
    moreover have "?m \<le> month_index (doy + 1)" using month_start_le [of ?m "doy + 1"] lo by linarith
    ultimately show ?thesis by linarith
  next
    case False
    then have e: "doy + 1 = (153 * (?m + 1) + 2) div 5" using hi by linarith
    then have "?m + 1 \<le> month_index (doy + 1)" using month_start_le [of "?m + 1" "doy + 1"] by linarith
    moreover have "\<not> ?m + 2 \<le> month_index (doy + 1)"
      using month_start_le [of "?m + 2" "doy + 1"] e month_start_length [of "?m + 1"] by (simp add: algebra_simps)
    ultimately have m: "month_index (doy + 1) = ?m + 1" by linarith
    moreover have "28 \<le> doy - (153 * ?m + 2) div 5 + 1" using e month_start_length [of ?m] by linarith
    ultimately show ?thesis using e by simp
  qed
qed

lemma civil_succ:
  assumes "civil_of_day d = (y, m, k)"
  obtains "civil_of_day (d + 1) = (y, m, k + 1)"
    | "civil_of_day (d + 1) = (y, m + 1, 1)" "28 \<le> k"
    | "civil_of_day (d + 1) = (y + 1, 1, 1)" "m = 12" "28 \<le> k"
proof -
  let ?o = "day_of_year d"
  note b = month_index_step [OF day_of_year_bounds(1,2) [of d]]
  let ?i = "month_index ?o"
  let ?i' = "month_index (?o + 1)"
  have i0: "month_index 0 = 0" by (simp add: month_index_def)
  from year_succ [of d] show thesis
  proof
    assume s: "march_year (d + 1) = march_year d \<and> day_of_year (d + 1) = ?o + 1"
    from b(5) show thesis
    proof
      assume "?i' = ?i"
      with s assms have "civil_of_day (d + 1) = (y, m, k + 1)" by (auto simp: civil_of_day_def Let_def)
      then show thesis by (rule that(1))
    next
      assume n: "?i' = ?i + 1 \<and> ?o + 1 = (153 * ?i' + 2) div 5 \<and> 28 \<le> ?o - (153 * ?i + 2) div 5 + 1"
      then have k: "28 \<le> k" using assms by (auto simp: civil_of_day_def Let_def)
      have one: "?o + 1 - (153 * ?i' + 2) div 5 + 1 = 1" using n by linarith
      show thesis
      proof (cases "?i = 9")
        case True
        then have "m = 12" "civil_of_day (d + 1) = (y + 1, 1, 1)"
          using s n one assms unfolding civil_of_day_def Let_def by auto
        then show thesis using that(3) k by blast
      next
        case False
        have "?i' \<le> 11"
          using month_index_step(2) [of "?o + 1"] day_of_year_bounds [of "d + 1"] s by simp
        then have le: "?i \<le> 10" using n by linarith
        have o: "day_of_year (d + 1) = ?o + 1" "march_year (d + 1) = march_year d" using s by simp_all
        have i': "?i' = ?i + 1" using n by blast
        have kk: "?o + 1 - (153 * (?i + 1) + 2) div 5 + 1 = 1" using one i' by simp
        have "civil_of_day (d + 1) = (y, m + 1, 1)"
        proof (cases "?i < 9")
          case True
          then have "?i + 1 < 10" "\<not> ?i + 1 + 3 \<le> 2" "?i < 10" "\<not> ?i + 3 \<le> 2"
            using b(1) by linarith+
          with assms show ?thesis unfolding civil_of_day_def Let_def o i' kk by simp
        next
          case False
          with \<open>?i \<noteq> 9\<close> le have "?i = 10" by linarith
          with assms kk show ?thesis unfolding civil_of_day_def Let_def o i' kk by simp
        qed
        then show thesis using that(2) k by blast
      qed
    qed
  next
    assume s: "march_year (d + 1) = march_year d + 1 \<and> day_of_year (d + 1) = 0 \<and> 364 \<le> ?o"
    have "(153 * 11 + 2) div 5 \<le> ?o" using s by simp
    then have "11 \<le> ?i" by (rule month_start_le [THEN iffD1])
    then have i: "?i = 11" using b(2) by linarith
    then have "28 \<le> k" "m = 2" using s assms by (auto simp: civil_of_day_def Let_def)
    moreover have "civil_of_day (d + 1) = (y, m + 1, 1)"
      using s i assms i0 by (auto simp: civil_of_day_def Let_def)
    ultimately show thesis using that(2) by blast
  qed
qed

lemma civil_bounds:
  assumes "civil_of_day d = (y, m, k)"
  shows "1 \<le> m" "m \<le> 12" "1 \<le> k" "k \<le> 31"
  using assms month_index_step [OF day_of_year_bounds(1,2) [of d]]
  by (auto simp: civil_of_day_def Let_def split: if_splits)

lemma day_of_month_succ: "day_of_month (d + 1) \<noteq> day_of_month d"
proof -
  obtain y m k where c: "civil_of_day d = (y, m, k)" by (cases "civil_of_day d") auto
  with civil_bounds [OF c] show ?thesis
    by (cases rule: civil_succ [OF c]) (auto simp: day_of_month_def c)
qed

text \<open>Civil dates, compared year first, are ordered as their days.\<close>

fun civil_less :: "int \<times> int \<times> int \<Rightarrow> int \<times> int \<times> int \<Rightarrow> bool" where
  "civil_less (y, m, k) (y', m', k') \<longleftrightarrow> y < y' \<or> y = y' \<and> (m < m' \<or> m = m' \<and> k < k')"

lemma civil_less_trans: "civil_less a b \<Longrightarrow> civil_less b c \<Longrightarrow> civil_less a c"
  by (cases a; cases b; cases c) auto

lemma civil_less_succ: "civil_less (civil_of_day d) (civil_of_day (d + 1))"
proof -
  obtain y m k where c: "civil_of_day d = (y, m, k)" by (cases "civil_of_day d") auto
  show ?thesis by (cases rule: civil_succ [OF c]) (auto simp: c)
qed

lemma civil_less_mono: "d < e \<Longrightarrow> civil_less (civil_of_day d) (civil_of_day e)"
proof (induction e rule: int_gr_induct)
  case base
  show ?case by (rule civil_less_succ)
next
  case (step i)
  then show ?case using civil_less_succ civil_less_trans by blast
qed


subsection \<open>Zones\<close>

text \<open>A time.Location: the offset in seconds east of UTC before the first transition, then the
  transitions (Unix second, offset from then on), ascending.\<close>

record location =
  loc_first :: int
  loc_tx :: "(int \<times> int) list"

text \<open>\<open>Location.lookup\<close>: the offset in effect at a Unix second and the bounds of that zone
  (\<open>None\<close> for the beginning and the end of time).\<close>

fun zone_lookup :: "int \<Rightarrow> int option \<Rightarrow> (int \<times> int) list \<Rightarrow> int \<Rightarrow> int \<times> int option \<times> int option" where
  "zone_lookup off start [] t = (off, start, None)"
| "zone_lookup off start ((w, off') # tx) t =
     (if t < w then (off, start, Some w) else zone_lookup off' (Some w) tx t)"

definition loc_lookup :: "location \<Rightarrow> int \<Rightarrow> int \<times> int option \<times> int option" where
  "loc_lookup loc t = zone_lookup (loc_first loc) None (loc_tx loc) t"

definition loc_offset :: "location \<Rightarrow> int \<Rightarrow> int" where
  "loc_offset loc t = fst (loc_lookup loc t)"

definition unix_sec :: "instant \<Rightarrow> int" where
  "unix_sec t = t div second"

text \<open>The civil day of an instant in a location.\<close>

definition local_day :: "location \<Rightarrow> instant \<Rightarrow> day" where
  "local_day loc t = (unix_sec t + loc_offset loc (unix_sec t)) div 86400"

text \<open>\<open>time.Date(year, month, day, 0, 0, 0, 0, loc)\<close>, as a Unix second.\<close>

definition date_midnight :: "location \<Rightarrow> day \<Rightarrow> int" where
  "date_midnight loc d =
     (let unix = d * 86400; (off, start, fin) = loc_lookup loc unix
      in if off = 0 then unix
         else let utc = unix - off;
                  outside = (case start of None \<Rightarrow> False | Some s \<Rightarrow> utc < s) \<or>
                            (case fin of None \<Rightarrow> False | Some e \<Rightarrow> e \<le> utc)
              in unix - (if outside then loc_offset loc utc else off))"

text \<open>\<open>_, end := t.ZoneBounds()\<close>: the zero Time when the zone goes on forever.\<close>

definition zone_end :: "location \<Rightarrow> instant \<Rightarrow> instant" where
  "zone_end loc t = (case snd (snd (loc_lookup loc (unix_sec t))) of
     None \<Rightarrow> zero_time | Some e \<Rightarrow> e * second)"

definition dayStart :: "location \<Rightarrow> instant \<Rightarrow> int \<Rightarrow> instant" where
  "dayStart loc at days =
     (let d = local_day loc at + days;
          start = date_midnight loc d * second
      in if day_of_month (local_day loc start) \<noteq> day_of_month d then zone_end loc start else start)"

definition UTC :: location where
  "UTC = \<lparr>loc_first = 0, loc_tx = []\<rparr>"


subsection \<open>Regular zones\<close>

text \<open>A clock change at w from offset o to o' that leaves the start of every day well defined:
  turning the clock back does not repeat a midnight, and turning it forward skips less than a
  day, and a midnight only by starting at it. A regular zone has only such changes, at least two
  days apart, and offsets of less than a day.\<close>

definition change_ok :: "int \<Rightarrow> int \<Rightarrow> int \<Rightarrow> bool" where
  "change_ok w off off' \<longleftrightarrow>
     (if off' \<le> off then (w + off' - 1) div 86400 = (w + off - 1) div 86400
      else off' - off < 86400 \<and> (w + off) div 86400 = (w + off' - 1) div 86400)"

fun tx_ok :: "int \<Rightarrow> (int \<times> int) list \<Rightarrow> bool" where
  "tx_ok off [] \<longleftrightarrow> \<bar>off\<bar> < 86400"
| "tx_ok off ((w, off') # tx) \<longleftrightarrow> \<bar>off\<bar> < 86400 \<and> change_ok w off off' \<and>
     (case tx of [] \<Rightarrow> True | (w', _) # _ \<Rightarrow> w + 172800 \<le> w') \<and> tx_ok off' tx"

definition regular :: "location \<Rightarrow> bool" where
  "regular loc \<longleftrightarrow> tx_ok (loc_first loc) (loc_tx loc)"

definition zone_offset :: "int \<Rightarrow> (int \<times> int) list \<Rightarrow> int \<Rightarrow> int" where
  "zone_offset off tx u = fst (zone_lookup off None tx u)"

lemma zone_lookup_start: "fst (zone_lookup off st tx u) = fst (zone_lookup off st' tx u)"
proof (induction tx arbitrary: off st st')
  case (Cons a tx)
  then show ?case by (cases a) (metis fst_conv zone_lookup.simps(2))
qed simp

lemma zone_offset_simps [simp]:
  "zone_offset off [] u = off"
  "zone_offset off ((w, off') # tx) u = (if u < w then off else zone_offset off' tx u)"
  by (auto simp: zone_offset_def intro: zone_lookup_start)

lemma loc_offset_eq: "loc_offset loc u = zone_offset (loc_first loc) (loc_tx loc) u"
  by (simp add: loc_offset_def loc_lookup_def zone_offset_def)

lemma tx_ok_abs: "tx_ok off tx \<Longrightarrow> \<bar>off\<bar> < 86400"
  by (cases tx) auto

lemma tx_ok_later: "tx_ok off ((w, off') # tx) \<Longrightarrow> (w', x) \<in> set tx \<Longrightarrow> w + 172800 \<le> w'"
proof (induction tx arbitrary: off w off')
  case (Cons a tx)
  obtain v y where a: "a = (v, y)" by (cases a)
  from Cons.prems(1) have v: "w + 172800 \<le> v" "tx_ok off' ((v, y) # tx)" by (auto simp: a)
  show ?case
  proof (cases "(w', x) = a")
    case False
    with Cons.prems(2) have "(w', x) \<in> set tx" by simp
    from Cons.IH [OF v(2) this] v(1) show ?thesis by linarith
  qed (use v a in simp)
qed simp

lemma zone_lookup_end: "snd (snd (zone_lookup off st tx u)) = Some w \<Longrightarrow> u < w \<and> w \<in> fst ` set tx"
  by (induction off st tx u rule: zone_lookup.induct) (auto split: if_splits)

text \<open>What a lookup says of the zones around the instant looked up: the zone in effect, the one
  before it and the one after it, each for two days at least.\<close>

definition before_zone :: "int \<Rightarrow> (int \<times> int) list \<Rightarrow> int \<Rightarrow> int \<Rightarrow> int \<Rightarrow> int \<Rightarrow> bool" where
  "before_zone off tx w u p c \<longleftrightarrow> w \<le> u \<and> change_ok w p c \<and> \<bar>p\<bar> < 86400 \<and>
     (\<forall>v. w - 172800 \<le> v \<and> v < w \<longrightarrow> zone_offset off tx v = p)"

definition after_zone :: "int \<Rightarrow> (int \<times> int) list \<Rightarrow> int \<Rightarrow> int \<Rightarrow> int \<Rightarrow> int \<Rightarrow> bool" where
  "after_zone off tx w u c n \<longleftrightarrow> u < w \<and> change_ok w c n \<and> \<bar>n\<bar> < 86400 \<and>
     (\<forall>v. w \<le> v \<and> v < w + 172800 \<longrightarrow> zone_offset off tx v = n)"

lemma zone_head: "tx_ok off ((w, off') # tx) \<Longrightarrow> u < w + 172800 \<Longrightarrow> zone_offset off' tx u = off'"
  by (cases tx) (auto split: if_splits)

lemma zone_structure:
  assumes "tx_ok off tx" "zone_lookup off st tx u = (c, s, e)"
  shows "(s = st \<and> c = off \<and> (\<forall>v. (case e of None \<Rightarrow> True | Some w \<Rightarrow> v < w) \<longrightarrow> zone_offset off tx v = c)
        \<or> (\<exists>w p. s = Some w \<and> before_zone off tx w u p c \<and> w \<in> fst ` set tx \<and>
             (\<forall>v. w \<le> v \<and> (case e of None \<Rightarrow> True | Some w' \<Rightarrow> v < w') \<longrightarrow> zone_offset off tx v = c) \<and>
             (\<forall>w'. e = Some w' \<longrightarrow> w + 172800 \<le> w')))
      \<and> (\<forall>w. e = Some w \<longrightarrow> (\<exists>n. after_zone off tx w u c n)) \<and> \<bar>c\<bar> < 86400"
  using assms
proof (induction tx arbitrary: off st)
  case Nil
  then show ?case by simp
next
  case (Cons a tx)
  obtain w off' where a: "a = (w, off')" by (cases a)
  note ok = Cons.prems(1)[unfolded a]
  then have ok': "tx_ok off' tx" by simp
  show ?case
  proof (cases "u < w")
    case True
    with Cons.prems(2) have r: "c = off" "s = st" "e = Some w" by (auto simp: a)
    have "after_zone off (a # tx) w u c off'"
      using ok True zone_head [OF ok] tx_ok_abs [OF ok'] by (auto simp: after_zone_def a r)
    with r ok tx_ok_abs [OF ok] show ?thesis by (auto simp: a)
  next
    case False
    with Cons.prems(2) have l: "zone_lookup off' (Some w) tx u = (c, s, e)" by (simp add: a)
    note ih = Cons.IH [OF ok' l]
    have tail: "v < w \<or> zone_offset off (a # tx) v = zone_offset off' tx v" for v by (simp add: a)
    have later: "w + 172800 \<le> v" if "v \<in> fst ` set tx" for v
      using that tx_ok_later [OF ok] by auto
    have e_in: "w' \<in> fst ` set tx" if "e = Some w'" for w'
      using zone_lookup_end [of off' "Some w" tx u w'] l that by simp
    have after: "\<exists>n. after_zone off (a # tx) w' u c n" if e: "e = Some w'" for w'
    proof -
      from ih e obtain n where n: "after_zone off' tx w' u c n" by blast
      have "w \<le> w'" using later [OF e_in [OF e]] by simp
      with n tail have "after_zone off (a # tx) w' u c n"
        unfolding after_zone_def by (metis linorder_not_less order_trans)
      then show ?thesis ..
    qed
    from ih consider (head) "s = Some w" "c = off'"
        "\<forall>v. (case e of None \<Rightarrow> True | Some w' \<Rightarrow> v < w') \<longrightarrow> zone_offset off' tx v = c"
      | (inner) w2 p where "s = Some w2" "before_zone off' tx w2 u p c" "w2 \<in> fst ` set tx"
        "\<forall>v. w2 \<le> v \<and> (case e of None \<Rightarrow> True | Some w' \<Rightarrow> v < w') \<longrightarrow> zone_offset off' tx v = c"
        "\<forall>w'. e = Some w' \<longrightarrow> w2 + 172800 \<le> w'"
      by blast
    then show ?thesis
    proof cases
      case head
      have "before_zone off (a # tx) w u off c"
        using ok False head(2) tx_ok_abs [OF ok] by (auto simp: before_zone_def a)
      moreover have "\<forall>v. w \<le> v \<and> (case e of None \<Rightarrow> True | Some w' \<Rightarrow> v < w') \<longrightarrow> zone_offset off (a # tx) v = c"
        using head(3) tail by (metis linorder_not_less)
      moreover have "\<forall>w'. e = Some w' \<longrightarrow> w + 172800 \<le> w'" using later e_in by blast
      moreover have "w \<in> fst ` set (a # tx)" by (simp add: a)
      ultimately show ?thesis using head(1) after ih by blast
    next
      case inner
      have w2: "w + 172800 \<le> w2" using later inner(3) by blast
      have "before_zone off (a # tx) w2 u p c"
        unfolding before_zone_def
      proof (intro conjI allI impI)
        fix v assume v: "w2 - 172800 \<le> v \<and> v < w2"
        then have "zone_offset off' tx v = p" using inner(2) by (simp add: before_zone_def)
        moreover have "\<not> v < w" using v w2 by linarith
        ultimately show "zone_offset off (a # tx) v = p" using tail by metis
      qed (use inner(2) in \<open>simp_all add: before_zone_def\<close>)
      moreover have "\<forall>v. w2 \<le> v \<and> (case e of None \<Rightarrow> True | Some w' \<Rightarrow> v < w') \<longrightarrow> zone_offset off (a # tx) v = c"
      proof (intro allI impI)
        fix v assume v: "w2 \<le> v \<and> (case e of None \<Rightarrow> True | Some w' \<Rightarrow> v < w')"
        then have "\<not> v < w" using w2 by linarith
        then show "zone_offset off (a # tx) v = c" using v inner(4) tail by metis
      qed
      moreover have "w2 \<in> fst ` set (a # tx)" using inner(3) by simp
      ultimately show ?thesis using inner(1,5) after ih by blast
    qed
  qed
qed

lemma zone_lookup_same:
  assumes "tx_ok off tx" "zone_lookup off st tx u = (c, s, Some e)" "v < e"
    and "s = st \<or> (\<exists>w. s = Some w \<and> w \<in> fst ` set tx \<and> w \<le> v)"
    and "s = st \<longrightarrow> st \<notin> Some ` fst ` set tx"
  shows "zone_lookup off st tx v = (c, s, Some e)"
  using assms
proof (induction tx arbitrary: off st)
  case (Cons a tx)
  obtain w off' where a: "a = (w, off')" by (cases a)
  note ok = Cons.prems(1)[unfolded a]
  then have ok': "tx_ok off' tx" by simp
  show ?case
  proof (cases "u < w")
    case True
    with Cons.prems(2,3) show ?thesis by (simp add: a)
  next
    case False
    with Cons.prems(2) have l: "zone_lookup off' (Some w) tx u = (c, s, Some e)" by (simp add: a)
    have later: "w + 172800 \<le> v" if "v \<in> fst ` set tx" for v
      using that tx_ok_later [OF ok] by auto
    from zone_structure [OF ok' l] consider "s = Some w" | w2 where "s = Some w2" "w2 \<in> fst ` set tx" by blast
    then show ?thesis
    proof cases
      case 1
      then have "s \<noteq> st" using Cons.prems(5) by (auto simp: a)
      with 1 Cons.prems(4) have "\<not> v < w" by auto
      have "w \<notin> fst ` set tx" using later [of w] by auto
      then have "zone_lookup off' (Some w) tx v = (c, s, Some e)"
        using 1 by (intro Cons.IH [OF ok' l Cons.prems(3)]) auto
      with \<open>\<not> v < w\<close> show ?thesis by (simp add: a)
    next
      case 2
      then have "s \<noteq> st" using Cons.prems(5) by (auto simp: a)
      with 2 Cons.prems(4) have v: "w2 \<le> v" by auto
      with later [OF 2(2)] have "\<not> v < w" "w \<noteq> w2" by linarith+
      have "zone_lookup off' (Some w) tx v = (c, s, Some e)"
        using 2 v \<open>w \<noteq> w2\<close> by (intro Cons.IH [OF ok' l Cons.prems(3)]) auto
      with \<open>\<not> v < w\<close> show ?thesis by (simp add: a)
    qed
  qed
qed simp

text \<open>The local clock, in seconds, and its day: the day never goes back in a regular zone.\<close>

definition local_clock :: "location \<Rightarrow> int \<Rightarrow> int" where
  "local_clock loc u = u + loc_offset loc u"

lemma change_day: "change_ok w off off' \<Longrightarrow> (w - 1 + off) div 86400 \<le> (w + off') div 86400"
proof (cases "off' \<le> off")
  case True
  assume "change_ok w off off'"
  with True have "(w + off - 1) div 86400 = (w + off' - 1) div 86400" by (simp add: change_ok_def)
  also have "\<dots> \<le> (w + off') div 86400" by (rule zdiv_mono1) simp_all
  finally show ?thesis by (simp add: algebra_simps)
next
  case False
  then show ?thesis by (intro zdiv_mono1) simp_all
qed

lemma zone_clock_step:
  "tx_ok off tx \<Longrightarrow> (u + zone_offset off tx u) div 86400 \<le> (u + 1 + zone_offset off tx (u + 1)) div 86400"
proof (induction tx arbitrary: off)
  case Nil
  show ?case by (simp add: zdiv_mono1)
next
  case (Cons a tx)
  obtain w off' where a: "a = (w, off')" by (cases a)
  note ok = Cons.prems[unfolded a]
  consider "u + 1 < w" | "u + 1 = w" | "w \<le> u" by linarith
  then show ?case
  proof cases
    case 1
    then show ?thesis by (simp add: a zdiv_mono1)
  next
    case 2
    have "zone_offset off' tx w = off'" by (rule zone_head [OF ok]) simp
    moreover have "(w - 1 + off) div 86400 \<le> (w + off') div 86400"
      by (rule change_day) (use ok in simp)
    moreover have "u = w - 1" using 2 by linarith
    ultimately show ?thesis by (simp add: a)
  next
    case 3
    with Cons.IH [of off'] ok show ?thesis by (simp add: a)
  qed
qed

lemma local_day_mono:
  assumes "regular loc" "u \<le> v"
  shows "local_clock loc u div 86400 \<le> local_clock loc v div 86400"
  using assms(2)
proof (induction v rule: int_ge_induct)
  case (step v)
  have "local_clock loc v div 86400 \<le> local_clock loc (v + 1) div 86400"
    using zone_clock_step assms(1) by (simp add: regular_def local_clock_def loc_offset_eq)
  with step show ?case by linarith
qed simp

text \<open>An instant at which a day begins: its clock shows that day or a later one, the second before
  an earlier one.\<close>

definition day_begins :: "location \<Rightarrow> day \<Rightarrow> int \<Rightarrow> bool" where
  "day_begins loc d b \<longleftrightarrow> d \<le> local_clock loc b div 86400 \<and> local_clock loc (b - 1) div 86400 < d"

lemma day_beginsI:
  assumes "d * 86400 \<le> local_clock loc b" "local_clock loc (b - 1) div 86400 < d"
  shows "day_begins loc d b"
proof -
  have "d * 86400 div 86400 \<le> local_clock loc b div 86400" by (rule zdiv_mono1) (use assms in auto)
  with assms show ?thesis by (simp add: day_begins_def)
qed

lemma before_midnight: "x < d * 86400 \<Longrightarrow> x div 86400 < d" for x d :: int
  by linarith

lemma same_day_midnight:
  fixes x y d :: int
  assumes "x div 86400 = y div 86400" "x \<le> d * 86400" "d * 86400 \<le> y"
  shows "x = d * 86400"
proof -
  have "x div 86400 \<le> d * 86400 div 86400" "d * 86400 div 86400 \<le> y div 86400"
    using assms(2,3) by (simp_all only: zdiv_mono1)
  then have "x div 86400 = d" using assms(1) by simp
  then have "d * 86400 \<le> x" by linarith
  with assms(2) show ?thesis by simp
qed

text \<open>\<open>time.Date\<close> finds the instant whose clock shows midnight, or the end of the gap that skips
  it, or (for a gap that starts at midnight) the instant the missing clock time would have in
  the offset after the gap, in which case the zone's end is the gap.\<close>

lemma midnight_cases:
  assumes "regular loc" and l: "loc_lookup loc (d * 86400) = (c, s, e)"
  defines "b \<equiv> date_midnight loc d"
  shows "day_begins loc d b \<and> local_clock loc b div 86400 = d \<or>
    (\<exists>w. e = Some w \<and> loc_lookup loc b = (c, s, Some w) \<and> local_clock loc b div 86400 = d - 1 \<and>
      local_clock loc w div 86400 = d \<and> day_begins loc d w)"
proof -
  define U where "U = d * 86400"
  define W where "W = local_clock loc"
  have ok: "tx_ok (loc_first loc) (loc_tx loc)" using assms(1) by (simp add: regular_def)
  have zl: "zone_lookup (loc_first loc) None (loc_tx loc) U = (c, s, e)" using l by (simp add: loc_lookup_def U_def)
  note zs = zone_structure [OF ok zl]
  let ?zo = "zone_offset (loc_first loc) (loc_tx loc)"
  have W: "W v = v + ?zo v" for v by (simp add: W_def local_clock_def loc_offset_eq)
  have c: "\<bar>c\<bar> < 86400" using zs by blast
  have inz: "?zo v = c" if "case s of None \<Rightarrow> True | Some w \<Rightarrow> w \<le> v" "case e of None \<Rightarrow> True | Some w \<Rightarrow> v < w" for v
    using zs that by (auto split: option.splits)
  have bz: "before_zone (loc_first loc) (loc_tx loc) w U p c \<Longrightarrow> w - 172800 \<le> v \<Longrightarrow> v < w \<Longrightarrow> ?zo v = p" for w p v
    by (simp add: before_zone_def)
  have az: "after_zone (loc_first loc) (loc_tx loc) w U c p \<Longrightarrow> w \<le> v \<Longrightarrow> v < w + 172800 \<Longrightarrow> ?zo v = p" for w p v
    by (simp add: after_zone_def)
  have Ud: "U div 86400 = d" "(U - 1) div 86400 = d - 1" by (simp_all add: U_def)
  have early: "x div 86400 < d" if "x < U" for x using before_midnight that by (simp add: U_def)
  define utc where "utc = U - c"
  define below where "below \<longleftrightarrow> (case s of None \<Rightarrow> False | Some w \<Rightarrow> utc < w)"
  define above where "above \<longleftrightarrow> (case e of None \<Rightarrow> False | Some w \<Rightarrow> w \<le> utc)"
  have b: "b = U - (if below \<or> above then ?zo utc else c)"
    if "c \<noteq> 0"
    unfolding b_def date_midnight_def Let_def l prod.case below_def above_def utc_def U_def loc_offset_eq
    using that by simp
  have sw: "s = Some w \<Longrightarrow> w \<le> U" and ew: "e = Some w \<Longrightarrow> U < w" for w
    using zs by (auto simp: before_zone_def after_zone_def)
  have inside: "day_begins loc d b \<and> W b div 86400 = d" if bU: "b = utc" "\<not> below" "\<not> above"
  proof -
    have "W b = U" using inz [of utc] bU by (auto simp: W below_def above_def utc_def split: option.splits)
    moreover have "W (b - 1) div 86400 < d"
    proof (cases "\<exists>w. s = Some w \<and> utc - 1 < w")
      case True
      then obtain w where w: "s = Some w" "w = utc" using bU(2) by (auto simp: below_def)
      with zs obtain p where p: "before_zone (loc_first loc) (loc_tx loc) w U p c" by blast
      have Wb: "W (b - 1) = w - 1 + p" using bz [OF p, of "w - 1"] w bU by (simp add: W)
      have ch: "change_ok w p c" using p by (simp add: before_zone_def)
      show ?thesis
      proof (cases "c \<le> p")
        case True
        with ch have "(w + p - 1) div 86400 = (U - 1) div 86400"
          using w(2) by (simp add: change_ok_def utc_def)
        with Ud show ?thesis using Wb by (simp add: algebra_simps)
      next
        case False
        then show ?thesis using Wb w(2) by (intro early) (simp add: utc_def)
      qed
    next
      case False
      then have "W (b - 1) = U - 1"
        using inz [of "utc - 1"] bU by (auto simp: W below_def above_def utc_def split: option.splits)
      then show ?thesis using Ud by simp
    qed
    ultimately show ?thesis using day_beginsI [of d loc b] Ud by (simp add: W_def U_def)
  qed
  have is_below: ?thesis if "below" "c \<noteq> 0"
  proof -
    from that obtain w where w: "s = Some w" "utc < w" by (auto simp: below_def split: option.splits)
    with zs obtain p where p: "before_zone (loc_first loc) (loc_tx loc) w U p c" by blast
    have ch: "change_ok w p c" "\<bar>p\<bar> < 86400" "w \<le> U" using p by (auto simp: before_zone_def)
    have "?zo utc = p" using bz [OF p] w(2) c ch(3) by (simp add: utc_def)
    then have bp: "b = U - p" using b that by simp
    have prev: "W (b - 1) = U - 1" if "b \<le> w" using bz [OF p, of "b - 1"] that bp ch by (simp add: W)
    show ?thesis
    proof (cases "b < w")
      case True
      then have "W b = U" using bz [OF p, of b] bp ch by (simp add: W)
      with prev True show ?thesis using day_beginsI [of d loc b] Ud by (simp add: W_def U_def)
    next
      case False
      with bp w(2) have pc: "p < c" by (simp add: utc_def)
      have "w + p = U"
      proof -
        have "(w + p) div 86400 = (w + c - 1) div 86400" using ch(1) pc by (simp add: change_ok_def)
        moreover have "w + p \<le> d * 86400" "d * 86400 \<le> w + c - 1"
          using False bp w(2) by (simp_all add: U_def utc_def)
        ultimately show ?thesis unfolding U_def by (rule same_day_midnight)
      qed
      then have bw: "b = w" using bp by simp
      have lt: "c - p < 86400" using ch(1) pc by (simp add: change_ok_def)
      have "case e of None \<Rightarrow> True | Some x \<Rightarrow> w < x" using ew ch(3) by (cases e) fastforce+
      then have "?zo w = c" using inz [of w] w(1) by simp
      then have Wb: "W b = U + (c - p)" using bw bp by (simp add: W)
      have "W b div 86400 = d" using Wb lt pc by (simp add: U_def)
      moreover have "W (b - 1) div 86400 < d" using prev bw Ud by simp
      ultimately show ?thesis by (simp add: day_begins_def W_def)
    qed
  qed
  have is_above: ?thesis if "above" "c \<noteq> 0"
  proof -
    from that obtain w where w: "e = Some w" "w \<le> utc" by (auto simp: above_def split: option.splits)
    with zs obtain n where n: "after_zone (loc_first loc) (loc_tx loc) w U c n" by blast
    have ch: "change_ok w c n" "\<bar>n\<bar> < 86400" "U < w" using n by (auto simp: after_zone_def)
    have "?zo utc = n" using az [OF n] w(2) c ch(3) by (simp add: utc_def)
    then have bn: "b = U - n" using b that by simp
    have "case s of None \<Rightarrow> True | Some x \<Rightarrow> x \<le> w - 1" using sw ch(3) by (cases s) fastforce+
    then have last: "W (w - 1) = w - 1 + c" using inz [of "w - 1"] w(1) by (simp add: W)
    show ?thesis
    proof (cases "w \<le> b")
      case True
      have Wb: "W b = U" using az [OF n, of b] True bn ch by (simp add: W)
      have "W (b - 1) div 86400 < d"
      proof (cases "w = b")
        case True
        with last have "W (b - 1) = b - 1 + c" by simp
        also have "\<dots> < U" using True w(2) by (simp add: utc_def)
        finally show ?thesis by (rule early)
      next
        case False
        then have "W (b - 1) = U - 1" using az [OF n, of "b - 1"] True bn ch by (simp add: W)
        then show ?thesis using Ud by simp
      qed
      with Wb show ?thesis using day_beginsI [of d loc b] Ud by (simp add: W_def U_def)
    next
      case False
      with bn w(2) have cn: "c < n" by (simp add: utc_def)
      have wU: "w + c = U"
      proof -
        have "(w + c) div 86400 = (w + n - 1) div 86400" using ch(1) cn by (simp add: change_ok_def)
        moreover have "w + c \<le> d * 86400" "d * 86400 \<le> w + n - 1"
          using False bn w(2) by (simp_all add: U_def utc_def)
        ultimately show ?thesis unfolding U_def by (rule same_day_midnight)
      qed
      have lt: "n - c < 86400" using ch(1) cn by (simp add: change_ok_def)
      have far: "s = Some v \<Longrightarrow> v + 172800 \<le> w" for v using zs w(1) by auto
      have s_b: "s = None \<or> (\<exists>v. s = Some v \<and> v \<in> fst ` set (loc_tx loc) \<and> v \<le> b)"
      proof (cases s)
        case (Some v)
        with far [OF Some] have "v \<le> b" using bn wU lt c by linarith
        with Some zs show ?thesis by auto
      qed simp
      have "zone_lookup (loc_first loc) None (loc_tx loc) b = (c, s, Some w)"
      proof (rule zone_lookup_same [OF ok])
        show "zone_lookup (loc_first loc) None (loc_tx loc) U = (c, s, Some w)" using zl w(1) by simp
        show "b < w" using False by simp
        show "s = None \<or> (\<exists>v. s = Some v \<and> v \<in> fst ` set (loc_tx loc) \<and> v \<le> b)" by (rule s_b)
      qed auto
      then have lb: "loc_lookup loc b = (c, s, Some w)" by (simp add: loc_lookup_def)
      have Wb: "W b = U - (n - c)" using lb bn by (simp add: W_def local_clock_def loc_offset_def)
      have "W b div 86400 = d - 1"
      proof -
        have "W b = 86400 * (d - 1) + (86400 - (n - c))" using Wb by (simp add: U_def)
        then show ?thesis by (rule int_div_pos_eq) (use cn lt in linarith)+
      qed
      moreover have Ww: "local_clock loc w = U + (n - c)" using az [OF n, of w] wU W [of w] by (simp add: W_def)
      moreover have "local_clock loc w div 86400 = d"
      proof -
        have "local_clock loc w = 86400 * d + (n - c)" using Ww by (simp add: U_def)
        then show ?thesis by (rule int_div_pos_eq) (use cn lt in linarith)+
      qed
      moreover have "day_begins loc d w"
      proof (rule day_beginsI)
        show "d * 86400 \<le> local_clock loc w" using Ww cn by (simp add: U_def)
        show "local_clock loc (w - 1) div 86400 < d" using last wU early by (simp add: W_def)
      qed
      ultimately show ?thesis using w(1) lb by (simp add: W_def)
    qed
  qed
  show ?thesis
  proof (cases "c = 0")
    case True
    then have "b = utc" using l by (simp add: b_def date_midnight_def utc_def U_def)
    moreover have "\<not> below" unfolding below_def utc_def using True sw by (cases s) fastforce+
    moreover have "\<not> above" unfolding above_def utc_def using True ew by (cases e) fastforce+
    ultimately show ?thesis using inside by (simp add: W_def)
  next
    case False
    show ?thesis
    proof (cases "below \<or> above")
      case True
      then show ?thesis using is_below is_above False by blast
    next
      case none: False
      then have "b = utc" using b False by (simp add: utc_def)
      then show ?thesis using inside none by (simp add: W_def)
    qed
  qed
qed

text \<open>The start of the day n days after an instant's local day lies in that day and separates the
  instants of earlier local days from the rest.\<close>

lemma dayStart_boundary:
  assumes "regular loc"
  shows "t < dayStart loc at n \<longleftrightarrow> local_day loc t < local_day loc at + n" (is ?first)
    and "local_day loc (dayStart loc at n) = local_day loc at + n" (is ?day)
proof -
  define d where "d = local_day loc at + n"
  obtain c s e where l: "loc_lookup loc (d * 86400) = (c, s, e)" by (cases "loc_lookup loc (d * 86400)") auto
  define b where "b = date_midnight loc d"
  have day: "local_day loc (b * second) = local_clock loc b div 86400"
    by (simp add: local_day_def local_clock_def unix_sec_def)
  obtain B where B: "dayStart loc at n = B * second" "day_begins loc d B" "local_clock loc B div 86400 = d"
  proof -
    from midnight_cases [OF assms l]
    consider (here) "day_begins loc d b" "local_clock loc b div 86400 = d"
      | (gap) w where "loc_lookup loc b = (c, s, Some w)" "local_clock loc b div 86400 = d - 1" "local_clock loc w div 86400 = d" "day_begins loc d w"
      unfolding b_def by blast
    then show thesis
    proof cases
      case here
      then show thesis by (intro that [of b]) (simp_all add: dayStart_def d_def [symmetric] b_def [symmetric] day Let_def)
    next
      case gap
      have "day_of_month (d - 1) \<noteq> day_of_month d" using day_of_month_succ [of "d - 1"] by simp
      moreover have "zone_end loc (b * second) = w * second"
        using gap(1) by (simp add: zone_end_def unix_sec_def)
      ultimately show thesis using gap
        by (intro that [of w]) (simp_all add: dayStart_def d_def [symmetric] b_def [symmetric] day Let_def)
    qed
  qed
  have lt: "t < B * second \<longleftrightarrow> unix_sec t \<le> B - 1" unfolding unix_sec_def by linarith
  have tday: "local_day loc t = local_clock loc (unix_sec t) div 86400"
    by (simp add: local_day_def local_clock_def)
  show ?day using B(1,3) by (simp add: local_day_def local_clock_def unix_sec_def d_def)
  show ?first
  proof (cases "unix_sec t \<le> B - 1")
    case True
    from local_day_mono [OF assms this] B(2) have "local_day loc t < d" by (simp add: day_begins_def tday)
    with True lt B(1) show ?thesis by (simp add: d_def)
  next
    case False
    then have "B \<le> unix_sec t" by simp
    from local_day_mono [OF assms this] B(2) have "d \<le> local_day loc t" by (simp add: day_begins_def tday)
    with False lt B(1) show ?thesis by (simp add: d_def)
  qed
qed


subsection \<open>The interface of the quota calendar\<close>

text \<open>What the accounting relies on: a day for every instant, and the instant at which the day n
  days after an instant's day starts.\<close>

locale day_calendar =
  fixes start :: "instant \<Rightarrow> int \<Rightarrow> instant" and day_of :: "instant \<Rightarrow> day"
  assumes boundary: "t < start at n \<longleftrightarrow> day_of t < day_of at + n"
    and start_day: "day_of (start at n) = day_of at + n"
begin

lemma day_mono: "t \<le> u \<Longrightarrow> day_of t \<le> day_of u"
  using boundary [of t u 1] boundary [of u u 1] by linarith

lemma start_after: "0 < n \<Longrightarrow> at < start at n"
  by (simp add: boundary)

lemma start_mono: "m \<le> n \<Longrightarrow> start at m \<le> start at n"
  using boundary [of "start at n" at m] start_day [of at n] by linarith

lemma start_cong: "day_of at + m = day_of at' + n \<Longrightarrow> start at m = start at' n"
  using boundary [of "start at m" at m] boundary [of "start at m" at' n]
    boundary [of "start at' n" at m] boundary [of "start at' n" at' n] by (cases "start at m" "start at' n" rule: linorder_cases) auto

lemma start_le: "n \<le> 0 \<Longrightarrow> start at n \<le> at"
  using boundary [of at at n] by linarith

end

lemma regular_calendar: "regular loc \<Longrightarrow> day_calendar (dayStart loc) (local_day loc)"
  by (simp add: day_calendar_def dayStart_boundary)

lemma regular_UTC: "regular UTC"
  by (simp add: regular_def UTC_def)

text \<open>A zone that repeats a midnight is not regular, and there the start of the day is not its
  first instant: in Amman on 2021-10-29 the clock went back from 01:00 to 00:00, and the start
  of that day is the second midnight, an hour after the first.\<close>

definition amman_2021 :: location where
  "amman_2021 = \<lparr>loc_first = 10800, loc_tx = [(1635458400, 7200)]\<rparr>"

lemma amman_not_regular: "\<not> regular amman_2021"
  by (simp add: amman_2021_def regular_def change_ok_def)

text \<open>Every regular zone provides the interface; the interpretation names the zone it is used at by
  \<open>some_regular\<close>, which is the identity on regular zones.\<close>

definition some_regular :: "location \<Rightarrow> location" where
  "some_regular loc = (if regular loc then loc else UTC)"

lemma some_regular_id [simp]: "regular loc \<Longrightarrow> some_regular loc = loc"
  by (simp add: some_regular_def)

lemma regular_some_regular [simp]: "regular (some_regular loc)"
  by (simp add: some_regular_def regular_UTC)

interpretation zone: day_calendar "dayStart (some_regular loc)" "local_day (some_regular loc)" for loc
  by (rule regular_calendar) simp

end
