(* ===== verification/Float64.thy ===== *)
theory Float64
  imports Complex_Main Prelude
begin

text \<open>
  Go's float64. A finite value is the rational number it denotes; an operation is the exact
  rational operation followed by \<open>rnd\<close>, IEEE 754 round to nearest, ties to even, with 53
  significant bits, gradual underflow and overflow to an infinity. The two zeros of IEEE are one
  value here: the code never divides by a float and never inspects a sign bit.

  \<open>rounding\<close> is the interface between the arithmetic and its clients: what they rely on is
  monotonicity, exactness on integers of 53 bits and the relative error bound. The
  interpretation at the end discharges these laws for \<open>rnd\<close>.
\<close>


subsection \<open>The exponent and the significand\<close>

fun bit_len :: "nat \<Rightarrow> nat" where
  "bit_len n = (if n = 0 then 0 else Suc (bit_len (n div 2)))"

declare bit_len.simps [simp del]

lemma bit_len_bounds: "0 < n \<Longrightarrow> 2 ^ (bit_len n - 1) \<le> n \<and> n < 2 ^ bit_len n"
proof (induction n rule: bit_len.induct)
  case (1 n)
  show ?case
  proof (cases "n div 2 = 0")
    case True
    with "1.prems" have "n = 1" by simp
    moreover have "bit_len 1 = 1" by (simp add: bit_len.simps [of "Suc 0"] bit_len.simps [of 0])
    ultimately show ?thesis by simp
  next
    case False
    with 1 have ih: "2 ^ (bit_len (n div 2) - 1) \<le> n div 2" "n div 2 < 2 ^ bit_len (n div 2)"
      by auto
    have "bit_len (n div 2) \<noteq> 0" using False ih(2) by (cases "bit_len (n div 2)") auto
    then obtain k where k: "bit_len (n div 2) = Suc k" by (cases "bit_len (n div 2)") auto
    from "1.prems" k have b: "bit_len n = Suc (Suc k)" by (subst bit_len.simps) simp
    from ih k have "2 ^ k \<le> n div 2" "n div 2 < 2 * 2 ^ k" by auto
    then have "2 * 2 ^ k \<le> n" "n < 4 * 2 ^ k" by linarith+
    with b show ?thesis by simp
  qed
qed

text \<open>\<open>ilog2 x\<close> is the exponent of a positive rational: \<open>2 powi e \<le> x < 2 powi (e + 1)\<close>.\<close>

definition ilog2 :: "rat \<Rightarrow> int" where
  "ilog2 x = (let (a, b) = quotient_of x;
                  e = int (bit_len (nat a)) - int (bit_len (nat b))
              in if 2 powi e \<le> x then e else e - 1)"

lemma two_powi_of_nat: "(2 :: rat) powi int n = 2 ^ n"
  by simp

lemma ilog2_bounds:
  assumes "0 < x"
  shows "2 powi ilog2 x \<le> x" and "x < 2 powi (ilog2 x + 1)"
proof -
  obtain a b where q: "quotient_of x = (a, b)" by (cases "quotient_of x")
  then have b: "0 < b" by (rule quotient_of_denom_pos)
  from q have x: "x = of_int a / of_int b" by (rule quotient_of_div)
  with assms b have a: "0 < a" by (simp add: zero_less_divide_iff)
  define la lb where "la = bit_len (nat a)" and "lb = bit_len (nat b)"
  have na: "2 ^ (la - 1) \<le> nat a" "nat a < 2 ^ la" "2 ^ (lb - 1) \<le> nat b" "nat b < 2 ^ lb"
    using bit_len_bounds [of "nat a"] bit_len_bounds [of "nat b"] a b by (auto simp: la_def lb_def)
  have pos: "0 < la" "0 < lb" using na a b by (auto intro: gr0I)
  have ra: "of_int a = (of_nat (nat a) :: rat)" and rb: "of_int b = (of_nat (nat b) :: rat)"
    using a b by simp_all
  have fa: "(2 :: rat) ^ (la - 1) \<le> of_int a" "of_int a < (2 :: rat) ^ la"
    using na(1,2) unfolding ra by (metis of_nat_le_iff of_nat_numeral of_nat_power)
      (metis na(2) of_nat_less_iff of_nat_numeral of_nat_power)
  have fb: "(2 :: rat) ^ (lb - 1) \<le> of_int b" "of_int b < (2 :: rat) ^ lb"
    using na(3,4) unfolding rb by (metis of_nat_le_iff of_nat_numeral of_nat_power)
      (metis na(4) of_nat_less_iff of_nat_numeral of_nat_power)
  let ?e = "int la - int lb"
  have up: "x < 2 powi (?e + 1)"
  proof -
    have "x < 2 ^ la / of_int b" using fa(2) b by (simp add: x divide_strict_right_mono)
    also have "\<dots> \<le> 2 ^ la / 2 ^ (lb - 1)" using fb(1) b by (simp add: frac_le)
    also have "\<dots> = 2 powi (int la - int (lb - 1))"
      by (simp add: power_int_diff)
    also have "int la - int (lb - 1) = ?e + 1" using pos by simp
    finally show ?thesis .
  qed
  have low: "2 powi (?e - 1) < x"
  proof -
    have "(2 :: rat) powi (int (la - 1) - int lb) = 2 ^ (la - 1) / 2 ^ lb"
      by (simp add: power_int_diff)
    also have "\<dots> < 2 ^ (la - 1) / of_int b"
      using fb b by (intro divide_strict_left_mono) auto
    also have "\<dots> \<le> x" using fa(1) b by (simp add: x divide_right_mono)
    finally show ?thesis using pos by (simp add: of_nat_diff algebra_simps)
  qed
  have i: "ilog2 x = (if 2 powi ?e \<le> x then ?e else ?e - 1)"
    by (simp add: ilog2_def q la_def lb_def)
  show "2 powi ilog2 x \<le> x" using i low by (auto split: if_splits)
  show "x < 2 powi (ilog2 x + 1)" using i up by (auto split: if_splits)
qed

lemma powi_less_cancel: "(2 :: rat) powi m < 2 powi n \<longleftrightarrow> m < n"
  by (meson linorder_not_less one_le_numeral one_less_numeral_iff power_int_increasing
      power_int_strict_increasing semiring_norm(76))

lemma ilog2_unique:
  assumes "2 powi e \<le> x" "x < 2 powi (e + 1)" shows "ilog2 x = e"
proof -
  have "0 < x" using assms(1) by (meson less_le_trans zero_less_numeral zero_less_power_int)
  from ilog2_bounds [OF this] assms have "(2 :: rat) powi ilog2 x < 2 powi (e + 1)"
    "(2 :: rat) powi e < 2 powi (ilog2 x + 1)" by auto
  then show ?thesis by (simp add: powi_less_cancel)
qed

lemma ilog2_mono: "0 < x \<Longrightarrow> x \<le> y \<Longrightarrow> ilog2 x \<le> ilog2 y"
proof -
  assume "0 < x" "x \<le> y"
  with ilog2_bounds [of x] ilog2_bounds [of y] have "(2 :: rat) powi ilog2 x < 2 powi (ilog2 y + 1)"
    by auto
  then show ?thesis by (simp add: powi_less_cancel)
qed


subsection \<open>Rounding\<close>

definition round_half_even :: "rat \<Rightarrow> int" where
  "round_half_even x = (let f = \<lfloor>x\<rfloor>; r = x - of_int f
     in if r < 1 / 2 then f else if 1 / 2 < r then f + 1 else if even f then f else f + 1)"

lemma round_half_even_of_int [simp]: "round_half_even (of_int n) = n"
  by (simp add: round_half_even_def)

lemma round_half_even_bounds: "\<bar>of_int (round_half_even x) - x\<bar> \<le> 1 / 2"
  using of_int_floor_le [of x] floor_correct [of x]
  by (auto simp: round_half_even_def Let_def abs_le_iff)

lemma round_half_even_mono:
  assumes "x \<le> y" shows "round_half_even x \<le> round_half_even y"
proof (cases "\<lfloor>x\<rfloor> = \<lfloor>y\<rfloor>")
  case True
  then show ?thesis using assms by (auto simp: round_half_even_def Let_def)
next
  case False
  then have "\<lfloor>x\<rfloor> + 1 \<le> \<lfloor>y\<rfloor>" using floor_mono [OF assms] by linarith
  then show ?thesis by (auto simp: round_half_even_def Let_def)
qed

lemma round_half_even_minus: "round_half_even (- x) = - round_half_even x"
proof (cases "x = of_int \<lfloor>x\<rfloor>")
  case True
  then show ?thesis by (metis of_int_minus round_half_even_of_int)
next
  case False
  then have "\<lfloor>- x\<rfloor> = - \<lfloor>x\<rfloor> - 1"
    using floor_correct [of x] by (intro floor_unique) (auto simp: less_le)
  then show ?thesis by (auto simp: round_half_even_def Let_def)
qed

definition ulp_exp :: "rat \<Rightarrow> int" where
  "ulp_exp x = max (ilog2 x - 52) (- 1074)"

definition rnd :: "rat \<Rightarrow> rat" where
  "rnd x = (if x = 0 then 0
            else let e = ulp_exp \<bar>x\<bar> in of_int (round_half_even (x / 2 powi e)) * 2 powi e)"

lemma rnd_0 [simp]: "rnd 0 = 0"
  by (simp add: rnd_def)

lemma rnd_minus [simp]: "rnd (- x) = - rnd x"
  by (simp add: rnd_def Let_def round_half_even_minus flip: minus_divide_left)

lemma rnd_pos: "0 < x \<Longrightarrow>
    rnd x = of_int (round_half_even (x / 2 powi ulp_exp x)) * 2 powi ulp_exp x"
  by (simp add: rnd_def Let_def)

lemma rnd_nonneg: "0 \<le> x \<Longrightarrow> 0 \<le> rnd x"
proof (cases "x = 0")
  case False
  assume "0 \<le> x"
  with False have x: "0 < x" by simp
  have "round_half_even 0 \<le> round_half_even (x / 2 powi ulp_exp x)"
    using x by (intro round_half_even_mono) simp
  with x show ?thesis by (simp add: rnd_pos round_half_even_def)
qed simp

text \<open>A value with at most 53 significant bits above the smallest exponent is a float.\<close>

lemma powi_nat: "0 \<le> n \<Longrightarrow> (2 :: rat) powi n = of_int (2 ^ nat n)"
  by (simp add: power_int_def)

lemma rnd_exact_pos:
  assumes "0 < m" "m \<le> 2 ^ 53" "- 1074 \<le> k"
  shows "rnd (of_int m * 2 powi k) = of_int m * 2 powi k"
proof -
  let ?x = "of_int m * (2 :: rat) powi k"
  let ?e = "ulp_exp ?x"
  have x: "0 < ?x" using assms(1) by simp
  have "\<exists>n. ?x / 2 powi ?e = of_int n"
  proof (cases "?e \<le> k")
    case True
    then have "?x / 2 powi ?e = of_int (m * 2 ^ nat (k - ?e))"
      using powi_nat [of "k - ?e"] by (simp add: power_int_diff field_simps)
    then show ?thesis by blast
  next
    case False
    then have e: "?e = ilog2 ?x - 52" using assms(3) by (simp add: ulp_exp_def max_def split: if_splits)
    from ilog2_bounds(1) [OF x] have "2 powi (?e + 52) \<le> ?x" by (simp add: e)
    then have "2 powi (?e + 52 - k) \<le> (of_int m :: rat)"
      by (simp add: power_int_diff pos_divide_le_eq)
    moreover have "0 \<le> ?e + 52 - k" using False by simp
    ultimately have le: "2 ^ nat (?e + 52 - k) \<le> m"
      by (metis of_int_le_iff powi_nat)
    then have "(2 :: int) ^ nat (?e + 52 - k) \<le> 2 ^ 53" using assms(2) by linarith
    then have "nat (?e + 52 - k) \<le> 53" by (rule power_le_imp_le_exp [rotated]) simp
    with False have k: "?e = k + 1" by linarith
    with le assms(2) have "m = 2 ^ 53" by (simp add: nat_add_distrib)
    moreover have "?x / 2 powi ?e = ?x / 2 powi (k + 1)" by (simp only: k)
    ultimately have "?x / 2 powi ?e = of_int (2 ^ 52)" by (simp add: power_int_add)
    then show ?thesis by blast
  qed
  then obtain n where n: "?x / 2 powi ?e = of_int n" by blast
  then have "rnd ?x = of_int n * 2 powi ?e" using x by (simp only: rnd_pos round_half_even_of_int)
  also have "\<dots> = ?x" using n by (simp add: field_simps)
  finally show ?thesis .
qed

lemma rnd_exact:
  assumes "\<bar>m\<bar> \<le> 2 ^ 53" "- 1074 \<le> k"
  shows "rnd (of_int m * 2 powi k) = of_int m * 2 powi k"
proof -
  consider "m = 0" | "0 < m" | "m < 0" by linarith
  then show ?thesis
  proof cases
    case 3
    then have "rnd (of_int (- m) * 2 powi k) = of_int (- m) * 2 powi k"
      using assms by (intro rnd_exact_pos) auto
    then show ?thesis by simp
  qed (use assms rnd_exact_pos in auto)
qed

lemma rnd_of_int [simp]: "\<bar>m\<bar> \<le> 2 ^ 53 \<Longrightarrow> rnd (of_int m) = of_int m"
  using rnd_exact [of m 0] by simp

lemma rnd_mono_pos:
  assumes "0 < x" "x \<le> y" shows "rnd x \<le> rnd y"
proof (cases "ulp_exp x = ulp_exp y")
  case True
  have "x / 2 powi ulp_exp y \<le> y / 2 powi ulp_exp y" using assms by (simp add: divide_right_mono)
  then show ?thesis using assms True
    by (simp add: rnd_pos round_half_even_mono)
next
  case False
  with ilog2_mono [OF assms] have lt: "ilog2 x < ilog2 y" and ey: "ulp_exp y = ilog2 y - 52"
    and ly: "- 1074 \<le> ilog2 y - 52" by (auto simp: ulp_exp_def max_def split: if_splits)
  let ?p = "(2 :: rat) powi ilog2 y"
  have ex: "ulp_exp x < ilog2 y" using lt ly by (auto simp: ulp_exp_def)
  have "x \<le> ?p"
    using ilog2_bounds(2) [OF assms(1)] lt
    by (meson le_less_trans less_imp_le less_le_trans one_le_numeral power_int_increasing zless_imp_add1_zle)
  then have "x / 2 powi ulp_exp x \<le> ?p / 2 powi ulp_exp x" by (simp add: divide_right_mono)
  also have "\<dots> = of_int (2 ^ nat (ilog2 y - ulp_exp x))"
    using ex powi_nat [of "ilog2 y - ulp_exp x"] by (simp add: power_int_diff)
  finally have "round_half_even (x / 2 powi ulp_exp x) \<le> 2 ^ nat (ilog2 y - ulp_exp x)"
    by (metis round_half_even_mono round_half_even_of_int)
  then have "of_int (round_half_even (x / 2 powi ulp_exp x)) \<le> (2 :: rat) powi (ilog2 y - ulp_exp x)"
    using ex powi_nat [of "ilog2 y - ulp_exp x"] by (metis diff_ge_0_iff_ge less_imp_le of_int_le_iff)
  then have 1: "rnd x \<le> ?p" using assms(1)
    by (simp add: rnd_pos power_int_diff pos_le_divide_eq)
  have y: "0 < y" using assms by simp
  have "of_int (2 ^ 52) \<le> y / 2 powi ulp_exp y"
    using ilog2_bounds(1) [OF y] by (simp add: ey power_int_diff field_simps)
  then have "2 ^ 52 \<le> round_half_even (y / 2 powi ulp_exp y)"
    by (metis round_half_even_mono round_half_even_of_int)
  then have "(2 :: rat) ^ 52 \<le> of_int (round_half_even (y / 2 powi ulp_exp y))"
    by (metis of_int_le_iff of_int_numeral of_int_power)
  then have "2 ^ 52 * 2 powi ulp_exp y \<le> rnd y" using y by (simp add: rnd_pos)
  moreover have "2 ^ 52 * (2 :: rat) powi ulp_exp y = ?p" by (simp add: ey power_int_diff)
  ultimately show ?thesis using 1 by simp
qed

lemma rnd_mono: assumes "x \<le> y" shows "rnd x \<le> rnd y"
proof -
  consider "0 < x" | "x \<le> 0" "0 \<le> y" | "y < 0" by linarith
  then show ?thesis
  proof cases
    case 2
    then have "rnd x \<le> 0" using rnd_nonneg [of "- x"] by simp
    then show ?thesis using rnd_nonneg [OF 2(2)] by simp
  next
    case 3
    then have "rnd (- y) \<le> rnd (- x)" using assms by (intro rnd_mono_pos) auto
    then show ?thesis by simp
  qed (use assms rnd_mono_pos in auto)
qed

lemma rnd_error_pos:
  assumes "2 powi (- 1022) \<le> x" shows "\<bar>rnd x - x\<bar> \<le> x / 2 ^ 53"
proof -
  have x: "0 < x" using assms by (meson less_le_trans zero_less_numeral zero_less_power_int)
  from ilog2_bounds(2) [OF x] assms have "(2 :: rat) powi (- 1022) < 2 powi (ilog2 x + 1)" by linarith
  then have "- 1022 < ilog2 x + 1" unfolding powi_less_cancel .
  then have e: "ulp_exp x = ilog2 x - 52" by (simp add: ulp_exp_def)
  let ?p = "(2 :: rat) powi ulp_exp x"
  have "\<bar>rnd x - x\<bar> = \<bar>of_int (round_half_even (x / ?p)) - x / ?p\<bar> * ?p"
    using x by (simp add: rnd_pos abs_mult_pos left_diff_distrib)
  also have "\<dots> \<le> 1 / 2 * ?p" by (intro mult_right_mono round_half_even_bounds) simp
  also have "\<dots> = 2 powi ilog2 x / 2 ^ 53" by (simp add: e power_int_diff)
  also have "\<dots> \<le> x / 2 ^ 53" using ilog2_bounds(1) [OF x] by (simp add: divide_right_mono)
  finally show ?thesis .
qed

lemma rnd_error: "2 powi (- 1022) \<le> \<bar>x\<bar> \<Longrightarrow> \<bar>rnd x - x\<bar> \<le> \<bar>x\<bar> / 2 ^ 53"
proof (cases "0 \<le> x")
  case False
  assume "2 powi (- 1022) \<le> \<bar>x\<bar>"
  with False have "\<bar>rnd (- x) - - x\<bar> \<le> - x / 2 ^ 53" by (intro rnd_error_pos) simp
  with False show ?thesis by (simp add: abs_minus_commute)
qed (use rnd_error_pos in simp)


subsection \<open>The laws the clients use\<close>

locale rounding =
  fixes rd :: "rat \<Rightarrow> rat"
  assumes mono: "x \<le> y \<Longrightarrow> rd x \<le> rd y"
    and exact: "\<bar>m\<bar> \<le> 2 ^ 53 \<Longrightarrow> - 1074 \<le> k \<Longrightarrow> rd (of_int m * 2 powi k) = of_int m * 2 powi k"
    and error: "2 powi (- 1022) \<le> \<bar>x\<bar> \<Longrightarrow> \<bar>rd x - x\<bar> \<le> \<bar>x\<bar> / 2 ^ 53"
begin

lemma int: "\<bar>m\<bar> \<le> 2 ^ 53 \<Longrightarrow> rd (of_int m) = of_int m"
  using exact [of m 0] by simp

lemma zero: "rd 0 = 0"
  using int [of 0] by simp

lemma nonneg: "0 \<le> x \<Longrightarrow> 0 \<le> rd x"
  using mono [of 0 x] zero by simp

text \<open>An upper bound with few significant bits bounds the rounded value too.\<close>

lemma le_bound:
  "x \<le> of_int m * 2 powi k \<Longrightarrow> \<bar>m\<bar> \<le> 2 ^ 53 \<Longrightarrow> - 1074 \<le> k \<Longrightarrow> rd x \<le> of_int m * 2 powi k"
  by (metis mono exact)

text \<open>On integers the error bound needs no lower bound.\<close>

lemma int_error: "\<bar>rd (of_int m) - of_int m\<bar> \<le> \<bar>of_int m\<bar> / 2 ^ 53"
proof (cases "m = 0")
  case False
  then have "(1 :: rat) \<le> \<bar>of_int m\<bar>" by (metis of_int_1_le_iff of_int_abs zabs_less_one_iff linorder_not_less)
  moreover have "(2 :: rat) powi (- 1022) \<le> 1" by (simp add: power_int_le_one)
  ultimately show ?thesis by (intro error) linarith
qed (simp add: zero)

end

interpretation ieee: rounding rnd
  by unfold_locales (fact rnd_mono rnd_exact rnd_error)+


subsection \<open>The type float64\<close>

datatype f64 = Fin rat | Inf bool | NaN  \<comment> \<open>\<open>Inf True\<close> is minus infinity\<close>

definition f64_of_rat :: "rat \<Rightarrow> f64" where
  "f64_of_rat x = (let r = rnd x in if 2 powi 1024 \<le> \<bar>r\<bar> then Inf (r < 0) else Fin r)"

definition f64_of_int :: "int \<Rightarrow> f64" where
  "f64_of_int n = f64_of_rat (of_int n)"

fun f64_neg :: "f64 \<Rightarrow> bool" where
  "f64_neg (Fin x) = (x < 0)"
| "f64_neg (Inf s) = s"
| "f64_neg NaN = False"

fun f64_mul :: "f64 \<Rightarrow> f64 \<Rightarrow> f64" where
  "f64_mul (Fin x) (Fin y) = f64_of_rat (x * y)"
| "f64_mul NaN _ = NaN"
| "f64_mul _ NaN = NaN"
| "f64_mul x y = (if x = Fin 0 \<or> y = Fin 0 then NaN else Inf (f64_neg x \<noteq> f64_neg y))"

text \<open>Division by a nonzero constant, the only division the code does.\<close>

fun f64_divc :: "f64 \<Rightarrow> rat \<Rightarrow> f64" where
  "f64_divc (Fin x) c = f64_of_rat (x / c)"
| "f64_divc (Inf s) c = Inf (s \<noteq> (c < 0))"
| "f64_divc NaN c = NaN"

fun f64_lt :: "f64 \<Rightarrow> f64 \<Rightarrow> bool" where
  "f64_lt (Fin x) (Fin y) = (x < y)"
| "f64_lt (Inf s) (Fin y) = s"
| "f64_lt (Fin x) (Inf s) = (\<not> s)"
| "f64_lt (Inf s) (Inf t) = (s \<and> \<not> t)"
| "f64_lt _ _ = False"

fun f64_eq :: "f64 \<Rightarrow> f64 \<Rightarrow> bool" where
  "f64_eq NaN _ = False"
| "f64_eq _ NaN = False"
| "f64_eq x y = (x = y)"

definition f64_le :: "f64 \<Rightarrow> f64 \<Rightarrow> bool" where
  "f64_le x y \<longleftrightarrow> f64_lt x y \<or> f64_eq x y"

fun IsFinite :: "f64 \<Rightarrow> bool" where
  "IsFinite (Fin _) = True"
| "IsFinite _ = False"

text \<open>\<open>math.Round\<close>: to the nearest integer, halves away from zero. The result of rounding a
  float64 is a float64, so nothing is rounded again.\<close>

definition round_away :: "rat \<Rightarrow> int" where
  "round_away x = (if 0 \<le> x then \<lfloor>x + 1 / 2\<rfloor> else - \<lfloor>- x + 1 / 2\<rfloor>)"

text \<open>The conversion of a float64 to int64 drops the fraction. Outside the range the language
  leaves the result to the implementation; on the supported platform (amd64) it is the smallest
  int64.\<close>

definition int64_of_rat :: "rat \<Rightarrow> int" where
  "int64_of_rat x = (let n = (if 0 \<le> x then \<lfloor>x\<rfloor> else \<lceil>x\<rceil>) in if int64 n then n else minInt64)"

fun f64_round_to_int64 :: "f64 \<Rightarrow> int" where
  "f64_round_to_int64 (Fin x) = int64_of_rat (of_int (round_away x))"
| "f64_round_to_int64 _ = minInt64"

lemma f64_le_Fin [simp]: "f64_le (Fin x) (Fin y) \<longleftrightarrow> x \<le> y"
  by (auto simp: f64_le_def)

lemma f64_of_int_small [simp]: "\<bar>n\<bar> \<le> 2 ^ 53 \<Longrightarrow> f64_of_int n = Fin (of_int n)"
proof -
  assume n: "\<bar>n\<bar> \<le> 2 ^ 53"
  then have "\<bar>of_int n :: rat\<bar> \<le> 2 ^ 53"
    by (metis of_int_abs of_int_le_iff of_int_numeral of_int_power)
  also have "\<dots> < 2 powi 1024" by simp
  finally show ?thesis using n by (simp add: f64_of_int_def f64_of_rat_def)
qed

lemma f64_of_rat_Fin: "\<bar>rnd x\<bar> < 2 powi 1024 \<Longrightarrow> f64_of_rat x = Fin (rnd x)"
  by (simp add: f64_of_rat_def)

lemma round_away_of_int [simp]: "round_away (of_int n) = n"
proof -
  have "\<lfloor>of_int n + (1 / 2 :: rat)\<rfloor> = n" "\<lfloor>- of_int n + (1 / 2 :: rat)\<rfloor> = - n"
    by (intro floor_unique; simp)+
  then show ?thesis by (simp add: round_away_def)
qed

lemma round_away_near: "\<bar>x - of_int n\<bar> < 1 / 2 \<Longrightarrow> round_away x = n"
proof -
  assume a: "\<bar>x - of_int n\<bar> < 1 / 2"
  then have "x - of_int n < 1 / 2" "of_int n - x < 1 / 2" by linarith+
  then have "\<lfloor>x + 1 / 2\<rfloor> = n" "\<lfloor>- x + 1 / 2\<rfloor> = - n"
    by (intro floor_unique; simp)+
  then show ?thesis by (simp add: round_away_def)
qed

lemma round_away_mono: "x \<le> y \<Longrightarrow> round_away x \<le> round_away y"
proof -
  assume xy: "x \<le> y"
  consider "0 \<le> x" | "x < 0" "0 \<le> y" | "y < 0" by linarith
  then show ?thesis
  proof cases
    case 1
    with xy show ?thesis by (simp add: round_away_def floor_mono)
  next
    case 2
    then have "0 \<le> \<lfloor>- x + 1 / 2\<rfloor>" "0 \<le> \<lfloor>y + 1 / 2\<rfloor>" by simp_all
    with 2 show ?thesis unfolding round_away_def by (simp only: if_False if_True not_le [symmetric])
  next
    case 3
    with xy show ?thesis by (simp add: round_away_def floor_mono)
  qed
qed

lemma int64_of_rat_of_int [simp]: "int64 n \<Longrightarrow> int64_of_rat (of_int n) = n"
  by (simp add: int64_of_rat_def)

lemma int64_f64_round [simp]: "int64 (f64_round_to_int64 x)"
proof (cases x)
  case (Fin q)
  then show ?thesis by (simp add: int64_of_rat_def Let_def) (simp add: int64_def minInt64_def)
qed (simp_all add: int64_def minInt64_def)

end
