(* ===== verification/Money.thy ===== *)
theory Money
  imports Float64
begin

text \<open>
  internal/policy/money.go: amounts in integer nanodollars, the conversions from and to the
  float64 dollars of the management API, the exact decimal print of the CSV export, and the
  charge of one token class.

  The lemmas bound the charge of a token class under the limits the callers enforce
  (\<open>tokenCharge_bound\<close>), and show that dollars read back from an amount below 2^50 nanodollars are
  that amount, and that the printed decimal denotes the amount exactly.
\<close>

type_synonym nano = int  \<comment> \<open>an int64\<close>

definition nanoPerUSD :: int where
  "nanoPerUSD = 1000000000"

definition USDToNano :: "f64 \<Rightarrow> nano" where
  "USDToNano usd =
     (if \<not> IsFinite usd then 0
      else f64_round_to_int64 (f64_mul usd (Fin (of_int nanoPerUSD))))"

definition nano_USD :: "nano \<Rightarrow> f64" where
  "nano_USD n = f64_divc (f64_of_int n) (of_int nanoPerUSD)"

definition tokenCharge :: "f64 \<Rightarrow> f64 \<Rightarrow> nano" where
  "tokenCharge tokensTimesPrice multiplier =
     f64_round_to_int64 (f64_mul (f64_mul tokensTimesPrice (Fin 1000)) multiplier)"


subsection \<open>Decimal digits\<close>

definition digit_char :: "nat \<Rightarrow> char" where
  "digit_char d = char_of (48 + d)"

fun nat_digits :: "nat \<Rightarrow> string" where
  "nat_digits n = (if n < 10 then [digit_char n] else nat_digits (n div 10) @ [digit_char (n mod 10)])"

declare nat_digits.simps [simp del]

text \<open>\<open>strconv.FormatInt(n, 10)\<close>.\<close>

definition FormatInt :: "int \<Rightarrow> string" where
  "FormatInt n = (if n < 0 then CHR ''-'' # nat_digits (nat (- n)) else nat_digits (nat n))"

definition FormatUSD :: "nano \<Rightarrow> string" where
  "FormatUSD n =
     (let negative = n < 0;
          n = (if negative then wrap64 (- n) else n);
          whole = FormatInt (go_div n nanoPerUSD);
          fraction = TrimRight (drop 1 (FormatInt (wrap64 (go_rem n nanoPerUSD + nanoPerUSD)))) (CHR ''0'');
          text = (if fraction = [] then whole else whole @ ''.'' @ fraction)
      in if negative then CHR ''-'' # text else text)"


subsection \<open>What a decimal denotes\<close>

definition digit_value :: "char \<Rightarrow> nat" where
  "digit_value c = of_char c - 48"

definition digits_value :: "string \<Rightarrow> nat" where
  "digits_value s = foldl (\<lambda>v c. 10 * v + digit_value c) 0 s"

definition is_digits :: "string \<Rightarrow> bool" where
  "is_digits s \<longleftrightarrow> s \<noteq> [] \<and> (\<forall>c \<in> set s. 48 \<le> (of_char c :: nat) \<and> (of_char c :: nat) \<le> 57)"

text \<open>The value of \<open>[-]digits[.digits]\<close>, as a reader of the CSV takes it.\<close>

definition unsigned_value :: "string \<Rightarrow> rat" where
  "unsigned_value t =
     (let whole = takeWhile (\<lambda>c. c \<noteq> CHR ''.'') t; frac = drop (Suc (length whole)) t
      in of_nat (digits_value whole) + of_nat (digits_value frac) / 10 ^ length frac)"

fun decimal_value :: "string \<Rightarrow> rat" where
  "decimal_value [] = 0"
| "decimal_value (c # r) = (if c = CHR ''-'' then - unsigned_value r else unsigned_value (c # r))"

lemma of_char_digit_char: "d < 10 \<Longrightarrow> (of_char (digit_char d) :: nat) = 48 + d"
  by (simp add: digit_char_def)

lemma digit_value_digit_char [simp]: "d < 10 \<Longrightarrow> digit_value (digit_char d) = d"
  by (simp add: digit_value_def of_char_digit_char)

lemma digits_value_snoc [simp]: "digits_value (s @ [c]) = 10 * digits_value s + digit_value c"
  by (simp add: digits_value_def)

lemma digits_value_Nil [simp]: "digits_value [] = 0"
  by (simp add: digits_value_def)

lemma digits_value_append: "digits_value (s @ t) = digits_value s * 10 ^ length t + digits_value t"
  by (induction t rule: rev_induct) (simp_all flip: append_assoc)

lemma digits_value_nat_digits [simp]: "digits_value (nat_digits n) = n"
proof (induction n rule: nat_digits.induct)
  case (1 n)
  show ?case
  proof (cases "n < 10")
    case True
    then have "nat_digits n = [] @ [digit_char n]" by (subst nat_digits.simps) simp
    then show ?thesis using True by (simp only: digits_value_snoc) simp
  next
    case False
    then show ?thesis using 1 by (subst nat_digits.simps) simp
  qed
qed

lemma nat_digits_digits: "c \<in> set (nat_digits n) \<Longrightarrow> \<exists>d < 10. c = digit_char d"
proof (induction n rule: nat_digits.induct)
  case (1 n)
  show ?case
  proof (cases "n < 10")
    case True
    with "1.prems" show ?thesis by (subst (asm) nat_digits.simps) auto
  next
    case False
    then have "nat_digits n = nat_digits (n div 10) @ [digit_char (n mod 10)]"
      by (subst nat_digits.simps) simp
    moreover have "n mod 10 < 10" by simp
    ultimately show ?thesis using 1 False by (metis Un_iff empty_iff empty_set list.set_intros(1) set_append set_ConsD)
  qed
qed

lemma nat_digits_length: "n < 10 ^ k \<Longrightarrow> 0 < k \<Longrightarrow> length (nat_digits n) \<le> k"
proof (induction k arbitrary: n)
  case (Suc k)
  show ?case
  proof (cases "n < 10")
    case True
    then show ?thesis by (subst nat_digits.simps) simp
  next
    case False
    then have k: "0 < k" using Suc.prems(1) by (cases k) auto
    have "n div 10 < 10 ^ k" using Suc.prems(1) by auto
    with Suc.IH k have "length (nat_digits (n div 10)) \<le> k" by blast
    then show ?thesis using False by (subst nat_digits.simps) simp
  qed
qed simp

lemma nat_digits_Suc_length: "10 ^ k \<le> n \<Longrightarrow> k < length (nat_digits n)"
proof (induction k arbitrary: n)
  case 0
  show ?case by (subst nat_digits.simps) simp
next
  case (Suc k)
  moreover have "(1 :: nat) \<le> 10 ^ k" by simp
  ultimately have n: "\<not> n < 10" "10 ^ k \<le> n div 10" by (simp_all, linarith+)
  with Suc.IH have "k < length (nat_digits (n div 10))" by blast
  then show ?case using n by (subst nat_digits.simps) simp
qed

text \<open>Adding \<open>10 ^ k\<close> and dropping the first digit pads with zeros to \<open>k\<close> digits.\<close>

lemma padded_digits:
  assumes "f < 10 ^ k" "0 < k"
  shows "length (drop 1 (nat_digits (f + 10 ^ k))) = k"
    and "digits_value (drop 1 (nat_digits (f + 10 ^ k))) = f"
proof -
  let ?s = "nat_digits (f + 10 ^ k)"
  have "length ?s \<le> Suc k" by (rule nat_digits_length) (use assms in auto)
  moreover have "k < length ?s" by (rule nat_digits_Suc_length) simp
  ultimately have l: "length ?s = Suc k" by simp
  then obtain c r where s: "?s = c # r" "length r = k" by (cases ?s) auto
  then show "length (drop 1 ?s) = k" by simp
  obtain d where d: "d < 10" "c = digit_char d" using nat_digits_digits [of c "f + 10 ^ k"] s by auto
  have "f + 10 ^ k = digits_value ([c] @ r)" using s by (metis append_Cons append_Nil digits_value_nat_digits)
  also have "\<dots> = d * 10 ^ k + digits_value r"
    unfolding digits_value_append using s d by (simp add: digits_value_def)
  finally have e: "f + 10 ^ k = d * 10 ^ k + digits_value r" .
  have r: "digits_value r < 10 ^ k"
  proof -
    have "set r \<subseteq> set ?s" using s by auto
    then have "\<forall>x \<in> set r. \<exists>d < 10. x = digit_char d" using nat_digits_digits by blast
    then have "digits_value r < 10 ^ length r"
      by (induction r rule: rev_induct) (auto simp: algebra_simps)
    then show ?thesis using s by simp
  qed
  have "d = 1"
  proof (rule ccontr)
    assume "d \<noteq> 1"
    then consider "d = 0" | "2 \<le> d" by linarith
    then show False
    proof cases
      case 2
      then have "2 * 10 ^ k \<le> d * 10 ^ k" by (intro mult_right_mono) auto
      with e assms show False by linarith
    qed (use e r in auto)
  qed
  with e s show "digits_value (drop 1 ?s) = f" by simp
qed

lemma TrimRight_split: "\<exists>z. s = TrimRight s c @ replicate z c"
proof -
  have "rev s = takeWhile (\<lambda>d. d = c) (rev s) @ dropWhile (\<lambda>d. d = c) (rev s)" by simp
  then have "s = rev (dropWhile (\<lambda>d. d = c) (rev s)) @ rev (takeWhile (\<lambda>d. d = c) (rev s))"
    by (metis rev_append rev_rev_ident)
  moreover have "\<forall>d \<in> set (takeWhile (\<lambda>d. d = c) (rev s)). d = c" by (auto dest: set_takeWhileD)
  then have "rev (takeWhile (\<lambda>d. d = c) (rev s)) = replicate (length (takeWhile (\<lambda>d. d = c) (rev s))) c"
    by (metis length_rev replicate_length_same set_rev)
  ultimately show ?thesis unfolding TrimRight_def by metis
qed

lemma digits_value_zeros [simp]: "digits_value (replicate z (CHR ''0'')) = 0"
  by (induction z) (simp_all add: digits_value_def digit_value_def)

text \<open>Trailing zeros of a fraction do not change its value.\<close>

lemma fraction_value_TrimRight:
  "(of_nat (digits_value (TrimRight s (CHR ''0''))) :: rat) / 10 ^ length (TrimRight s (CHR ''0'')) =
   of_nat (digits_value s) / 10 ^ length s"
proof -
  obtain z where z: "s = TrimRight s (CHR ''0'') @ replicate z (CHR ''0'')" using TrimRight_split by blast
  let ?t = "TrimRight s (CHR ''0'')"
  have "digits_value s = digits_value ?t * 10 ^ z" "length s = length ?t + z"
    by (subst z; simp add: digits_value_append)+
  then show ?thesis by (simp add: power_add)
qed

lemma digit_chars_no_point: "\<forall>c \<in> set (nat_digits n). c \<noteq> CHR ''.'' \<and> c \<noteq> CHR ''-''"
proof
  fix c assume "c \<in> set (nat_digits n)"
  then obtain d where d: "d < 10" "c = digit_char d" using nat_digits_digits by blast
  then have "(of_char c :: nat) = 48 + d" by (simp add: of_char_digit_char)
  then show "c \<noteq> CHR ''.'' \<and> c \<noteq> CHR ''-''" by auto
qed

lemma unsigned_value_parts:
  assumes "\<forall>c \<in> set w. c \<noteq> CHR ''.''"
  shows "unsigned_value (if f = [] then w else w @ ''.'' @ f) =
    of_nat (digits_value w) + of_nat (digits_value f) / 10 ^ length f"
proof -
  have w1: "takeWhile (\<lambda>c. c \<noteq> CHR ''.'') w = w" using assms by (simp add: takeWhile_eq_all_conv)
  have w2: "takeWhile (\<lambda>c. c \<noteq> CHR ''.'') (w @ CHR ''.'' # f) = w" using assms by (subst takeWhile_append2) auto
  show ?thesis by (cases "f = []") (simp_all add: unsigned_value_def Let_def w1 w2)
qed

lemma FormatInt_nat: "FormatInt (int k) = nat_digits k"
  by (simp add: FormatInt_def)

text \<open>The magnitude part, for a nonnegative amount.\<close>

lemma FormatUSD_nonneg:
  assumes "0 \<le> n" "int64 n"
  shows "decimal_value (FormatUSD n) = of_int n / of_int nanoPerUSD"
    and "decimal_value (FormatUSD n) = unsigned_value (FormatUSD n)"
proof -
  define q r where "q = nat (n div nanoPerUSD)" and "r = nat (n mod nanoPerUSD)"
  have q0: "0 \<le> n div nanoPerUSD" using assms(1) unfolding nanoPerUSD_def by linarith
  have r: "r < 10 ^ 9" by (simp add: r_def nanoPerUSD_def nat_less_iff)
  have "int q = n div nanoPerUSD" "int r = n mod nanoPerUSD" using q0 by (simp_all add: q_def r_def nanoPerUSD_def)
  then have n: "n = nanoPerUSD * int q + int r" by (simp only: mult_div_mod_eq)
  have w: "FormatInt (go_div n nanoPerUSD) = nat_digits q"
  proof -
    note q0
    moreover have "go_div n nanoPerUSD = n div nanoPerUSD"
      using assms by (intro go_div_nonneg) (simp_all add: nanoPerUSD_def)
    ultimately show ?thesis by (simp only: FormatInt_def q_def not_less [symmetric] if_False)
  qed
  have i: "go_rem n nanoPerUSD + nanoPerUSD = int (r + 10 ^ 9)"
    using assms by (simp add: r_def nanoPerUSD_def)
  have "int64 (int (r + 10 ^ 9))" using r by (simp add: int64_def)
  with i have f: "FormatInt (wrap64 (go_rem n nanoPerUSD + nanoPerUSD)) = nat_digits (r + 10 ^ 9)"
    by (simp only: wrap64_id FormatInt_nat)
  define fr where "fr = TrimRight (drop 1 (nat_digits (r + 10 ^ 9))) (CHR ''0'')"
  have tx: "FormatUSD n = (if fr = [] then nat_digits q else nat_digits q @ ''.'' @ fr)"
    using assms by (simp add: FormatUSD_def Let_def w f fr_def)
  have v: "(of_nat (digits_value fr) :: rat) / 10 ^ length fr = of_nat r / 10 ^ 9"
    unfolding fr_def fraction_value_TrimRight using padded_digits [OF r] by simp
  have "nat_digits q \<noteq> []" by (subst nat_digits.simps) simp
  then obtain c rest where q: "nat_digits q = c # rest" by (cases "nat_digits q") auto
  then have c: "c \<noteq> CHR ''-''" using digit_chars_no_point [of q] by auto
  then show hd: "decimal_value (FormatUSD n) = unsigned_value (FormatUSD n)" using tx q by simp
  have "unsigned_value (FormatUSD n) = of_nat q + of_nat r / 10 ^ 9"
    using unsigned_value_parts [of "nat_digits q" fr] digit_chars_no_point [of q] v
    unfolding tx by simp
  with hd have "decimal_value (FormatUSD n) = of_nat q + of_nat r / 10 ^ 9" by simp
  also have "\<dots> = of_int n / of_int nanoPerUSD" unfolding n by (simp add: nanoPerUSD_def add_divide_distrib)
  finally show "decimal_value (FormatUSD n) = of_int n / of_int nanoPerUSD" .
qed

lemma FormatUSD_neg:
  assumes "n < 0" "minInt64 < n"
  shows "FormatUSD n = CHR ''-'' # FormatUSD (- n)"
proof -
  have "int64 (- n)" using assms by (simp add: int64_def minInt64_def)
  with assms show ?thesis by (simp add: FormatUSD_def Let_def)
qed

text \<open>Claim C1 below rests on the two: the print is exact for every amount but the smallest
  int64, whose negation wraps.\<close>

lemma FormatUSD_value:
  assumes "int64 n" "n \<noteq> minInt64"
  shows "decimal_value (FormatUSD n) = of_int n / of_int nanoPerUSD"
proof (cases "0 \<le> n")
  case False
  with assms have n: "n < 0" "minInt64 < n" "int64 (- n)" by (auto simp: int64_def minInt64_def)
  with FormatUSD_nonneg [of "- n"] show ?thesis by (simp add: FormatUSD_neg)
qed (use assms FormatUSD_nonneg in blast)


subsection \<open>Dollars and back\<close>

context rounding
begin

text \<open>Dividing by 1e9 and multiplying again, each step rounded, stays within half a
  nanodollar below 2^50.\<close>

lemma usd_roundtrip_error:
  assumes "\<bar>n\<bar> < 2 ^ 50"
  shows "\<bar>rd (rd (of_int n / 1000000000) * 1000000000) - of_int n\<bar> < 1 / 2"
proof (cases "n = 0")
  case False
  define x where "x = (of_int n :: rat) / 1000000000"
  have n1: "1 \<le> \<bar>of_int n :: rat\<bar>" using False
    by (metis of_int_1_le_iff of_int_abs zabs_less_one_iff linorder_not_less)
  have nb: "\<bar>of_int n :: rat\<bar> < 2 ^ 50" using assms
    by (metis of_int_abs of_int_less_iff of_int_numeral of_int_power)
  have "(2 :: rat) powi (- 1022) \<le> 2 powi (- 30)" by (rule power_int_increasing) simp_all
  also have "\<dots> = 1 / 2 ^ 30" by (simp add: power_int_def power_one_over)
  finally have tiny: "(2 :: rat) powi (- 1022) \<le> 1 / 2 ^ 30" .
  have ax: "\<bar>x\<bar> = \<bar>of_int n\<bar> / 1000000000" by (simp add: x_def)
  have "1 / 2 ^ 30 \<le> \<bar>x\<bar>" using n1 unfolding ax by simp
  with tiny have e1: "\<bar>rd x - x\<bar> \<le> \<bar>x\<bar> / 2 ^ 53" by (intro error) linarith
  define y where "y = rd x * 1000000000"
  have "y - of_int n = (rd x - x) * 1000000000" by (simp add: y_def x_def left_diff_distrib)
  then have "\<bar>y - of_int n\<bar> = \<bar>rd x - x\<bar> * 1000000000" by (simp only: abs_mult abs_numeral)
  with e1 ax have d1: "\<bar>y - of_int n\<bar> \<le> \<bar>of_int n\<bar> / 2 ^ 53" by simp
  moreover have "\<bar>of_int n :: rat\<bar> / 2 ^ 53 \<le> \<bar>of_int n\<bar> / 2" by simp
  ultimately have yn: "\<bar>y\<bar> \<le> 2 * \<bar>of_int n\<bar>" "\<bar>of_int n\<bar> / 2 \<le> \<bar>y\<bar>"
    using abs_triangle_ineq2 [of y "of_int n"] abs_triangle_ineq3 [of y "of_int n"] n1 by linarith+
  have "(1 :: rat) / 2 ^ 30 \<le> 1 / 2" by simp
  with n1 tiny yn have "2 powi (- 1022) \<le> \<bar>y\<bar>" by linarith
  then have "\<bar>rd y - y\<bar> \<le> \<bar>y\<bar> / 2 ^ 53" by (rule error)
  moreover have "\<bar>rd y - of_int n\<bar> \<le> \<bar>rd y - y\<bar> + \<bar>y - of_int n\<bar>"
    using abs_triangle_ineq [of "rd y - y" "y - of_int n"] by simp
  ultimately have "\<bar>rd y - of_int n\<bar> < 1 / 2" using d1 yn nb by simp
  then show ?thesis by (simp add: y_def x_def)
qed (simp add: zero)

end

lemma USDToNano_USD:
  assumes "\<bar>n\<bar> < 2 ^ 50" shows "USDToNano (nano_USD n) = n"
proof -
  have n53: "\<bar>n\<bar> \<le> 2 ^ 53" using assms by simp
  have nb: "\<bar>of_int n :: rat\<bar> < 2 ^ 50" using assms
    by (metis of_int_abs of_int_less_iff of_int_numeral of_int_power)
  let ?x = "(of_int n :: rat) / 1000000000"
  have d: "\<bar>rnd (rnd ?x * 1000000000) - of_int n\<bar> < 1 / 2" by (rule ieee.usd_roundtrip_error [OF assms])
  have x: "?x \<le> of_int (2 ^ 50)" "- ?x \<le> of_int (2 ^ 50)" using nb by (simp_all add: abs_less_iff)
  then have "rnd ?x \<le> of_int (2 ^ 50)" "rnd (- ?x) \<le> of_int (2 ^ 50)"
    using ieee.le_bound [of _ "2 ^ 50" 0] by (simp_all del: rnd_minus)
  then have "\<bar>rnd ?x\<bar> < 2 powi 1024" by (simp add: abs_less_iff)
  then have u: "nano_USD n = Fin (rnd ?x)"
    using n53 by (simp add: nano_USD_def nanoPerUSD_def f64_of_rat_Fin)
  have "\<bar>rnd (rnd ?x * 1000000000)\<bar> < 2 ^ 52"
    using abs_triangle_ineq2 [of "rnd (rnd ?x * 1000000000)" "of_int n"] d nb by simp
  also have "\<dots> < 2 powi 1024" by simp
  finally have "\<bar>rnd (rnd ?x * 1000000000)\<bar> < 2 powi 1024" .
  then have m: "f64_mul (nano_USD n) (Fin (of_int nanoPerUSD)) = Fin (rnd (rnd ?x * 1000000000))"
    by (simp add: u nanoPerUSD_def f64_of_rat_Fin)
  have "int64 n" using assms by (simp add: int64_def abs_less_iff)
  with round_away_near [OF d] show ?thesis by (simp add: USDToNano_def m) (simp add: u)
qed


subsection \<open>The charge of a token class\<close>

lemma f64_mul_bound:
  assumes "0 \<le> x" "0 \<le> y" "x * y \<le> of_int m * 2 powi int k" "0 \<le> m" "m \<le> 2 ^ 53" "k \<le> 900"
  obtains z where "f64_mul (Fin x) (Fin y) = Fin z" "0 \<le> z" "z \<le> of_int m * 2 powi int k"
proof -
  have ub: "rnd (x * y) \<le> of_int m * 2 powi int k"
    by (rule ieee.le_bound) (use assms in simp_all)
  have nn: "0 \<le> rnd (x * y)" by (rule ieee.nonneg) (use assms in simp)
  have "of_int m * 2 powi int k \<le> (2 :: rat) ^ 53 * 2 ^ 900"
  proof (rule mult_mono)
    have "(of_int m :: rat) \<le> of_int (2 ^ 53)" using assms(5) by (simp only: of_int_le_iff)
    then show "(of_int m :: rat) \<le> 2 ^ 53" by simp
    have "(2 :: rat) ^ k \<le> 2 ^ 900" by (rule power_increasing [OF assms(6)]) simp
    then show "(2 :: rat) powi int k \<le> 2 ^ 900" unfolding power_int_of_nat .
  qed simp_all
  also have "\<dots> < 2 powi 1024" by simp
  finally have "\<bar>rnd (x * y)\<bar> < 2 powi 1024" using ub nn by simp
  then have "f64_mul (Fin x) (Fin y) = Fin (rnd (x * y))" by (simp add: f64_of_rat_Fin)
  then show thesis using that nn ub by blast
qed

lemma tokenCharge_bound:
  assumes "0 \<le> n" "n \<le> 2 ^ k" "k \<le> 32" "0 \<le> p" "p \<le> 10000" "1 \<le> m" "m \<le> 50"
  shows "0 \<le> tokenCharge (f64_mul (f64_of_int n) (Fin p)) (Fin m)"
    and "tokenCharge (f64_mul (f64_of_int n) (Fin p)) (Fin m) \<le> 500000000 * 2 ^ k"
proof -
  have k2: "(2 :: int) ^ k \<le> 2 ^ 32" using assms(3) by (intro power_increasing) auto
  have n: "f64_of_int n = Fin (of_int n)" using assms(1,2) k2 by (intro f64_of_int_small) simp
  have nr: "(of_int n :: rat) \<le> 2 powi int k"
  proof -
    have "(of_int n :: rat) \<le> of_int (2 ^ k)" using assms(2) by (simp only: of_int_le_iff)
    then show ?thesis by simp
  qed
  have "of_int n * p \<le> 2 powi int k * 10000" using assms nr by (intro mult_mono) auto
  then have "of_int n * p \<le> of_int 10000 * 2 powi int k" by simp
  then obtain z where z: "f64_mul (f64_of_int n) (Fin p) = Fin z" "0 \<le> z" "z \<le> of_int 10000 * 2 powi int k"
    unfolding n by (rule f64_mul_bound [rotated 2]) (use assms in simp_all)
  have "z * 1000 \<le> of_int 10000000 * 2 powi int k" using z(3) by simp
  then obtain y where y: "f64_mul (Fin z) (Fin 1000) = Fin y" "0 \<le> y" "y \<le> of_int 10000000 * 2 powi int k"
    by (rule f64_mul_bound [rotated 2]) (use assms z in simp_all)
  have "y * m \<le> of_int 10000000 * 2 powi int k * 50" using y assms by (intro mult_mono) auto
  then have "y * m \<le> of_int 500000000 * 2 powi int k" by simp
  then obtain x where x: "f64_mul (Fin y) (Fin m) = Fin x" "0 \<le> x" "x \<le> of_int 500000000 * 2 powi int k"
    by (rule f64_mul_bound [rotated 2]) (use assms y in simp_all)
  have c: "tokenCharge (f64_mul (f64_of_int n) (Fin p)) (Fin m) = int64_of_rat (of_int (round_away x))"
    unfolding tokenCharge_def z(1) y(1) x(1) by simp
  have "round_away 0 \<le> round_away x" by (rule round_away_mono) (rule x)
  then have lo: "0 \<le> round_away x" using round_away_of_int [of 0] by simp
  have "x \<le> of_int (500000000 * 2 ^ k)" using x(3) by simp
  then have "round_away x \<le> round_away (of_int (500000000 * 2 ^ k))" by (rule round_away_mono)
  then have hi: "round_away x \<le> 500000000 * 2 ^ k" by (simp only: round_away_of_int)
  with k2 lo have "int64 (round_away x)" by (simp add: int64_def)
  then show "0 \<le> tokenCharge (f64_mul (f64_of_int n) (Fin p)) (Fin m)"
    "tokenCharge (f64_mul (f64_of_int n) (Fin p)) (Fin m) \<le> 500000000 * 2 ^ k"
    using lo hi by (simp_all add: c)
qed


text \<open>A product with few significant bits is exact.\<close>

lemma f64_mul_exact:
  assumes "x * y = of_int m * 2 powi int k" "0 \<le> m" "m \<le> 2 ^ 53" "k \<le> 900"
  shows "f64_mul (Fin x) (Fin y) = Fin (x * y)"
proof -
  have e: "rnd (x * y) = x * y" unfolding assms(1) by (rule ieee.exact) (use assms in simp_all)
  have "of_int m * 2 powi int k \<le> (2 :: rat) ^ 53 * 2 ^ 900"
  proof (rule mult_mono)
    have "(of_int m :: rat) \<le> of_int (2 ^ 53)" using assms(3) by (simp only: of_int_le_iff)
    then show "(of_int m :: rat) \<le> 2 ^ 53" by simp
    have "(2 :: rat) ^ k \<le> 2 ^ 900" by (rule power_increasing [OF assms(4)]) simp
    then show "(2 :: rat) powi int k \<le> 2 ^ 900" unfolding power_int_of_nat .
  qed simp_all
  also have "\<dots> < 2 powi 1024" by simp
  finally have "\<bar>rnd (x * y)\<bar> < 2 powi 1024" using e assms(1,2) by simp
  with e show ?thesis by (simp add: f64_of_rat_Fin)
qed

end
