(* ===== verification/Bucket.thy ===== *)
theory Bucket
  imports Money "HOL-Library.Multiset"
begin

text \<open>
  The usage aggregate of internal/policy/bucket.go and the way the ledger sums such aggregates
  over Go maps. Counters are int64 and wrap; \<open>bucket_ok\<close> says that a bucket's fields are int64
  values.

  \<open>accumulator\<close> is the interface of anything that is added up over a map: an operation that is
  associative and commutative on well-formed values. Under it a total does not depend on the
  iteration order, and booking a delta into one entry moves the total by that delta. The buckets
  and the Nano amounts provide it.
\<close>


subsection \<open>Accumulators\<close>

definition total :: "('a \<Rightarrow> 'a \<Rightarrow> 'a) \<Rightarrow> 'a \<Rightarrow> 'a list \<Rightarrow> 'a" where
  "total add zero xs = fold (\<lambda>x acc. add acc x) xs zero"

text \<open>The Go idiom \<open>v := m[k]; v.add(d); m[k] = v\<close>: a missing key reads as the zero value.\<close>

definition book :: "('v \<Rightarrow> 'v \<Rightarrow> 'v) \<Rightarrow> 'v \<Rightarrow> 'k \<Rightarrow> 'v \<Rightarrow> ('k, 'v) amap \<Rightarrow> ('k, 'v) amap" where
  "book add zero k d m = aset k (add (case aget m k of Some v \<Rightarrow> v | None \<Rightarrow> zero) d) m"

locale accumulator =
  fixes add :: "'a \<Rightarrow> 'a \<Rightarrow> 'a" and zero :: 'a and ok :: "'a \<Rightarrow> bool"
  assumes comm: "add x y = add y x"
    and assoc: "add (add x y) z = add x (add y z)"
    and zero_left: "ok x \<Longrightarrow> add zero x = x"
    and ok_add: "ok (add x y)"
    and ok_zero: "ok zero"
begin

lemma zero_right: "ok x \<Longrightarrow> add x zero = x"
  using comm zero_left by metis

lemma left_comm: "add x (add y z) = add y (add x z)"
  by (metis comm assoc)

lemma fold_add: "fold (\<lambda>x acc. add acc x) xs (add a b) = add a (fold (\<lambda>x acc. add acc x) xs b)"
  by (induction xs arbitrary: b) (simp_all add: assoc)

lemma total_Nil: "total add zero [] = zero"
  by (simp add: total_def)

lemma total_ok: "ok (total add zero xs)"
proof -
  have "ok a \<Longrightarrow> ok (fold (\<lambda>x acc. add acc x) xs a)" for a
    by (induction xs arbitrary: a) (simp_all add: ok_add)
  then show ?thesis by (simp add: total_def ok_zero)
qed

lemma total_Cons: "ok x \<Longrightarrow> total add zero (x # xs) = add x (total add zero xs)"
  using fold_add [of xs x zero] by (simp add: total_def zero_left zero_right)

lemma total_append: "\<forall>x \<in> set xs. ok x \<Longrightarrow> total add zero (xs @ ys) = add (total add zero xs) (total add zero ys)"
proof (induction xs)
  case Nil
  show ?case by (simp add: total_Nil zero_left total_ok)
next
  case (Cons x xs)
  then show ?case by (simp add: total_Cons assoc)
qed

lemma total_perm: "mset xs = mset ys \<Longrightarrow> \<forall>x \<in> set xs. ok x \<Longrightarrow> total add zero xs = total add zero ys"
proof -
  assume p: "mset xs = mset ys" and "\<forall>x \<in> set xs. ok x"
  have "(\<lambda>x acc. add acc x) x \<circ> (\<lambda>x acc. add acc x) y = (\<lambda>x acc. add acc x) y \<circ> (\<lambda>x acc. add acc x) x" for x y
    by (rule ext) (metis comm assoc comp_apply)
  from fold_multiset_equiv [OF this p] show ?thesis by (simp add: total_def)
qed

text \<open>Booking a delta under one key moves the total by the delta.\<close>

lemma total_book:
  assumes "amap_ok m" "\<forall>x \<in> snd ` set m. ok x" "ok d"
  shows "total add zero (map snd (book add zero k d m)) = add (total add zero (map snd m)) d"
  using assms(1,2)
proof (induction m)
  case Nil
  show ?case using assms(3) by (simp add: book_def total_Cons total_Nil zero_left zero_right ok_add)
next
  case (Cons kv m)
  obtain k' v where kv: "kv = (k', v)" by (cases kv)
  from Cons have ih: "total add zero (map snd (book add zero k d m)) = add (total add zero (map snd m)) d"
    and v: "ok v" by (simp_all add: kv amap_ok_Cons)
  show ?case
  proof (cases "k' = k")
    case True
    then have "map snd (book add zero k d (kv # m)) = add v d # map snd m" by (simp add: kv book_def)
    then have "total add zero (map snd (book add zero k d (kv # m))) = add (add v d) (total add zero (map snd m))"
      using total_Cons ok_add by metis
    also have "\<dots> = add (add v (total add zero (map snd m))) d" by (metis assoc comm)
    also have "add v (total add zero (map snd m)) = total add zero (map snd (kv # m))"
      using v by (simp add: kv total_Cons)
    finally show ?thesis .
  next
    case False
    then have "map snd (book add zero k d (kv # m)) = v # map snd (book add zero k d m)"
      by (simp add: kv book_def)
    with ih v show ?thesis by (simp add: kv total_Cons assoc)
  qed
qed

lemma book_ok: "amap_ok m \<Longrightarrow> amap_ok (book add zero k d m)"
  by (simp add: book_def)

lemma book_values_ok:
  assumes "\<forall>x \<in> snd ` set m. ok x"
  shows "\<forall>x \<in> snd ` set (book add zero k d m). ok x"
proof -
  have in_aset: "x = y \<or> x \<in> snd ` set m" if "x \<in> snd ` set (aset k y m)" for x y
    using that by (induction m) (auto split: if_splits)
  show ?thesis unfolding book_def
  proof
    fix x
    assume "x \<in> snd ` set (aset k (add (case aget m k of Some v \<Rightarrow> v | None \<Rightarrow> zero) d) m)"
    from in_aset [OF this] show "ok x" using assms ok_add by blast
  qed
qed

lemma book_get: "aget (book add zero k d m) x =
    (if x = k then Some (add (case aget m k of Some v \<Rightarrow> v | None \<Rightarrow> zero) d) else aget m x)"
  by (simp add: book_def)

end


subsection \<open>Buckets\<close>

record bucket =
  Calls :: int
  UnpricedCalls :: int
  InputTokens :: int
  CacheReadTokens :: int
  CacheWriteTokens :: int
  OutputTokens :: int
  ChargedNano :: nano
  CacheReadCostNano :: nano
  CacheWriteCostNano :: nano

definition zero_bucket :: bucket where
  "zero_bucket = \<lparr>Calls = 0, UnpricedCalls = 0, InputTokens = 0, CacheReadTokens = 0,
     CacheWriteTokens = 0, OutputTokens = 0, ChargedNano = 0, CacheReadCostNano = 0,
     CacheWriteCostNano = 0\<rparr>"

definition bucket_add :: "bucket \<Rightarrow> bucket \<Rightarrow> bucket" where
  "bucket_add b src = \<lparr>
     Calls = wrap64 (Calls b + Calls src),
     UnpricedCalls = wrap64 (UnpricedCalls b + UnpricedCalls src),
     InputTokens = wrap64 (InputTokens b + InputTokens src),
     CacheReadTokens = wrap64 (CacheReadTokens b + CacheReadTokens src),
     CacheWriteTokens = wrap64 (CacheWriteTokens b + CacheWriteTokens src),
     OutputTokens = wrap64 (OutputTokens b + OutputTokens src),
     ChargedNano = wrap64 (ChargedNano b + ChargedNano src),
     CacheReadCostNano = wrap64 (CacheReadCostNano b + CacheReadCostNano src),
     CacheWriteCostNano = wrap64 (CacheWriteCostNano b + CacheWriteCostNano src)\<rparr>"

text \<open>\<open>Bucket.validate\<close>: true when there is no error.\<close>

definition bucket_validate :: "bucket \<Rightarrow> bool" where
  "bucket_validate b \<longleftrightarrow> \<not> (Calls b < 0 \<or> UnpricedCalls b < 0 \<or> InputTokens b < 0 \<or>
     CacheReadTokens b < 0 \<or> CacheWriteTokens b < 0 \<or> OutputTokens b < 0 \<or> ChargedNano b < 0 \<or>
     CacheReadCostNano b < 0 \<or> CacheWriteCostNano b < 0)"

definition bucket_ok :: "bucket \<Rightarrow> bool" where
  "bucket_ok b \<longleftrightarrow> int64 (Calls b) \<and> int64 (UnpricedCalls b) \<and> int64 (InputTokens b) \<and>
     int64 (CacheReadTokens b) \<and> int64 (CacheWriteTokens b) \<and> int64 (OutputTokens b) \<and>
     int64 (ChargedNano b) \<and> int64 (CacheReadCostNano b) \<and> int64 (CacheWriteCostNano b)"

text \<open>\<open>UsageTotals\<close>, a bucket as the management API reports it.\<close>

record usage_totals =
  TotalUSD :: f64
  CallCount :: int
  TotalsInputTokens :: int
  TotalsOutputTokens :: int
  TotalsCacheReadTokens :: int
  CacheCostUSD :: f64
  TotalsCacheWriteTokens :: int
  CacheWriteUSD :: f64
  TotalsUnpricedCalls :: int

definition totals :: "bucket \<Rightarrow> usage_totals" where
  "totals b = \<lparr>TotalUSD = nano_USD (ChargedNano b), CallCount = Calls b,
     TotalsInputTokens = InputTokens b, TotalsOutputTokens = OutputTokens b,
     TotalsCacheReadTokens = CacheReadTokens b, CacheCostUSD = nano_USD (CacheReadCostNano b),
     TotalsCacheWriteTokens = CacheWriteTokens b, CacheWriteUSD = nano_USD (CacheWriteCostNano b),
     TotalsUnpricedCalls = UnpricedCalls b\<rparr>"

text \<open>\<open>UsageWindow\<close>: the totals of one quota cycle with its start.\<close>

record usage_window = usage_totals +
  WindowStart :: instant

lemma int64_0 [simp]: "int64 0"
  by (simp add: int64_def)

interpretation bucket_sum: accumulator bucket_add zero_bucket bucket_ok
  by unfold_locales
    (simp_all add: bucket_add_def zero_bucket_def bucket_ok_def add.commute add.left_commute add.assoc)

definition nano_add :: "nano \<Rightarrow> nano \<Rightarrow> nano" where
  "nano_add x y = wrap64 (x + y)"

interpretation nano_sum: accumulator nano_add 0 int64
  by unfold_locales (simp_all add: nano_add_def add.commute add.left_commute add.assoc)

lemmas bucket_add_simps = bucket_add_def

lemma bucket_add_ok [simp]: "bucket_ok (bucket_add b c)"
  by (rule bucket_sum.ok_add)

lemma zero_bucket_ok [simp]: "bucket_ok zero_bucket"
  by (rule bucket_sum.ok_zero)

lemma zero_bucket_validate [simp]: "bucket_validate zero_bucket"
  by (simp add: bucket_validate_def zero_bucket_def)

lemma ChargedNano_add [simp]: "ChargedNano (bucket_add b c) = nano_add (ChargedNano b) (ChargedNano c)"
  by (simp add: bucket_add_def nano_add_def)

lemma ChargedNano_zero [simp]: "ChargedNano zero_bucket = 0"
  by (simp add: zero_bucket_def)

text \<open>Counters only grow, and stay valid, as long as no counter passes the int64 range.\<close>

definition add_fits :: "bucket \<Rightarrow> bucket \<Rightarrow> bool" where
  "add_fits b c \<longleftrightarrow> int64 (Calls b + Calls c) \<and> int64 (UnpricedCalls b + UnpricedCalls c) \<and>
     int64 (InputTokens b + InputTokens c) \<and> int64 (CacheReadTokens b + CacheReadTokens c) \<and>
     int64 (CacheWriteTokens b + CacheWriteTokens c) \<and> int64 (OutputTokens b + OutputTokens c) \<and>
     int64 (ChargedNano b + ChargedNano c) \<and> int64 (CacheReadCostNano b + CacheReadCostNano c) \<and>
     int64 (CacheWriteCostNano b + CacheWriteCostNano c)"

lemma bucket_add_validate:
  "bucket_validate b \<Longrightarrow> bucket_validate c \<Longrightarrow> add_fits b c \<Longrightarrow> bucket_validate (bucket_add b c)"
  by (simp add: bucket_validate_def bucket_add_def add_fits_def)

lemma total_ChargedNano:
  "ChargedNano (total bucket_add zero_bucket bs) = total nano_add 0 (map ChargedNano bs)"
proof -
  have "ChargedNano (fold (\<lambda>x acc. bucket_add acc x) bs a) = fold (\<lambda>x acc. nano_add acc x) (map ChargedNano bs) (ChargedNano a)" for a
    by (induction bs arbitrary: a) simp_all
  then show ?thesis by (simp add: total_def)
qed

end
