(* ===== verification/Cycle.thy ===== *)
theory Cycle
  imports Calendar Bucket
begin

text \<open>
  The quota periods of internal/policy/cycle.go: opening them at a key's creation, rolling expired
  ones forward from their own deadline, the deadline of a manual reset, and the validation a
  loaded file goes through.

  \<open>advance_loop\<close> is the loop that skips missed periods. It returns for every calendar that
  provides \<open>day_calendar\<close> (\<open>advance_loop_returns\<close>); on a zone that is not regular the model keeps
  the cycle where the code might not return.
\<close>

type_synonym UsageResetWindow = string

definition UsageResetDaily :: UsageResetWindow where "UsageResetDaily = ''daily''"
definition UsageResetWeekly :: UsageResetWindow where "UsageResetWeekly = ''weekly''"
definition UsageResetMonthly :: UsageResetWindow where "UsageResetMonthly = ''monthly''"

definition quotaWindows :: "UsageResetWindow list" where
  "quotaWindows = [UsageResetDaily, UsageResetWeekly, UsageResetMonthly]"

definition window_days :: "UsageResetWindow \<Rightarrow> int" where
  "window_days w = (if w = UsageResetWeekly then 7 else if w = UsageResetMonthly then 30 else 1)"

definition window_valid :: "UsageResetWindow \<Rightarrow> bool" where
  "window_valid w \<longleftrightarrow> w = UsageResetDaily \<or> w = UsageResetWeekly \<or> w = UsageResetMonthly"

lemmas window_names = UsageResetDaily_def UsageResetWeekly_def UsageResetMonthly_def

lemma window_days_simps [simp]:
  "window_days UsageResetDaily = 1" "window_days UsageResetWeekly = 7" "window_days UsageResetMonthly = 30"
  by (simp_all add: window_days_def window_names)

lemma window_days_pos [simp]: "0 < window_days w"
  by (simp add: window_days_def)

lemma window_distinct [simp]:
  "UsageResetDaily \<noteq> UsageResetWeekly" "UsageResetDaily \<noteq> UsageResetMonthly" "UsageResetWeekly \<noteq> UsageResetMonthly"
  "UsageResetWeekly \<noteq> UsageResetDaily" "UsageResetMonthly \<noteq> UsageResetDaily" "UsageResetMonthly \<noteq> UsageResetWeekly"
  by (simp_all add: window_names)


subsection \<open>Cycles\<close>

text \<open>A nil model map and an empty one are the same value here; only the check of a decoded file
  distinguishes them.\<close>

record cycle =
  StartedAt :: instant
  ResetsAt :: instant
  ResetKind :: string
  ByModel :: "(string, bucket) amap"

record cycles =
  Daily :: cycle
  Weekly :: cycle
  Monthly :: cycle

definition cycle_of :: "cycles \<Rightarrow> UsageResetWindow \<Rightarrow> cycle" where
  "cycle_of cs w = (if w = UsageResetWeekly then Weekly cs else if w = UsageResetMonthly then Monthly cs else Daily cs)"

text \<open>\<open>*cycles.cycle(window) = c\<close>.\<close>

definition set_cycle :: "UsageResetWindow \<Rightarrow> cycle \<Rightarrow> cycles \<Rightarrow> cycles" where
  "set_cycle w c cs = (if w = UsageResetWeekly then cs\<lparr>Weekly := c\<rparr>
     else if w = UsageResetMonthly then cs\<lparr>Monthly := c\<rparr> else cs\<lparr>Daily := c\<rparr>)"

definition used :: "cycle \<Rightarrow> nano" where
  "used c = total nano_add 0 (map (\<lambda>(_, b). ChargedNano b) (ByModel c))"

definition startOfDay :: "location \<Rightarrow> instant \<Rightarrow> instant" where
  "startOfDay loc t = dayStart loc t 0"

definition new_cycle :: "location \<Rightarrow> instant \<Rightarrow> string \<Rightarrow> UsageResetWindow \<Rightarrow> cycle" where
  "new_cycle loc t kind w =
     (let c = \<lparr>StartedAt = t, ResetsAt = dayStart loc t (window_days w), ResetKind = kind, ByModel = []\<rparr>
      in if w = UsageResetDaily then c\<lparr>StartedAt := startOfDay loc t\<rparr> else c)"

definition newCycles :: "location \<Rightarrow> instant \<Rightarrow> string \<Rightarrow> cycles" where
  "newCycles loc t kind = \<lparr>Daily = new_cycle loc t kind UsageResetDaily,
     Weekly = new_cycle loc t kind UsageResetWeekly, Monthly = new_cycle loc t kind UsageResetMonthly\<rparr>"

text \<open>\<open>for !now.Before(next) { start, next = next, dayStart(next, window.days(), l.location) }\<close>;
  the step function is the \<open>dayStart\<close> call.\<close>

partial_function (option) advance_loop ::
  "(instant \<Rightarrow> instant) \<Rightarrow> instant \<Rightarrow> instant \<Rightarrow> instant \<Rightarrow> (instant \<times> instant) option" where
  "advance_loop step now start nxt =
     (if now < nxt then Some (start, nxt) else advance_loop step now nxt (step nxt))"

definition advance_cycle :: "location \<Rightarrow> UsageResetWindow \<Rightarrow> instant \<Rightarrow> cycle \<Rightarrow> cycle option" where
  "advance_cycle loc w now c =
     (if now < ResetsAt c then None
      else let start = ResetsAt c; step = (\<lambda>t. dayStart loc t (window_days w))
           in map_option (\<lambda>(s, n). \<lparr>StartedAt = s, ResetsAt = n, ResetKind = ''automatic'', ByModel = []\<rparr>)
                (advance_loop step now start (step start)))"

definition advance_window :: "location \<Rightarrow> instant \<Rightarrow> UsageResetWindow \<Rightarrow> cycles \<times> bool \<Rightarrow> cycles \<times> bool" where
  "advance_window loc now w = (\<lambda>(cs, changed).
     case advance_cycle loc w now (cycle_of cs w) of
       None \<Rightarrow> (cs, changed) | Some c \<Rightarrow> (set_cycle w c cs, True))"

definition advanceCyclesLocked :: "location \<Rightarrow> cycles \<Rightarrow> instant \<Rightarrow> cycles \<times> bool" where
  "advanceCyclesLocked loc cs now = fold (advance_window loc now) quotaWindows (cs, False)"

definition manualResetDeadline :: "location \<Rightarrow> instant \<Rightarrow> UsageResetWindow \<Rightarrow> instant" where
  "manualResetDeadline loc now w = dayStart loc now (window_days w)"


subsection \<open>Validation\<close>

datatype cycle_error =
    InvalidInterval UsageResetWindow
  | InvalidResetDate UsageResetWindow
  | InvalidResetKind UsageResetWindow string
  | EmptyQuotaModel UsageResetWindow
  | InvalidQuotaModel UsageResetWindow string

fun first_error :: "('a \<Rightarrow> 'e option) \<Rightarrow> 'a list \<Rightarrow> 'e option" where
  "first_error f [] = None"
| "first_error f (x # xs) = (case f x of Some e \<Rightarrow> Some e | None \<Rightarrow> first_error f xs)"

lemma first_error_None [simp]: "first_error f xs = None \<longleftrightarrow> (\<forall>x \<in> set xs. f x = None)"
  by (induction xs) (auto split: option.splits)

definition validate_cycle :: "location \<Rightarrow> cycle \<Rightarrow> UsageResetWindow \<Rightarrow> cycle_error option" where
  "validate_cycle loc c w =
     (if IsZero (StartedAt c) \<or> \<not> StartedAt c < ResetsAt c then Some (InvalidInterval w)
      else if dayStart loc (StartedAt c) (window_days w) \<noteq> ResetsAt c then Some (InvalidResetDate w)
      else if ResetKind c \<notin> {''initial'', ''migration'', ''manual'', ''automatic''} then Some (InvalidResetKind w (ResetKind c))
      else first_error (\<lambda>(name, b). if TrimSpace name = [] then Some (EmptyQuotaModel w)
             else if \<not> bucket_validate b then Some (InvalidQuotaModel w name) else None) (ByModel c))"

definition validateCycles :: "location \<Rightarrow> cycles \<Rightarrow> cycle_error option" where
  "validateCycles loc cs = first_error (\<lambda>w. validate_cycle loc (cycle_of cs w) w) quotaWindows"


subsection \<open>The windows of a set of cycles\<close>

lemma cycle_of_simps [simp]:
  "cycle_of cs UsageResetDaily = Daily cs" "cycle_of cs UsageResetWeekly = Weekly cs"
  "cycle_of cs UsageResetMonthly = Monthly cs"
  by (simp_all add: cycle_of_def)

lemma set_cycle_simps [simp]:
  "set_cycle UsageResetDaily c cs = cs\<lparr>Daily := c\<rparr>" "set_cycle UsageResetWeekly c cs = cs\<lparr>Weekly := c\<rparr>"
  "set_cycle UsageResetMonthly c cs = cs\<lparr>Monthly := c\<rparr>"
  by (simp_all add: set_cycle_def)

lemma cycle_of_set: "w \<in> set quotaWindows \<Longrightarrow> v \<in> set quotaWindows \<Longrightarrow>
    cycle_of (set_cycle w c cs) v = (if v = w then c else cycle_of cs v)"
  by (auto simp: quotaWindows_def)

lemma cycles_eqI: "(\<And>w. w \<in> set quotaWindows \<Longrightarrow> cycle_of a w = cycle_of b w) \<Longrightarrow> a = (b :: cycles)"
proof (rule cycles.equality)
  assume eq: "\<And>w. w \<in> set quotaWindows \<Longrightarrow> cycle_of a w = cycle_of b w"
  show "Daily a = Daily b" using eq [of UsageResetDaily] by (simp add: quotaWindows_def)
  show "Weekly a = Weekly b" using eq [of UsageResetWeekly] by (simp add: quotaWindows_def)
  show "Monthly a = Monthly b" using eq [of UsageResetMonthly] by (simp add: quotaWindows_def)
qed simp

definition advanced :: "location \<Rightarrow> UsageResetWindow \<Rightarrow> instant \<Rightarrow> cycle \<Rightarrow> cycle" where
  "advanced loc w now c = (case advance_cycle loc w now c of None \<Rightarrow> c | Some c' \<Rightarrow> c')"

lemma advance_cycles_eq:
  "fst (advanceCyclesLocked loc cs now) = \<lparr>Daily = advanced loc UsageResetDaily now (Daily cs),
     Weekly = advanced loc UsageResetWeekly now (Weekly cs), Monthly = advanced loc UsageResetMonthly now (Monthly cs)\<rparr>"
  by (simp add: advanceCyclesLocked_def quotaWindows_def advance_window_def advanced_def split: option.splits)

lemma cycle_of_advance:
  "w \<in> set quotaWindows \<Longrightarrow> cycle_of (fst (advanceCyclesLocked loc cs now)) w = advanced loc w now (cycle_of cs w)"
  by (auto simp: quotaWindows_def advance_cycles_eq)

lemma advance_changed:
  "snd (advanceCyclesLocked loc cs now) \<longleftrightarrow> (\<exists>w \<in> set quotaWindows. advance_cycle loc w now (cycle_of cs w) \<noteq> None)"
  by (simp add: advanceCyclesLocked_def quotaWindows_def advance_window_def split: option.splits)

lemma advance_unchanged:
  "\<not> snd (advanceCyclesLocked loc cs now) \<Longrightarrow> fst (advanceCyclesLocked loc cs now) = cs"
  by (rule cycles_eqI) (auto simp: advance_changed cycle_of_advance advanced_def)


subsection \<open>The loop that skips missed periods\<close>

context day_calendar
begin

text \<open>From a boundary not after now, the loop returns the last boundary not after now of the same
  calendar, and the one after it.\<close>

lemma advance_loop_returns:
  assumes "0 < n" "s \<le> now"
  shows "\<exists>s' k. advance_loop (\<lambda>t. start t n) now s (start s n) = Some (s', start s' n) \<and>
    s' \<le> now \<and> now < start s' n \<and> s \<le> s' \<and> day_of s' = day_of s + int k * n"
  using assms(2)
proof (induction "nat (day_of now - day_of s)" arbitrary: s rule: less_induct)
  case less
  show ?case
  proof (cases "now < start s n")
    case True
    then have "advance_loop (\<lambda>t. start t n) now s (start s n) = Some (s, start s n)"
      by (subst advance_loop.simps) simp
    moreover have "day_of s = day_of s + int 0 * n" by simp
    ultimately show ?thesis using True less.prems by blast
  next
    case False
    then have le: "start s n \<le> now" by simp
    have day: "day_of (start s n) = day_of s + n" by (rule start_day)
    have "day_of (start s n) \<le> day_of now" using day_mono [OF le] .
    with day assms(1) have "nat (day_of now - day_of (start s n)) < nat (day_of now - day_of s)" by simp
    from less.hyps [OF this le] obtain s' k where
      r: "advance_loop (\<lambda>t. start t n) now (start s n) (start (start s n) n) = Some (s', start s' n)"
        "s' \<le> now" "now < start s' n" "start s n \<le> s'" "day_of s' = day_of (start s n) + int k * n" by blast
    have "advance_loop (\<lambda>t. start t n) now s (start s n) = Some (s', start s' n)"
      using r(1) False by (subst advance_loop.simps) simp
    moreover have "s \<le> s'" using r(4) start_after [OF assms(1), of s] by linarith
    moreover have "day_of s' = day_of s + int (Suc k) * n" using r(5) day by (simp add: algebra_simps)
    ultimately show ?thesis using r(2,3) by blast
  qed
qed

end

text \<open>An expired cycle is replaced by the automatic one that contains now, whose deadline is a
  whole number of periods after the old one; a running cycle is kept.\<close>

lemma advance_cycle_running [simp]: "now < ResetsAt c \<Longrightarrow> advance_cycle loc w now c = None"
  by (simp add: advance_cycle_def)

lemma advance_cycle_expired:
  assumes "regular loc" "ResetsAt c \<le> now"
  obtains s k where
    "advance_cycle loc w now c = Some \<lparr>StartedAt = s, ResetsAt = dayStart loc s (window_days w),
       ResetKind = ''automatic'', ByModel = []\<rparr>"
    "s \<le> now" "now < dayStart loc s (window_days w)" "ResetsAt c \<le> s"
    "local_day loc s = local_day loc (ResetsAt c) + int k * window_days w"
proof -
  from zone.advance_loop_returns [OF window_days_pos [of w] assms(2), of loc] assms(1)
  obtain s k where
    r: "advance_loop (\<lambda>t. dayStart loc t (window_days w)) now (ResetsAt c) (dayStart loc (ResetsAt c) (window_days w))
          = Some (s, dayStart loc s (window_days w))"
      "s \<le> now" "now < dayStart loc s (window_days w)" "ResetsAt c \<le> s"
      "local_day loc s = local_day loc (ResetsAt c) + int k * window_days w"
    by auto
  show thesis by (rule that [of s k]) (use r assms(2) in \<open>simp_all add: advance_cycle_def Let_def\<close>)
qed

definition cycle_running :: "instant \<Rightarrow> cycle \<Rightarrow> bool" where
  "cycle_running now c \<longleftrightarrow> now < ResetsAt c"

lemma advanced_running: "regular loc \<Longrightarrow> cycle_running now (advanced loc w now c)"
proof (cases "now < ResetsAt c")
  case False
  assume "regular loc"
  with False show ?thesis
    by (elim advance_cycle_expired [where w = w and c = c and now = now]) (simp_all add: advanced_def cycle_running_def)
qed (simp add: advanced_def cycle_running_def)

text \<open>Advancing twice at the same time, or at an earlier one, changes nothing more.\<close>

lemma advanced_idem: "regular loc \<Longrightarrow> t \<le> now \<Longrightarrow> advance_cycle loc w t (advanced loc w now c) = None"
  using advanced_running [of loc now w c] by (simp add: cycle_running_def)


subsection \<open>The invariant of a key's cycles\<close>

text \<open>What \<open>validateCycles\<close> accepts, with the start after the zero time (the code only excludes the
  zero time itself), which every cycle the ledger makes satisfies.\<close>

definition cycle_ok :: "location \<Rightarrow> UsageResetWindow \<Rightarrow> cycle \<Rightarrow> bool" where
  "cycle_ok loc w c \<longleftrightarrow> validate_cycle loc c w = None \<and> zero_time < StartedAt c \<and> amap_ok (ByModel c)"

definition cycles_ok :: "location \<Rightarrow> cycles \<Rightarrow> bool" where
  "cycles_ok loc cs \<longleftrightarrow> (\<forall>w \<in> set quotaWindows. cycle_ok loc w (cycle_of cs w))"

lemma cycles_ok_validate: "cycles_ok loc cs \<Longrightarrow> validateCycles loc cs = None"
  by (simp add: cycles_ok_def cycle_ok_def validateCycles_def)

lemma validate_cycle_None:
  "validate_cycle loc c w = None \<longleftrightarrow> \<not> IsZero (StartedAt c) \<and> StartedAt c < ResetsAt c \<and>
     dayStart loc (StartedAt c) (window_days w) = ResetsAt c \<and>
     ResetKind c \<in> {''initial'', ''migration'', ''manual'', ''automatic''} \<and>
     (\<forall>(name, b) \<in> set (ByModel c). TrimSpace name \<noteq> [] \<and> bucket_validate b)"
  unfolding validate_cycle_def by (auto split: if_splits)

lemma cycle_okI:
  assumes "regular loc" "zero_time < StartedAt c" "ResetsAt c = dayStart loc (StartedAt c) (window_days w)"
    "ResetKind c \<in> {''initial'', ''migration'', ''manual'', ''automatic''}" "ByModel c = []"
  shows "cycle_ok loc w c"
  using assms zone.start_after [OF window_days_pos [of w], of "StartedAt c" loc]
  by (simp add: cycle_ok_def validate_cycle_None IsZero_def)

lemma advanced_ok:
  assumes "regular loc" "cycle_ok loc w c"
  shows "cycle_ok loc w (advanced loc w now c)"
proof (cases "now < ResetsAt c")
  case True
  with assms(2) show ?thesis by (simp add: advanced_def)
next
  case False
  have z: "zero_time < ResetsAt c" using assms(2) by (simp add: cycle_ok_def validate_cycle_None)
  from False have "ResetsAt c \<le> now" by simp
  with assms(1) obtain s where
    a: "advance_cycle loc w now c = Some \<lparr>StartedAt = s, ResetsAt = dayStart loc s (window_days w),
       ResetKind = ''automatic'', ByModel = []\<rparr>" and "ResetsAt c \<le> s"
    by (rule advance_cycle_expired [where w = w])
  with z have "zero_time < s" by linarith
  with assms(1) show ?thesis by (simp add: advanced_def a) (rule cycle_okI; simp)
qed

lemma advance_cycles_ok:
  "regular loc \<Longrightarrow> cycles_ok loc cs \<Longrightarrow> cycles_ok loc (fst (advanceCyclesLocked loc cs now))"
  by (simp add: cycles_ok_def cycle_of_advance advanced_ok)

lemma advance_cycles_running:
  "regular loc \<Longrightarrow> w \<in> set quotaWindows \<Longrightarrow>
     cycle_running now (cycle_of (fst (advanceCyclesLocked loc cs now)) w)"
  by (simp add: cycle_of_advance advanced_running)

lemma advance_cycles_idem:
  "regular loc \<Longrightarrow> t \<le> now \<Longrightarrow>
     advanceCyclesLocked loc (fst (advanceCyclesLocked loc cs now)) t = (fst (advanceCyclesLocked loc cs now), False)"
  using advance_unchanged [of loc "fst (advanceCyclesLocked loc cs now)" t]
  by (simp add: prod_eq_iff advance_changed cycle_of_advance advanced_idem)

text \<open>A key's first periods are valid when it is created after the first day of year 1.\<close>

lemma new_cycle_ok:
  assumes "regular loc" "local_day loc zero_time < local_day loc t"
    "kind \<in> {''initial'', ''migration'', ''manual'', ''automatic''}"
  shows "cycle_ok loc w (new_cycle loc t kind w)"
proof -
  have z: "zero_time < dayStart loc t 0"
    using dayStart_boundary(1) [OF assms(1), of zero_time t 0] assms(2) by simp
  moreover have "dayStart loc t 0 \<le> t" using zone.start_le [of 0 loc t] assms(1) by simp
  moreover have "dayStart loc (dayStart loc t 0) 1 = dayStart loc t 1"
    using zone.start_cong [of loc "dayStart loc t 0" 1 t 1] dayStart_boundary(2) [OF assms(1), of t 0] assms(1) by simp
  ultimately show ?thesis
    using assms by (intro cycle_okI) (simp_all add: new_cycle_def startOfDay_def Let_def)
qed

lemma newCycles_ok:
  assumes "regular loc" "local_day loc zero_time < local_day loc t"
    "kind \<in> {''initial'', ''migration'', ''manual'', ''automatic''}"
  shows "cycles_ok loc (newCycles loc t kind)"
  using new_cycle_ok [OF assms] by (simp add: cycles_ok_def quotaWindows_def newCycles_def)

end
