(* ===== verification/Config.thy ===== *)
theory Config
  imports Cycle
begin

text \<open>
  The client keys of internal/policy/config.go: the key record, the normalization every write and
  every load applies (unique trimmed ids, nonnegative limits, a known quota mode), and the rule
  that a secret belongs to one key. YAML decoding and zone loading are outside the model.
\<close>

definition QuotaModeCycle :: string where "QuotaModeCycle = ''cycle''"
definition QuotaModeBalance :: string where "QuotaModeBalance = ''balance''"

record KeyConfig =
  ID :: string
  KeyName :: string
  Enabled :: bool
  KeyHash :: string
  KeyPreview :: string
  RPM :: int
  DailyLimitUSD :: f64
  WeeklyLimitUSD :: f64
  MonthlyLimitUSD :: f64
  QuotaMode :: string
  CreatedAt :: instant
  UpdatedAt :: instant

definition BalanceMode :: "KeyConfig \<Rightarrow> bool" where
  "BalanceMode k \<longleftrightarrow> QuotaMode k = QuotaModeBalance"

definition key_Mode :: "KeyConfig \<Rightarrow> string" where
  "key_Mode k = (if BalanceMode k then QuotaModeBalance else QuotaModeCycle)"

datatype key_error =
    KeyIDRequired
  | DuplicateKeyID string
  | NegativeRPM string
  | NegativeLimits string
  | BalanceKeyLimits string
  | UnknownQuotaMode string string
  | DuplicateKeyHash string string

text \<open>One turn of the loop of \<open>normalizeKeys\<close>; \<open>seen\<close> are the ids of the keys before.\<close>

definition normalize_key :: "string list \<Rightarrow> KeyConfig \<Rightarrow> key_error + KeyConfig" where
  "normalize_key seen k0 =
     (let key = k0\<lparr>ID := TrimSpace (ID k0), KeyName := TrimSpace (KeyName k0),
                KeyHash := TrimSpace (KeyHash k0), KeyPreview := TrimSpace (KeyPreview k0)\<rparr>
      in if ID key = [] then Inl KeyIDRequired
      else if ID key \<in> set seen then Inl (DuplicateKeyID (ID key))
      else let key = (if KeyName key = [] then key\<lparr>KeyName := ID key\<rparr> else key)
      in if RPM key < 0 then Inl (NegativeRPM (ID key))
      else if f64_lt (DailyLimitUSD key) (Fin 0) \<or> f64_lt (WeeklyLimitUSD key) (Fin 0) \<or>
              f64_lt (MonthlyLimitUSD key) (Fin 0) then Inl (NegativeLimits (ID key))
      else let mode = ToLower (TrimSpace (QuotaMode key))
      in if mode = [] \<or> mode = QuotaModeCycle then Inr (key\<lparr>QuotaMode := []\<rparr>)
      else if mode = QuotaModeBalance then
        (if f64_lt (Fin 0) (DailyLimitUSD key) \<or> f64_lt (Fin 0) (WeeklyLimitUSD key) \<or>
            f64_lt (Fin 0) (MonthlyLimitUSD key) then Inl (BalanceKeyLimits (ID key))
         else Inr (key\<lparr>QuotaMode := mode\<rparr>))
      else Inl (UnknownQuotaMode (ID key) (QuotaMode key)))"

fun normalize_keys :: "string list \<Rightarrow> KeyConfig list \<Rightarrow> key_error + KeyConfig list" where
  "normalize_keys seen [] = Inr []"
| "normalize_keys seen (k # ks) = (case normalize_key seen k of
     Inl e \<Rightarrow> Inl e
   | Inr k' \<Rightarrow> (case normalize_keys (ID k' # seen) ks of Inl e \<Rightarrow> Inl e | Inr ks' \<Rightarrow> Inr (k' # ks')))"

definition normalizeKeys :: "KeyConfig list \<Rightarrow> key_error + KeyConfig list" where
  "normalizeKeys ks = normalize_keys [] ks"

definition secret_of :: "KeyConfig \<Rightarrow> string" where
  "secret_of k = ToLower (TrimSpace (KeyHash k))"

definition secretUnique :: "KeyConfig list \<Rightarrow> KeyConfig \<Rightarrow> key_error option" where
  "secretUnique keys key = (if secret_of key = [] then None
     else map_option (\<lambda>other. DuplicateKeyHash (ID key) (ID other))
       (List.find (\<lambda>other. ID other \<noteq> ID key \<and> secret_of other = secret_of key) keys))"

definition uniqueSecrets :: "KeyConfig list \<Rightarrow> key_error option" where
  "uniqueSecrets keys = first_error (secretUnique keys) keys"


subsection \<open>What normalization ensures\<close>

definition key_ok :: "KeyConfig \<Rightarrow> bool" where
  "key_ok k \<longleftrightarrow> ID k \<noteq> [] \<and> TrimSpace (ID k) = ID k \<and> KeyName k \<noteq> [] \<and> 0 \<le> RPM k \<and>
     \<not> f64_lt (DailyLimitUSD k) (Fin 0) \<and> \<not> f64_lt (WeeklyLimitUSD k) (Fin 0) \<and> \<not> f64_lt (MonthlyLimitUSD k) (Fin 0) \<and>
     (QuotaMode k = [] \<or> BalanceMode k \<and> \<not> f64_lt (Fin 0) (DailyLimitUSD k) \<and>
        \<not> f64_lt (Fin 0) (WeeklyLimitUSD k) \<and> \<not> f64_lt (Fin 0) (MonthlyLimitUSD k))"

text \<open>What a normalized key has that a stored one keeps when it is normalized again.\<close>

definition key_normal :: "KeyConfig \<Rightarrow> bool" where
  "key_normal k \<longleftrightarrow> key_ok k \<and> TrimSpace (KeyName k) = KeyName k \<and> TrimSpace (KeyHash k) = KeyHash k \<and>
     TrimSpace (KeyPreview k) = KeyPreview k"

lemma quota_mode_names [simp]: "QuotaModeCycle \<noteq> []" "QuotaModeBalance \<noteq> []" "QuotaModeCycle \<noteq> QuotaModeBalance"
  "QuotaModeBalance \<noteq> QuotaModeCycle"
  by (simp_all add: QuotaModeCycle_def QuotaModeBalance_def)

lemma normalize_key_normal: "normalize_key seen k = Inr k' \<Longrightarrow> key_normal k' \<and> ID k' \<notin> set seen \<and> ID k' = TrimSpace (ID k)"
  unfolding normalize_key_def Let_def
  by (auto simp: key_normal_def key_ok_def BalanceMode_def split: if_splits)

lemma balance_name_normal [simp]: "TrimSpace QuotaModeBalance = QuotaModeBalance" "ToLower QuotaModeBalance = QuotaModeBalance"
  by code_simp+

lemma normalize_key_id: "key_normal k \<Longrightarrow> ID k \<notin> set seen \<Longrightarrow> normalize_key seen k = Inr k"
  by (cases k) (auto simp: normalize_key_def Let_def key_normal_def key_ok_def BalanceMode_def)

lemma normalize_keys_normal:
  "normalize_keys seen ks = Inr ks' \<Longrightarrow> (\<forall>k \<in> set ks'. key_normal k \<and> ID k \<notin> set seen) \<and> distinct (map ID ks') \<and>
     map ID ks' = map (\<lambda>k. TrimSpace (ID k)) ks"
proof (induction ks arbitrary: seen ks')
  case (Cons k ks)
  then obtain k' rest where r: "normalize_key seen k = Inr k'" "normalize_keys (ID k' # seen) ks = Inr rest" "ks' = k' # rest"
    by (auto split: sum.splits)
  have ih: "\<forall>k \<in> set rest. key_normal k \<and> ID k \<notin> set (ID k' # seen)" "distinct (map ID rest)"
    "map ID rest = map (\<lambda>k. TrimSpace (ID k)) ks" using Cons.IH [OF r(2)] by blast+
  from ih(1) have "ID k' \<notin> set (map ID rest)" by fastforce
  with ih normalize_key_normal [OF r(1)] show ?case
    unfolding r(3) list.map distinct.simps by auto
qed simp

lemma normalize_keys_id:
  "\<forall>k \<in> set ks. key_normal k \<and> ID k \<notin> set seen \<Longrightarrow> distinct (map ID ks) \<Longrightarrow> normalize_keys seen ks = Inr ks"
proof (induction ks arbitrary: seen)
  case (Cons k ks)
  have "ID x \<noteq> ID k" if "x \<in> set ks" for x using Cons.prems(2) that by (metis distinct.simps(2) image_eqI list.simps(9) set_map)
  then have "normalize_keys (ID k # seen) ks = Inr ks" by (intro Cons.IH) (use Cons.prems in auto)
  with Cons.prems show ?case by (simp add: normalize_key_id)
qed simp

lemma secretUnique_None:
  "secretUnique keys key = None \<longleftrightarrow>
     secret_of key = [] \<or> (\<forall>k \<in> set keys. ID k \<noteq> ID key \<longrightarrow> secret_of k \<noteq> secret_of key)"
  by (auto simp: secretUnique_def find_None_iff)

text \<open>C14: A stored key set is a fixed point: what normalization accepts has unique, trimmed,
  non-empty ids, valid limits and a known mode, in the order given, and normalizing it again, as
  every later write and load does, changes nothing.\<close>

theorem normalizeKeys_fixpoint:
  assumes "normalizeKeys ks = Inr ks'"
  shows "(\<forall>k \<in> set ks'. key_ok k) \<and> distinct (map ID ks') \<and> map ID ks' = map (\<lambda>k. TrimSpace (ID k)) ks \<and>
    normalizeKeys ks' = Inr ks'"
  using normalize_keys_normal [of "[]" ks ks'] normalize_keys_id [of ks' "[]"] assms
  by (auto simp: normalizeKeys_def key_normal_def)

lemma normalizeKeys_fixpoint_witness:
  "let k = \<lparr>ID = '' a'', KeyName = [], Enabled = True, KeyHash = [], KeyPreview = [], RPM = 0, DailyLimitUSD = Fin 0,
       WeeklyLimitUSD = Fin 0, MonthlyLimitUSD = Fin 0, QuotaMode = '' Balance'', CreatedAt = 5, UpdatedAt = 5\<rparr>;
     k' = k\<lparr>ID := ''a'', KeyName := ''a'', QuotaMode := ''balance''\<rparr>
   in normalizeKeys [k] = Inr [k'] \<and> key_ok k' \<and> normalizeKeys [k'] = Inr [k']"
proof -
  let ?k = "\<lparr>ID = '' a'', KeyName = [], Enabled = True, KeyHash = [], KeyPreview = [], RPM = 0, DailyLimitUSD = Fin 0,
       WeeklyLimitUSD = Fin 0, MonthlyLimitUSD = Fin 0, QuotaMode = '' Balance'', CreatedAt = 5, UpdatedAt = 5\<rparr>"
  have "normalizeKeys [?k] = Inr [?k\<lparr>ID := ''a'', KeyName := ''a'', QuotaMode := ''balance''\<rparr>]"
    by code_simp
  from normalizeKeys_fixpoint [OF this] this show ?thesis by (simp add: Let_def)
qed

end
