(* ===== verification/Ledger.thy ===== *)
theory Ledger
  imports Config
begin

text \<open>
  The usage ledger of internal/policy/ledger.go (with the balance record of balance.go and
  \<open>recordJournaled\<close> of handoff.go): quota periods and daily buckets per key, retention, the booking
  of a billed call, the registration and removal of keys, and the two watermarks.

  Every method is one operation on the ledger under its lock; \<open>now\<close> is the clock reading it makes.
  A date key is its day number and a watermark a day or none (the empty string), which is before
  every day. The revision is an unbounded counter (a uint64 in the code). The model maps of closed days are shared with a running history write in the code;
  here sharing has no effect because no operation changes a closed day (\<open>record_books_once\<close>).
\<close>

definition UsageRetentionDays :: int where
  "UsageRetentionDays = 90"


subsection \<open>State\<close>

record BalanceRequest =
  RequestID :: string
  AmountNano :: nano
  BalanceNano :: nano

record Balance =
  Nano :: nano
  NetCreditedNano :: nano
  Requests :: "BalanceRequest list"

definition zero_balance :: Balance where
  "zero_balance = \<lparr>Nano = 0, NetCreditedNano = 0, Requests = []\<rparr>"

type_synonym models = "(string, bucket) amap"

record KeyUsage =
  Cycles :: "cycles option"
  UsageBalance :: "Balance option"
  Days :: "(day, models) amap"

definition empty_usage :: KeyUsage where
  "empty_usage = \<lparr>Cycles = None, UsageBalance = None, Days = []\<rparr>"

record usageLedger =
  ledger_location :: location
  timezone :: string
  entries :: "(string, KeyUsage) amap"
  dirty :: bool
  revision :: nat
  historyThrough :: "day option"
  closedThrough :: "day option"
  historyStale :: bool
  lastEvictedDate :: "day option"

definition newUsageLedger :: "location \<Rightarrow> string \<Rightarrow> usageLedger" where
  "newUsageLedger loc zone = \<lparr>ledger_location = loc, timezone = zone, entries = [], dirty = False, revision = 0,
     historyThrough = None, closedThrough = None, historyStale = False, lastEvictedDate = None\<rparr>"

text \<open>\<open>date > mark\<close>, \<open>max\<close> of two marks, and \<open>shiftDate\<close> of a mark.\<close>

definition after_mark :: "day option \<Rightarrow> day \<Rightarrow> bool" where
  "after_mark mark d = (case mark of None \<Rightarrow> True | Some m \<Rightarrow> m < d)"

fun max_mark :: "day option \<Rightarrow> day option \<Rightarrow> day option" where
  "max_mark None b = b"
| "max_mark a None = a"
| "max_mark (Some a) (Some b) = Some (max a b)"

definition shiftDate :: "day \<Rightarrow> int \<Rightarrow> day" where
  "shiftDate d days = d + days"


subsection \<open>Retention\<close>

definition markDirtyLocked :: "usageLedger \<Rightarrow> usageLedger" where
  "markDirtyLocked l = l\<lparr>dirty := True, revision := revision l + 1\<rparr>"

definition dateKey :: "usageLedger \<Rightarrow> instant \<Rightarrow> day" where
  "dateKey l t = local_day (ledger_location l) t"

definition dateKeyOffset :: "usageLedger \<Rightarrow> instant \<Rightarrow> int \<Rightarrow> day" where
  "dateKeyOffset l t days = local_day (ledger_location l) (dayStart (ledger_location l) t days)"

definition evict_days :: "day \<Rightarrow> KeyUsage \<Rightarrow> KeyUsage" where
  "evict_days oldest u = u\<lparr>Days := filter (\<lambda>(d, _). \<not> d < oldest) (Days u)\<rparr>"

definition gone :: "KeyUsage \<Rightarrow> bool" where
  "gone u \<longleftrightarrow> Cycles u = None \<and> Days u = []"

definition evictExpiredLocked :: "instant \<Rightarrow> usageLedger \<Rightarrow> usageLedger \<times> bool" where
  "evictExpiredLocked now l =
     (let currentDate = dateKey l now
      in if Some currentDate = lastEvictedDate l then (l, False)
         else let oldest = dateKeyOffset l now (- (UsageRetentionDays - 1));
                  evicted = [d. (_, u) \<leftarrow> entries l, (d, _) \<leftarrow> Days u, d < oldest];
                  kept = map (\<lambda>(i, u). (i, evict_days oldest u)) (entries l);
                  changed = evicted \<noteq> [] \<or> list_ex (\<lambda>(_, u). gone u) kept;
                  l = l\<lparr>lastEvictedDate := Some currentDate,
                        historyStale := historyStale l \<or> list_ex (\<lambda>d. \<not> after_mark (historyThrough l) d) evicted,
                        entries := filter (\<lambda>(_, u). \<not> gone u) kept\<rparr>
              in (if changed then markDirtyLocked l else l, changed))"

definition evict :: "instant \<Rightarrow> usageLedger \<Rightarrow> usageLedger" where
  "evict now l = fst (evictExpiredLocked now l)"

definition ledger_load :: "instant \<Rightarrow> (string, KeyUsage) amap \<Rightarrow> day option \<Rightarrow> usageLedger \<Rightarrow> usageLedger" where
  "ledger_load now keys through l = evict now (l\<lparr>entries := keys, historyThrough := through, closedThrough := through,
     historyStale := False, lastEvictedDate := None, dirty := False\<rparr>)"


subsection \<open>Booking\<close>

definition openDateLocked :: "usageLedger \<Rightarrow> instant \<Rightarrow> day" where
  "openDateLocked l now = (if after_mark (closedThrough l) (dateKey l now) then dateKey l now
     else case closedThrough l of Some c \<Rightarrow> shiftDate c 1 | None \<Rightarrow> dateKey l now)"

definition reportEndLocked :: "usageLedger \<Rightarrow> instant \<Rightarrow> day" where
  "reportEndLocked l now = (case closedThrough l of None \<Rightarrow> dateKey l now | Some c \<Rightarrow> max (dateKey l now) (shiftDate c 1))"

definition usage_of :: "usageLedger \<Rightarrow> string \<Rightarrow> KeyUsage" where
  "usage_of l kid = (case aget (entries l) kid of Some u \<Rightarrow> u | None \<Rightarrow> empty_usage)"

definition book_cycle :: "string \<Rightarrow> bucket \<Rightarrow> cycle \<Rightarrow> cycle" where
  "book_cycle model delta c = c\<lparr>ByModel := book bucket_add zero_bucket model delta (ByModel c)\<rparr>"

definition book_cycles :: "(cycle \<Rightarrow> bool) \<Rightarrow> string \<Rightarrow> bucket \<Rightarrow> cycles \<Rightarrow> cycles" where
  "book_cycles started model delta cs = fold (\<lambda>w cs.
     if started (cycle_of cs w) then set_cycle w (book_cycle model delta (cycle_of cs w)) cs else cs) quotaWindows cs"

definition deduct_balance :: "bucket \<Rightarrow> Balance option \<Rightarrow> Balance option" where
  "deduct_balance delta b = (let b = (case b of Some b \<Rightarrow> b | None \<Rightarrow> zero_balance)
     in Some (b\<lparr>Nano := wrap64 (Nano b - ChargedNano delta)\<rparr>))"

definition book_day :: "day \<Rightarrow> string \<Rightarrow> bucket \<Rightarrow> KeyUsage \<Rightarrow> KeyUsage" where
  "book_day d model delta u =
     (let models = (case aget (Days u) d of Some m \<Rightarrow> m | None \<Rightarrow> [])
      in u\<lparr>Days := aset d (book bucket_add zero_bucket model delta models) (Days u)\<rparr>)"

text \<open>The part of a record that needs the key's periods; \<open>started\<close> says which periods count it.\<close>

definition book_periods :: "location \<Rightarrow> instant \<Rightarrow> (cycle \<Rightarrow> bool) \<Rightarrow> string \<Rightarrow> bucket \<Rightarrow> bool \<Rightarrow> KeyUsage \<Rightarrow> KeyUsage" where
  "book_periods loc now started model delta deduct u = (case Cycles u of
     None \<Rightarrow> u
   | Some cs \<Rightarrow> u\<lparr>Cycles := Some (book_cycles started model delta (fst (advanceCyclesLocked loc cs now))),
                  UsageBalance := (if deduct then deduct_balance delta (UsageBalance u) else UsageBalance u)\<rparr>)"

definition record_usage :: "instant \<Rightarrow> string \<Rightarrow> string \<Rightarrow> bucket \<Rightarrow> bool \<Rightarrow> usageLedger \<Rightarrow> usageLedger" where
  "record_usage now kid model delta deduct l =
     (let u = book_periods (ledger_location l) now (\<lambda>_. True) model delta deduct (usage_of l kid);
          u = book_day (openDateLocked l now) model delta u
      in markDirtyLocked (evict now (l\<lparr>entries := aset kid u (entries l)\<rparr>)))"

definition recordJournaled :: "instant \<Rightarrow> string \<Rightarrow> string \<Rightarrow> bucket \<Rightarrow> bool \<Rightarrow> instant \<Rightarrow> usageLedger \<Rightarrow> usageLedger" where
  "recordJournaled now kid model delta deduct t l =
     (let t = (if IsZero t \<or> now < t then now else t);
          u = book_periods (ledger_location l) now (\<lambda>c. \<not> t < StartedAt c) model delta deduct (usage_of l kid);
          u = book_day (openDateLocked l t) model delta u
      in markDirtyLocked (evict now (l\<lparr>entries := aset kid u (entries l)\<rparr>)))"


subsection \<open>Keys\<close>

definition openCyclesLocked :: "KeyConfig \<Rightarrow> instant \<Rightarrow> usageLedger \<Rightarrow> usageLedger" where
  "openCyclesLocked key now l =
     (let u = usage_of l (ID key);
          fresh = (Cycles u = None);
          cs = (case Cycles u of Some cs \<Rightarrow> cs
                | None \<Rightarrow> newCycles (ledger_location l) (if IsZero (CreatedAt key) then now else CreatedAt key) ''initial'');
          (cs', advanced) = advanceCyclesLocked (ledger_location l) cs now;
          l = l\<lparr>entries := aset (ID key) (u\<lparr>Cycles := Some cs'\<rparr>) (entries l)\<rparr>;
          l = (if fresh then markDirtyLocked l else l)
      in if advanced then markDirtyLocked l else l)"

definition forget_entry :: "string \<Rightarrow> KeyUsage \<Rightarrow> usageLedger \<Rightarrow> usageLedger" where
  "forget_entry kid u l =
     (let u = u\<lparr>Cycles := None, UsageBalance := None\<rparr>
      in markDirtyLocked (l\<lparr>entries := (if Days u = [] then adel kid (entries l) else aset kid u (entries l))\<rparr>))"

definition syncCycles :: "KeyConfig list \<Rightarrow> instant \<Rightarrow> usageLedger \<Rightarrow> usageLedger" where
  "syncCycles keys now l =
     (let l = fold (\<lambda>k l. openCyclesLocked k now l) keys l
      in fold (\<lambda>(kid, u) l. if kid \<in> ID ` set keys \<or> Cycles u = None \<and> UsageBalance u = None then l
           else forget_entry kid u l) (entries l) l)"

text \<open>The amounts it returns are those of the periods at the time and the balance.\<close>

definition forgetKey :: "instant \<Rightarrow> string \<Rightarrow> usageLedger \<Rightarrow> usageLedger \<times> nano \<times> nano \<times> nano \<times> nano" where
  "forgetKey now kid l = (case aget (entries l) kid of
     None \<Rightarrow> (l, 0, 0, 0, 0)
   | Some u \<Rightarrow>
       if Cycles u = None \<and> UsageBalance u = None then (l, 0, 0, 0, 0)
       else let (daily, weekly, monthly) = (case Cycles u of
                  None \<Rightarrow> (0, 0, 0)
                | Some cs \<Rightarrow> let cs = fst (advanceCyclesLocked (ledger_location l) cs now)
                             in (used (Daily cs), used (Weekly cs), used (Monthly cs)));
                balance = (case UsageBalance u of None \<Rightarrow> 0 | Some b \<Rightarrow> Nano b)
            in (forget_entry kid u l, daily, weekly, monthly, balance))"

text \<open>The key's periods rolled forward, stored; a key without periods gets fresh ones that are not
  stored.\<close>

definition currentCyclesLocked :: "string \<Rightarrow> instant \<Rightarrow> usageLedger \<Rightarrow> usageLedger \<times> cycles" where
  "currentCyclesLocked kid now l = (case aget (entries l) kid of
     Some u \<Rightarrow> (case Cycles u of
         Some cs \<Rightarrow> (let (cs', advanced) = advanceCyclesLocked (ledger_location l) cs now;
                         l = l\<lparr>entries := aset kid (u\<lparr>Cycles := Some cs'\<rparr>) (entries l)\<rparr>
                     in (if advanced then markDirtyLocked l else l, cs'))
       | None \<Rightarrow> (l, newCycles (ledger_location l) now ''initial''))
   | None \<Rightarrow> (l, newCycles (ledger_location l) now ''initial''))"

definition reportRange :: "instant \<Rightarrow> int \<Rightarrow> usageLedger \<Rightarrow> usageLedger \<times> day \<times> day" where
  "reportRange now n l = (let l = evict now l; to = reportEndLocked l now in (l, shiftDate to (- (n - 1)), to))"


subsection \<open>The ledger as a table of buckets\<close>

text \<open>The abstract view of the daily history: a bucket for every key, day and model.\<close>

definition models_bucket :: "models option \<Rightarrow> string \<Rightarrow> bucket" where
  "models_bucket ms model = (case ms of None \<Rightarrow> zero_bucket
     | Some ms \<Rightarrow> (case aget ms model of None \<Rightarrow> zero_bucket | Some b \<Rightarrow> b))"

definition day_bucket :: "KeyUsage \<Rightarrow> day \<Rightarrow> string \<Rightarrow> bucket" where
  "day_bucket u d model = models_bucket (aget (Days u) d) model"

definition ledger_bucket :: "usageLedger \<Rightarrow> string \<Rightarrow> day \<Rightarrow> string \<Rightarrow> bucket" where
  "ledger_bucket l kid d model = day_bucket (usage_of l kid) d model"

definition models_ok :: "models \<Rightarrow> bool" where
  "models_ok ms \<longleftrightarrow> amap_ok ms \<and> (\<forall>b \<in> snd ` set ms. bucket_ok b)"

definition usage_ok :: "KeyUsage \<Rightarrow> bool" where
  "usage_ok u \<longleftrightarrow> amap_ok (Days u) \<and> (\<forall>ms \<in> snd ` set (Days u). models_ok ms) \<and>
     (\<forall>cs w. Cycles u = Some cs \<longrightarrow> w \<in> set quotaWindows \<longrightarrow> models_ok (ByModel (cycle_of cs w)))"

definition mark_le :: "day option \<Rightarrow> day option \<Rightarrow> bool" where
  "mark_le a b \<longleftrightarrow> (\<forall>d. after_mark b d \<longrightarrow> after_mark a d)"

definition ledger_ok :: "usageLedger \<Rightarrow> bool" where
  "ledger_ok l \<longleftrightarrow> amap_ok (entries l) \<and> (\<forall>u \<in> snd ` set (entries l). usage_ok u) \<and>
     mark_le (historyThrough l) (closedThrough l)"

text \<open>The oldest day retention keeps.\<close>

definition oldestKept :: "usageLedger \<Rightarrow> instant \<Rightarrow> day" where
  "oldestKept l now = dateKeyOffset l now (- (UsageRetentionDays - 1))"

lemma oldestKept_regular: "regular (ledger_location l) \<Longrightarrow> oldestKept l now = dateKey l now - 89"
  by (simp add: oldestKept_def dateKeyOffset_def dateKey_def dayStart_boundary(2) UsageRetentionDays_def)

lemma models_ok_Nil [simp]: "models_ok []"
  by (simp add: models_ok_def)

lemma usage_ok_empty [simp]: "usage_ok empty_usage"
  by (simp add: usage_ok_def empty_usage_def)

lemma in_values: "aget m k = Some v \<Longrightarrow> v \<in> snd ` set m"
  by (metis image_eqI map_of_SomeD snd_conv)

lemma values_aset: "x \<in> snd ` set (aset k y m) \<Longrightarrow> x = y \<or> x \<in> snd ` set m"
  by (induction m) (auto split: if_splits)

lemma values_adel: "x \<in> snd ` set (adel k m) \<Longrightarrow> x \<in> snd ` set m"
  by (auto simp: AList.delete_eq)

lemma usage_of_ok: "ledger_ok l \<Longrightarrow> usage_ok (usage_of l kid)"
  by (auto simp: ledger_ok_def usage_of_def split: option.splits dest: in_values)

lemma models_bucket_ok: "(\<And>m. ms = Some m \<Longrightarrow> models_ok m) \<Longrightarrow> bucket_ok (models_bucket ms model)"
proof (cases ms)
  case (Some m)
  assume "\<And>m. ms = Some m \<Longrightarrow> models_ok m"
  with Some have "\<forall>b \<in> snd ` set m. bucket_ok b" by (simp add: models_ok_def)
  then have "aget m model = Some b \<Longrightarrow> bucket_ok b" for b using in_values by metis
  then show ?thesis using Some by (simp add: models_bucket_def split: option.splits)
qed (simp add: models_bucket_def)

lemma ledger_bucket_ok: "ledger_ok l \<Longrightarrow> bucket_ok (ledger_bucket l kid d model)"
  using usage_of_ok [of l kid] unfolding ledger_bucket_def day_bucket_def
  by (intro models_bucket_ok) (auto simp: usage_ok_def dest: in_values)


subsection \<open>Retention keeps the open window\<close>

lemma evict_fields [simp]:
  "ledger_location (evict now l) = ledger_location l" "closedThrough (evict now l) = closedThrough l"
  "historyThrough (evict now l) = historyThrough l" "timezone (evict now l) = timezone l"
  by (simp_all add: evict_def evictExpiredLocked_def Let_def markDirtyLocked_def)

lemma markDirty_fields [simp]:
  "ledger_location (markDirtyLocked l) = ledger_location l" "closedThrough (markDirtyLocked l) = closedThrough l"
  "historyThrough (markDirtyLocked l) = historyThrough l" "entries (markDirtyLocked l) = entries l"
  "timezone (markDirtyLocked l) = timezone l" "historyStale (markDirtyLocked l) = historyStale l"
  "lastEvictedDate (markDirtyLocked l) = lastEvictedDate l" "dirty (markDirtyLocked l)"
  by (simp_all add: markDirtyLocked_def)

lemma usage_of_markDirty [simp]: "usage_of (markDirtyLocked l) kid = usage_of l kid"
  by (simp add: usage_of_def)

lemma ledger_bucket_markDirty [simp]: "ledger_bucket (markDirtyLocked l) kid d m = ledger_bucket l kid d m"
  by (simp add: ledger_bucket_def)

lemma evict_entries:
  "entries (evict now l) = (if Some (dateKey l now) = lastEvictedDate l then entries l
     else filter (\<lambda>(_, u). \<not> gone u) (map (\<lambda>(i, u). (i, evict_days (oldestKept l now) u)) (entries l)))"
  by (simp add: evict_def evictExpiredLocked_def oldestKept_def Let_def)

lemma aget_evict:
  assumes "amap_ok (entries l)" "Some (dateKey l now) \<noteq> lastEvictedDate l"
  shows "aget (entries (evict now l)) kid = (case aget (entries l) kid of None \<Rightarrow> None
     | Some u \<Rightarrow> if gone (evict_days (oldestKept l now) u) then None else Some (evict_days (oldestKept l now) u))"
  using assms by (simp add: evict_entries aget_filter aget_map_values split: option.splits)

lemma day_bucket_evict:
  "amap_ok (Days u) \<Longrightarrow> day_bucket (evict_days c u) d m = (if d < c then zero_bucket else day_bucket u d m)"
  by (simp add: day_bucket_def evict_days_def aget_filter models_bucket_def split: option.splits)

lemma evict_usage:
  assumes "amap_ok (entries l)"
  shows "usage_of (evict now l) kid =
    (if Some (dateKey l now) = lastEvictedDate l then usage_of l kid
     else let u = evict_days (oldestKept l now) (usage_of l kid) in if gone u then empty_usage else u)"
proof (cases "Some (dateKey l now) = lastEvictedDate l")
  case True
  then show ?thesis by (simp add: usage_of_def evict_entries)
next
  case False
  have "gone (evict_days c empty_usage)" for c by (simp add: gone_def evict_days_def empty_usage_def)
  with False show ?thesis by (simp add: usage_of_def aget_evict [OF assms False] Let_def split: option.splits)
qed

lemma evict_bucket:
  assumes "ledger_ok l"
  shows "ledger_bucket (evict now l) kid d m =
    (if Some (dateKey l now) \<noteq> lastEvictedDate l \<and> d < oldestKept l now then zero_bucket else ledger_bucket l kid d m)"
proof -
  have a: "amap_ok (Days (usage_of l kid))" using usage_of_ok [OF assms] by (simp add: usage_ok_def)
  have e: "amap_ok (entries l)" using assms by (simp add: ledger_ok_def)
  have g: "gone u \<Longrightarrow> day_bucket u d m = zero_bucket" for u
    by (simp add: gone_def day_bucket_def models_bucket_def)
  have z: "day_bucket empty_usage d m = zero_bucket"
    by (simp add: day_bucket_def empty_usage_def models_bucket_def)
  have "day_bucket (let u = evict_days c v in if gone u then empty_usage else u) d m = day_bucket (evict_days c v) d m" for c v
    using g z by (simp add: Let_def)
  then show ?thesis
    using day_bucket_evict [OF a, of "oldestKept l now" d m] by (simp add: ledger_bucket_def evict_usage [OF e])
qed

lemma evict_kept:
  "ledger_ok l \<Longrightarrow> oldestKept l now \<le> d \<Longrightarrow> ledger_bucket (evict now l) kid d m = ledger_bucket l kid d m"
  by (simp add: evict_bucket)

lemma evict_Cycles:
  assumes "amap_ok (entries l)"
  shows "Cycles (usage_of (evict now l) kid) = Cycles (usage_of l kid)"
  by (simp add: evict_usage [OF assms] Let_def evict_days_def gone_def empty_usage_def)

lemma evict_days_ok: "usage_ok u \<Longrightarrow> usage_ok (evict_days c u)"
  by (auto simp: usage_ok_def evict_days_def)

lemma evict_ok:
  assumes "ledger_ok l"
  shows "ledger_ok (evict now l)"
proof -
  have "amap_ok (entries (evict now l))" using assms by (simp add: evict_entries ledger_ok_def)
  moreover have "usage_ok u" if "u \<in> snd ` set (entries (evict now l))" for u
    using that assms evict_days_ok by (fastforce simp: evict_entries ledger_ok_def split: if_splits)
  ultimately show ?thesis using assms by (simp add: ledger_ok_def)
qed


subsection \<open>Booking\<close>

lemma models_bucket_book:
  "models_bucket (Some (book bucket_add zero_bucket m delta (case ms of Some x \<Rightarrow> x | None \<Rightarrow> []))) x =
     (if x = m then bucket_add (models_bucket ms m) delta else models_bucket ms x)"
  by (auto simp: models_bucket_def bucket_sum.book_get split: option.splits)

lemma day_bucket_book:
  "day_bucket (book_day d m delta u) e x =
     (if e = d \<and> x = m then bucket_add (day_bucket u d m) delta else day_bucket u e x)"
  using models_bucket_book [of m delta "aget (Days u) d" x]
  by (auto simp: day_bucket_def book_day_def Let_def)

lemma models_ok_book: "models_ok ms \<Longrightarrow> models_ok (book bucket_add zero_bucket m delta ms)"
  using bucket_sum.book_ok [of ms m delta] bucket_sum.book_values_ok [of ms m delta]
  by (simp add: models_ok_def)

lemma usage_ok_book_day: "usage_ok u \<Longrightarrow> usage_ok (book_day d m delta u)"
proof -
  assume u: "usage_ok u"
  let ?ms = "case aget (Days u) d of Some m \<Rightarrow> m | None \<Rightarrow> []"
  have "models_ok ?ms" using u by (auto simp: usage_ok_def split: option.splits dest: in_values)
  then have "models_ok (book bucket_add zero_bucket m delta ?ms)" by (rule models_ok_book)
  then show ?thesis using u values_aset unfolding usage_ok_def book_day_def Let_def by fastforce
qed

lemma Days_book_periods [simp]: "Days (book_periods loc now started m delta deduct u) = Days u"
  by (simp add: book_periods_def split: option.splits)

lemma Cycles_book_day [simp]: "Cycles (book_day d m delta u) = Cycles u" "UsageBalance (book_day d m delta u) = UsageBalance u"
  by (simp_all add: book_day_def Let_def)

lemma cycle_of_book:
  "w \<in> set quotaWindows \<Longrightarrow> cycle_of (book_cycles started m delta cs) w =
     (if started (cycle_of cs w) then book_cycle m delta (cycle_of cs w) else cycle_of cs w)"
  by (auto simp: book_cycles_def quotaWindows_def)

lemma models_ok_advanced:
  "models_ok (ByModel c) \<Longrightarrow> models_ok (ByModel (advanced loc w now c))"
  by (auto simp: advanced_def advance_cycle_def Let_def split: option.splits)

lemma usage_ok_book_periods: "usage_ok u \<Longrightarrow> usage_ok (book_periods loc now started m delta deduct u)"
  by (auto simp: usage_ok_def book_periods_def cycle_of_book book_cycle_def cycle_of_advance
      models_ok_book models_ok_advanced split: option.splits)

lemma usage_of_aset [simp]:
  "usage_of (l\<lparr>entries := aset kid u (entries l)\<rparr>) k = (if k = kid then u else usage_of l k)"
  by (simp add: usage_of_def)

lemma ledger_ok_aset: "ledger_ok l \<Longrightarrow> usage_ok u \<Longrightarrow> ledger_ok (l\<lparr>entries := aset kid u (entries l)\<rparr>)"
  using values_aset by (fastforce simp: ledger_ok_def)

lemma ledger_ok_markDirty [simp]: "ledger_ok (markDirtyLocked l) \<longleftrightarrow> ledger_ok l"
  by (simp add: ledger_ok_def)

lemma used_eq: "used c = ChargedNano (total bucket_add zero_bucket (map snd (ByModel c)))"
  by (simp add: used_def total_ChargedNano comp_def split_def)

text \<open>Booking a call moves a period's consumption by exactly its charge.\<close>

lemma used_book: "models_ok (ByModel c) \<Longrightarrow> bucket_ok delta \<Longrightarrow>
    used (book_cycle m delta c) = nano_add (used c) (ChargedNano delta)"
  using bucket_sum.total_book [of "ByModel c" delta m] by (simp add: used_eq book_cycle_def models_ok_def)

lemma openDate_open: "after_mark (closedThrough l) (openDateLocked l t)"
  by (auto simp: openDateLocked_def after_mark_def shiftDate_def split: option.splits if_splits)

lemma openDate_today: "dateKey l t \<le> openDateLocked l t"
  by (auto simp: openDateLocked_def after_mark_def shiftDate_def split: option.splits if_splits)

text \<open>What a record leaves of the daily history, for every booking time.\<close>

lemma booked_bucket:
  assumes "ledger_ok l" "oldestKept l now \<le> d"
    and u_def: "u = book_day e m delta (book_periods (ledger_location l) now started m delta deduct (usage_of l kid))"
  shows "ledger_bucket (markDirtyLocked (evict now (l\<lparr>entries := aset kid u (entries l)\<rparr>))) k d x =
    (if k = kid \<and> d = e \<and> x = m then bucket_add (ledger_bucket l kid e m) delta else ledger_bucket l k d x)"
proof -
  let ?l = "l\<lparr>entries := aset kid u (entries l)\<rparr>"
  have "usage_ok u" unfolding u_def
    by (intro usage_ok_book_day usage_ok_book_periods usage_of_ok assms(1))
  with assms(1) have ok: "ledger_ok ?l" by (rule ledger_ok_aset)
  have "oldestKept ?l now = oldestKept l now" by (simp add: oldestKept_def dateKeyOffset_def)
  with assms(2) have "ledger_bucket (evict now ?l) k d x = ledger_bucket ?l k d x"
    by (intro evict_kept [OF ok]) simp
  then show ?thesis by (simp add: ledger_bucket_def u_def day_bucket_book) (simp add: day_bucket_def)
qed

lemma booked_ok:
  assumes "ledger_ok l"
  shows "ledger_ok (markDirtyLocked (evict now (l\<lparr>entries := aset kid (book_day e m delta
    (book_periods (ledger_location l) now started m delta deduct (usage_of l kid))) (entries l)\<rparr>)))"
  unfolding ledger_ok_markDirty
  by (intro evict_ok ledger_ok_aset assms usage_ok_book_day usage_ok_book_periods usage_of_ok)

lemma record_ok: "ledger_ok l \<Longrightarrow> ledger_ok (record_usage now kid m delta deduct l)"
  unfolding record_usage_def Let_def by (rule booked_ok)

lemma recordJournaled_ok: "ledger_ok l \<Longrightarrow> ledger_ok (recordJournaled now kid m delta deduct t l)"
  unfolding recordJournaled_def Let_def by (rule booked_ok)

text \<open>C6: One call is booked once: within retention a record changes exactly one bucket of the
  daily history, the one of its key and model on the open day, by exactly the call. The open day
  is never a closed one, so no record writes a day a history write may be reading.\<close>

theorem record_books_once:
  assumes "ledger_ok l" "oldestKept l now \<le> d"
  shows "ledger_bucket (record_usage now kid m delta deduct l) k d x =
    (if k = kid \<and> d = openDateLocked l now \<and> x = m then bucket_add (ledger_bucket l k d x) delta else ledger_bucket l k d x)
    \<and> after_mark (closedThrough l) (openDateLocked l now) \<and> dateKey l now \<le> openDateLocked l now"
  using booked_bucket [OF assms refl] openDate_open openDate_today
  unfolding record_usage_def Let_def by auto

lemma record_books_once_witness:
  "let l = newUsageLedger UTC ''UTC''; delta = zero_bucket\<lparr>Calls := 1, ChargedNano := 5\<rparr>
   in ledger_bucket (record_usage 0 ''k'' ''m'' delta False l) ''k'' 0 ''m'' = delta"
proof -
  let ?l = "newUsageLedger UTC ''UTC''" and ?delta = "zero_bucket\<lparr>Calls := 1, ChargedNano := 5\<rparr>"
  have ok: "ledger_ok ?l" by (simp add: newUsageLedger_def ledger_ok_def mark_le_def)
  have day: "dateKey ?l 0 = 0" by (simp add: newUsageLedger_def dateKey_def local_day_def unix_sec_def loc_offset_eq UTC_def)
  have "oldestKept ?l 0 \<le> 0" using oldestKept_regular [of ?l 0] day by (simp add: newUsageLedger_def regular_UTC)
  note r = record_books_once [OF ok this, of "''k''" "''m''" ?delta False "''k''" "''m''"]
  have op: "openDateLocked ?l 0 = 0" unfolding openDateLocked_def day by (simp add: newUsageLedger_def after_mark_def)
  have z: "ledger_bucket ?l ''k'' 0 ''m'' = zero_bucket"
    by (simp add: newUsageLedger_def ledger_bucket_def usage_of_def day_bucket_def empty_usage_def models_bucket_def)
  have "bucket_add zero_bucket ?delta = ?delta" by (rule bucket_sum.zero_left) (simp add: bucket_ok_def zero_bucket_def int64_def)
  with r show ?thesis unfolding op z Let_def by simp
qed

lemma record_Cycles:
  assumes "ledger_ok l"
  shows "Cycles (usage_of (record_usage now kid m delta deduct l) k) =
    (if k = kid then map_option (\<lambda>cs. book_cycles (\<lambda>_. True) m delta (fst (advanceCyclesLocked (ledger_location l) cs now))) (Cycles (usage_of l kid))
     else Cycles (usage_of l k))"
proof -
  let ?u = "book_day (openDateLocked l now) m delta (book_periods (ledger_location l) now (\<lambda>_. True) m delta deduct (usage_of l kid))"
  have "amap_ok (entries (l\<lparr>entries := aset kid ?u (entries l)\<rparr>))" using assms by (simp add: ledger_ok_def)
  from evict_Cycles [OF this] show ?thesis
    by (simp add: record_usage_def Let_def book_periods_def split: option.splits)
qed

text \<open>C9: A record counts in every current period: each of the key's periods is first rolled
  forward to now (so it contains now), then holds exactly its consumption plus the charge; a key
  without periods gets none, and no other key's periods change.\<close>

theorem record_counts_periods:
  assumes "ledger_ok l" "regular (ledger_location l)" "Cycles (usage_of l kid) = Some cs" "bucket_ok delta" "w \<in> set quotaWindows"
  shows "\<exists>cs'. Cycles (usage_of (record_usage now kid m delta deduct l) kid) = Some cs' \<and>
    used (cycle_of cs' w) = nano_add (used (advanced (ledger_location l) w now (cycle_of cs w))) (ChargedNano delta) \<and>
    now < ResetsAt (cycle_of cs' w) \<and>
    (k \<noteq> kid \<longrightarrow> Cycles (usage_of (record_usage now kid m delta deduct l) k) = Cycles (usage_of l k))"
proof -
  let ?a = "fst (advanceCyclesLocked (ledger_location l) cs now)"
  let ?cs = "book_cycles (\<lambda>_. True) m delta ?a"
  have "models_ok (ByModel (cycle_of cs w))"
    using usage_of_ok [OF assms(1), of kid] assms(3,5) by (simp add: usage_ok_def)
  then have "models_ok (ByModel (cycle_of ?a w))"
    by (simp add: cycle_of_advance [OF assms(5)] models_ok_advanced)
  from used_book [OF this assms(4)] have
    "used (cycle_of ?cs w) = nano_add (used (advanced (ledger_location l) w now (cycle_of cs w))) (ChargedNano delta)"
    using assms(5) by (simp add: cycle_of_book cycle_of_advance)
  moreover have "now < ResetsAt (cycle_of ?cs w)"
    using advanced_running [OF assms(2), of now w "cycle_of cs w"] assms(5)
    by (simp add: cycle_of_book cycle_of_advance book_cycle_def cycle_running_def)
  moreover have "Cycles (usage_of (record_usage now kid m delta deduct l) kid) = Some ?cs"
    using record_Cycles [OF assms(1)] assms(3) by simp
  moreover have "k \<noteq> kid \<longrightarrow> Cycles (usage_of (record_usage now kid m delta deduct l) k) = Cycles (usage_of l k)"
    using record_Cycles [OF assms(1), of now kid m delta deduct k] by simp
  ultimately show ?thesis by blast
qed

text \<open>A ledger with one key, created on the first day of 1970 and billed nothing yet.\<close>

definition sample_cycles :: cycles where
  "sample_cycles = newCycles UTC 0 ''initial''"

definition sample_ledger :: usageLedger where
  "sample_ledger = (newUsageLedger UTC ''UTC'')\<lparr>entries := [(''k'', empty_usage\<lparr>Cycles := Some sample_cycles\<rparr>)]\<rparr>"

lemma sample_cycles_models [simp]: "w \<in> set quotaWindows \<Longrightarrow> ByModel (cycle_of sample_cycles w) = []"
  by (auto simp: sample_cycles_def newCycles_def new_cycle_def quotaWindows_def Let_def)

lemma sample_ledger_ok: "ledger_ok sample_ledger" "regular (ledger_location sample_ledger)"
    "Cycles (usage_of sample_ledger ''k'') = Some sample_cycles"
  by (simp_all add: sample_ledger_def newUsageLedger_def ledger_ok_def usage_ok_def empty_usage_def mark_le_def
      amap_ok_def regular_UTC usage_of_def)

lemma record_counts_periods_witness:
  "\<exists>cs'. Cycles (usage_of (record_usage 5 ''k'' ''m'' (zero_bucket\<lparr>ChargedNano := 5\<rparr>) False sample_ledger) ''k'') = Some cs'
     \<and> 5 < ResetsAt (cycle_of cs' UsageResetDaily)"
proof -
  have "bucket_ok (zero_bucket\<lparr>ChargedNano := 5\<rparr>)" by (simp add: bucket_ok_def zero_bucket_def int64_def)
  moreover have "UsageResetDaily \<in> set quotaWindows" by (simp add: quotaWindows_def)
  ultimately show ?thesis
    using record_counts_periods [OF sample_ledger_ok, of "zero_bucket\<lparr>ChargedNano := 5\<rparr>" UsageResetDaily 5 "''m''" False "''k''"]
    by blast
qed



subsection \<open>What an operation may do to the memory\<close>

text \<open>The contract of every operation of the ledger but a flush: closed days within retention keep
  their buckets, the marks stay, and every change raises the revision and marks the ledger dirty.\<close>

definition mem_rel :: "instant \<Rightarrow> usageLedger \<Rightarrow> usageLedger \<Rightarrow> bool" where
  "mem_rel now l l' \<longleftrightarrow> ledger_ok l' \<and> ledger_location l' = ledger_location l \<and> timezone l' = timezone l \<and>
     historyThrough l' = historyThrough l \<and> closedThrough l' = closedThrough l \<and>
     (\<forall>k d m. \<not> after_mark (closedThrough l) d \<longrightarrow> oldestKept l now \<le> d \<longrightarrow> ledger_bucket l' k d m = ledger_bucket l k d m) \<and>
     (if revision l' = revision l then
        dirty l' = dirty l \<and> (\<forall>k. Cycles (usage_of l' k) = Cycles (usage_of l k) \<and>
          UsageBalance (usage_of l' k) = UsageBalance (usage_of l k) \<and> (\<forall>d m. ledger_bucket l' k d m = ledger_bucket l k d m))
      else revision l < revision l' \<and> dirty l')"

lemma mem_rel_refl: "ledger_ok l \<Longrightarrow> mem_rel now l l"
  by (simp add: mem_rel_def)

lemma oldestKept_cong: "ledger_location l' = ledger_location l \<Longrightarrow> oldestKept l' now = oldestKept l now"
  by (simp add: oldestKept_def dateKeyOffset_def)

lemma mem_rel_trans: "mem_rel now l l' \<Longrightarrow> mem_rel now l' l'' \<Longrightarrow> mem_rel now l l''"
  using oldestKept_cong [of l' l now] unfolding mem_rel_def by (auto split: if_splits)

text \<open>An operation that changes an open day or the periods, and marks the ledger.\<close>

lemma mem_rel_dirty:
  assumes "ledger_ok l'" "ledger_location l' = ledger_location l" "timezone l' = timezone l"
    "historyThrough l' = historyThrough l" "closedThrough l' = closedThrough l" "dirty l'" "revision l < revision l'"
    "\<And>k d m. \<not> after_mark (closedThrough l) d \<Longrightarrow> oldestKept l now \<le> d \<Longrightarrow> ledger_bucket l' k d m = ledger_bucket l k d m"
  shows "mem_rel now l l'"
  using assms by (simp add: mem_rel_def)

lemma evict_revision: "revision (evict now l) = revision l + (if snd (evictExpiredLocked now l) then 1 else 0)"
  by (simp add: evict_def evictExpiredLocked_def Let_def markDirtyLocked_def)

lemma evict_dirty: "dirty (evict now l) \<longleftrightarrow> dirty l \<or> snd (evictExpiredLocked now l)"
  by (auto simp: evict_def evictExpiredLocked_def Let_def markDirtyLocked_def)

text \<open>An eviction that reports no change keeps the entries.\<close>

lemma evict_unchanged:
  assumes "\<not> snd (evictExpiredLocked now l)"
  shows "entries (evict now l) = entries l"
proof (cases "Some (dateKey l now) = lastEvictedDate l")
  case False
  let ?o = "oldestKept l now"
  from assms False have none: "[d. (_, u) \<leftarrow> entries l, (d, _) \<leftarrow> Days u, d < ?o] = []"
    and stay: "\<not> list_ex (\<lambda>(_, u). gone u) (map (\<lambda>(i, u). (i, evict_days ?o u)) (entries l))"
    by (auto simp: evictExpiredLocked_def Let_def oldestKept_def)
  have "evict_days ?o u = u" if "(i, u) \<in> set (entries l)" for i u
  proof -
    have "\<not> d < ?o" if "(d, ms) \<in> set (Days u)" for d ms
    proof
      assume "d < ?o"
      with that \<open>(i, u) \<in> set (entries l)\<close> have "d \<in> set [d. (_, u) \<leftarrow> entries l, (d, _) \<leftarrow> Days u, d < ?o]" by force
      with none show False by simp
    qed
    then have "filter (\<lambda>(d, _). \<not> d < ?o) (Days u) = Days u" by (intro filter_True) auto
    then show ?thesis by (simp add: evict_days_def)
  qed
  then have same: "map (\<lambda>(i, u). (i, evict_days ?o u)) (entries l) = entries l"
    by (intro map_idI) auto
  then have "filter (\<lambda>(_, u). \<not> gone u) (entries l) = entries l"
    using stay by (intro filter_True) (auto simp: list_ex_iff)
  with same False show ?thesis by (simp add: evict_entries)
qed (simp add: evict_entries)

lemma mem_rel_evict: "ledger_ok l \<Longrightarrow> mem_rel now l (evict now l)"
proof -
  assume ok: "ledger_ok l"
  show ?thesis
  proof (cases "snd (evictExpiredLocked now l)")
    case True
    then show ?thesis
      by (intro mem_rel_dirty evict_ok ok) (simp_all add: evict_dirty evict_revision evict_kept [OF ok])
  next
    case False
    then show ?thesis using evict_ok [OF ok, of now]
      by (simp add: mem_rel_def evict_dirty evict_revision evict_unchanged usage_of_def ledger_bucket_def)
  qed
qed

lemma mem_rel_book:
  assumes "ledger_ok l" "after_mark (closedThrough l) e"
  shows "mem_rel now l (markDirtyLocked (evict now (l\<lparr>entries := aset kid (book_day e m delta
    (book_periods (ledger_location l) now started m delta deduct (usage_of l kid))) (entries l)\<rparr>)))"
proof (rule mem_rel_dirty)
  fix k d x
  assume "\<not> after_mark (closedThrough l) d" "oldestKept l now \<le> d"
  with booked_bucket [OF assms(1) this(2) refl, of kid e m delta started deduct k x] assms(2)
  show "ledger_bucket (markDirtyLocked (evict now (l\<lparr>entries := aset kid (book_day e m delta
    (book_periods (ledger_location l) now started m delta deduct (usage_of l kid))) (entries l)\<rparr>))) k d x = ledger_bucket l k d x"
    by auto
qed (use booked_ok [OF assms(1)] in \<open>simp_all add: markDirtyLocked_def evict_revision\<close>)

lemma mem_rel_record: "ledger_ok l \<Longrightarrow> mem_rel now l (record_usage now kid m delta deduct l)"
  unfolding record_usage_def Let_def by (intro mem_rel_book openDate_open)

lemma mem_rel_recordJournaled: "ledger_ok l \<Longrightarrow> mem_rel now l (recordJournaled now kid m delta deduct t l)"
  unfolding recordJournaled_def Let_def by (intro mem_rel_book openDate_open)

text \<open>Operations on the periods and the balance of one key.\<close>

lemma usage_ok_Cycles:
  "usage_ok u \<Longrightarrow> \<forall>w \<in> set quotaWindows. models_ok (ByModel (cycle_of cs w)) \<Longrightarrow> usage_ok (u\<lparr>Cycles := Some cs\<rparr>)"
  by (simp add: usage_ok_def)

lemma day_bucket_Cycles [simp]:
  "day_bucket (u\<lparr>Cycles := c\<rparr>) d m = day_bucket u d m" "day_bucket (u\<lparr>UsageBalance := b\<rparr>) d m = day_bucket u d m"
  by (simp_all add: day_bucket_def)

lemma ledger_bucket_aset:
  "day_bucket u d m = ledger_bucket l kid d m \<Longrightarrow>
     ledger_bucket (l\<lparr>entries := aset kid u (entries l)\<rparr>) k d m = ledger_bucket l k d m"
  by (auto simp: ledger_bucket_def)

lemma markDirty_pow:
  "ledger_location ((markDirtyLocked ^^ n) l) = ledger_location l" "timezone ((markDirtyLocked ^^ n) l) = timezone l"
  "historyThrough ((markDirtyLocked ^^ n) l) = historyThrough l" "closedThrough ((markDirtyLocked ^^ n) l) = closedThrough l"
  "entries ((markDirtyLocked ^^ n) l) = entries l" "revision ((markDirtyLocked ^^ n) l) = revision l + n"
  "dirty ((markDirtyLocked ^^ n) l) \<longleftrightarrow> dirty l \<or> 0 < n"
proof -
  show "revision ((markDirtyLocked ^^ n) l) = revision l + n" by (induction n) (simp_all add: markDirtyLocked_def)
qed (induction n; simp)+

lemma mem_rel_aset:
  assumes "ledger_ok l" "usage_ok u" "\<And>d m. day_bucket u d m = ledger_bucket l kid d m"
    "0 < n" "l' = (markDirtyLocked ^^ n) (l\<lparr>entries := aset kid u (entries l)\<rparr>)"
  shows "mem_rel now l l'"
proof -
  have x: "ledger_location l' = ledger_location l" "timezone l' = timezone l"
      "historyThrough l' = historyThrough l" "closedThrough l' = closedThrough l" "dirty l'" "revision l < revision l'"
      "entries l' = aset kid u (entries l)"
    using assms(4) by (simp_all add: assms(5) markDirty_pow)
  have "ledger_ok l'" using ledger_ok_aset [OF assms(1,2), of kid] x by (simp add: ledger_ok_def)
  moreover have "ledger_bucket l' k d m = ledger_bucket l k d m" for k d m
    using ledger_bucket_aset [of u d m l kid k] assms(3) x(7) by (simp add: ledger_bucket_def usage_of_def)
  ultimately show ?thesis using x by (intro mem_rel_dirty) simp_all
qed

end
