(* ===== verification/Flush.thy ===== *)
theory Flush
  imports Ledger
begin

text \<open>
  The persistence cuts of internal/policy/ledger.go: what a flush must write (\<open>planFlush\<close>), the
  snapshots it takes of the ledger, and what the ledger records once the writes are over
  (\<open>markFlushed\<close>).

  The lemmas say what the snapshots hold, as buckets per key, day and model, and that planning a
  flush changes the memory only as every operation may (\<open>mem_rel\<close>), beside closing days.
\<close>

record liveKey =
  liveCycles :: "cycles option"
  liveBalance :: "Balance option"
  liveDays :: "(day, models) amap"

type_synonym history_keys = "(string, (day, models) amap) amap"

text \<open>\<open>plan_historyThrough\<close> is the empty string (no day) when no history write is planned.\<close>

record flushPlan =
  plan_revision :: nat
  plan_through :: "day option"
  plan_historyThrough :: "day option"
  plan_history :: "history_keys option"
  plan_live :: "(string, liveKey) amap"

definition hasDaysInRangeLocked :: "day option \<Rightarrow> day \<Rightarrow> usageLedger \<Rightarrow> bool" where
  "hasDaysInRangeLocked after through l =
     list_ex (\<lambda>(_, u). list_ex (\<lambda>(d, ms). after_mark after d \<and> d \<le> through \<and> ms \<noteq> []) (Days u)) (entries l)"

definition live_days :: "day option \<Rightarrow> (day, models) amap \<Rightarrow> (day, models) amap" where
  "live_days through ds = filter (\<lambda>(d, ms). after_mark through d \<and> ms \<noteq> []) ds"

definition liveSnapshotLocked :: "day option \<Rightarrow> usageLedger \<Rightarrow> (string, liveKey) amap" where
  "liveSnapshotLocked through l = map (\<lambda>(i, u). (i, \<lparr>liveCycles = Cycles u, liveBalance = UsageBalance u,
     liveDays = live_days through (Days u)\<rparr>)) (entries l)"

definition historySnapshotLocked :: "day \<Rightarrow> usageLedger \<Rightarrow> history_keys" where
  "historySnapshotLocked through l = filter (\<lambda>(_, ds). ds \<noteq> [])
     (map (\<lambda>(i, u). (i, filter (\<lambda>(d, ms). d \<le> through \<and> ms \<noteq> []) (Days u))) (entries l))"

text \<open>The loop that rolls every key's periods forward; each key is one lookup of its current
  periods.\<close>

definition advance_all :: "instant \<Rightarrow> usageLedger \<Rightarrow> usageLedger" where
  "advance_all now l = fold (\<lambda>kid l. fst (currentCyclesLocked kid now l)) (akeys (entries l)) l"

definition planFlush :: "instant \<Rightarrow> usageLedger \<Rightarrow> usageLedger \<times> flushPlan option" where
  "planFlush now l0 =
     (let l = advance_all now (evict now l0);
          yesterday = dateKeyOffset l now (- 1);
          needHistory = historyStale l \<or>
            (after_mark (historyThrough l) yesterday \<and> hasDaysInRangeLocked (historyThrough l) yesterday l)
      in if \<not> dirty l \<and> \<not> needHistory then (l, None)
         else let plan = \<lparr>plan_revision = revision l, plan_through = historyThrough l, plan_historyThrough = None,
                    plan_history = None, plan_live = liveSnapshotLocked (historyThrough l) l\<rparr>
              in if needHistory then
                   (let through = (case historyThrough l of None \<Rightarrow> yesterday | Some h \<Rightarrow> max yesterday h)
                    in (l\<lparr>closedThrough := max_mark (closedThrough l) (Some through), historyStale := False\<rparr>,
                        Some (plan\<lparr>plan_historyThrough := Some through,
                                   plan_history := Some (historySnapshotLocked through l)\<rparr>)))
                 else (l, Some plan))"

definition markFlushed :: "flushPlan \<Rightarrow> bool \<Rightarrow> bool \<Rightarrow> usageLedger \<Rightarrow> usageLedger" where
  "markFlushed plan historyWritten liveWritten l =
     (let l = (if historyWritten then l\<lparr>historyThrough := plan_historyThrough plan\<rparr>
               else if plan_history plan \<noteq> None then l\<lparr>historyStale := True\<rparr> else l)
      in if liveWritten \<and> revision l = plan_revision plan then l\<lparr>dirty := False\<rparr> else l)"


subsection \<open>What the snapshots hold\<close>

definition live_bucket :: "(string, liveKey) amap \<Rightarrow> string \<Rightarrow> day \<Rightarrow> string \<Rightarrow> bucket" where
  "live_bucket ks kid d m = (case aget ks kid of None \<Rightarrow> zero_bucket | Some k \<Rightarrow> models_bucket (aget (liveDays k) d) m)"

definition history_bucket :: "history_keys \<Rightarrow> string \<Rightarrow> day \<Rightarrow> string \<Rightarrow> bucket" where
  "history_bucket ks kid d m = (case aget ks kid of None \<Rightarrow> zero_bucket | Some ds \<Rightarrow> models_bucket (aget ds d) m)"

definition live_meta :: "(string, liveKey) amap \<Rightarrow> string \<Rightarrow> cycles option \<times> Balance option" where
  "live_meta ks kid = (case aget ks kid of None \<Rightarrow> (None, None) | Some k \<Rightarrow> (liveCycles k, liveBalance k))"

definition ledger_meta :: "usageLedger \<Rightarrow> string \<Rightarrow> cycles option \<times> Balance option" where
  "ledger_meta l kid = (Cycles (usage_of l kid), UsageBalance (usage_of l kid))"

lemma models_bucket_filter:
  "amap_ok ds \<Longrightarrow> models_bucket (aget (filter (\<lambda>(d, ms). P d \<and> ms \<noteq> []) ds) d) m =
     (if P d then models_bucket (aget ds d) m else zero_bucket)"
  by (auto simp: aget_filter models_bucket_def split: option.splits)

lemma live_days_bucket:
  "amap_ok ds \<Longrightarrow> models_bucket (aget (live_days through ds) d) m =
     (if after_mark through d then models_bucket (aget ds d) m else zero_bucket)"
  unfolding live_days_def by (rule models_bucket_filter)

lemma Days_ok: "ledger_ok l \<Longrightarrow> amap_ok (Days (usage_of l kid))"
  using usage_of_ok [of l kid] by (simp add: usage_ok_def)

lemma models_bucket_None [simp]: "models_bucket None m = zero_bucket"
  by (simp add: models_bucket_def)

lemma aget_liveSnapshot: "aget (liveSnapshotLocked through l) kid = map_option (\<lambda>u. \<lparr>liveCycles = Cycles u,
    liveBalance = UsageBalance u, liveDays = live_days through (Days u)\<rparr>) (aget (entries l) kid)"
  by (simp add: liveSnapshotLocked_def aget_map_values)

lemma live_snapshot_bucket:
  "ledger_ok l \<Longrightarrow> live_bucket (liveSnapshotLocked through l) kid d m =
     (if after_mark through d then ledger_bucket l kid d m else zero_bucket)"
  using live_days_bucket [OF Days_ok [of l kid], of through d m]
  by (simp add: live_bucket_def aget_liveSnapshot ledger_bucket_def day_bucket_def usage_of_def empty_usage_def
      split: option.splits)

lemma live_snapshot_meta: "live_meta (liveSnapshotLocked through l) kid = ledger_meta l kid"
  by (simp add: live_meta_def aget_liveSnapshot ledger_meta_def usage_of_def empty_usage_def split: option.splits)

lemma live_snapshot_ok [simp]: "amap_ok (entries l) \<Longrightarrow> amap_ok (liveSnapshotLocked through l)"
  by (simp add: liveSnapshotLocked_def)

lemma history_snapshot_bucket:
  assumes "ledger_ok l"
  shows "history_bucket (historySnapshotLocked through l) kid d m =
    (if d \<le> through then ledger_bucket l kid d m else zero_bucket)"
proof -
  have a: "amap_ok (entries l)" using assms by (simp add: ledger_ok_def)
  let ?F = "\<lambda>u. filter (\<lambda>(d, ms). d \<le> through \<and> ms \<noteq> []) (Days u)"
  have g: "aget (historySnapshotLocked through l) kid = (case aget (entries l) kid of None \<Rightarrow> None
      | Some u \<Rightarrow> if ?F u = [] then None else Some (?F u))"
    using a by (simp add: historySnapshotLocked_def aget_filter aget_map_values split: option.splits)
  have "models_bucket (aget (?F (usage_of l kid)) d) m = (if d \<le> through then ledger_bucket l kid d m else zero_bucket)"
    using models_bucket_filter [OF Days_ok [OF assms], of "\<lambda>d. d \<le> through"] by (simp add: ledger_bucket_def day_bucket_def)
  moreover have "history_bucket (historySnapshotLocked through l) kid d m = models_bucket (aget (?F (usage_of l kid)) d) m"
  proof (cases "aget (entries l) kid")
    case None
    then show ?thesis by (simp add: history_bucket_def g usage_of_def empty_usage_def)
  next
    case (Some u)
    then show ?thesis by (cases "?F u") (simp_all add: history_bucket_def g usage_of_def)
  qed
  ultimately show ?thesis by simp
qed

text \<open>A history snapshot holds no day after its mark.\<close>

definition history_until :: "day \<Rightarrow> history_keys \<Rightarrow> bool" where
  "history_until through ks \<longleftrightarrow> amap_ok ks \<and> (\<forall>ds \<in> snd ` set ks. amap_ok ds \<and> (\<forall>d \<in> fst ` set ds. d \<le> through))"

lemma history_snapshot_until: "ledger_ok l \<Longrightarrow> history_until through (historySnapshotLocked through l)"
  by (auto simp: history_until_def historySnapshotLocked_def ledger_ok_def usage_ok_def)


subsection \<open>Planning keeps the memory\<close>

lemma currentCycles_fields [simp]:
  "ledger_location (fst (currentCyclesLocked kid now l)) = ledger_location l"
  "historyStale (fst (currentCyclesLocked kid now l)) = historyStale l"
  "lastEvictedDate (fst (currentCyclesLocked kid now l)) = lastEvictedDate l"
  by (auto simp: currentCyclesLocked_def Let_def split: option.splits prod.splits)

lemma aset_same: "aget m k = Some v \<Longrightarrow> aset k v m = m"
  by (induction m) auto

lemma mem_rel_current:
  assumes "ledger_ok l"
  shows "mem_rel now l (fst (currentCyclesLocked kid t l))"
proof (cases "aget (entries l) kid")
  case (Some u)
  show ?thesis
  proof (cases "Cycles u")
    case (Some cs)
    obtain cs' adv where a: "advanceCyclesLocked (ledger_location l) cs t = (cs', adv)" by fastforce
    have u: "usage_of l kid = u" using \<open>aget (entries l) kid = Some u\<close> by (simp add: usage_of_def)
    show ?thesis
    proof (cases adv)
      case True
      have "usage_ok (u\<lparr>Cycles := Some cs'\<rparr>)"
        using usage_of_ok [OF assms, of kid] a Some u cycle_of_advance [of _ "ledger_location l" cs t] models_ok_advanced
        by (intro usage_ok_Cycles) (auto simp: usage_ok_def)
      then show ?thesis
        using \<open>aget (entries l) kid = Some u\<close> Some a True u
        by (intro mem_rel_aset [OF assms, of "u\<lparr>Cycles := Some cs'\<rparr>" kid 1])
          (simp_all add: currentCyclesLocked_def ledger_bucket_def)
    next
      case False
      then have "cs' = cs" using advance_unchanged [of "ledger_location l" cs t] a by simp
      then have "u\<lparr>Cycles := Some cs'\<rparr> = u" using Some by (cases u) simp
      then have "fst (currentCyclesLocked kid t l) = l"
        using \<open>aget (entries l) kid = Some u\<close> Some a False by (simp add: currentCyclesLocked_def aset_same)
      then show ?thesis using mem_rel_refl [OF assms] by simp
    qed
  qed (use \<open>aget (entries l) kid = Some u\<close> mem_rel_refl [OF assms] in \<open>simp add: currentCyclesLocked_def\<close>)
qed (use mem_rel_refl [OF assms] in \<open>simp add: currentCyclesLocked_def\<close>)

lemma mem_rel_ok: "mem_rel now l l' \<Longrightarrow> ledger_ok l'"
  by (simp add: mem_rel_def)

lemma mem_rel_fold:
  assumes "\<And>x l. x \<in> set xs \<Longrightarrow> ledger_ok l \<Longrightarrow> mem_rel now l (f x l)" "ledger_ok l"
  shows "mem_rel now l (fold f xs l)"
  using assms
proof (induction xs arbitrary: l)
  case Nil
  then show ?case by (simp add: mem_rel_refl)
next
  case (Cons x xs)
  have s: "mem_rel now l (f x l)" using Cons.prems by simp
  then have "mem_rel now (f x l) (fold f xs (f x l))"
    by (intro Cons.IH) (use Cons.prems(1) mem_rel_ok in auto)
  with s show ?case by (auto intro: mem_rel_trans)
qed

lemma mem_rel_advance_all: "ledger_ok l \<Longrightarrow> mem_rel now l (advance_all t l)"
  unfolding advance_all_def by (intro mem_rel_fold mem_rel_current)

lemma mem_rel_plan_base: "ledger_ok l \<Longrightarrow> mem_rel now l (advance_all now (evict now l))"
  using mem_rel_evict [of l now] mem_rel_advance_all [of "evict now l" now now] mem_rel_trans evict_ok by blast

lemma mem_rel_openCycles:
  assumes "ledger_ok l"
  shows "mem_rel now l (openCyclesLocked key t l)"
proof -
  let ?u = "usage_of l (ID key)"
  let ?cs = "case Cycles ?u of Some cs \<Rightarrow> cs
      | None \<Rightarrow> newCycles (ledger_location l) (if IsZero (CreatedAt key) then t else CreatedAt key) ''initial''"
  obtain cs' adv where a: "advanceCyclesLocked (ledger_location l) ?cs t = (cs', adv)" by fastforce
  define n where "n = (if Cycles ?u = None then 1 else 0) + (if adv then 1 else (0 :: nat))"
  let ?l = "l\<lparr>entries := aset (ID key) (?u\<lparr>Cycles := Some cs'\<rparr>) (entries l)\<rparr>"
  have op: "openCyclesLocked key t l = (markDirtyLocked ^^ n) ?l"
    using a by (simp add: openCyclesLocked_def Let_def n_def)
  have "\<forall>w \<in> set quotaWindows. models_ok (ByModel (cycle_of ?cs w))"
    using usage_of_ok [OF assms, of "ID key"]
    by (auto simp: usage_ok_def newCycles_def new_cycle_def quotaWindows_def Let_def split: option.splits)
  then have "\<forall>w \<in> set quotaWindows. models_ok (ByModel (cycle_of cs' w))"
    using cycle_of_advance [of _ "ledger_location l" ?cs t] models_ok_advanced a by auto
  then have uok: "usage_ok (?u\<lparr>Cycles := Some cs'\<rparr>)" by (intro usage_ok_Cycles usage_of_ok assms)
  show ?thesis
  proof (cases "n = 0")
    case True
    then obtain cs where cs: "Cycles ?u = Some cs" "\<not> adv" by (auto simp: n_def split: if_splits)
    then have "cs' = cs" using advance_unchanged [of "ledger_location l" ?cs t] a by simp
    with cs have "?u\<lparr>Cycles := Some cs'\<rparr> = ?u" by (cases ?u) simp
    moreover have "aget (entries l) (ID key) = Some ?u"
      using cs(1) by (auto simp: usage_of_def empty_usage_def split: option.splits)
    ultimately have "openCyclesLocked key t l = l" using True by (simp add: op aset_same)
    then show ?thesis using mem_rel_refl [OF assms] by simp
  next
    case False
    then show ?thesis by (intro mem_rel_aset [OF assms uok, where kid = "ID key" and n = n]) (simp_all add: op ledger_bucket_def)
  qed
qed

text \<open>Planning a flush, beside the memory, closes days through the planned history mark.\<close>

lemma planFlush_cases:
  assumes "planFlush now l0 = (l', p)"
  defines "l \<equiv> advance_all now (evict now l0)"
  obtains (clean) "l' = l" "p = None" "\<not> dirty l"
    | (live) "l' = l" "p = Some \<lparr>plan_revision = revision l, plan_through = historyThrough l, plan_historyThrough = None,
         plan_history = None, plan_live = liveSnapshotLocked (historyThrough l) l\<rparr>" "dirty l"
    | (history) T where "after_mark (historyThrough l) T \<or> historyThrough l = Some T"
        "l' = l\<lparr>closedThrough := max_mark (closedThrough l) (Some T), historyStale := False\<rparr>"
        "p = Some \<lparr>plan_revision = revision l, plan_through = historyThrough l, plan_historyThrough = Some T,
         plan_history = Some (historySnapshotLocked T l), plan_live = liveSnapshotLocked (historyThrough l) l\<rparr>"
proof -
  let ?y = "dateKeyOffset l now (- 1)"
  let ?need = "historyStale l \<or> (after_mark (historyThrough l) ?y \<and> hasDaysInRangeLocked (historyThrough l) ?y l)"
  let ?T = "case historyThrough l of None \<Rightarrow> ?y | Some h \<Rightarrow> max ?y h"
  have T: "after_mark (historyThrough l) ?T \<or> historyThrough l = Some ?T"
    by (auto simp: after_mark_def max_def split: option.splits)
  show thesis
  proof (cases ?need)
    case True
    then show thesis
      by (intro history [OF T]) (use assms(1) in \<open>auto simp: planFlush_def Let_def l_def [symmetric]\<close>)
  next
    case need: False
    show thesis
    proof (cases "dirty l")
      case True
      then show thesis by (intro live) (use assms(1) need in \<open>auto simp: planFlush_def Let_def l_def [symmetric]\<close>)
    next
      case False
      then show thesis by (intro clean) (use assms(1) need in \<open>auto simp: planFlush_def Let_def l_def [symmetric]\<close>)
    qed
  qed
qed

end
