(* ===== verification/Balance.thy ===== *)
theory Balance
  imports Flush
begin

text \<open>
  The prepaid balances of internal/policy/balance.go: a management adjustment under the ledger
  lock (\<open>adjustBalanceAndPersist\<close>), the check of a loaded balance and the denial of a key whose
  balance is used up.

  The callback that writes the live file is a parameter with its own state \<open>'s\<close> (the files): it
  gets the watermark and the snapshot of the ledger and returns whether it had no error.
\<close>

type_synonym 's persist_callback = "day option \<Rightarrow> (string, liveKey) amap \<Rightarrow> 's \<Rightarrow> 's \<times> bool"

datatype ledger_error =
    ErrUnknownKey
  | ErrUsageResetChanged
  | ErrBalanceRequestConflict
  | PersistError

definition balanceRequestsKept :: nat where
  "balanceRequestsKept = 64"

text \<open>\<open>Balance.validate\<close>: true when there is no error.\<close>

definition balance_validate :: "Balance \<Rightarrow> bool" where
  "balance_validate b \<longleftrightarrow> \<not> balanceRequestsKept < length (Requests b) \<and>
     list_all (\<lambda>r. TrimSpace (RequestID r) \<noteq> []) (Requests b)"

record BalanceAdjustment =
  AdjKeyID :: string
  AmountUSD :: f64
  BeforeUSD :: f64
  AfterUSD :: f64
  AdjNetCreditedUSD :: f64
  Duplicate :: bool

definition find_request :: "string \<Rightarrow> Balance \<Rightarrow> BalanceRequest option" where
  "find_request req b = (if req = [] then None else find (\<lambda>r. RequestID r = req) (Requests b))"

definition keep_latest :: "BalanceRequest list \<Rightarrow> BalanceRequest list" where
  "keep_latest rs = drop (length rs - balanceRequestsKept) rs"

text \<open>The balance with the amount added and the request remembered.\<close>

definition credit :: "nano \<Rightarrow> string \<Rightarrow> Balance \<Rightarrow> Balance" where
  "credit amount req b =
     (let n = wrap64 (Nano b + amount);
          b = b\<lparr>Nano := n, NetCreditedNano := wrap64 (NetCreditedNano b + amount)\<rparr>
      in if req = [] then b
         else b\<lparr>Requests := keep_latest (Requests b @ [\<lparr>RequestID = req, AmountNano = amount, BalanceNano = n\<rparr>])\<rparr>)"

definition balance_of :: "KeyUsage \<Rightarrow> Balance" where
  "balance_of u = (case UsageBalance u of Some b \<Rightarrow> b | None \<Rightarrow> zero_balance)"

definition adjustBalanceAndPersist :: "string \<Rightarrow> nano \<Rightarrow> string \<Rightarrow> 's persist_callback \<Rightarrow> usageLedger \<times> 's \<Rightarrow>
    (usageLedger \<times> 's) \<times> (ledger_error + BalanceAdjustment)" where
  "adjustBalanceAndPersist kid amount req persist = (\<lambda>(l, s).
     case aget (entries l) kid of
       None \<Rightarrow> ((l, s), Inl ErrUnknownKey)
     | Some u \<Rightarrow>
       (if Cycles u = None then ((l, s), Inl ErrUnknownKey)
        else let previous = UsageBalance u; balance = balance_of u
             in case find_request req balance of
                  Some r \<Rightarrow>
                    if AmountNano r \<noteq> amount then ((l, s), Inl ErrBalanceRequestConflict)
                    else ((l, s), Inr \<lparr>AdjKeyID = kid, AmountUSD = nano_USD amount,
                           BeforeUSD = nano_USD (wrap64 (BalanceNano r - amount)), AfterUSD = nano_USD (BalanceNano r),
                           AdjNetCreditedUSD = nano_USD (NetCreditedNano balance), Duplicate = True\<rparr>)
                | None \<Rightarrow>
                    (let balance' = credit amount req balance;
                         l' = markDirtyLocked (l\<lparr>entries := aset kid (u\<lparr>UsageBalance := Some balance'\<rparr>) (entries l)\<rparr>);
                         (s', ok) = persist (historyThrough l') (liveSnapshotLocked (historyThrough l') l') s
                     in if \<not> ok then
                          ((l'\<lparr>entries := aset kid (u\<lparr>UsageBalance := previous\<rparr>) (entries l'),
                               dirty := dirty l, revision := revision l\<rparr>, s'), Inl PersistError)
                        else ((l'\<lparr>dirty := False\<rparr>, s'),
                              Inr \<lparr>AdjKeyID = kid, AmountUSD = nano_USD amount, BeforeUSD = nano_USD (Nano balance),
                                   AfterUSD = nano_USD (Nano balance'), AdjNetCreditedUSD = nano_USD (NetCreditedNano balance'),
                                   Duplicate = False\<rparr>))))"

text \<open>A denied admission; \<open>DenialRetryAt\<close> is the zero time when there is none.\<close>

record Denial =
  Reason :: string
  DenialLimit :: f64
  DenialRetryAt :: instant
  DenialTimezone :: string

definition denial_of :: "string \<Rightarrow> Denial" where
  "denial_of reason = \<lparr>Reason = reason, DenialLimit = Fin 0, DenialRetryAt = zero_time, DenialTimezone = []\<rparr>"

definition balanceDenial :: "string \<Rightarrow> usageLedger \<Rightarrow> Denial option" where
  "balanceDenial kid l = (case aget (entries l) kid of
     Some u \<Rightarrow> (case UsageBalance u of
         Some b \<Rightarrow> if 0 < Nano b then None else Some (denial_of ''balance_exhausted'')
       | None \<Rightarrow> Some (denial_of ''balance_exhausted''))
   | None \<Rightarrow> Some (denial_of ''balance_exhausted''))"


text \<open>The sample ledger's key has no balance yet.\<close>

lemma sample_entry:
  "aget (entries sample_ledger) ''k'' = Some (empty_usage\<lparr>Cycles := Some sample_cycles\<rparr>)"
  "Cycles (empty_usage\<lparr>Cycles := Some sample_cycles\<rparr>) \<noteq> None"
  by (simp_all add: sample_ledger_def)

lemma sample_request [simp]: "find_request req (balance_of (empty_usage\<lparr>Cycles := Some cs\<rparr>)) = None"
  by (simp add: find_request_def balance_of_def empty_usage_def zero_balance_def)


subsection \<open>A failed write leaves the memory as it was\<close>

lemma aset_twice [simp]: "aset k v (aset k w m) = aset k v m"
  by (induction m) auto

lemma restore_entry:
  assumes "aget (entries l) kid = Some u"
  shows "(markDirtyLocked (l\<lparr>entries := aset kid v (entries l)\<rparr>))\<lparr>entries := aset kid u (aset kid v (entries l)),
           dirty := dirty l, revision := revision l\<rparr> = l"
  using assms by (simp add: markDirtyLocked_def aset_same)

lemma same_balance: "u\<lparr>UsageBalance := UsageBalance u\<rparr> = (u :: KeyUsage)"
  by (cases u) simp

text \<open>The four outcomes of an adjustment of a known key.\<close>

lemma adjust_cases:
  assumes "aget (entries l) kid = Some u" "Cycles u \<noteq> None"
  obtains
    (known) r where "find_request req (balance_of u) = Some r" "AmountNano r = amount"
      "adjustBalanceAndPersist kid amount req persist (l, s) = ((l, s), Inr \<lparr>AdjKeyID = kid,
         AmountUSD = nano_USD amount, BeforeUSD = nano_USD (wrap64 (BalanceNano r - amount)),
         AfterUSD = nano_USD (BalanceNano r), AdjNetCreditedUSD = nano_USD (NetCreditedNano (balance_of u)), Duplicate = True\<rparr>)"
  | (conflict) r where "find_request req (balance_of u) = Some r" "AmountNano r \<noteq> amount"
      "adjustBalanceAndPersist kid amount req persist (l, s) = ((l, s), Inl ErrBalanceRequestConflict)"
  | (failed) s' where "find_request req (balance_of u) = None"
      "adjustBalanceAndPersist kid amount req persist (l, s) = ((l, s'), Inl PersistError)"
  | (written) l' s' where "find_request req (balance_of u) = None"
      "l' = markDirtyLocked (l\<lparr>entries := aset kid (u\<lparr>UsageBalance := Some (credit amount req (balance_of u))\<rparr>) (entries l)\<rparr>)"
      "persist (historyThrough l) (liveSnapshotLocked (historyThrough l) l') s = (s', True)"
      "adjustBalanceAndPersist kid amount req persist (l, s) = ((l'\<lparr>dirty := False\<rparr>, s'), Inr \<lparr>AdjKeyID = kid,
         AmountUSD = nano_USD amount, BeforeUSD = nano_USD (Nano (balance_of u)),
         AfterUSD = nano_USD (Nano (credit amount req (balance_of u))),
         AdjNetCreditedUSD = nano_USD (NetCreditedNano (credit amount req (balance_of u))), Duplicate = False\<rparr>)"
proof (cases "find_request req (balance_of u)")
  case (Some r)
  show thesis
    by (cases "AmountNano r = amount"; rule known conflict)
      (use assms Some in \<open>auto simp: adjustBalanceAndPersist_def Let_def\<close>)
next
  case None
  define l' where "l' = markDirtyLocked (l\<lparr>entries := aset kid (u\<lparr>UsageBalance := Some (credit amount req (balance_of u))\<rparr>) (entries l)\<rparr>)"
  have ht: "historyThrough l' = historyThrough l" and en: "entries l' = aset kid (u\<lparr>UsageBalance := Some (credit amount req (balance_of u))\<rparr>) (entries l)"
    by (simp_all add: l'_def)
  obtain s' ok where p: "persist (historyThrough l) (liveSnapshotLocked (historyThrough l) l') s = (s', ok)" by fastforce
  show thesis
  proof (cases ok)
    case True
    then show thesis
      by (intro written [OF None l'_def]) (use assms None p in \<open>simp_all add: adjustBalanceAndPersist_def Let_def l'_def [symmetric] ht\<close>)
  next
    case False
    have "l'\<lparr>entries := aset kid u (entries l'), dirty := dirty l, revision := revision l\<rparr> = l"
      unfolding en unfolding l'_def by (rule restore_entry [OF assms(1)])
    then show thesis
      by (intro failed [OF None]) (use assms None p False in \<open>simp add: adjustBalanceAndPersist_def Let_def l'_def [symmetric] ht same_balance\<close>)
  qed
qed

lemma adjust_unknown:
  "(case aget (entries l) kid of None \<Rightarrow> True | Some u \<Rightarrow> Cycles u = None) \<Longrightarrow>
     adjustBalanceAndPersist kid amount req persist (l, s) = ((l, s), Inl ErrUnknownKey)"
  by (auto simp: adjustBalanceAndPersist_def split: option.splits)

text \<open>An adjustment that is not answered changes nothing in memory: whatever the error (an
  unknown key, a request id used for another amount, a failed write of the live file), every entry
  of the ledger, its dirty flag and its revision are what they were.\<close>

theorem adjust_error_restores:
  assumes "adjustBalanceAndPersist kid amount req persist (l, s) = ((l', s'), Inl e)"
  shows "l' = l"
proof (cases "case aget (entries l) kid of None \<Rightarrow> True | Some u \<Rightarrow> Cycles u = None")
  case True
  then show ?thesis using assms adjust_unknown by (metis Pair_inject)
next
  case False
  then obtain u where "aget (entries l) kid = Some u" "Cycles u \<noteq> None" by (auto split: option.splits)
  then show ?thesis
    by (rule adjust_cases [where req = req and amount = amount and persist = persist and s = s]) (use assms in auto)
qed

lemma adjust_error_restores_witness:
  "fst (fst (adjustBalanceAndPersist ''k'' 7 ''r'' (\<lambda>_ _ s. (s, False)) (sample_ledger, ()))) = sample_ledger"
proof -
  obtain l' where "adjustBalanceAndPersist ''k'' 7 ''r'' (\<lambda>_ _ s. (s, False)) (sample_ledger, ()) = ((l', ()), Inl PersistError)"
    by (rule adjust_cases [OF sample_entry, where req = "''r''" and amount = 7 and persist = "\<lambda>_ _ s. (s, False)" and s = "()"])
      auto
  then show ?thesis using adjust_error_restores by fastforce
qed


subsection \<open>A retried request is credited once\<close>

text \<open>The request is remembered, with at most \<open>n\<close> later ones after it.\<close>

definition remembers :: "BalanceRequest \<Rightarrow> nat \<Rightarrow> Balance \<Rightarrow> bool" where
  "remembers r n b \<longleftrightarrow> (\<exists>xs ys. Requests b = xs @ r # ys \<and> RequestID r \<notin> RequestID ` set xs \<and> length ys \<le> n)"

lemma find_first: "k \<notin> f ` set xs \<Longrightarrow> f r = k \<Longrightarrow> find (\<lambda>x. f x = k) (xs @ r # ys) = Some r"
  by (induction xs) auto

lemma remembers_find: "remembers r n b \<Longrightarrow> RequestID r \<noteq> [] \<Longrightarrow> find_request (RequestID r) b = Some r"
  by (auto simp: remembers_def find_request_def find_first)

lemma remembers_mono: "remembers r n b \<Longrightarrow> n \<le> m \<Longrightarrow> remembers r m b"
  by (fastforce simp: remembers_def)

lemma drop_keeps: "k \<le> length xs \<Longrightarrow> drop k (xs @ r # ys) = drop k xs @ r # ys"
  by simp

lemma remembers_credit:
  assumes "remembers r n b" "Suc n < balanceRequestsKept"
  shows "remembers r (Suc n) (credit amount req b)"
proof (cases "req = []")
  case False
  from assms(1) obtain xs ys where b: "Requests b = xs @ r # ys" "RequestID r \<notin> RequestID ` set xs" "length ys \<le> n"
    by (auto simp: remembers_def)
  let ?q = "\<lparr>RequestID = req, AmountNano = amount, BalanceNano = wrap64 (Nano b + amount)\<rparr>"
  define k where "k = length (Requests b @ [?q]) - balanceRequestsKept"
  have k: "k \<le> length xs" using b(1,3) assms(2) by (simp add: k_def)
  have "Requests (credit amount req b) = drop k (Requests b @ [?q])"
    using False by (simp add: credit_def Let_def keep_latest_def k_def)
  also have "Requests b @ [?q] = xs @ r # (ys @ [?q])" using b(1) by simp
  also have "drop k \<dots> = drop k xs @ r # (ys @ [?q])" by (rule drop_keeps [OF k])
  finally have "Requests (credit amount req b) = drop k xs @ r # (ys @ [?q])" .
  moreover have "RequestID r \<notin> RequestID ` set (drop k xs)" using b(2) set_drop_subset by fastforce
  moreover have "length (ys @ [?q]) \<le> Suc n" using b(3) by simp
  ultimately show ?thesis unfolding remembers_def by blast
qed (use assms in \<open>auto simp: credit_def Let_def remembers_def intro: exI le_SucI\<close>)

lemma remembers_new:
  assumes "find_request req b = None" "req \<noteq> []"
  shows "remembers \<lparr>RequestID = req, AmountNano = amount, BalanceNano = wrap64 (Nano b + amount)\<rparr> 0 (credit amount req b)"
proof -
  let ?q = "\<lparr>RequestID = req, AmountNano = amount, BalanceNano = wrap64 (Nano b + amount)\<rparr>"
  let ?k = "length (Requests b @ [?q]) - balanceRequestsKept"
  have k: "?k \<le> length (Requests b)" by (simp add: balanceRequestsKept_def)
  have "Requests (credit amount req b) = drop ?k (Requests b @ ?q # [])"
    using assms(2) by (simp add: credit_def Let_def keep_latest_def)
  also have "\<dots> = drop ?k (Requests b) @ ?q # []" by (rule drop_keeps [OF k])
  finally have "Requests (credit amount req b) = drop ?k (Requests b) @ ?q # []" .
  moreover have "req \<notin> RequestID ` set (drop ?k (Requests b))"
    using assms set_drop_subset [of ?k "Requests b"] by (auto simp: find_request_def find_None_iff)
  ultimately show ?thesis unfolding remembers_def by (intro exI [of _ "drop ?k (Requests b)"] exI [of _ "[]"]) simp
qed

text \<open>A balance that answers a request keeps answering it through later adjustments of any key.\<close>

definition answers :: "string \<Rightarrow> BalanceRequest \<Rightarrow> nat \<Rightarrow> usageLedger \<Rightarrow> bool" where
  "answers kid r n l \<longleftrightarrow> (\<exists>u. aget (entries l) kid = Some u \<and> Cycles u \<noteq> None \<and> remembers r n (balance_of u))"

lemma answers_adjust:
  assumes "answers kid r n l" "Suc n < balanceRequestsKept"
  shows "answers kid r (Suc n) (fst (fst (adjustBalanceAndPersist kid' amount req persist (l, s))))"
proof -
  have mono: "answers kid r (Suc n) l" using assms(1) remembers_mono [of r n _ "Suc n"] by (auto simp: answers_def)
  show ?thesis
  proof (cases "case aget (entries l) kid' of None \<Rightarrow> True | Some u \<Rightarrow> Cycles u = None")
    case True
    then show ?thesis using mono by (simp add: adjust_unknown)
  next
    case False
    then obtain u where u: "aget (entries l) kid' = Some u" "Cycles u \<noteq> None" by (auto split: option.splits)
    then show ?thesis
    proof (cases rule: adjust_cases [where req = req and amount = amount and persist = persist and s = s])
      case (written l' s')
      have "aget (entries (l'\<lparr>dirty := False\<rparr>)) kid = (if kid = kid' then
          Some (u\<lparr>UsageBalance := Some (credit amount req (balance_of u))\<rparr>) else aget (entries l) kid)"
        by (simp add: written(2))
      moreover have "remembers r (Suc n) (credit amount req (balance_of u))" if "kid = kid'"
        using assms that u by (intro remembers_credit) (auto simp: answers_def)
      ultimately have "answers kid r (Suc n) (l'\<lparr>dirty := False\<rparr>)"
        using mono u(2) by (auto simp: answers_def balance_of_def)
      then show ?thesis using written(4) by simp
    qed (use mono in simp_all)
  qed
qed

type_synonym adjustment = "string \<times> nano \<times> string \<times> bool"

definition adjust_step :: "adjustment \<Rightarrow> usageLedger \<Rightarrow> usageLedger" where
  "adjust_step = (\<lambda>(kid, amount, req, ok) l.
     fst (fst (adjustBalanceAndPersist kid amount req (\<lambda>_ _ s. (s, ok)) (l, ()))))"

lemma answers_fold:
  "answers kid r n l \<Longrightarrow> n + length ops < balanceRequestsKept \<Longrightarrow> answers kid r (n + length ops) (fold adjust_step ops l)"
proof (induction ops arbitrary: n l)
  case (Cons op ops)
  have "answers kid r (Suc n) (adjust_step op l)"
    unfolding adjust_step_def case_prod_beta by (rule answers_adjust) (use Cons.prems in simp_all)
  from Cons.IH [OF this] Cons.prems(2) show ?case by simp
qed simp

lemma adjust_succeeds:
  assumes "aget (entries l) kid = Some u" "Cycles u \<noteq> None" "find_request req (balance_of u) = None"
    "\<And>t ks s. snd (persist t ks s)"
  shows "\<exists>l' s' a. adjustBalanceAndPersist kid amount req persist (l, s) = ((l', s'), Inr a) \<and> \<not> Duplicate a"
  using assms(3,4) by (auto simp: adjustBalanceAndPersist_def assms(1) Let_def split: prod.splits) (use assms(2) in auto, metis snd_conv)

text \<open>C4: A retried adjustment is credited once: after an adjustment with a request id was answered,
  the same request is answered with the first result, as a duplicate, and neither the ledger nor
  the files change, as long as fewer than 64 adjustments (of any key, answered or failed, with or
  without request ids) came in between.\<close>

theorem adjust_retry_once:
  assumes "adjustBalanceAndPersist kid amount req persist (l, s) = ((l1, s1), Inr a)" "req \<noteq> []" "\<not> Duplicate a"
    "length ops < balanceRequestsKept"
  defines "l2 \<equiv> fold adjust_step ops l1"
  shows "\<exists>d. adjustBalanceAndPersist kid amount req persist' (l2, s2) = ((l2, s2), Inr d) \<and>
    Duplicate d \<and> AfterUSD d = AfterUSD a \<and> AmountUSD d = AmountUSD a"
proof -
  obtain u where u: "aget (entries l) kid = Some u" "Cycles u \<noteq> None"
    using assms(1) by (cases "case aget (entries l) kid of None \<Rightarrow> True | Some u \<Rightarrow> Cycles u = None")
      (auto simp: adjust_unknown split: option.splits)
  define r where "r = \<lparr>RequestID = req, AmountNano = amount, BalanceNano = wrap64 (Nano (balance_of u) + amount)\<rparr>"
  have "answers kid r 0 l1 \<and> AfterUSD a = nano_USD (BalanceNano r) \<and> AmountUSD a = nano_USD amount"
    using u
  proof (cases rule: adjust_cases [where req = req and amount = amount and persist = persist and s = s])
    case (written l' s')
    have "aget (entries l1) kid = Some (u\<lparr>UsageBalance := Some (credit amount req (balance_of u))\<rparr>)"
      using written assms(1) by auto
    moreover have "remembers r 0 (credit amount req (balance_of u))"
      unfolding r_def by (rule remembers_new [OF written(1) assms(2)])
    moreover have "Nano (credit amount req (balance_of u)) = BalanceNano r" by (simp add: credit_def Let_def r_def)
    ultimately show ?thesis using u(2) written(4) assms(1) by (auto simp: answers_def balance_of_def)
  qed (use assms(1,3) in auto)
  then have a0: "answers kid r 0 l1" and res: "AfterUSD a = nano_USD (BalanceNano r)" "AmountUSD a = nano_USD amount" by auto
  have "answers kid r (0 + length ops) l2"
    unfolding l2_def by (rule answers_fold [OF a0]) (use assms(4) in simp)
  then obtain v where v: "aget (entries l2) kid = Some v" "Cycles v \<noteq> None" "remembers r (length ops) (balance_of v)"
    by (auto simp: answers_def)
  have "RequestID r = req" by (simp add: r_def)
  with remembers_find [OF v(3)] assms(2) have f: "find_request req (balance_of v) = Some r" by simp
  have "AmountNano r = amount" by (simp add: r_def)
  with f v(1,2) have "adjustBalanceAndPersist kid amount req persist' (l2, s2) = ((l2, s2), Inr \<lparr>AdjKeyID = kid,
         AmountUSD = nano_USD amount, BeforeUSD = nano_USD (wrap64 (BalanceNano r - amount)),
         AfterUSD = nano_USD (BalanceNano r), AdjNetCreditedUSD = nano_USD (NetCreditedNano (balance_of v)), Duplicate = True\<rparr>)"
    by (auto simp: adjustBalanceAndPersist_def Let_def)
  then show ?thesis using res by simp
qed

lemma adjust_retry_once_witness:
  "\<exists>l1 a d. adjustBalanceAndPersist ''k'' 7 ''r'' (\<lambda>_ _ s. (s, True)) (sample_ledger, ()) = ((l1, ()), Inr a) \<and>
     adjustBalanceAndPersist ''k'' 7 ''r'' (\<lambda>_ _ s. (s, True)) (adjust_step (''k'', 9, [], True) l1, ()) =
       ((adjust_step (''k'', 9, [], True) l1, ()), Inr d) \<and> AfterUSD d = AfterUSD a"
proof -
  have "\<And>t ks s. snd ((\<lambda>_ _ s :: unit. (s, True)) t ks s)" by simp
  from adjust_succeeds [where persist = "\<lambda>_ _ s. (s, True)" and s = "()" and amount = 7 and req = "''r''", OF sample_entry sample_request this]
  obtain l1 a where a: "adjustBalanceAndPersist ''k'' 7 ''r'' (\<lambda>_ _ s. (s, True)) (sample_ledger, ()) = ((l1, ()), Inr a)" "\<not> Duplicate a"
    by (metis old.unit.exhaust)
  have "''r'' \<noteq> []" "length [(''k'', 9 :: nano, [] :: string, True)] < balanceRequestsKept" by (simp_all add: balanceRequestsKept_def)
  from adjust_retry_once [OF a(1) this(1) a(2) this(2), of "\<lambda>_ _ s. (s, True)" "()"]
  obtain d where "adjustBalanceAndPersist ''k'' 7 ''r'' (\<lambda>_ _ s. (s, True)) (adjust_step (''k'', 9, [], True) l1, ()) =
      ((adjust_step (''k'', 9, [], True) l1, ()), Inr d)" "AfterUSD d = AfterUSD a"
    unfolding fold.simps comp_apply id_apply by blast
  with a(1) show ?thesis by blast
qed

end
