(* ===== verification/Quota.thy ===== *)
theory Quota
  imports Balance
begin

text \<open>
  What the ledger of internal/policy/ledger.go reports and enforces: the quota summary of a key,
  the denial of an exhausted one, the manual reset of a period, the usage per model, the daily
  history and the range scans of the reports.

  \<open>summaryLocked\<close> advances the periods of the key before it reads them; \<open>quotaDenial\<close> works on the
  summary's dollars and converts them back to nanodollars, as the code does.
\<close>

subsection \<open>Limits and summaries\<close>

definition softLimitRatio :: f64 where
  "softLimitRatio = f64_of_rat (4 / 5)"

record quotaLimits =
  LimDailyUSD :: f64
  LimWeeklyUSD :: f64
  LimMonthlyUSD :: f64
  LimBalance :: bool

definition quotaLimitsForKey :: "KeyConfig \<Rightarrow> quotaLimits" where
  "quotaLimitsForKey key = (if BalanceMode key
     then \<lparr>LimDailyUSD = Fin 0, LimWeeklyUSD = Fin 0, LimMonthlyUSD = Fin 0, LimBalance = True\<rparr>
     else \<lparr>LimDailyUSD = DailyLimitUSD key, LimWeeklyUSD = WeeklyLimitUSD key, LimMonthlyUSD = MonthlyLimitUSD key,
           LimBalance = False\<rparr>)"

definition forWindow :: "quotaLimits \<Rightarrow> UsageResetWindow \<Rightarrow> f64" where
  "forWindow limits w = (if w = UsageResetWeekly then LimWeeklyUSD limits
     else if w = UsageResetMonthly then LimMonthlyUSD limits else LimDailyUSD limits)"

definition limits_any :: "quotaLimits \<Rightarrow> bool" where
  "limits_any limits \<longleftrightarrow> LimBalance limits \<or> f64_lt (Fin 0) (LimDailyUSD limits) \<or>
     f64_lt (Fin 0) (LimWeeklyUSD limits) \<or> f64_lt (Fin 0) (LimMonthlyUSD limits)"

record QuotaCycleSummary =
  SumWindow :: UsageResetWindow
  SumStartedAt :: instant
  SumResetsAt :: instant
  SumResetKind :: string
  UsedUSD :: f64
  LimitUSD :: f64
  ResetAfterManualAt :: instant

record UsageSummary =
  SumQuotaMode :: string
  BalanceUSD :: "f64 option"
  NetCreditedUSD :: "f64 option"
  SumCycles :: "QuotaCycleSummary list"
  Status :: string
  BlockedReason :: string
  DailyUSD :: f64
  WeeklyUSD :: f64
  MonthlyUSD :: f64
  SumDailyLimitUSD :: f64
  SumWeeklyLimitUSD :: f64
  SumMonthlyLimitUSD :: f64
  NextAccountingBoundaryAt :: instant
  SoftLimitHit :: bool
  SumTimezone :: string

definition exceeded :: "UsageResetWindow \<Rightarrow> string" where
  "exceeded w = w @ ''_exceeded''"

text \<open>One turn of the loop over the windows.\<close>

definition summary_window :: "location \<Rightarrow> instant \<Rightarrow> quotaLimits \<Rightarrow> cycles \<Rightarrow> UsageResetWindow \<Rightarrow> UsageSummary \<Rightarrow> UsageSummary" where
  "summary_window loc now limits cs w summary =
     (let c = cycle_of cs w; u = used c; limitUSD = forWindow limits w; limit = USDToNano limitUSD;
          row = \<lparr>SumWindow = w, SumStartedAt = StartedAt c, SumResetsAt = ResetsAt c, SumResetKind = ResetKind c,
                 UsedUSD = nano_USD u, LimitUSD = limitUSD, ResetAfterManualAt = manualResetDeadline loc now w\<rparr>;
          summary = summary\<lparr>SumCycles := SumCycles summary @ [row]\<rparr>;
          summary = (if w = UsageResetDaily then summary\<lparr>DailyUSD := nano_USD u\<rparr>
                     else if w = UsageResetWeekly then summary\<lparr>WeeklyUSD := nano_USD u\<rparr>
                     else if w = UsageResetMonthly then summary\<lparr>MonthlyUSD := nano_USD u\<rparr> else summary);
          summary = (if 0 < limit \<and> f64_le (f64_mul (f64_of_int limit) softLimitRatio) (f64_of_int u)
                     then summary\<lparr>SoftLimitHit := True\<rparr> else summary)
      in if 0 < limit \<and> limit \<le> u \<and> BlockedReason summary = [] then summary\<lparr>BlockedReason := exceeded w\<rparr> else summary)"

definition summary_start :: "string \<Rightarrow> quotaLimits \<Rightarrow> cycles \<Rightarrow> UsageSummary" where
  "summary_start zone limits cs = \<lparr>SumQuotaMode = QuotaModeCycle, BalanceUSD = None, NetCreditedUSD = None,
     SumCycles = [], Status = ''normal'', BlockedReason = [], DailyUSD = Fin 0, WeeklyUSD = Fin 0, MonthlyUSD = Fin 0,
     SumDailyLimitUSD = LimDailyUSD limits, SumWeeklyLimitUSD = LimWeeklyUSD limits,
     SumMonthlyLimitUSD = LimMonthlyUSD limits, NextAccountingBoundaryAt = ResetsAt (Daily cs), SoftLimitHit = False,
     SumTimezone = zone\<rparr>"

definition summary_balance :: "quotaLimits \<Rightarrow> KeyUsage option \<Rightarrow> UsageSummary \<Rightarrow> UsageSummary" where
  "summary_balance limits u summary =
     (let stored = (case u of Some u \<Rightarrow> UsageBalance u | None \<Rightarrow> None);
          b = (case stored of Some b \<Rightarrow> b | None \<Rightarrow> zero_balance);
          summary = (if LimBalance limits \<or> stored \<noteq> None
                     then summary\<lparr>BalanceUSD := Some (nano_USD (Nano b)), NetCreditedUSD := Some (nano_USD (NetCreditedNano b))\<rparr>
                     else summary)
      in if \<not> LimBalance limits then summary
         else let summary = summary\<lparr>SumQuotaMode := QuotaModeBalance\<rparr>
              in if Nano b \<le> 0 then summary\<lparr>BlockedReason := ''balance_exhausted''\<rparr>
                 else if 0 < NetCreditedNano b \<and> f64_le (f64_mul (f64_of_int (NetCreditedNano b)) softLimitRatio)
                           (f64_of_int (wrap64 (NetCreditedNano b - Nano b)))
                      then summary\<lparr>SoftLimitHit := True\<rparr> else summary)"

definition summary_status :: "UsageSummary \<Rightarrow> UsageSummary" where
  "summary_status summary = (if BlockedReason summary \<noteq> [] then summary\<lparr>Status := ''limited''\<rparr>
     else if SoftLimitHit summary then summary\<lparr>Status := ''warning''\<rparr> else summary)"

definition summaryLocked :: "string \<Rightarrow> quotaLimits \<Rightarrow> instant \<Rightarrow> usageLedger \<Rightarrow> usageLedger \<times> UsageSummary" where
  "summaryLocked kid limits now l =
     (let (l, cs) = currentCyclesLocked kid now l;
          summary = fold (summary_window (ledger_location l) now limits cs) quotaWindows
                      (summary_start (timezone l) limits cs)
      in (l, summary_status (summary_balance limits (aget (entries l) kid) summary)))"

definition ledger_summary :: "instant \<Rightarrow> string \<Rightarrow> quotaLimits \<Rightarrow> usageLedger \<Rightarrow> usageLedger \<times> UsageSummary" where
  "ledger_summary now kid limits l = summaryLocked kid limits now (evict now l)"

text \<open>One turn of the loop of \<open>quotaDenial\<close>.\<close>

definition denial_cycle :: "QuotaCycleSummary \<Rightarrow> Denial \<Rightarrow> Denial" where
  "denial_cycle c denial =
     (if f64_lt (Fin 0) (LimitUSD c) \<and> USDToNano (LimitUSD c) \<le> USDToNano (UsedUSD c) \<and> \<not> SumResetsAt c < DenialRetryAt denial
      then denial\<lparr>Reason := exceeded (SumWindow c), DenialLimit := LimitUSD c, DenialRetryAt := SumResetsAt c\<rparr>
      else denial)"

definition quotaDenial :: "instant \<Rightarrow> string \<Rightarrow> quotaLimits \<Rightarrow> usageLedger \<Rightarrow> usageLedger \<times> Denial option" where
  "quotaDenial now kid limits l =
     (if LimBalance limits then (l, balanceDenial kid l)
      else if \<not> limits_any limits then (l, None)
      else let (l, summary) = ledger_summary now kid limits l
           in if BlockedReason summary = [] then (l, None)
              else (l, Some (fold denial_cycle (SumCycles summary)
                     (denial_of (BlockedReason summary)\<lparr>DenialTimezone := SumTimezone summary\<rparr>))))"


subsection \<open>The manual reset\<close>

record UsageResetResult =
  ResetKeyID :: string
  ResetWindow :: UsageResetWindow
  BeforeDailyUSD :: f64
  BeforeWeeklyUSD :: f64
  BeforeMonthlyUSD :: f64
  AfterDailyUSD :: f64
  AfterWeeklyUSD :: f64
  AfterMonthlyUSD :: f64
  ResetNextBoundaryAt :: instant

record UsageResetExpectation =
  ExpStartedAt :: instant
  ExpResetAfterManualAt :: instant

definition expectation_met :: "usageLedger \<Rightarrow> instant \<Rightarrow> UsageResetWindow \<Rightarrow> cycles \<Rightarrow> UsageResetExpectation option \<Rightarrow> bool" where
  "expectation_met l now w cs expected = (case expected of None \<Rightarrow> True
     | Some e \<Rightarrow> StartedAt (cycle_of cs w) = ExpStartedAt e \<and>
         manualResetDeadline (ledger_location l) now w = ExpResetAfterManualAt e)"

definition manual_cycle :: "location \<Rightarrow> instant \<Rightarrow> UsageResetWindow \<Rightarrow> cycle" where
  "manual_cycle loc now w = \<lparr>StartedAt = now, ResetsAt = manualResetDeadline loc now w, ResetKind = ''manual'', ByModel = []\<rparr>"

definition resetWindowAndPersist :: "instant \<Rightarrow> string \<Rightarrow> UsageResetWindow \<Rightarrow> UsageResetExpectation option \<Rightarrow>
    's persist_callback \<Rightarrow> usageLedger \<times> 's \<Rightarrow> (usageLedger \<times> 's) \<times> (ledger_error + UsageResetResult)" where
  "resetWindowAndPersist now kid w expected persist = (\<lambda>(l, s).
     case aget (entries l) kid of
       None \<Rightarrow> ((l, s), Inl ErrUnknownKey)
     | Some u \<Rightarrow> (case Cycles u of
         None \<Rightarrow> ((l, s), Inl ErrUnknownKey)
       | Some _ \<Rightarrow>
         (let (l, cs) = currentCyclesLocked kid now l; u = usage_of l kid
          in if \<not> expectation_met l now w cs expected then ((l, s), Inl ErrUsageResetChanged)
             else let cs' = set_cycle w (manual_cycle (ledger_location l) now w) cs;
                      l' = markDirtyLocked (l\<lparr>entries := aset kid (u\<lparr>Cycles := Some cs'\<rparr>) (entries l)\<rparr>);
                      (s', ok) = persist (historyThrough l') (liveSnapshotLocked (historyThrough l') l') s
                  in if \<not> ok then
                       ((l'\<lparr>entries := aset kid (u\<lparr>Cycles := Some cs\<rparr>) (entries l'),
                            dirty := dirty l, revision := revision l\<rparr>, s'), Inl PersistError)
                     else ((l'\<lparr>dirty := False\<rparr>, s'), Inr \<lparr>ResetKeyID = kid, ResetWindow = w,
                         BeforeDailyUSD = nano_USD (used (Daily cs)), BeforeWeeklyUSD = nano_USD (used (Weekly cs)),
                         BeforeMonthlyUSD = nano_USD (used (Monthly cs)),
                         AfterDailyUSD = nano_USD (used (Daily cs')), AfterWeeklyUSD = nano_USD (used (Weekly cs')),
                         AfterMonthlyUSD = nano_USD (used (Monthly cs')),
                         ResetNextBoundaryAt = ResetsAt (cycle_of cs' w)\<rparr>))))"


subsection \<open>Reports\<close>

record modelWindows =
  MwName :: string
  MwDaily :: usage_window
  MwWeekly :: usage_window
  MwMonthly :: usage_window

definition window_usage :: "bucket \<Rightarrow> instant \<Rightarrow> usage_window" where
  "window_usage b start = usage_totals.extend (totals b) (usage_window.fields start)"

definition empty_windows :: "string \<Rightarrow> modelWindows" where
  "empty_windows name = (let zero = window_usage zero_bucket zero_time
     in \<lparr>MwName = name, MwDaily = zero, MwWeekly = zero, MwMonthly = zero\<rparr>)"

definition set_window :: "UsageResetWindow \<Rightarrow> usage_window \<Rightarrow> modelWindows \<Rightarrow> modelWindows" where
  "set_window w x entry = (if w = UsageResetDaily then entry\<lparr>MwDaily := x\<rparr>
     else if w = UsageResetWeekly then entry\<lparr>MwWeekly := x\<rparr>
     else if w = UsageResetMonthly then entry\<lparr>MwMonthly := x\<rparr> else entry)"

definition model_windows :: "cycle \<Rightarrow> UsageResetWindow \<Rightarrow> (string, modelWindows) amap \<Rightarrow> (string, modelWindows) amap" where
  "model_windows c w byModel = fold (\<lambda>(model, b) m.
     aset model (set_window w (window_usage b (StartedAt c)) (case aget m model of Some e \<Rightarrow> e | None \<Rightarrow> empty_windows model)) m)
     (ByModel c) byModel"

definition modelUsage :: "instant \<Rightarrow> string \<Rightarrow> usageLedger \<Rightarrow> usageLedger \<times> modelWindows list" where
  "modelUsage now kid l =
     (let (l, cs) = currentCyclesLocked kid now l;
          byModel = fold (\<lambda>w m. model_windows (cycle_of cs w) w m) quotaWindows []
      in (l, sort_key MwName (map snd byModel)))"

definition clampDays :: "int \<Rightarrow> int" where
  "clampDays n = (if n < 1 then 30 else if UsageRetentionDays < n then UsageRetentionDays else n)"

record UsageHistoryDay =
  HistDate :: day
  HistTotals :: usage_totals
  HistByModel :: "(string, usage_totals) amap"

definition zero_totals :: usage_totals where
  "zero_totals = totals zero_bucket"

definition history_day :: "KeyUsage option \<Rightarrow> day \<Rightarrow> UsageHistoryDay" where
  "history_day u date = (case u of
     None \<Rightarrow> \<lparr>HistDate = date, HistTotals = zero_totals, HistByModel = []\<rparr>
   | Some u \<Rightarrow> (let ms = (case aget (Days u) date of Some ms \<Rightarrow> ms | None \<Rightarrow> [])
                in \<lparr>HistDate = date, HistTotals = totals (fold (\<lambda>(_, b) acc. bucket_add acc b) ms zero_bucket),
                    HistByModel = map (\<lambda>(m, b). (m, totals b)) ms\<rparr>))"

definition ledger_history :: "instant \<Rightarrow> string \<Rightarrow> int \<Rightarrow> usageLedger \<Rightarrow> usageLedger \<times> UsageHistoryDay list" where
  "ledger_history now kid days l =
     (let days = clampDays days; l = evict now l; u = aget (entries l) kid; end_day = reportEndLocked l now
      in (l, map (\<lambda>offset. history_day u (shiftDate end_day offset)) [- (days - 1)..0]))"

text \<open>The buckets \<open>visitRange\<close> hands to its callback, in the order of the iteration.\<close>

definition visitRange :: "instant \<Rightarrow> day \<Rightarrow> day \<Rightarrow> usageLedger \<Rightarrow> usageLedger \<times> (string \<times> day \<times> string \<times> bucket) list" where
  "visitRange now from to l =
     (let l = evict now l
      in (l, [(kid, d, m, b). (kid, u) \<leftarrow> entries l, (d, ms) \<leftarrow> Days u, \<not> (d < from \<or> to < d), (m, b) \<leftarrow> ms]))"

definition keyIDs :: "usageLedger \<Rightarrow> string list" where
  "keyIDs l = sort (akeys (entries l))"

definition copyKeyDays :: "string \<Rightarrow> day \<Rightarrow> day \<Rightarrow> usageLedger \<Rightarrow> (day, models) amap" where
  "copyKeyDays kid from to l = (case aget (entries l) kid of
     None \<Rightarrow> [] | Some u \<Rightarrow> filter (\<lambda>(d, _). from \<le> d \<and> d \<le> to) (Days u))"


subsection \<open>Denials name the exhausted period that resets last\<close>

definition exhausted :: "quotaLimits \<Rightarrow> cycles \<Rightarrow> UsageResetWindow \<Rightarrow> bool" where
  "exhausted limits cs w \<longleftrightarrow> 0 < USDToNano (forWindow limits w) \<and> USDToNano (forWindow limits w) \<le> used (cycle_of cs w)"

definition summary_row :: "location \<Rightarrow> instant \<Rightarrow> quotaLimits \<Rightarrow> cycles \<Rightarrow> UsageResetWindow \<Rightarrow> QuotaCycleSummary" where
  "summary_row loc now limits cs w = \<lparr>SumWindow = w, SumStartedAt = StartedAt (cycle_of cs w),
     SumResetsAt = ResetsAt (cycle_of cs w), SumResetKind = ResetKind (cycle_of cs w),
     UsedUSD = nano_USD (used (cycle_of cs w)), LimitUSD = forWindow limits w,
     ResetAfterManualAt = manualResetDeadline loc now w\<rparr>"

lemma exceeded_nonempty [simp]: "exceeded w \<noteq> []"
  by (simp add: exceeded_def)

lemma summary_window_step:
  "SumCycles (summary_window loc now limits cs w s) = SumCycles s @ [summary_row loc now limits cs w]"
  "BlockedReason (summary_window loc now limits cs w s) =
     (if BlockedReason s = [] \<and> exhausted limits cs w then exceeded w else BlockedReason s)"
  "SumTimezone (summary_window loc now limits cs w s) = SumTimezone s"
  by (simp add: summary_window_def summary_row_def Let_def, auto simp: summary_window_def exhausted_def Let_def)

lemma summary_fold:
  "SumCycles (fold (summary_window loc now limits cs) ws s) = SumCycles s @ map (summary_row loc now limits cs) ws"
  "BlockedReason (fold (summary_window loc now limits cs) ws s) = (if BlockedReason s = [] then
     (case find (exhausted limits cs) ws of None \<Rightarrow> [] | Some w \<Rightarrow> exceeded w) else BlockedReason s)"
  "SumTimezone (fold (summary_window loc now limits cs) ws s) = SumTimezone s"
  by (induction ws arbitrary: s) (simp_all add: summary_window_step)

lemma summary_balance_fields [simp]:
  "SumCycles (summary_balance limits u s) = SumCycles s" "SumTimezone (summary_balance limits u s) = SumTimezone s"
  "\<not> LimBalance limits \<Longrightarrow> BlockedReason (summary_balance limits u s) = BlockedReason s"
  by (auto simp: summary_balance_def Let_def)

lemma summary_status_fields [simp]:
  "SumCycles (summary_status s) = SumCycles s" "BlockedReason (summary_status s) = BlockedReason s"
  "SumTimezone (summary_status s) = SumTimezone s"
  by (auto simp: summary_status_def)

lemma ledger_summary_rows:
  assumes "\<not> LimBalance limits" "currentCyclesLocked kid now (evict now l) = (l', cs)"
  obtains s where "ledger_summary now kid limits l = (l', s)"
    "SumCycles s = map (summary_row (ledger_location l) now limits cs) quotaWindows"
    "BlockedReason s = (case find (exhausted limits cs) quotaWindows of None \<Rightarrow> [] | Some w \<Rightarrow> exceeded w)"
proof -
  have loc: "ledger_location l' = ledger_location l"
    using currentCycles_fields(1) [of kid now "evict now l"] assms(2) by simp
  show thesis
    by (rule that [of "snd (ledger_summary now kid limits l)"])
      (use assms loc in \<open>simp_all add: ledger_summary_def summaryLocked_def summary_fold summary_start_def\<close>)
qed

text \<open>The loop over the rows: the last of the exhausted rows that reset last wins.\<close>

definition row_exhausted :: "QuotaCycleSummary \<Rightarrow> bool" where
  "row_exhausted c \<longleftrightarrow> f64_lt (Fin 0) (LimitUSD c) \<and> USDToNano (LimitUSD c) \<le> USDToNano (UsedUSD c)"

lemma denial_fold:
  "(\<exists>c \<in> set rows. row_exhausted c \<and> DenialRetryAt d \<le> SumResetsAt c) \<Longrightarrow>
     \<exists>c \<in> set rows. row_exhausted c \<and> Reason (fold denial_cycle rows d) = exceeded (SumWindow c) \<and>
       DenialLimit (fold denial_cycle rows d) = LimitUSD c \<and> DenialRetryAt (fold denial_cycle rows d) = SumResetsAt c"
  "\<forall>c \<in> set rows. row_exhausted c \<longrightarrow> SumResetsAt c \<le> DenialRetryAt (fold denial_cycle rows d)"
  "DenialRetryAt d \<le> DenialRetryAt (fold denial_cycle rows d)"
proof -
  have step: "denial_cycle c d = (if row_exhausted c \<and> DenialRetryAt d \<le> SumResetsAt c
      then d\<lparr>Reason := exceeded (SumWindow c), DenialLimit := LimitUSD c, DenialRetryAt := SumResetsAt c\<rparr> else d)" for c d
    by (auto simp: denial_cycle_def row_exhausted_def)
  show mono: "DenialRetryAt d \<le> DenialRetryAt (fold denial_cycle rows d)" for rows d
  proof (induction rows arbitrary: d)
    case (Cons c rows)
    have "DenialRetryAt d \<le> DenialRetryAt (denial_cycle c d)" by (simp add: step)
    with Cons.IH [of "denial_cycle c d"] show ?case by simp
  qed simp
  show "\<forall>c \<in> set rows. row_exhausted c \<longrightarrow> SumResetsAt c \<le> DenialRetryAt (fold denial_cycle rows d)" for d
  proof (induction rows arbitrary: d)
    case (Cons c rows)
    have "row_exhausted c \<Longrightarrow> SumResetsAt c \<le> DenialRetryAt (denial_cycle c d)" by (simp add: step)
    then show ?case using Cons.IH mono [of "denial_cycle c d" rows] by (auto intro: order_trans)
  qed simp
  have keep: "\<forall>c \<in> set rows. \<not> (row_exhausted c \<and> DenialRetryAt d \<le> SumResetsAt c) \<Longrightarrow> fold denial_cycle rows d = d" for rows d
    by (induction rows) (auto simp: step)
  show "(\<exists>c \<in> set rows. row_exhausted c \<and> DenialRetryAt d \<le> SumResetsAt c) \<Longrightarrow>
     \<exists>c \<in> set rows. row_exhausted c \<and> Reason (fold denial_cycle rows d) = exceeded (SumWindow c) \<and>
       DenialLimit (fold denial_cycle rows d) = LimitUSD c \<and> DenialRetryAt (fold denial_cycle rows d) = SumResetsAt c" for d
  proof (induction rows arbitrary: d)
    case (Cons c rows)
    show ?case
    proof (cases "\<exists>x \<in> set rows. row_exhausted x \<and> DenialRetryAt (denial_cycle c d) \<le> SumResetsAt x")
      case True
      then show ?thesis using Cons.IH [of "denial_cycle c d"] by auto
    next
      case False
      then have e: "fold denial_cycle (c # rows) d = denial_cycle c d" using keep [of rows "denial_cycle c d"] by simp
      have c: "row_exhausted c \<and> DenialRetryAt d \<le> SumResetsAt c" using Cons.prems False step [of c d] by (auto split: if_splits)
      then have dc: "denial_cycle c d = d\<lparr>Reason := exceeded (SumWindow c), DenialLimit := LimitUSD c, DenialRetryAt := SumResetsAt c\<rparr>"
        using step [of c d] by simp
      show ?thesis unfolding e dc by (rule bexI [of _ c]) (use c in simp_all)
    qed
  qed simp
qed

lemma USDToNano_pos: "0 < USDToNano x \<Longrightarrow> f64_lt (Fin 0) x"
proof (cases x)
  case (Fin q)
  assume "0 < USDToNano x"
  show ?thesis
  proof (rule ccontr)
    assume "\<not> ?thesis"
    then have q: "q \<le> 0" using Fin by simp
    have "rnd (q * of_int nanoPerUSD) \<le> rnd 0"
      by (rule ieee.mono) (use q in \<open>simp add: nanoPerUSD_def mult_le_0_iff\<close>)
    then have r: "rnd (q * of_int nanoPerUSD) \<le> 0" by (simp add: rnd_def)
    have "f64_round_to_int64 (f64_of_rat (q * of_int nanoPerUSD)) \<le> 0"
    proof (cases "2 powi 1024 \<le> \<bar>rnd (q * of_int nanoPerUSD)\<bar>")
      case False
      have "of_int (round_away (rnd (q * of_int nanoPerUSD))) \<le> (0 :: rat)"
        using round_away_mono [OF r] round_away_of_int [of 0] by simp
      then have "int64_of_rat (of_int (round_away (rnd (q * of_int nanoPerUSD)))) \<le> 0"
        by (auto simp: int64_of_rat_def Let_def minInt64_def)
      then show ?thesis using False by (simp add: f64_of_rat_def Let_def)
    qed (simp add: f64_of_rat_def Let_def minInt64_def)
    with \<open>0 < USDToNano x\<close> Fin show False by (simp add: USDToNano_def)
  qed
qed (simp_all add: USDToNano_def)

text \<open>C5: A denial names the exhausted period that resets last, since that is when the requests can
  resume. A request is denied exactly when a period with a limit has used it up; the denial then
  carries the name, the limit and the reset time of an exhausted period, and no exhausted period
  resets later. (Each limit is zero or at least a nanodollar, and the consumption is below 2^50
  nanodollars, about a million dollars, so the dollars of the summary are exact.)\<close>

theorem quotaDenial_names_last:
  assumes "\<not> LimBalance limits" "currentCyclesLocked kid now (evict now l) = (l', cs)"
    and limits: "\<forall>w \<in> set quotaWindows. forWindow limits w = Fin 0 \<or> 0 < USDToNano (forWindow limits w)"
    and amounts: "\<forall>w \<in> set quotaWindows. \<bar>used (cycle_of cs w)\<bar> < 2 ^ 50 \<and> zero_time \<le> ResetsAt (cycle_of cs w)"
  shows "case snd (quotaDenial now kid limits l) of
      None \<Rightarrow> \<forall>w \<in> set quotaWindows. \<not> exhausted limits cs w
    | Some d \<Rightarrow> \<exists>w \<in> set quotaWindows. exhausted limits cs w \<and> Reason d = exceeded w \<and>
        DenialLimit d = forWindow limits w \<and> DenialRetryAt d = ResetsAt (cycle_of cs w) \<and>
        (\<forall>v \<in> set quotaWindows. exhausted limits cs v \<longrightarrow> ResetsAt (cycle_of cs v) \<le> DenialRetryAt d)"
proof -
  obtain s where s: "ledger_summary now kid limits l = (l', s)"
    "SumCycles s = map (summary_row (ledger_location l) now limits cs) quotaWindows"
    "BlockedReason s = (case find (exhausted limits cs) quotaWindows of None \<Rightarrow> [] | Some w \<Rightarrow> exceeded w)"
    by (rule ledger_summary_rows [OF assms(1,2)])
  have row: "row_exhausted (summary_row (ledger_location l) now limits cs w) \<longleftrightarrow> exhausted limits cs w"
    if "w \<in> set quotaWindows" for w
  proof -
    have "USDToNano (nano_USD (used (cycle_of cs w))) = used (cycle_of cs w)"
      using amounts that by (intro USDToNano_USD) auto
    moreover have "forWindow limits w = Fin 0 \<Longrightarrow> \<not> 0 < USDToNano (forWindow limits w)"
      using USDToNano_pos [of "Fin 0"] by auto
    ultimately show ?thesis
      using limits that USDToNano_pos [of "forWindow limits w"] by (auto simp: row_exhausted_def summary_row_def exhausted_def)
  qed
  show ?thesis
  proof (cases "\<exists>w \<in> set quotaWindows. exhausted limits cs w")
    case False
    then have "find (exhausted limits cs) quotaWindows = None" by (simp add: find_None_iff)
    with False s show ?thesis using assms(1) by (auto simp: quotaDenial_def)
  next
    case True
    then obtain w0 where w0: "find (exhausted limits cs) quotaWindows = Some w0" "w0 \<in> set quotaWindows" "exhausted limits cs w0"
      by (metis find_None_iff find_Some_iff nth_mem not_None_eq)
    have any: "limits_any limits"
      using w0(2,3) USDToNano_pos by (auto simp: quotaWindows_def exhausted_def limits_any_def forWindow_def split: if_splits)
    let ?start = "denial_of (BlockedReason s)\<lparr>DenialTimezone := SumTimezone s\<rparr>"
    let ?d = "fold denial_cycle (SumCycles s) ?start"
    have dn: "snd (quotaDenial now kid limits l) = Some ?d"
      using assms(1) any s(1) s(3) w0(1) by (simp add: quotaDenial_def)
    have "\<exists>c \<in> set (SumCycles s). row_exhausted c \<and> DenialRetryAt ?start \<le> SumResetsAt c"
      using w0 row amounts by (auto simp: s(2) denial_of_def summary_row_def [of _ _ _ _ w0] intro!: bexI [of _ w0])
    from denial_fold(1) [OF this] obtain w where "w \<in> set quotaWindows" "exhausted limits cs w"
        "Reason ?d = exceeded w" "DenialLimit ?d = forWindow limits w" "DenialRetryAt ?d = ResetsAt (cycle_of cs w)"
      using row by (auto simp: s(2) summary_row_def)
    moreover have "\<forall>v \<in> set quotaWindows. exhausted limits cs v \<longrightarrow> ResetsAt (cycle_of cs v) \<le> DenialRetryAt ?d"
      using denial_fold(2) [of "SumCycles s" ?start] row by (auto simp: s(2) summary_row_def)
    ultimately show ?thesis unfolding dn option.case by blast
  qed
qed

text \<open>A ledger whose key used two dollars today, at the Unix epoch.\<close>

definition spent_cycles :: cycles where
  "spent_cycles = (let c = \<lparr>StartedAt = 0, ResetsAt = 1, ResetKind = ''initial'',
       ByModel = [(''m'', zero_bucket\<lparr>ChargedNano := 2000000000\<rparr>)]\<rparr>
     in \<lparr>Daily = c, Weekly = c\<lparr>ResetsAt := 2\<rparr>, Monthly = c\<lparr>ByModel := []\<rparr>\<rparr>)"

definition spent_ledger :: usageLedger where
  "spent_ledger = (newUsageLedger UTC ''UTC'')\<lparr>entries := [(''k'', empty_usage\<lparr>Cycles := Some spent_cycles\<rparr>)],
     lastEvictedDate := Some (local_day UTC 0)\<rparr>"

definition dollar_limits :: quotaLimits where
  "dollar_limits = \<lparr>LimDailyUSD = Fin 1, LimWeeklyUSD = Fin 1, LimMonthlyUSD = Fin 0, LimBalance = False\<rparr>"

lemma spent_current: "currentCyclesLocked ''k'' 0 (evict 0 spent_ledger) = (spent_ledger, spent_cycles)"
proof -
  have "evict 0 spent_ledger = spent_ledger"
    by (simp add: evict_def evictExpiredLocked_def spent_ledger_def dateKey_def newUsageLedger_def)
  moreover have "advanceCyclesLocked UTC spent_cycles 0 = (spent_cycles, False)"
    by (simp add: advanceCyclesLocked_def quotaWindows_def advance_window_def spent_cycles_def Let_def)
  ultimately show ?thesis
    by (simp add: currentCyclesLocked_def spent_ledger_def newUsageLedger_def)
qed

lemma USDToNano_dollar [simp]: "USDToNano (Fin 1) = 1000000000" "USDToNano (Fin 0) = 0"
proof -
  have "f64_of_rat 1000000000 = Fin (of_int 1000000000)"
    using f64_of_int_small [of 1000000000] by (simp add: f64_of_int_def)
  moreover have "f64_of_rat 0 = Fin (of_int 0)" using f64_of_int_small [of 0] by (simp add: f64_of_int_def)
  ultimately show "USDToNano (Fin 1) = 1000000000" "USDToNano (Fin 0) = 0"
    using int64_of_rat_of_int [of 1000000000] int64_of_rat_of_int [of 0] round_away_of_int [of 1000000000] round_away_of_int [of 0]
    by (simp_all add: USDToNano_def nanoPerUSD_def int64_def)
qed

lemma spent_used: "used (Daily spent_cycles) = 2000000000" "used (Weekly spent_cycles) = 2000000000" "used (Monthly spent_cycles) = 0"
  by (simp_all add: used_def spent_cycles_def Let_def total_def nano_add_def wrap64_id int64_def)

lemma quotaDenial_names_last_witness:
  "\<exists>d. snd (quotaDenial 0 ''k'' dollar_limits spent_ledger) = Some d \<and> Reason d = exceeded UsageResetWeekly \<and> DenialRetryAt d = 2"
proof -
  have lim: "forWindow dollar_limits UsageResetDaily = Fin 1" "forWindow dollar_limits UsageResetWeekly = Fin 1"
    "forWindow dollar_limits UsageResetMonthly = Fin 0" "\<not> LimBalance dollar_limits"
    by (simp_all add: dollar_limits_def forWindow_def)
  have res: "ResetsAt (Daily spent_cycles) = 1" "ResetsAt (Weekly spent_cycles) = 2" "ResetsAt (Monthly spent_cycles) = 1"
    by (simp_all add: spent_cycles_def Let_def)
  have ex: "exhausted dollar_limits spent_cycles UsageResetDaily" "exhausted dollar_limits spent_cycles UsageResetWeekly"
    "\<not> exhausted dollar_limits spent_cycles UsageResetMonthly"
    by (simp_all add: exhausted_def lim spent_used)
  have "case snd (quotaDenial 0 ''k'' dollar_limits spent_ledger) of
      None \<Rightarrow> \<forall>w \<in> set quotaWindows. \<not> exhausted dollar_limits spent_cycles w
    | Some d \<Rightarrow> \<exists>w \<in> set quotaWindows. exhausted dollar_limits spent_cycles w \<and> Reason d = exceeded w \<and>
        DenialLimit d = forWindow dollar_limits w \<and> DenialRetryAt d = ResetsAt (cycle_of spent_cycles w) \<and>
        (\<forall>v \<in> set quotaWindows. exhausted dollar_limits spent_cycles v \<longrightarrow> ResetsAt (cycle_of spent_cycles v) \<le> DenialRetryAt d)"
    by (rule quotaDenial_names_last [OF lim(4) spent_current]) (simp_all add: quotaWindows_def lim res spent_used zero_time_def)
  then show ?thesis
    using ex res by (auto simp: quotaWindows_def split: option.splits)
qed


subsection \<open>A manual reset\<close>

lemma currentCycles_Some:
  assumes "aget (entries l) kid = Some u" "Cycles u = Some cs"
  shows "snd (currentCyclesLocked kid now l) = fst (advanceCyclesLocked (ledger_location l) cs now)"
    "aget (entries (fst (currentCyclesLocked kid now l))) kid =
       Some (u\<lparr>Cycles := Some (fst (advanceCyclesLocked (ledger_location l) cs now))\<rparr>)"
    "k \<noteq> kid \<Longrightarrow> aget (entries (fst (currentCyclesLocked kid now l))) k = aget (entries l) k"
  using assms by (auto simp: currentCyclesLocked_def Let_def split: prod.splits)

lemma currentCycles_hist: "historyThrough (fst (currentCyclesLocked kid now l)) = historyThrough l"
  by (auto simp: currentCyclesLocked_def Let_def split: option.splits prod.splits)

lemma reset_cases:
  assumes "aget (entries l) kid = Some u" "Cycles u = Some cs0" "currentCyclesLocked kid now l = (l1, cs)"
  obtains
    (changed) "\<not> expectation_met l1 now w cs expected"
      "resetWindowAndPersist now kid w expected persist (l, s) = ((l1, s), Inl ErrUsageResetChanged)"
  | (failed) s' where "expectation_met l1 now w cs expected"
      "resetWindowAndPersist now kid w expected persist (l, s) = ((l1, s'), Inl PersistError)"
  | (written) l2 s' r where "expectation_met l1 now w cs expected"
      "l2 = markDirtyLocked (l1\<lparr>entries := aset kid (u\<lparr>Cycles := Some (set_cycle w (manual_cycle (ledger_location l) now w) cs)\<rparr>) (entries l1)\<rparr>)"
      "persist (historyThrough l) (liveSnapshotLocked (historyThrough l) l2) s = (s', True)"
      "resetWindowAndPersist now kid w expected persist (l, s) = ((l2\<lparr>dirty := False\<rparr>, s'), Inr r)"
proof -
  have f: "ledger_location l1 = ledger_location l" "historyThrough l1 = historyThrough l"
    using currentCycles_fields [where kid = kid and now = now and l = l] currentCycles_hist [where kid = kid and now = now and l = l] assms(3) by auto
  define u1 where "u1 = u\<lparr>Cycles := Some cs\<rparr>"
  have g: "aget (entries l1) kid = Some u1"
    using currentCycles_Some [OF assms(1,2), where now = now] assms(3) by (simp add: u1_def)
  then have uo: "usage_of l1 kid = u1" by (simp add: usage_of_def)
  define l2 where "l2 = markDirtyLocked (l1\<lparr>entries := aset kid (u\<lparr>Cycles := Some (set_cycle w (manual_cycle (ledger_location l) now w) cs)\<rparr>) (entries l1)\<rparr>)"
  have h2: "historyThrough l2 = historyThrough l" by (simp add: l2_def f)
  have restored: "l2\<lparr>entries := aset kid u1 (entries l2), dirty := dirty l1, revision := revision l1\<rparr> = l1"
    using restore_entry [OF g, of "u\<lparr>Cycles := Some (set_cycle w (manual_cycle (ledger_location l) now w) cs)\<rparr>"] by (simp add: l2_def)
  obtain s' ok where p: "persist (historyThrough l) (liveSnapshotLocked (historyThrough l) l2) s = (s', ok)" by fastforce
  have un: "resetWindowAndPersist now kid w expected persist (l, s) =
     (if \<not> expectation_met l1 now w cs expected then ((l1, s), Inl ErrUsageResetChanged)
      else if \<not> ok then ((l2\<lparr>entries := aset kid (u1\<lparr>Cycles := Some cs\<rparr>) (entries l2), dirty := dirty l1, revision := revision l1\<rparr>, s'), Inl PersistError)
      else ((l2\<lparr>dirty := False\<rparr>, s'), snd (resetWindowAndPersist now kid w expected persist (l, s))))"
    using p by (simp add: resetWindowAndPersist_def assms Let_def uo u1_def f l2_def [symmetric] h2)
  show thesis
  proof (cases "expectation_met l1 now w cs expected")
    case False
    then show thesis using changed un by simp
  next
    case met: True
    show thesis
    proof (cases ok)
      case True
      have "\<exists>r. snd (resetWindowAndPersist now kid w expected persist (l, s)) = Inr r"
        using p True met by (simp add: resetWindowAndPersist_def assms Let_def uo u1_def f l2_def [symmetric] h2)
      then show thesis using written [OF met l2_def] p True met un by auto
    next
      case False
      have "u1\<lparr>Cycles := Some cs\<rparr> = u1" by (simp add: u1_def)
      then show thesis using failed [OF met] met False un restored by simp
    qed
  qed
qed

lemma manual_cycle_ok:
  "regular loc \<Longrightarrow> zero_time < now \<Longrightarrow> cycle_ok loc w (manual_cycle loc now w)"
  by (rule cycle_okI) (simp_all add: manual_cycle_def manualResetDeadline_def)

text \<open>A manual reset starts the named period anew: the period begins now with nothing used, ends at
  the deadline the management interface proposed (a valid period, so the file it is in loads),
  the key's other periods are those rolled forward to now, no other key changes, and the snapshot
  handed to the writer is the one of the new memory. A reset that is not answered leaves the key
  with its periods rolled forward to now, whatever the error.\<close>

theorem reset_starts_period:
  assumes "aget (entries l) kid = Some u" "Cycles u = Some cs0" "currentCyclesLocked kid now l = (l1, cs)"
    "regular (ledger_location l)" "zero_time < now" "w \<in> set quotaWindows"
    "resetWindowAndPersist now kid w expected persist (l, s) = ((l', s'), r)"
  shows "case r of
      Inl e \<Rightarrow> l' = l1
    | Inr a \<Rightarrow> expectation_met l1 now w cs expected \<and> \<not> dirty l' \<and>
        persist (historyThrough l) (liveSnapshotLocked (historyThrough l) l') s = (s', True) \<and>
        (\<exists>cs'. usage_of l' kid = u\<lparr>Cycles := Some cs'\<rparr> \<and> cycle_ok (ledger_location l) w (cycle_of cs' w) \<and>
          StartedAt (cycle_of cs' w) = now \<and> ResetsAt (cycle_of cs' w) = manualResetDeadline (ledger_location l) now w \<and>
          used (cycle_of cs' w) = 0 \<and> (\<forall>v \<in> set quotaWindows. v \<noteq> w \<longrightarrow> cycle_of cs' v = cycle_of cs v)) \<and>
        (\<forall>k. k \<noteq> kid \<longrightarrow> usage_of l' k = usage_of l k)"
  using assms(1-3)
proof (cases rule: reset_cases [where w = w and expected = expected and persist = persist and s = s])
  case (written l2 s2 a)
  let ?c = "manual_cycle (ledger_location l) now w"
  let ?cs = "set_cycle w ?c cs"
  have r: "l' = l2\<lparr>dirty := False\<rparr>" "s' = s2" "r = Inr a" using written(4) assms(7) by auto
  have e: "entries l' = aset kid (u\<lparr>Cycles := Some ?cs\<rparr>) (entries l1)" by (simp add: r written(2))
  have "liveSnapshotLocked t l' = liveSnapshotLocked t l2" for t by (simp add: liveSnapshotLocked_def r)
  then have p: "persist (historyThrough l) (liveSnapshotLocked (historyThrough l) l') s = (s', True)"
    using written(3) r(2) by simp
  have "aget (entries l1) k = aget (entries l) k" if "k \<noteq> kid" for k
    using currentCycles_Some(3) [OF assms(1,2) that, of now] assms(3) by simp
  then have k: "\<forall>k. k \<noteq> kid \<longrightarrow> usage_of l' k = usage_of l k" by (simp add: usage_of_def e)
  have "usage_of l' kid = u\<lparr>Cycles := Some ?cs\<rparr> \<and> cycle_ok (ledger_location l) w (cycle_of ?cs w) \<and>
      StartedAt (cycle_of ?cs w) = now \<and> ResetsAt (cycle_of ?cs w) = manualResetDeadline (ledger_location l) now w \<and>
      used (cycle_of ?cs w) = 0 \<and> (\<forall>v \<in> set quotaWindows. v \<noteq> w \<longrightarrow> cycle_of ?cs v = cycle_of cs v)"
    using manual_cycle_ok [OF assms(4,5)] assms(6)
    by (simp add: usage_of_def e cycle_of_set) (simp add: manual_cycle_def used_def total_def)
  then show ?thesis using written(1) p k by (auto simp: r)
qed (use assms(7) in auto)

lemma reset_starts_period_witness:
  "\<exists>l' cs'. fst (fst (resetWindowAndPersist 0 ''k'' UsageResetDaily None (\<lambda>_ _ s. (s, True)) (spent_ledger, ()))) = l' \<and>
     Cycles (usage_of l' ''k'') = Some cs' \<and> used (Daily cs') = 0 \<and> cycle_of cs' UsageResetWeekly = Weekly spent_cycles"
proof -
  have e: "aget (entries spent_ledger) ''k'' = Some (empty_usage\<lparr>Cycles := Some spent_cycles\<rparr>)"
    by (simp add: spent_ledger_def)
  have evict: "evict 0 spent_ledger = spent_ledger"
    by (simp add: evict_def evictExpiredLocked_def spent_ledger_def dateKey_def newUsageLedger_def)
  have c: "currentCyclesLocked ''k'' 0 spent_ledger = (spent_ledger, spent_cycles)" using spent_current by (simp add: evict)
  obtain l' s' r where x: "resetWindowAndPersist 0 ''k'' UsageResetDaily None (\<lambda>_ _ s. (s, True)) (spent_ledger, ()) = ((l', s'), r)"
    by (metis surj_pair)
  have d: "UsageResetDaily \<in> set quotaWindows" by (simp add: quotaWindows_def)
  have z: "zero_time < 0" by (simp add: zero_time_def)
  have reg: "regular (ledger_location spent_ledger)" by (simp add: spent_ledger_def newUsageLedger_def regular_UTC)
  have m: "expectation_met spent_ledger 0 UsageResetDaily spent_cycles None" by (simp add: expectation_met_def)
  have c2: "Cycles (empty_usage\<lparr>Cycles := Some spent_cycles\<rparr>) = Some spent_cycles" by simp
  have "r \<noteq> Inl x" for x
    using e c2 c by (cases rule: reset_cases [where w = UsageResetDaily and expected = None and persist = "\<lambda>_ _ s. (s, True)" and s = "()"])
      (use x m in \<open>auto simp: resetWindowAndPersist_def e c Let_def\<close>)
  then obtain a where "r = Inr a" by (cases r) auto
  with reset_starts_period [OF e c2 c reg z d x] x show ?thesis by (auto simp: quotaWindows_def)
qed


subsection \<open>Reports cover the range once\<close>

lemma in_concatI: "x \<in> set xs \<Longrightarrow> y \<in> set (f x) \<Longrightarrow> y \<in> set (concat (map f xs))"
  by auto

lemma distinct_tagged:
  assumes "distinct (map fst xs)" "\<And>x. x \<in> set xs \<Longrightarrow> distinct (map g (f x))"
    "\<And>x y. x \<in> set xs \<Longrightarrow> y \<in> set (f x) \<Longrightarrow> h (g y) = fst x"
  shows "distinct (map g (concat (map f xs)))"
  using assms
proof (induction xs)
  case (Cons x xs)
  have "g y \<noteq> g z" if "y \<in> set (f x)" "x' \<in> set xs" "z \<in> set (f x')" for y z x'
  proof
    assume "g y = g z"
    with Cons.prems(3) [of x y] Cons.prems(3) [of x' z] that have "fst x = fst x'" by simp
    with Cons.prems(1) that(2) show False by auto
  qed
  with Cons show ?case by fastforce
qed simp

text \<open>A range scan hands out every bucket dated in the range exactly once, with the amounts of
  the ledger, and no other.\<close>

theorem visitRange_exact:
  assumes "ledger_ok l" "visitRange now from to l = (l', visits)"
  shows "distinct (map (\<lambda>(k, d, m, _). (k, d, m)) visits) \<and>
    (\<forall>k d m b. (k, d, m, b) \<in> set visits \<longrightarrow> from \<le> d \<and> d \<le> to \<and> ledger_bucket l' k d m = b) \<and>
    (\<forall>k d m. from \<le> d \<longrightarrow> d \<le> to \<longrightarrow> ledger_bucket l' k d m \<noteq> zero_bucket \<longrightarrow> (k, d, m, ledger_bucket l' k d m) \<in> set visits)"
proof -
  have l': "l' = evict now l" and ok: "ledger_ok l'"
    using assms evict_ok by (auto simp: visitRange_def Let_def)
  have v: "visits = [(kid, d, m, b). (kid, u) \<leftarrow> entries l', (d, ms) \<leftarrow> Days u, \<not> (d < from \<or> to < d), (m, b) \<leftarrow> ms]"
    using assms(2) l' by (simp add: visitRange_def Let_def)
  have e: "amap_ok (entries l')" "\<And>k u. (k, u) \<in> set (entries l') \<Longrightarrow> usage_ok u"
    using ok by (force simp: ledger_ok_def)+
  have days: "amap_ok (Days u)" "\<And>d ms. (d, ms) \<in> set (Days u) \<Longrightarrow> amap_ok ms" if "(k, u) \<in> set (entries l')" for k u
    using e(2) [OF that] by (force simp: usage_ok_def models_ok_def)+
  have mem: "(k, d, m, b) \<in> set visits \<longleftrightarrow> (\<exists>u ms. aget (entries l') k = Some u \<and> aget (Days u) d = Some ms \<and>
      aget ms m = Some b \<and> from \<le> d \<and> d \<le> to)" for k d m b
  proof -
    have "\<exists>u ms. (k, u) \<in> set (entries l') \<and> (d, ms) \<in> set (Days u) \<and> (m, b) \<in> set ms \<and> from \<le> d \<and> d \<le> to"
      if "(k, d, m, b) \<in> set visits" using that unfolding v by (auto split: prod.splits if_splits) blast
    moreover have "(k, d, m, b) \<in> set visits"
      if "(k, u) \<in> set (entries l')" "(d, ms) \<in> set (Days u)" "(m, b) \<in> set ms" "from \<le> d" "d \<le> to" for u ms
    proof -
      have y: "(k, d, m, b) \<in> set (map (\<lambda>(m, b). (k, d, m, b)) ms)" using that(3) by force
      show ?thesis unfolding v
        by (rule in_concatI [OF that(1)], unfold prod.case, rule in_concatI [OF that(2)]) (use y that(4,5) in simp)
    qed
    ultimately have "(k, d, m, b) \<in> set visits \<longleftrightarrow> (\<exists>u ms. (k, u) \<in> set (entries l') \<and> (d, ms) \<in> set (Days u) \<and> (m, b) \<in> set ms \<and> from \<le> d \<and> d \<le> to)"
      by blast
    then show ?thesis
      using e(1) days aget_SomeI map_of_SomeD by (metis (mono_tags, lifting))
  qed
  have b: "ledger_bucket l' k d m = (case aget (entries l') k of None \<Rightarrow> zero_bucket
      | Some u \<Rightarrow> (case aget (Days u) d of None \<Rightarrow> zero_bucket | Some ms \<Rightarrow> (case aget ms m of None \<Rightarrow> zero_bucket | Some b \<Rightarrow> b)))" for k d m
    by (simp add: ledger_bucket_def usage_of_def day_bucket_def models_bucket_def empty_usage_def split: option.splits)
  have "distinct (map (\<lambda>(k, d, m, _). (k, d, m)) visits)"
    unfolding v
  proof (rule distinct_tagged [where h = fst])
    fix x assume x: "x \<in> set (entries l')"
    obtain k u where ku: "x = (k, u)" by (cases x)
    note du = days [OF x [unfolded ku]]
    show "distinct (map (\<lambda>(k, d, m, _). (k, d, m)) (case x of (kid, u) \<Rightarrow>
        concat (map (\<lambda>(d, ms). if \<not> (d < from \<or> to < d) then map (\<lambda>(m, b). (kid, d, m, b)) ms else []) (Days u))))"
      unfolding ku prod.case
    proof (rule distinct_tagged [where h = "\<lambda>(k, d, m). d"])
      fix y assume y: "y \<in> set (Days u)"
      obtain d ms where dm: "y = (d, ms)" by (cases y)
      have "distinct (map (\<lambda>(m, b). (k, d, m)) ms)"
      proof -
        have "map (\<lambda>(m, b). (k, d, m)) ms = map (\<lambda>m. (k, d, m)) (map fst ms)" by (simp add: case_prod_unfold comp_def)
        moreover have "distinct (map fst ms)" using du(2) [of d ms] y dm by (simp add: amap_ok_def)
        ultimately show ?thesis by (simp only: distinct_map [of _ "map fst ms"]) (simp add: inj_on_def)
      qed
      then show "distinct (map (\<lambda>(k, d, m, _). (k, d, m)) (case y of (d, ms) \<Rightarrow>
          if \<not> (d < from \<or> to < d) then map (\<lambda>(m, b). (k, d, m, b)) ms else []))"
        by (simp add: dm comp_def case_prod_unfold)
    qed (use du(1) in \<open>auto simp: amap_ok_def split: if_splits\<close>)
  qed (use e(1) in \<open>auto simp: amap_ok_def split: if_splits\<close>)
  then show ?thesis using mem by (auto simp: b split: option.splits)
qed

lemma visitRange_exact_witness:
  "let l = spent_ledger\<lparr>entries := [(''k'', empty_usage\<lparr>Days := [(0, [(''m'', zero_bucket\<lparr>Calls := 1\<rparr>)])]\<rparr>)]\<rparr>
   in (''k'', 0, ''m'', zero_bucket\<lparr>Calls := 1\<rparr>) \<in> set (snd (visitRange 0 0 0 l))"
proof -
  let ?l = "spent_ledger\<lparr>entries := [(''k'', empty_usage\<lparr>Days := [(0, [(''m'', zero_bucket\<lparr>Calls := 1\<rparr>)])]\<rparr>)]\<rparr>"
  have ok: "ledger_ok ?l"
    by (simp add: ledger_ok_def usage_ok_def models_ok_def empty_usage_def spent_ledger_def newUsageLedger_def mark_le_def
        amap_ok_def bucket_ok_def zero_bucket_def int64_def)
  have e: "evict 0 ?l = ?l"
    by (simp add: evict_def evictExpiredLocked_def spent_ledger_def dateKey_def newUsageLedger_def)
  obtain visits where v: "visitRange 0 0 0 ?l = (?l, visits)" by (simp add: visitRange_def e)
  have b: "ledger_bucket ?l ''k'' 0 ''m'' = zero_bucket\<lparr>Calls := 1\<rparr>"
    by (simp add: ledger_bucket_def usage_of_def day_bucket_def models_bucket_def)
  have "ledger_bucket ?l ''k'' 0 ''m'' \<noteq> zero_bucket" unfolding b by (simp add: zero_bucket_def)
  with visitRange_exact [OF ok v] have "(''k'', 0, ''m'', ledger_bucket ?l ''k'' 0 ''m'') \<in> set visits" by blast
  then show ?thesis unfolding Let_def v b by simp
qed

end
