(* ===== verification/Prices.thy ===== *)
theory Prices
  imports Money
begin

text \<open>
  The price table of internal/policy/price.go: normalizing and validating the rows, the lookup a
  billed call uses, and the lookups of the reports. A table's index is a Go map that is only read
  by key, here a partial function; \<open>table_ok\<close> says that it is exactly the index of the rows.
\<close>

definition maxPricePerMillion :: rat where "maxPricePerMillion = 10000"
definition maxPerCallUSD :: rat where "maxPerCallUSD = 10000"
definition maxBillingMultiplier :: rat where "maxBillingMultiplier = 50"
definition maxTokensPerRecord :: int where "maxTokensPerRecord = 2 ^ 31"

record ModelPrice =
  ModelName :: string
  Provider :: string
  BillingMode :: string
  BillingMultiplier :: f64
  InputPricePerMillion :: f64
  OutputPricePerMillion :: f64
  CacheReadPricePerMillion :: f64
  CacheWritePricePerMillion :: "f64 option"
  PerCallUSD :: f64

text \<open>The zero value of the struct.\<close>

definition zero_price :: ModelPrice where
  "zero_price = \<lparr>ModelName = [], Provider = [], BillingMode = [], BillingMultiplier = Fin 0,
     InputPricePerMillion = Fin 0, OutputPricePerMillion = Fin 0, CacheReadPricePerMillion = Fin 0,
     CacheWritePricePerMillion = None, PerCallUSD = Fin 0\<rparr>"

definition Priced :: "ModelPrice \<Rightarrow> bool" where
  "Priced p \<longleftrightarrow> (if BillingMode p = ''per_call'' then f64_lt (Fin 0) (PerCallUSD p)
     else f64_lt (Fin 0) (InputPricePerMillion p) \<or> f64_lt (Fin 0) (OutputPricePerMillion p) \<or>
       f64_lt (Fin 0) (CacheReadPricePerMillion p) \<or>
       (case CacheWritePricePerMillion p of None \<Rightarrow> False | Some w \<Rightarrow> f64_lt (Fin 0) w))"

definition normalizeProvider :: "string \<Rightarrow> string" where
  "normalizeProvider p = TrimPrefix (ToLower (TrimSpace p)) ''openai-compatible-''"

definition priceKey :: "string \<Rightarrow> string \<Rightarrow> string" where
  "priceKey name provider = ToLower (TrimSpace name) @ [CHR 0x00] @ normalizeProvider provider"

definition validPrice :: "f64 \<Rightarrow> rat \<Rightarrow> bool" where
  "validPrice p mx \<longleftrightarrow> IsFinite p \<and> f64_le (Fin 0) p \<and> f64_le p (Fin mx)"

datatype price_error =
    NameRequired nat
  | DuplicateRow string string
  | BadMultiplier string
  | BadBillingMode string string
  | BadTokenPrice string
  | BadCacheWritePrice string
  | BadPerCall string

record priceTable =
  rows :: "ModelPrice list"
  row_index :: "string \<rightharpoonup> nat"

text \<open>One turn of the loop of \<open>normalizeModelPrices\<close>: the row as it is stored and its key.\<close>

definition normalize_row :: "nat \<Rightarrow> (string \<rightharpoonup> nat) \<Rightarrow> ModelPrice \<Rightarrow> price_error + (ModelPrice \<times> string)" where
  "normalize_row i idx row0 =
     (let row = row0\<lparr>ModelName := TrimSpace (ModelName row0)\<rparr>
      in if ModelName row = [] then Inl (NameRequired i)
      else let row = row\<lparr>Provider := normalizeProvider (Provider row)\<rparr>;
               key = priceKey (ModelName row) (Provider row)
      in if idx key \<noteq> None then Inl (DuplicateRow (ModelName row) (Provider row))
      else let row = (if f64_eq (BillingMultiplier row) (Fin 0) then row\<lparr>BillingMultiplier := Fin 1\<rparr> else row);
               mul = BillingMultiplier row
      in if \<not> IsFinite mul \<or> f64_lt mul (Fin 1) \<or> f64_lt (Fin maxBillingMultiplier) mul
         then Inl (BadMultiplier (ModelName row))
      else let mode = ToLower (TrimSpace (BillingMode row))
      in if mode \<notin> {[], ''tokens'', ''per_call''} then Inl (BadBillingMode (ModelName row) (BillingMode row))
      else let row = row\<lparr>BillingMode := (if mode = ''per_call'' then ''per_call'' else ''tokens'')\<rparr>
      in if \<not> (validPrice (InputPricePerMillion row) maxPricePerMillion \<and>
               validPrice (OutputPricePerMillion row) maxPricePerMillion \<and>
               validPrice (CacheReadPricePerMillion row) maxPricePerMillion)
         then Inl (BadTokenPrice (ModelName row))
      else if (case CacheWritePricePerMillion row of None \<Rightarrow> False | Some w \<Rightarrow> \<not> validPrice w maxPricePerMillion)
         then Inl (BadCacheWritePrice (ModelName row))
      else if \<not> validPrice (PerCallUSD row) maxPerCallUSD then Inl (BadPerCall (ModelName row))
      else Inr (row, key))"

fun normalize_rows :: "nat \<Rightarrow> (string \<rightharpoonup> nat) \<Rightarrow> ModelPrice list \<Rightarrow> price_error + (ModelPrice list \<times> (string \<rightharpoonup> nat))" where
  "normalize_rows i idx [] = Inr ([], idx)"
| "normalize_rows i idx (row # rest) =
     (case normalize_row i idx row of
        Inl e \<Rightarrow> Inl e
      | Inr (row', key) \<Rightarrow>
          (case normalize_rows (i + 1) (idx(key \<mapsto> i)) rest of
             Inl e \<Rightarrow> Inl e | Inr (rows', idx') \<Rightarrow> Inr (row' # rows', idx')))"

text \<open>The table on success; its rows are what the code leaves in the caller's slice.\<close>

definition normalizeModelPrices :: "ModelPrice list \<Rightarrow> price_error + priceTable" where
  "normalizeModelPrices rs = (case normalize_rows 0 Map.empty rs of
     Inl e \<Rightarrow> Inl e | Inr (rs', idx) \<Rightarrow> Inr \<lparr>rows = rs', row_index = idx\<rparr>)"

definition price_lookup :: "priceTable \<Rightarrow> string \<Rightarrow> string \<Rightarrow> ModelPrice option" where
  "price_lookup t provider0 model =
     (let provider = normalizeProvider provider0
      in case (if provider \<noteq> [] then row_index t (priceKey model provider) else None) of
           Some i \<Rightarrow> Some (rows t ! i)
         | None \<Rightarrow> map_option ((!) (rows t)) (row_index t (priceKey model [])))"

definition price_row :: "priceTable \<Rightarrow> string \<Rightarrow> string \<Rightarrow> ModelPrice option" where
  "price_row t name provider = map_option ((!) (rows t)) (row_index t (priceKey name provider))"

fun best_row :: "string \<Rightarrow> ModelPrice option \<Rightarrow> ModelPrice list \<Rightarrow> ModelPrice option" where
  "best_row lower best [] = best"
| "best_row lower best (r # rs) = best_row lower
     (if ToLower (ModelName r) = lower \<and> (case best of None \<Rightarrow> True | Some b \<Rightarrow> Provider r < Provider b)
      then Some r else best) rs"

definition rowByName :: "priceTable \<Rightarrow> string \<Rightarrow> ModelPrice option" where
  "rowByName t model = (case row_index t (priceKey model []) of
     Some i \<Rightarrow> Some (rows t ! i)
   | None \<Rightarrow> best_row (ToLower (TrimSpace model)) None (rows t))"

definition hasName :: "priceTable \<Rightarrow> string \<Rightarrow> bool" where
  "hasName t model \<longleftrightarrow> rowByName t model \<noteq> None"

text \<open>Sorted by lowercased name, then provider.\<close>

definition prices_snapshot :: "priceTable \<Rightarrow> ModelPrice list" where
  "prices_snapshot t = sort_key (\<lambda>r. [ToLower (ModelName r), Provider r]) (rows t)"

definition pricePointersEqual :: "f64 option \<Rightarrow> f64 option \<Rightarrow> bool" where
  "pricePointersEqual a b \<longleftrightarrow> (case (a, b) of (None, None) \<Rightarrow> True | (Some x, Some y) \<Rightarrow> f64_eq x y | _ \<Rightarrow> False)"


subsection \<open>What normalizing ensures\<close>

definition row_key :: "ModelPrice \<Rightarrow> string" where
  "row_key r = priceKey (ModelName r) (Provider r)"

definition row_ok :: "ModelPrice \<Rightarrow> bool" where
  "row_ok r \<longleftrightarrow> ModelName r \<noteq> [] \<and> TrimSpace (ModelName r) = ModelName r \<and>
     (\<exists>m. BillingMultiplier r = Fin m \<and> 1 \<le> m \<and> m \<le> maxBillingMultiplier) \<and>
     BillingMode r \<in> {''tokens'', ''per_call''} \<and>
     validPrice (InputPricePerMillion r) maxPricePerMillion \<and>
     validPrice (OutputPricePerMillion r) maxPricePerMillion \<and>
     validPrice (CacheReadPricePerMillion r) maxPricePerMillion \<and>
     (\<forall>w. CacheWritePricePerMillion r = Some w \<longrightarrow> validPrice w maxPricePerMillion) \<and>
     validPrice (PerCallUSD r) maxPerCallUSD"

definition table_ok :: "priceTable \<Rightarrow> bool" where
  "table_ok t \<longleftrightarrow> (\<forall>r \<in> set (rows t). row_ok r) \<and> distinct (map row_key (rows t)) \<and>
     (\<forall>k i. row_index t k = Some i \<longleftrightarrow> i < length (rows t) \<and> row_key (rows t ! i) = k)"

lemma validPrice_Fin: "validPrice p mx \<longleftrightarrow> (\<exists>x. p = Fin x \<and> 0 \<le> x \<and> x \<le> mx)"
  by (cases p) (simp_all add: validPrice_def)

lemma normalize_row_ok:
  assumes "normalize_row i idx r0 = Inr (r, k)"
  shows "row_ok r" "k = row_key r" "idx k = None"
proof -
  have fin: "\<not> (\<not> IsFinite m \<or> f64_lt m (Fin 1) \<or> f64_lt (Fin maxBillingMultiplier) m) \<Longrightarrow>
      \<exists>x. m = Fin x \<and> 1 \<le> x \<and> x \<le> maxBillingMultiplier" for m
    by (cases m) auto
  show "row_ok r" "k = row_key r" "idx k = None"
    using assms fin [of "Fin 1"] fin [of "BillingMultiplier r0"]
    by (auto simp: normalize_row_def Let_def row_ok_def row_key_def split: if_splits option.splits)
qed

lemma normalize_rows_ok:
  assumes "normalize_rows i idx rs = Inr (rs', idx')"
  shows "length rs' = length rs \<and> (\<forall>r \<in> set rs'. row_ok r \<and> idx (row_key r) = None) \<and>
    distinct (map row_key rs') \<and> idx' = idx ++ map_of (zip (map row_key rs') [i..<i + length rs'])"
  using assms
proof (induction i idx rs arbitrary: rs' idx' rule: normalize_rows.induct)
  case (1 i idx)
  then show ?case by simp
next
  case (2 i idx row rest)
  from 2(2) obtain row' key where r: "normalize_row i idx row = Inr (row', key)"
    by (auto split: sum.splits prod.splits)
  with 2(2) obtain rest' where t: "normalize_rows (i + 1) (idx(key \<mapsto> i)) rest = Inr (rest', idx')" "rs' = row' # rest'"
    by (auto split: sum.splits prod.splits)
  note ok = normalize_row_ok [OF r]
  from 2(1) [OF r refl t(1)]
  have ih: "length rest' = length rest" "\<forall>r \<in> set rest'. row_ok r \<and> (idx(key \<mapsto> i)) (row_key r) = None"
    "distinct (map row_key rest')"
    "idx' = idx(key \<mapsto> i) ++ map_of (zip (map row_key rest') [i + 1..<i + 1 + length rest'])" by blast+
  have fresh: "key \<notin> row_key ` set rest'" using ih(2) by (auto split: if_splits)
  define Z where "Z = zip (map row_key rest') [i + 1..<i + 1 + length rest']"
  have "[i..<i + length rs'] = i # [i + 1..<i + 1 + length rest']"
    by (simp add: t(2) upt_conv_Cons del: upt_Suc)
  then have zip_eq: "zip (map row_key rs') [i..<i + length rs'] = (key, i) # Z"
    by (simp add: Z_def t(2) ok(2) del: upt_Suc)
  have "map_of Z key = None"
    using fresh by (auto simp: Z_def map_of_eq_None_iff dest: set_zip_leftD simp del: upt_Suc)
  then have idx': "idx' = idx ++ map_of (zip (map row_key rs') [i..<i + length rs'])"
    unfolding zip_eq ih(4) Z_def [symmetric] by (auto simp: fun_eq_iff map_add_def split: option.splits)
  have "length rs' = length (row # rest)" using ih(1) by (simp add: t(2))
  moreover have "\<forall>r \<in> set rs'. row_ok r \<and> idx (row_key r) = None"
    using ih(2) ok by (auto simp: t(2) split: if_splits)
  moreover have "distinct (map row_key rs')" using ih(3) fresh ok(2) by (simp add: t(2))
  ultimately show ?case using idx' by blast
qed

lemma map_of_zip_index:
  "distinct ks \<Longrightarrow> map_of (zip ks [0..<length ks]) k = Some i \<longleftrightarrow> i < length ks \<and> ks ! i = k"
proof -
  assume d: "distinct ks"
  then have "map_of (zip ks [0..<length ks]) k = Some i \<longleftrightarrow> (k, i) \<in> set (zip ks [0..<length ks])"
    by (intro map_of_eq_Some_iff) simp
  also have "\<dots> \<longleftrightarrow> i < length ks \<and> ks ! i = k"
    by (auto simp: in_set_zip)
  finally show ?thesis .
qed

lemma normalizeModelPrices_ok:
  assumes "normalizeModelPrices rs = Inr t"
  shows "table_ok t" "length (rows t) = length rs"
proof -
  from assms obtain rs' idx where n: "normalize_rows 0 Map.empty rs = Inr (rs', idx)"
    and t: "t = \<lparr>rows = rs', row_index = idx\<rparr>"
    by (auto simp: normalizeModelPrices_def split: sum.splits prod.splits)
  from normalize_rows_ok [OF n] have
    "length rs' = length rs" "\<forall>r \<in> set rs'. row_ok r" "distinct (map row_key rs')"
    "idx = map_of (zip (map row_key rs') [0..<length (map row_key rs')])" by simp_all
  then show "table_ok t" "length (rows t) = length rs"
    using map_of_zip_index [of "map row_key rs'"] by (auto simp: table_ok_def t)
qed


subsection \<open>Lookups\<close>

lemma table_index:
  assumes "table_ok t" "row_index t k = Some i"
  shows "rows t ! i \<in> set (rows t)" "row_key (rows t ! i) = k"
  using assms by (auto simp: table_ok_def)

lemma table_index_None:
  "table_ok t \<Longrightarrow> row_index t k = None \<longleftrightarrow> (\<forall>r \<in> set (rows t). row_key r \<noteq> k)"
  unfolding table_ok_def by (auto simp: set_conv_nth) (metis not_None_eq)+

text \<open>A table is the set of its rows: exactly one row for a key.\<close>

lemma price_row_Some:
  assumes "table_ok t"
  shows "price_row t name provider = Some r \<longleftrightarrow> r \<in> set (rows t) \<and> row_key r = priceKey name provider"
proof
  assume "price_row t name provider = Some r"
  then show "r \<in> set (rows t) \<and> row_key r = priceKey name provider"
    using table_index [OF assms] by (auto simp: price_row_def)
next
  assume "r \<in> set (rows t) \<and> row_key r = priceKey name provider"
  then obtain i where "i < length (rows t)" "rows t ! i = r" "row_key (rows t ! i) = priceKey name provider"
    by (auto simp: in_set_conv_nth)
  then show "price_row t name provider = Some r" using assms by (auto simp: table_ok_def price_row_def)
qed

lemma price_row_None:
  "table_ok t \<Longrightarrow> price_row t name provider = None \<longleftrightarrow> (\<forall>r \<in> set (rows t). row_key r \<noteq> priceKey name provider)"
  using table_index_None by (auto simp: price_row_def)

lemma price_lookup_eq:
  "price_lookup t p model =
     (case (if normalizeProvider p \<noteq> [] then price_row t model (normalizeProvider p) else None) of
        Some r \<Rightarrow> Some r | None \<Rightarrow> price_row t model [])"
  by (auto simp: price_lookup_def price_row_def Let_def split: option.splits)

lemma price_lookup_in: "table_ok t \<Longrightarrow> price_lookup t p model = Some r \<Longrightarrow> r \<in> set (rows t)"
  by (auto simp: price_lookup_eq price_row_Some split: option.splits if_splits)

lemma price_lookup_row_ok: "table_ok t \<Longrightarrow> price_lookup t p model = Some r \<Longrightarrow> row_ok r"
  using price_lookup_in by (auto simp: table_ok_def)

lemma best_row_Some:
  "best_row lower b rs = Some r \<Longrightarrow>
     (b = Some r \<or> r \<in> set rs \<and> ToLower (ModelName r) = lower) \<and>
     (\<forall>x \<in> set rs. ToLower (ModelName x) = lower \<longrightarrow> Provider r \<le> Provider x) \<and>
     (\<forall>x. b = Some x \<longrightarrow> Provider r \<le> Provider x)"
proof (induction rs arbitrary: b)
  case (Cons y rs)
  let ?b = "if ToLower (ModelName y) = lower \<and> (case b of None \<Rightarrow> True | Some c \<Rightarrow> Provider y < Provider c) then Some y else b"
  from Cons.IH [of ?b] Cons.prems have ih:
    "?b = Some r \<or> r \<in> set rs \<and> ToLower (ModelName r) = lower"
    "\<forall>x \<in> set rs. ToLower (ModelName x) = lower \<longrightarrow> Provider r \<le> Provider x"
    "\<forall>x. ?b = Some x \<longrightarrow> Provider r \<le> Provider x" by simp_all
  show ?case
  proof (cases "ToLower (ModelName y) = lower \<and> (case b of None \<Rightarrow> True | Some c \<Rightarrow> Provider y < Provider c)")
    case True
    then have y: "?b = Some y" by simp
    have "Provider r \<le> Provider y" using ih(3) y by blast
    moreover have "b = Some c \<Longrightarrow> Provider y < Provider c" for c using True by simp
    ultimately show ?thesis using ih(1,2) y True by fastforce
  next
    case False
    then have b: "?b = b" by (rule if_not_P)
    have "Provider r \<le> Provider y" if "ToLower (ModelName y) = lower"
    proof (cases b)
      case (Some c)
      then have "Provider r \<le> Provider c" "Provider c \<le> Provider y" using ih(3) b False that by auto
      then show ?thesis by (rule order_trans)
    qed (use False that in simp)
    then show ?thesis using ih b by auto
  qed
qed simp

lemma best_row_None: "best_row lower b rs = None \<longleftrightarrow> b = None \<and> (\<forall>x \<in> set rs. ToLower (ModelName x) \<noteq> lower)"
  by (induction rs arbitrary: b) auto

text \<open>A row stored in a table: its key is made of its own lowercased name.\<close>

lemma priceKey_name: "TrimSpace n = n \<Longrightarrow> priceKey n p = ToLower n @ [CHR 0x00] @ normalizeProvider p"
  by (simp add: priceKey_def)

end
