(* ===== verification/Persistence.thy ===== *)
theory Persistence
  imports Balance Prices
begin

text \<open>
  The three data files of internal/policy/persistence.go and the atomic replacement of
  internal/policy/persist/files.go: the version 7 documents, the checks a file goes through when
  it is read, the merge of live usage and history, and what each writer puts in a file.

  A file is absent, unreadable or holds a document. The JSON text itself is not modelled: a
  document is what encoding/json reads from it, the header (version and dataset id), and the
  strictly decoded value if strict decoding accepts it; a date is its day number, so a date in a
  document is always valid. A zone name is looked up by the parameter \<open>zones\<close> (time.LoadLocation).
  \<open>AtomicWrite\<close> is modelled call by call: any system call may fail.
\<close>

subsection \<open>Replacing a file\<close>

datatype write_call = MkdirAll | CreateTemp | Chmod | WriteTemp | SyncTemp | CloseTemp | Rename | OpenDir | SyncDir

datatype 'a disk_file = Absent | Unreadable | Content 'a

definition write_calls :: "write_call list" where
  "write_calls = [MkdirAll, CreateTemp, Chmod, WriteTemp, SyncTemp, CloseTemp, Rename, OpenDir, SyncDir]"

text \<open>The calls are made in order until one fails; a rename that succeeds replaces the file. The
  result is the file afterwards and whether there was no error.\<close>

fun run_calls :: "(write_call \<Rightarrow> bool) \<Rightarrow> 'a \<Rightarrow> write_call list \<Rightarrow> 'a disk_file \<Rightarrow> 'a disk_file \<times> bool" where
  "run_calls fails payload [] f = (f, True)"
| "run_calls fails payload (c # cs) f =
     (if fails c then (f, False) else run_calls fails payload cs (if c = Rename then Content payload else f))"

definition AtomicWrite :: "(write_call \<Rightarrow> bool) \<Rightarrow> 'a \<Rightarrow> 'a disk_file \<Rightarrow> 'a disk_file \<times> bool" where
  "AtomicWrite fails payload f = run_calls fails payload write_calls f"


subsection \<open>Documents\<close>

definition currentFileVersion :: int where
  "currentFileVersion = 7"

text \<open>The header of a document, and the document if strict decoding accepts the rest.\<close>

datatype 'a raw = NotJSON | Document int string "'a option"

record State =
  StVersion :: int
  StDatasetID :: string
  StKeys :: "KeyConfig list"
  StModels :: "ModelPrice list"
  StUpdatedAt :: instant

record liveFile =
  LfVersion :: int
  LfDatasetID :: string
  LfUpdatedAt :: instant
  LfTimezone :: string
  LfHistoryThrough :: "day option"
  LfKeys :: "(string, liveKey) amap"

record historyFile =
  HfVersion :: int
  HfDatasetID :: string
  HfUpdatedAt :: instant
  HfThrough :: day
  HfDays :: history_keys

record UsageDataset =
  DsDatasetID :: string
  DsTimezone :: string
  DsThrough :: "day option"
  DsUpdatedAt :: instant
  DsKeys :: "(string, KeyUsage) amap"

datatype days_error = EmptyModelName day | InvalidDayBucket day string

datatype persist_error =
    BadHeader
  | DatasetIDRequired
  | ConvertOffline int
  | RequireVersion int
  | StrictDecodeError
  | InvalidKeys key_error
  | InvalidModels price_error
  | InvalidTimezone string
  | EmptyKeyID
  | InvalidKeyCycles string cycle_error
  | InvalidKeyBalance string
  | InvalidKeyDays string days_error
  | DayAfterThrough string day day
  | LiveUnreadable
  | HistoryUnreadable
  | HistoryMissing day
  | DatasetMismatch string string
  | HistoryBehind "day option" day
  | StateUnreadable
  | FileExists
  | StatError
  | WriteError

definition readHeader :: "'a raw \<Rightarrow> persist_error + int \<times> string" where
  "readHeader raw = (case raw of NotJSON \<Rightarrow> Inl BadHeader
     | Document version dataset _ \<Rightarrow> if TrimSpace dataset = [] then Inl DatasetIDRequired else Inr (version, dataset))"

definition unsupportedVersion :: "int \<Rightarrow> persist_error" where
  "unsupportedVersion version = (if version < currentFileVersion then ConvertOffline version else RequireVersion version)"

text \<open>The header check and the strict decoding that every decoder starts with.\<close>

definition decode_document :: "'a raw \<Rightarrow> persist_error + 'a" where
  "decode_document raw = (case readHeader raw of Inl e \<Rightarrow> Inl e
     | Inr (version, _) \<Rightarrow> if version \<noteq> currentFileVersion then Inl (unsupportedVersion version)
         else (case raw of Document _ _ (Some d) \<Rightarrow> Inr d | _ \<Rightarrow> Inl StrictDecodeError))"

definition decodeState :: "State raw \<Rightarrow> persist_error + State" where
  "decodeState raw = (case decode_document raw of Inl e \<Rightarrow> Inl e
     | Inr disk \<Rightarrow> (case normalizeKeys (StKeys disk) of Inl e \<Rightarrow> Inl (InvalidKeys e)
         | Inr keys \<Rightarrow> (case normalizeModelPrices (StModels disk) of Inl e \<Rightarrow> Inl (InvalidModels e)
             | Inr t \<Rightarrow> Inr (disk\<lparr>StDatasetID := TrimSpace (StDatasetID disk), StKeys := keys, StModels := rows t\<rparr>))))"

definition validateDays :: "(day, models) amap \<Rightarrow> days_error option" where
  "validateDays days = first_error (\<lambda>(date, ms). first_error (\<lambda>(model, b).
     if TrimSpace model = [] then Some (EmptyModelName date)
     else if \<not> bucket_validate b then Some (InvalidDayBucket date model) else None) ms) days"

definition validate_live_key :: "location \<Rightarrow> string \<times> liveKey \<Rightarrow> persist_error option" where
  "validate_live_key loc = (\<lambda>(kid, key).
     if TrimSpace kid = [] then Some EmptyKeyID
     else case (case liveCycles key of None \<Rightarrow> None | Some cs \<Rightarrow> validateCycles loc cs) of
       Some e \<Rightarrow> Some (InvalidKeyCycles kid e)
     | None \<Rightarrow> if (case liveBalance key of None \<Rightarrow> False | Some b \<Rightarrow> \<not> balance_validate b) then Some (InvalidKeyBalance kid)
         else map_option (InvalidKeyDays kid) (validateDays (liveDays key)))"

definition decodeLive :: "(string \<Rightarrow> location option) \<Rightarrow> liveFile raw \<Rightarrow> persist_error + liveFile" where
  "decodeLive zones raw = (case decode_document raw of Inl e \<Rightarrow> Inl e
     | Inr disk0 \<Rightarrow> (let disk = disk0\<lparr>LfDatasetID := TrimSpace (LfDatasetID disk0)\<rparr>
         in case (if LfTimezone disk = [] then None else zones (LfTimezone disk)) of
              None \<Rightarrow> Inl (InvalidTimezone (LfTimezone disk))
            | Some loc \<Rightarrow> (case first_error (validate_live_key loc) (LfKeys disk) of
                Some e \<Rightarrow> Inl e | None \<Rightarrow> Inr disk)))"

definition validate_history_key :: "day \<Rightarrow> string \<times> (day, models) amap \<Rightarrow> persist_error option" where
  "validate_history_key through = (\<lambda>(kid, days).
     if TrimSpace kid = [] then Some EmptyKeyID
     else case validateDays days of Some e \<Rightarrow> Some (InvalidKeyDays kid e)
     | None \<Rightarrow> first_error (\<lambda>(date, _). if through < date then Some (DayAfterThrough kid date through) else None) days)"

definition decodeHistory :: "historyFile raw \<Rightarrow> persist_error + historyFile" where
  "decodeHistory raw = (case decode_document raw of Inl e \<Rightarrow> Inl e
     | Inr disk0 \<Rightarrow> (let disk = disk0\<lparr>HfDatasetID := TrimSpace (HfDatasetID disk0)\<rparr>
         in case first_error (validate_history_key (HfThrough disk)) (HfDays disk) of
              Some e \<Rightarrow> Inl e | None \<Rightarrow> Inr disk))"


subsection \<open>Loading\<close>

text \<open>One live key merged into the dataset: its periods and balance, and its days after the mark.\<close>

definition merge_key :: "day option \<Rightarrow> string \<times> liveKey \<Rightarrow> (string, KeyUsage) amap \<Rightarrow> (string, KeyUsage) amap" where
  "merge_key through = (\<lambda>(kid, key) keys.
     let u = (case aget keys kid of Some u \<Rightarrow> u | None \<Rightarrow> empty_usage);
         days = fold (\<lambda>(date, ms) ds. if after_mark through date then aset date ms ds else ds) (liveDays key) (Days u)
     in aset kid (u\<lparr>Cycles := liveCycles key, UsageBalance := liveBalance key, Days := days\<rparr>) keys)"

definition mergeUsage :: "liveFile \<Rightarrow> historyFile option \<Rightarrow> persist_error + UsageDataset" where
  "mergeUsage lf hf =
     (let dataset = (\<lambda>through keys. Inr \<lparr>DsDatasetID = LfDatasetID lf, DsTimezone = LfTimezone lf,
            DsThrough = through, DsUpdatedAt = LfUpdatedAt lf, DsKeys = fold (merge_key through) (LfKeys lf) keys\<rparr>)
      in case hf of
           None \<Rightarrow> dataset None []
         | Some h \<Rightarrow>
             if HfDatasetID h \<noteq> LfDatasetID lf then Inl (DatasetMismatch (LfDatasetID lf) (HfDatasetID h))
             else if \<not> mark_le (LfHistoryThrough lf) (Some (HfThrough h))
             then Inl (HistoryBehind (LfHistoryThrough lf) (HfThrough h))
             else dataset (Some (HfThrough h)) (map (\<lambda>(kid, days). (kid, empty_usage\<lparr>Days := days\<rparr>)) (HfDays h)))"

definition LoadUsage :: "(string \<Rightarrow> location option) \<Rightarrow> liveFile raw disk_file \<Rightarrow> historyFile raw disk_file \<Rightarrow> persist_error + UsageDataset" where
  "LoadUsage zones lf hf = (case lf of
     Content lraw \<Rightarrow> (case decodeLive zones lraw of Inl e \<Rightarrow> Inl e
       | Inr l \<Rightarrow> (case hf of
           Content hraw \<Rightarrow> (case decodeHistory hraw of Inl e \<Rightarrow> Inl e | Inr h \<Rightarrow> mergeUsage l (Some h))
         | Absent \<Rightarrow> (case LfHistoryThrough l of Some d \<Rightarrow> Inl (HistoryMissing d) | None \<Rightarrow> mergeUsage l None)
         | Unreadable \<Rightarrow> Inl HistoryUnreadable))
   | _ \<Rightarrow> Inl LiveUnreadable)"

definition LoadState :: "State raw disk_file \<Rightarrow> persist_error + State" where
  "LoadState f = (case f of Content raw \<Rightarrow> decodeState raw | _ \<Rightarrow> Inl StateUnreadable)"


subsection \<open>Writing\<close>

definition MarshalState :: "string \<Rightarrow> KeyConfig list \<Rightarrow> ModelPrice list \<Rightarrow> instant \<Rightarrow> persist_error + State raw" where
  "MarshalState datasetID keys models updatedAt =
     (let datasetID = TrimSpace datasetID
      in if datasetID = [] then Inl DatasetIDRequired
         else case normalizeKeys keys of Inl e \<Rightarrow> Inl (InvalidKeys e)
         | Inr keys \<Rightarrow> (case normalizeModelPrices models of Inl e \<Rightarrow> Inl (InvalidModels e)
             | Inr t \<Rightarrow> Inr (Document currentFileVersion datasetID (Some \<lparr>StVersion = currentFileVersion,
                 StDatasetID = datasetID, StKeys = keys, StModels = rows t, StUpdatedAt = updatedAt\<rparr>))))"

definition SaveState :: "(write_call \<Rightarrow> bool) \<Rightarrow> instant \<Rightarrow> string \<Rightarrow> KeyConfig list \<Rightarrow> ModelPrice list \<Rightarrow>
    State raw disk_file \<Rightarrow> State raw disk_file \<times> persist_error option" where
  "SaveState fails now datasetID keys models f = (case MarshalState datasetID keys models now of
     Inl e \<Rightarrow> (f, Some e)
   | Inr raw \<Rightarrow> (let (f, ok) = AtomicWrite fails raw f in (f, if ok then None else Some WriteError)))"

definition live_document :: "string \<Rightarrow> string \<Rightarrow> day option \<Rightarrow> (string, liveKey) amap \<Rightarrow> instant \<Rightarrow> liveFile" where
  "live_document datasetID zone through keys updatedAt = \<lparr>LfVersion = currentFileVersion, LfDatasetID = datasetID,
     LfUpdatedAt = updatedAt, LfTimezone = zone, LfHistoryThrough = through,
     LfKeys = filter (\<lambda>(_, k). \<not> (liveCycles k = None \<and> liveBalance k = None \<and> liveDays k = []))
       (map (\<lambda>(kid, k). (kid, k\<lparr>liveDays := live_days through (liveDays k)\<rparr>)) keys)\<rparr>"

definition writeLive :: "(write_call \<Rightarrow> bool) \<Rightarrow> string \<Rightarrow> string \<Rightarrow> day option \<Rightarrow> (string, liveKey) amap \<Rightarrow> instant \<Rightarrow>
    liveFile raw disk_file \<Rightarrow> liveFile raw disk_file \<times> bool" where
  "writeLive fails datasetID zone through keys updatedAt =
     AtomicWrite fails (Document currentFileVersion datasetID (Some (live_document datasetID zone through keys updatedAt)))"

definition writeHistory :: "(write_call \<Rightarrow> bool) \<Rightarrow> string \<Rightarrow> day \<Rightarrow> history_keys \<Rightarrow> instant \<Rightarrow>
    historyFile raw disk_file \<Rightarrow> historyFile raw disk_file \<times> bool" where
  "writeHistory fails datasetID through days updatedAt = AtomicWrite fails (Document currentFileVersion datasetID
     (Some \<lparr>HfVersion = currentFileVersion, HfDatasetID = datasetID, HfUpdatedAt = updatedAt, HfThrough = through, HfDays = days\<rparr>))"

record files =
  state_file :: "State raw disk_file"
  live_file :: "liveFile raw disk_file"
  history_file :: "historyFile raw disk_file"

text \<open>The check of a dataset's usage before it is written; the balances are not checked.\<close>

definition validate_usage :: "location \<Rightarrow> string \<times> KeyUsage \<Rightarrow> persist_error option" where
  "validate_usage loc = (\<lambda>(kid, u).
     if TrimSpace kid = [] then Some EmptyKeyID
     else case (case Cycles u of None \<Rightarrow> None | Some cs \<Rightarrow> validateCycles loc cs) of
       Some e \<Rightarrow> Some (InvalidKeyCycles kid e)
     | None \<Rightarrow> map_option (InvalidKeyDays kid) (validateDays (Days u)))"

definition WriteDataset :: "(write_call \<Rightarrow> bool) \<Rightarrow> (write_call \<Rightarrow> bool) \<Rightarrow> (write_call \<Rightarrow> bool) \<Rightarrow> (string \<Rightarrow> location option) \<Rightarrow>
    string \<Rightarrow> string \<Rightarrow> instant \<Rightarrow> instant \<Rightarrow> KeyConfig list \<Rightarrow> ModelPrice list \<Rightarrow> (string, KeyUsage) amap \<Rightarrow> files \<Rightarrow>
    files \<times> persist_error option" where
  "WriteDataset failsH failsL failsS zones datasetID zone now wall keys models usage fs =
     (case (if TrimSpace zone = [] then None else zones zone) of
        None \<Rightarrow> (fs, Some (InvalidTimezone zone))
      | Some loc \<Rightarrow>
        if \<not> (state_file fs = Absent \<and> live_file fs = Absent \<and> history_file fs = Absent) then (fs, Some FileExists)
        else case MarshalState datasetID keys models now of
          Inl e \<Rightarrow> (fs, Some e)
        | Inr _ \<Rightarrow> (case first_error (validate_usage loc) usage of
            Some e \<Rightarrow> (fs, Some e)
          | None \<Rightarrow>
            (let l = ledger_load now usage None (newUsageLedger loc zone);
                 through = dateKeyOffset l now (- 1);
                 (h, okh) = writeHistory failsH datasetID through (historySnapshotLocked through l) now (history_file fs);
                 fs = fs\<lparr>history_file := h\<rparr>
             in if \<not> okh then (fs, Some WriteError)
                else let (lf, okl) = writeLive failsL datasetID zone (Some through) (liveSnapshotLocked (Some through) l) now (live_file fs);
                         fs = fs\<lparr>live_file := lf\<rparr>
                     in if \<not> okl then (fs, Some WriteError)
                        else let (st, e) = SaveState failsS wall datasetID keys models (state_file fs)
                             in (fs\<lparr>state_file := st\<rparr>, e))))"



subsection \<open>A file is replaced whole\<close>

lemma AtomicWrite_unfold:
  "AtomicWrite fails p f = (if \<exists>c \<in> {MkdirAll, CreateTemp, Chmod, WriteTemp, SyncTemp, CloseTemp, Rename}. fails c then (f, False)
     else (Content p, \<not> fails OpenDir \<and> \<not> fails SyncDir))"
  by (simp add: AtomicWrite_def write_calls_def)

lemma AtomicWrite_cases:
  assumes "AtomicWrite fails p f = (f', ok)"
  obtains "f' = f" "\<not> ok" | "f' = Content p" "ok \<longleftrightarrow> \<not> fails OpenDir \<and> \<not> fails SyncDir"
  using assms by (auto simp: AtomicWrite_unfold split: if_splits)

lemma AtomicWrite_ok: "AtomicWrite fails p f = (f', True) \<Longrightarrow> f' = Content p"
  by (erule AtomicWrite_cases) auto

text \<open>A write never leaves part of a file: whichever system call fails, the file afterwards is
  the old one or the whole new one, and it is the new one when there is no error. An error does not
  mean the old file is still there: when opening or syncing the directory fails, after the rename,
  the new file is in place.\<close>

theorem AtomicWrite_whole:
  assumes "AtomicWrite fails p f = (f', ok)"
  shows "(f' = f \<or> f' = Content p) \<and> (ok \<longrightarrow> f' = Content p) \<and>
    (\<not> ok \<and> f' = Content p \<and> f \<noteq> Content p \<longrightarrow> fails OpenDir \<or> fails SyncDir)"
  using assms by (rule AtomicWrite_cases) auto

lemma AtomicWrite_whole_witness:
  "snd (AtomicWrite (\<lambda>c. c = SyncDir) (1 :: int) Absent) = False \<and> fst (AtomicWrite (\<lambda>c. c = SyncDir) (1 :: int) Absent) = Content 1"
proof -
  have "AtomicWrite (\<lambda>c. c = SyncDir) (1 :: int) Absent = (Content 1, False)" by (simp add: AtomicWrite_unfold)
  with AtomicWrite_whole [OF this] show ?thesis by simp
qed


subsection \<open>Merging history and live usage\<close>

lemma aget_merge_days:
  "amap_ok ld \<Longrightarrow> aget (fold (\<lambda>(date, ms) ds. if after_mark t date then aset date ms ds else ds) ld ds) d =
     (case aget ld d of Some ms \<Rightarrow> if after_mark t d then Some ms else aget ds d | None \<Rightarrow> aget ds d)"
proof (induction ld arbitrary: ds)
  case (Cons x ld)
  then show ?case by (cases x) (auto simp: amap_ok_Cons split: option.splits)
qed simp

definition merged :: "day option \<Rightarrow> liveKey \<Rightarrow> KeyUsage option \<Rightarrow> KeyUsage" where
  "merged t key u = (let u = (case u of Some u \<Rightarrow> u | None \<Rightarrow> empty_usage)
     in u\<lparr>Cycles := liveCycles key, UsageBalance := liveBalance key,
          Days := fold (\<lambda>(date, ms) ds. if after_mark t date then aset date ms ds else ds) (liveDays key) (Days u)\<rparr>)"

lemma merge_key_eq: "merge_key t (kid, key) keys = aset kid (merged t key (aget keys kid)) keys"
  by (simp add: merge_key_def merged_def Let_def)

lemma aget_merge_keys:
  "amap_ok lk \<Longrightarrow> aget (fold (merge_key t) lk keys) kid =
     (case aget lk kid of Some key \<Rightarrow> Some (merged t key (aget keys kid)) | None \<Rightarrow> aget keys kid)"
proof (induction lk arbitrary: keys)
  case (Cons x lk)
  then show ?case by (cases x) (auto simp: amap_ok_Cons merge_key_eq split: option.splits)
qed simp

definition keys_bucket :: "(string, KeyUsage) amap \<Rightarrow> string \<Rightarrow> day \<Rightarrow> string \<Rightarrow> bucket" where
  "keys_bucket keys kid d m = (case aget keys kid of None \<Rightarrow> zero_bucket | Some u \<Rightarrow> day_bucket u d m)"

definition keys_meta :: "(string, KeyUsage) amap \<Rightarrow> string \<Rightarrow> cycles option \<times> Balance option" where
  "keys_meta keys kid = (case aget keys kid of None \<Rightarrow> (None, None) | Some u \<Rightarrow> (Cycles u, UsageBalance u))"

definition live_ok :: "liveFile \<Rightarrow> bool" where
  "live_ok lf \<longleftrightarrow> amap_ok (LfKeys lf) \<and> (\<forall>k \<in> snd ` set (LfKeys lf). amap_ok (liveDays k))"

definition hist_ok :: "historyFile \<Rightarrow> bool" where
  "hist_ok hf \<longleftrightarrow> history_until (HfThrough hf) (HfDays hf)"

definition file_mark :: "historyFile option \<Rightarrow> day option" where
  "file_mark hf = map_option HfThrough hf"

definition file_history :: "historyFile option \<Rightarrow> string \<Rightarrow> day \<Rightarrow> string \<Rightarrow> bucket" where
  "file_history hf kid d m = (case hf of None \<Rightarrow> zero_bucket | Some h \<Rightarrow> history_bucket (HfDays h) kid d m)"

lemma hist_after: "hist_ok h \<Longrightarrow> HfThrough h < d \<Longrightarrow> aget (HfDays h) kid = Some ds \<Longrightarrow> aget ds d = None"
proof -
  assume h: "hist_ok h" "HfThrough h < d" "aget (HfDays h) kid = Some ds"
  then have "\<forall>d \<in> fst ` set ds. d \<le> HfThrough h" using in_values [OF h(3)] unfolding hist_ok_def history_until_def by blast
  with h(2) have "d \<notin> fst ` set ds" by force
  then show ?thesis by (simp add: map_of_eq_None_iff)
qed

text \<open>The dataset: the days up to the history file's mark are its, the later ones and the periods and
  balances the live file's.\<close>

lemma merge_usage:
  assumes "live_ok lf" "\<And>h. hf = Some h \<Longrightarrow> hist_ok h \<and> HfDatasetID h = LfDatasetID lf" "mark_le (LfHistoryThrough lf) (file_mark hf)"
  obtains ds where "mergeUsage lf hf = Inr ds" "DsThrough ds = file_mark hf" "DsTimezone ds = LfTimezone lf"
    "\<And>kid d m. keys_bucket (DsKeys ds) kid d m =
       (if after_mark (file_mark hf) d then live_bucket (LfKeys lf) kid d m else file_history hf kid d m)"
    "\<And>kid. keys_meta (DsKeys ds) kid = live_meta (LfKeys lf) kid"
proof -
  define base where "base = (case hf of None \<Rightarrow> [] | Some h \<Rightarrow> map (\<lambda>(kid, days). (kid, empty_usage\<lparr>Days := days\<rparr>)) (HfDays h))"
  define ds where "ds = \<lparr>DsDatasetID = LfDatasetID lf, DsTimezone = LfTimezone lf, DsThrough = file_mark hf,
    DsUpdatedAt = LfUpdatedAt lf, DsKeys = fold (merge_key (file_mark hf)) (LfKeys lf) base\<rparr>"
  have m: "mergeUsage lf hf = Inr ds"
    using assms(2,3) by (auto simp: mergeUsage_def ds_def base_def file_mark_def split: option.splits)
  have b: "aget base kid = (case hf of None \<Rightarrow> None | Some h \<Rightarrow> map_option (\<lambda>days. empty_usage\<lparr>Days := days\<rparr>) (aget (HfDays h) kid))" for kid
    by (simp add: base_def aget_map_values split: option.splits)
  have lk: "amap_ok (LfKeys lf)" using assms(1) by (simp add: live_ok_def)
  have ld: "amap_ok (liveDays key)" if "aget (LfKeys lf) kid = Some key" for kid key
    using assms(1) that in_values by (fastforce simp: live_ok_def)
  have k: "aget (DsKeys ds) kid = (case aget (LfKeys lf) kid of Some key \<Rightarrow> Some (merged (file_mark hf) key (aget base kid))
      | None \<Rightarrow> aget base kid)" for kid
    using aget_merge_keys [OF lk, of "file_mark hf" base kid] by (simp add: ds_def)
  have bb: "(case aget base kid of None \<Rightarrow> None | Some u \<Rightarrow> aget (Days u) d) =
      (case hf of None \<Rightarrow> None | Some h \<Rightarrow> (case aget (HfDays h) kid of None \<Rightarrow> None | Some ds \<Rightarrow> aget ds d))" for kid d
    by (simp add: b split: option.splits)
  have none: "(case aget base kid of None \<Rightarrow> None | Some u \<Rightarrow> aget (Days u) d) = None" if "after_mark (file_mark hf) d" for kid d
    unfolding bb using that assms(2) hist_after by (auto simp: file_mark_def after_mark_def split: option.splits)
  have fh: "file_history hf kid d x = models_bucket (case aget base kid of None \<Rightarrow> None | Some u \<Rightarrow> aget (Days u) d) x" for kid d x
    unfolding bb by (simp add: file_history_def history_bucket_def split: option.splits)
  have gm: "aget (Days (merged (file_mark hf) key (aget base kid))) d =
      (case aget (liveDays key) d of Some ms \<Rightarrow> if after_mark (file_mark hf) d then Some ms
         else (case aget base kid of None \<Rightarrow> None | Some u \<Rightarrow> aget (Days u) d)
       | None \<Rightarrow> (case aget base kid of None \<Rightarrow> None | Some u \<Rightarrow> aget (Days u) d))"
    if "aget (LfKeys lf) kid = Some key" for kid key d
    using aget_merge_days [OF ld [OF that], of "file_mark hf"]
    by (simp add: merged_def Let_def empty_usage_def split: option.splits)
  have "keys_bucket (DsKeys ds) kid d x =
       (if after_mark (file_mark hf) d then live_bucket (LfKeys lf) kid d x else file_history hf kid d x)" for kid d x
  proof (cases "aget (LfKeys lf) kid")
    case None
    then show ?thesis using none [of d kid]
      by (auto simp: keys_bucket_def k day_bucket_def live_bucket_def fh split: option.splits)
  next
    case (Some key)
    then show ?thesis using none [of d kid]
      by (auto simp: keys_bucket_def k day_bucket_def live_bucket_def fh gm [OF Some] split: option.splits)
  qed
  moreover have "keys_meta (DsKeys ds) kid = live_meta (LfKeys lf) kid" for kid
    by (auto simp: keys_meta_def live_meta_def k merged_def Let_def b empty_usage_def split: option.splits)
  ultimately show thesis using that [OF m] by (simp add: ds_def)
qed



subsection \<open>What the writers put in a file\<close>

definition live_keys_ok :: "(string, liveKey) amap \<Rightarrow> bool" where
  "live_keys_ok ks \<longleftrightarrow> amap_ok ks \<and> (\<forall>k \<in> snd ` set ks. amap_ok (liveDays k))"

lemma live_ok_keys: "live_ok lf \<longleftrightarrow> live_keys_ok (LfKeys lf)"
  by (simp add: live_ok_def live_keys_ok_def)

lemma live_document_fields [simp]:
  "LfVersion (live_document dsid zone through ks t) = currentFileVersion" "LfDatasetID (live_document dsid zone through ks t) = dsid"
  "LfTimezone (live_document dsid zone through ks t) = zone" "LfHistoryThrough (live_document dsid zone through ks t) = through"
  "LfUpdatedAt (live_document dsid zone through ks t) = t"
  by (simp_all add: live_document_def)

lemma aget_live_document:
  assumes "live_keys_ok ks"
  shows "aget (LfKeys (live_document dsid zone through ks t)) kid = (case aget ks kid of None \<Rightarrow> None
     | Some k \<Rightarrow> let k' = k\<lparr>liveDays := live_days through (liveDays k)\<rparr>
         in if liveCycles k = None \<and> liveBalance k = None \<and> liveDays k' = [] then None else Some k')"
proof -
  have "amap_ok ks" using assms by (simp add: live_keys_ok_def)
  then have "aget (filter (\<lambda>(_, k). \<not> (liveCycles k = None \<and> liveBalance k = None \<and> liveDays k = []))
      (map (\<lambda>(kid, k). (kid, k\<lparr>liveDays := live_days through (liveDays k)\<rparr>)) ks)) kid =
    (case aget (map (\<lambda>(kid, k). (kid, k\<lparr>liveDays := live_days through (liveDays k)\<rparr>)) ks) kid of
       Some v \<Rightarrow> if (case (kid, v) of (_, k) \<Rightarrow> \<not> (liveCycles k = None \<and> liveBalance k = None \<and> liveDays k = [])) then Some v else None
     | None \<Rightarrow> None)"
    by (intro aget_filter) simp
  then show ?thesis by (auto simp: live_document_def aget_map_values Let_def split: option.splits)
qed

lemma live_document_ok: "live_keys_ok ks \<Longrightarrow> live_ok (live_document dsid zone through ks t)"
  unfolding live_ok_def live_document_def live_keys_ok_def by (auto simp: live_days_def)

lemma live_document_bucket:
  assumes "live_keys_ok ks"
  shows "live_bucket (LfKeys (live_document dsid zone through ks t)) kid d m =
    (if after_mark through d then live_bucket ks kid d m else zero_bucket)"
proof (cases "aget ks kid")
  case None
  then show ?thesis by (simp add: live_bucket_def aget_live_document [OF assms])
next
  case (Some k)
  then have "amap_ok (liveDays k)" using assms in_values by (fastforce simp: live_keys_ok_def)
  from live_days_bucket [OF this, of through d m]
  have e: "(if after_mark through d then models_bucket (aget (liveDays k) d) m else zero_bucket) =
      models_bucket (aget (live_days through (liveDays k)) d) m" by simp
  show ?thesis
    by (cases "live_days through (liveDays k) = []") (use Some e in \<open>auto simp: live_bucket_def aget_live_document [OF assms] Let_def\<close>)
qed

lemma live_document_meta:
  "live_keys_ok ks \<Longrightarrow> live_meta (LfKeys (live_document dsid zone through ks t)) kid = live_meta ks kid"
  by (auto simp: live_meta_def aget_live_document Let_def split: option.splits)

lemma live_snapshot_keys_ok: "ledger_ok l \<Longrightarrow> live_keys_ok (liveSnapshotLocked through l)"
  by (auto simp: live_keys_ok_def liveSnapshotLocked_def ledger_ok_def usage_ok_def live_days_def)


subsection \<open>A valid ledger is readable after it is written\<close>

definition usage_storable :: "location \<Rightarrow> string \<times> KeyUsage \<Rightarrow> bool" where
  "usage_storable loc = (\<lambda>(kid, u). TrimSpace kid \<noteq> [] \<and>
     (case Cycles u of None \<Rightarrow> True | Some cs \<Rightarrow> validateCycles loc cs = None) \<and>
     (case UsageBalance u of None \<Rightarrow> True | Some b \<Rightarrow> balance_validate b) \<and> validateDays (Days u) = None)"

definition ledger_storable :: "usageLedger \<Rightarrow> bool" where
  "ledger_storable l \<longleftrightarrow> (\<forall>x \<in> set (entries l). usage_storable (ledger_location l) x)"

lemma validateDays_filter: "validateDays ds = None \<Longrightarrow> validateDays (filter P ds) = None"
  by (auto simp: validateDays_def)

lemma decode_document_current [simp]:
  "TrimSpace dsid \<noteq> [] \<Longrightarrow> decode_document (Document currentFileVersion dsid (Some d)) = Inr d"
  by (simp add: decode_document_def readHeader_def)

lemma decode_live_written:
  assumes "ledger_storable l" "TrimSpace dsid = dsid" "dsid \<noteq> []" "zones (timezone l) = Some (ledger_location l)" "timezone l \<noteq> []"
  shows "decodeLive zones (Document currentFileVersion dsid
      (Some (live_document dsid (timezone l) through (liveSnapshotLocked mark l) t))) =
    Inr (live_document dsid (timezone l) through (liveSnapshotLocked mark l) t)"
proof -
  let ?doc = "live_document dsid (timezone l) through (liveSnapshotLocked mark l) t"
  have "validate_live_key (ledger_location l) x = None" if "x \<in> set (LfKeys ?doc)" for x
  proof -
    from that obtain kid u where u: "(kid, u) \<in> set (entries l)"
      "x = (kid, \<lparr>liveCycles = Cycles u, liveBalance = UsageBalance u, liveDays = live_days through (live_days mark (Days u))\<rparr>)"
      by (auto simp: live_document_def liveSnapshotLocked_def)
    with assms(1) have "usage_storable (ledger_location l) (kid, u)" by (auto simp: ledger_storable_def)
    then show ?thesis using validateDays_filter
      by (auto simp: validate_live_key_def u(2) usage_storable_def live_days_def split: option.splits)
  qed
  then have n: "first_error (validate_live_key (ledger_location l)) (LfKeys ?doc) = None" by simp
  have "?doc\<lparr>LfDatasetID := dsid\<rparr> = ?doc" by (simp add: live_document_def)
  then show ?thesis using assms by (simp add: decodeLive_def Let_def n)
qed

lemma decode_history_written:
  fixes T :: day and t :: instant
  assumes "ledger_storable l" "TrimSpace dsid = dsid" "dsid \<noteq> []"
  defines "doc \<equiv> \<lparr>HfVersion = currentFileVersion, HfDatasetID = dsid, HfUpdatedAt = t, HfThrough = T, HfDays = historySnapshotLocked T l\<rparr>"
  shows "decodeHistory (Document currentFileVersion dsid (Some doc)) = Inr doc"
proof -
  have "validate_history_key T x = None" if "x \<in> set (historySnapshotLocked T l)" for x
  proof -
    from that obtain kid u where u: "(kid, u) \<in> set (entries l)" "x = (kid, filter (\<lambda>(d, ms). d \<le> T \<and> ms \<noteq> []) (Days u))"
      by (auto simp: historySnapshotLocked_def)
    with assms(1) have "usage_storable (ledger_location l) (kid, u)" by (auto simp: ledger_storable_def)
    then show ?thesis using validateDays_filter [of "Days u" "\<lambda>(d, ms). d \<le> T \<and> ms \<noteq> []"]
      by (auto simp: validate_history_key_def u(2) usage_storable_def)
  qed
  then have n: "first_error (validate_history_key T) (historySnapshotLocked T l) = None" by simp
  show ?thesis using assms(2,3) by (simp add: decodeHistory_def Let_def doc_def n)
qed

text \<open>C15: What a flush writes is what a start reads: after the history file was written through a day
  and the live file against that mark, loading the two succeeds and gives back the memory, every
  bucket of the daily history and every key's periods and balance (buckets, names, periods and
  balances must be ones the checks of the load accept).\<close>

theorem written_usage_loads:
  assumes "ledger_ok l" "ledger_storable l" "TrimSpace dsid = dsid" "dsid \<noteq> []"
    "zones (timezone l) = Some (ledger_location l)" "timezone l \<noteq> []"
    "writeHistory failsH dsid T (historySnapshotLocked T l) t hf = (hf', True)"
    "writeLive failsL dsid (timezone l) (Some T) (liveSnapshotLocked mark l) t lf = (lf', True)" "mark_le mark (Some T)"
  shows "\<exists>ds. LoadUsage zones lf' hf' = Inr ds \<and> DsThrough ds = Some T \<and>
    (\<forall>kid d m. keys_bucket (DsKeys ds) kid d m = ledger_bucket l kid d m) \<and>
    (\<forall>kid. keys_meta (DsKeys ds) kid = ledger_meta l kid)"
proof -
  define h where "h = \<lparr>HfVersion = currentFileVersion, HfDatasetID = dsid, HfUpdatedAt = t, HfThrough = T, HfDays = historySnapshotLocked T l\<rparr>"
  define doc where "doc = live_document dsid (timezone l) (Some T) (liveSnapshotLocked mark l) t"
  have f: "hf' = Content (Document currentFileVersion dsid (Some h))" "lf' = Content (Document currentFileVersion dsid (Some doc))"
    using AtomicWrite_ok assms(7,8) by (simp_all add: writeHistory_def writeLive_def h_def doc_def)
  have dh: "decodeHistory (Document currentFileVersion dsid (Some h)) = Inr h"
    unfolding h_def by (rule decode_history_written [OF assms(2-4)])
  have dl: "decodeLive zones (Document currentFileVersion dsid (Some doc)) = Inr doc"
    unfolding doc_def by (rule decode_live_written [where l = l]) (use assms in simp_all)
  have ks: "live_keys_ok (liveSnapshotLocked mark l)" by (rule live_snapshot_keys_ok [OF assms(1)])
  obtain ds where ds: "mergeUsage doc (Some h) = Inr ds" "DsThrough ds = Some T"
    "\<And>kid d m. keys_bucket (DsKeys ds) kid d m =
       (if after_mark (Some T) d then live_bucket (LfKeys doc) kid d m else history_bucket (HfDays h) kid d m)"
    "\<And>kid. keys_meta (DsKeys ds) kid = live_meta (LfKeys doc) kid"
    by (rule merge_usage [of doc "Some h"])
      (use live_document_ok [OF ks] history_snapshot_until [OF assms(1), of T] in
        \<open>auto simp: doc_def h_def hist_ok_def file_mark_def mark_le_def file_history_def\<close>)
  have "keys_bucket (DsKeys ds) kid d m = ledger_bucket l kid d m" for kid d m
  proof (cases "after_mark (Some T) d")
    case True
    then have "after_mark mark d" using assms(9) by (simp add: mark_le_def)
    then show ?thesis
      using live_snapshot_bucket [OF assms(1), of mark kid d m] True live_document_bucket [OF ks] by (simp add: ds(3) doc_def)
  next
    case False
    then show ?thesis
      using history_snapshot_bucket [OF assms(1), of T kid d m] by (simp add: ds(3) h_def after_mark_def)
  qed
  moreover have "keys_meta (DsKeys ds) kid = ledger_meta l kid" for kid
    using live_document_meta [OF ks] live_snapshot_meta [of mark l] by (simp add: ds(4) doc_def)
  moreover have "LoadUsage zones lf' hf' = Inr ds" using ds(1) by (simp add: LoadUsage_def f dl dh)
  ultimately show ?thesis using ds(2) by blast
qed

lemma sample_storable: "ledger_storable sample_ledger"
proof -
  have "cycles_ok UTC sample_cycles" unfolding sample_cycles_def
    by (rule newCycles_ok [OF regular_UTC]) (simp_all add: local_day_def unix_sec_def loc_offset_eq UTC_def zero_time_def)
  then have "validateCycles UTC sample_cycles = None" by (rule cycles_ok_validate)
  moreover have "TrimSpace ''k'' \<noteq> []" by code_simp
  ultimately show ?thesis
    by (simp add: ledger_storable_def sample_ledger_def newUsageLedger_def usage_storable_def empty_usage_def validateDays_def)
qed

lemma written_usage_loads_witness:
  "\<exists>ds. LoadUsage (\<lambda>z. if z = ''UTC'' then Some UTC else None)
       (fst (writeLive (\<lambda>_. False) ''d'' ''UTC'' (Some 3) (liveSnapshotLocked None sample_ledger) 0 Absent))
       (fst (writeHistory (\<lambda>_. False) ''d'' 3 (historySnapshotLocked 3 sample_ledger) 0 Absent)) = Inr ds \<and>
     keys_meta (DsKeys ds) ''k'' = (Some sample_cycles, None)"
proof -
  have t: "TrimSpace ''d'' = ''d''" by code_simp
  have f: "timezone sample_ledger = ''UTC''" "ledger_location sample_ledger = UTC"
    by (simp_all add: sample_ledger_def newUsageLedger_def)
  have z: "(\<lambda>z. if z = ''UTC'' then Some UTC else None) (timezone sample_ledger) = Some (ledger_location sample_ledger)"
    by (simp add: f)
  obtain hf lf where w:
    "writeHistory (\<lambda>_. False) ''d'' 3 (historySnapshotLocked 3 sample_ledger) 0 Absent = (hf, True)"
    "writeLive (\<lambda>_. False) ''d'' (timezone sample_ledger) (Some 3) (liveSnapshotLocked None sample_ledger) 0 Absent = (lf, True)"
    by (simp add: writeHistory_def writeLive_def AtomicWrite_unfold)
  have "\<exists>ds. LoadUsage (\<lambda>z. if z = ''UTC'' then Some UTC else None) lf hf = Inr ds \<and> DsThrough ds = Some 3 \<and>
    (\<forall>kid d m. keys_bucket (DsKeys ds) kid d m = ledger_bucket sample_ledger kid d m) \<and>
    (\<forall>kid. keys_meta (DsKeys ds) kid = ledger_meta sample_ledger kid)"
    by (rule written_usage_loads [where zones = "\<lambda>z. if z = ''UTC'' then Some UTC else None",
          OF sample_ledger_ok(1) sample_storable t _ z _ w]) (simp_all add: f mark_le_def after_mark_def)
  moreover have "ledger_meta sample_ledger ''k'' = (Some sample_cycles, None)"
    using sample_ledger_ok(3) by (simp add: ledger_meta_def sample_ledger_def usage_of_def empty_usage_def)
  ultimately show ?thesis using w by (auto simp: f)
qed

end
