(* ===== verification/Durability.thy ===== *)
theory Durability
  imports Quota Persistence
begin

text \<open>
  The ledger, its two files and the flushes between them as one state machine: the operations of
  the ledger, the steps of a flush as \<open>FlushUsage\<close> of internal/policy/store.go makes them (plan,
  history write, live write, mark), and the management writes that persist under the ledger lock.
  Billing and reports interleave with a flush; the management writes do not (both hold persistMu).
  Every write may fail in every way \<open>AtomicWrite\<close> can, those of management writes in every way but
  after the rename (the finding \<open>adjust_rolled_back_but_stored\<close> shows why).

  The invariant \<open>consistent\<close> relates memory and files: closed days in the history file are those
  of the memory, the live file never expects more history than there is, and a ledger that is not
  dirty has everything else in the live file. So a restart loses nothing but what was billed since
  the last flush, and nothing at all when the ledger is clean (\<open>restart_recovers\<close>).
\<close>

subsection \<open>Operations of the ledger\<close>

inductive ledger_op :: "instant \<Rightarrow> usageLedger \<Rightarrow> usageLedger \<Rightarrow> bool" for now where
  op_record: "ledger_op now l (record_usage now kid model delta deduct l)"
| op_journaled: "ledger_op now l (recordJournaled now kid model delta deduct t l)"
| op_open: "ledger_op now l (openCyclesLocked key now l)"
| op_forget: "ledger_op now l (fst (forgetKey now kid l))"
| op_evict: "ledger_op now l (evict now l)"
| op_current: "ledger_op now l (fst (currentCyclesLocked kid now l))"

lemma mem_rel_forget:
  assumes "ledger_ok l" "aget (entries l) kid = Some u"
  shows "mem_rel now l (forget_entry kid u l)"
proof -
  let ?u = "u\<lparr>Cycles := None, UsageBalance := None\<rparr>"
  have u: "usage_of l kid = u" using assms(2) by (simp add: usage_of_def)
  show ?thesis
  proof (cases "Days u = []")
    case False
    have "usage_ok ?u" using usage_of_ok [OF assms(1), of kid] u by (simp add: usage_ok_def)
    then show ?thesis
      using False u by (intro mem_rel_aset [OF assms(1), of ?u kid 1])
        (simp_all add: forget_entry_def Let_def ledger_bucket_def)
  next
    case True
    let ?l = "forget_entry kid u l"
    have l: "?l = markDirtyLocked (l\<lparr>entries := adel kid (entries l)\<rparr>)" using True by (simp add: forget_entry_def)
    have "ledger_ok ?l" using assms(1) values_adel by (fastforce simp: l ledger_ok_def)
    moreover have "ledger_bucket ?l k d m = ledger_bucket l k d m" for k d m
      using True u by (auto simp: l ledger_bucket_def usage_of_def day_bucket_def empty_usage_def models_bucket_def)
    ultimately show ?thesis by (intro mem_rel_dirty) (simp_all add: l, simp add: markDirtyLocked_def)
  qed
qed

lemma ledger_op_mem_rel: "ledger_op now l l' \<Longrightarrow> ledger_ok l \<Longrightarrow> mem_rel now l l'"
proof (induction rule: ledger_op.induct)
  case (op_forget l kid)
  then show ?case
    using mem_rel_forget mem_rel_refl by (auto simp: forgetKey_def Let_def split: option.splits prod.splits)
qed (auto intro: mem_rel_record mem_rel_recordJournaled mem_rel_openCycles mem_rel_evict mem_rel_current)


subsection \<open>The state machine\<close>

text \<open>How far a flush is: planned, history written (with or without error; a flush without a
  history write goes there with none), live file written.\<close>

datatype stage = Planned | HistoryDone bool | LiveDone bool bool

record world =
  mem :: usageLedger
  live_disk :: "liveFile raw disk_file"
  hist_disk :: "historyFile raw disk_file"
  flushing :: "(flushPlan \<times> stage) option"
  horizon :: day  \<comment> \<open>the oldest day some operation kept; days before it are past retention\<close>

definition reached_horizon :: "instant \<Rightarrow> world \<Rightarrow> day" where
  "reached_horizon now w = max (horizon w) (oldestKept (mem w) now)"

definition live_mark :: "flushPlan \<Rightarrow> bool \<Rightarrow> day option" where
  "live_mark plan historyWritten = (if historyWritten then plan_historyThrough plan else plan_through plan)"

inductive step :: "string \<Rightarrow> world \<Rightarrow> world \<Rightarrow> bool" for dsid where
  s_op: "ledger_op now (mem w) l \<Longrightarrow> step dsid w (w\<lparr>mem := l, horizon := reached_horizon now w\<rparr>)"
| s_clean: "flushing w = None \<Longrightarrow> planFlush now (mem w) = (l, None) \<Longrightarrow>
    step dsid w (w\<lparr>mem := l, horizon := reached_horizon now w\<rparr>)"
| s_plan: "flushing w = None \<Longrightarrow> planFlush now (mem w) = (l, Some plan) \<Longrightarrow>
    step dsid w (w\<lparr>mem := l, flushing := Some (plan, Planned), horizon := reached_horizon now w\<rparr>)"
| s_no_history: "flushing w = Some (plan, Planned) \<Longrightarrow> plan_history plan = None \<Longrightarrow>
    step dsid w (w\<lparr>flushing := Some (plan, HistoryDone False)\<rparr>)"
| s_history: "flushing w = Some (plan, Planned) \<Longrightarrow> plan_history plan = Some days \<Longrightarrow> plan_historyThrough plan = Some T \<Longrightarrow>
    writeHistory fails dsid T days t (hist_disk w) = (f, ok) \<Longrightarrow>
    step dsid w (w\<lparr>hist_disk := f, flushing := Some (plan, HistoryDone ok)\<rparr>)"
| s_live: "flushing w = Some (plan, HistoryDone h) \<Longrightarrow>
    writeLive fails dsid (timezone (mem w)) (live_mark plan h) (plan_live plan) t (live_disk w) = (f, ok) \<Longrightarrow>
    step dsid w (w\<lparr>live_disk := f, flushing := Some (plan, LiveDone h ok)\<rparr>)"
| s_mark: "flushing w = Some (plan, LiveDone h ok) \<Longrightarrow>
    step dsid w (w\<lparr>mem := markFlushed plan h ok (mem w), flushing := None\<rparr>)"
| s_adjust: "flushing w = None \<Longrightarrow> \<not> fails OpenDir \<Longrightarrow> \<not> fails SyncDir \<Longrightarrow>
    adjustBalanceAndPersist kid amount req
      (\<lambda>through keys f. writeLive fails dsid (timezone (mem w)) through keys t f) (mem w, live_disk w) = ((l, f), r) \<Longrightarrow>
    step dsid w (w\<lparr>mem := l, live_disk := f\<rparr>)"
| s_reset: "flushing w = None \<Longrightarrow> \<not> fails OpenDir \<Longrightarrow> \<not> fails SyncDir \<Longrightarrow>
    resetWindowAndPersist now kid win expected
      (\<lambda>through keys f. writeLive fails dsid (timezone (mem w)) through keys t f) (mem w, live_disk w) = ((l, f), r) \<Longrightarrow>
    step dsid w (w\<lparr>mem := l, live_disk := f, horizon := reached_horizon now w\<rparr>)"

inductive_cases step_cases: "step dsid w w'"


subsection \<open>What the files hold\<close>

definition live_is :: "string \<Rightarrow> liveFile raw disk_file \<Rightarrow> liveFile \<Rightarrow> bool" where
  "live_is dsid f lf \<longleftrightarrow> f = Content (Document currentFileVersion dsid (Some lf)) \<and> LfDatasetID lf = dsid \<and> live_ok lf"

definition hist_is :: "string \<Rightarrow> historyFile raw disk_file \<Rightarrow> historyFile option \<Rightarrow> bool" where
  "hist_is dsid f hf \<longleftrightarrow> (case hf of None \<Rightarrow> f = Absent
     | Some h \<Rightarrow> f = Content (Document currentFileVersion dsid (Some h)) \<and> HfDatasetID h = dsid \<and> hist_ok h)"

text \<open>The history file agrees with the memory on the closed days within the horizon.\<close>

definition history_agrees :: "day \<Rightarrow> usageLedger \<Rightarrow> historyFile option \<Rightarrow> bool" where
  "history_agrees hz l hf \<longleftrightarrow> mark_le (file_mark hf) (closedThrough l) \<and>
     (\<forall>k d m. \<not> after_mark (file_mark hf) d \<longrightarrow> hz \<le> d \<longrightarrow> file_history hf k d m = ledger_bucket l k d m)"

text \<open>A set of live keys holds the periods, the balances and the days after a mark of a ledger.\<close>

definition keys_agree :: "day option \<Rightarrow> usageLedger \<Rightarrow> (string, liveKey) amap \<Rightarrow> bool" where
  "keys_agree mark l ks \<longleftrightarrow> (\<forall>k. live_meta ks k = ledger_meta l k) \<and>
     (\<forall>k d m. after_mark mark d \<longrightarrow> live_bucket ks k d m = ledger_bucket l k d m)"

text \<open>A flush under way.\<close>

definition plan_ok :: "day \<Rightarrow> usageLedger \<Rightarrow> flushPlan \<Rightarrow> bool" where
  "plan_ok hz l plan \<longleftrightarrow> plan_through plan = historyThrough l \<and> plan_revision plan \<le> revision l \<and>
     (\<not> dirty l \<longrightarrow> revision l = plan_revision plan) \<and> live_keys_ok (plan_live plan) \<and>
     (revision l = plan_revision plan \<longrightarrow> keys_agree (historyThrough l) l (plan_live plan)) \<and>
     (case plan_history plan of None \<Rightarrow> plan_historyThrough plan = None
      | Some days \<Rightarrow> (\<exists>T. plan_historyThrough plan = Some T \<and> mark_le (historyThrough l) (Some T) \<and>
          mark_le (Some T) (closedThrough l) \<and> history_until T days \<and>
          (\<forall>k d m. d \<le> T \<longrightarrow> hz \<le> d \<longrightarrow> history_bucket days k d m = ledger_bucket l k d m)))"

text \<open>The mark the live file is or was last written against.\<close>

definition base_mark :: "usageLedger \<Rightarrow> (flushPlan \<times> stage) option \<Rightarrow> day option" where
  "base_mark l fl = (case fl of Some (plan, LiveDone h ok) \<Rightarrow> live_mark plan h | _ \<Rightarrow> historyThrough l)"

definition history_done :: "(flushPlan \<times> stage) option \<Rightarrow> flushPlan option" where
  "history_done fl = (case fl of Some (plan, HistoryDone True) \<Rightarrow> Some plan | Some (plan, LiveDone True ok) \<Rightarrow> Some plan | _ \<Rightarrow> None)"

definition marks_ok :: "day option \<Rightarrow> usageLedger \<Rightarrow> (flushPlan \<times> stage) option \<Rightarrow> day option \<Rightarrow> bool" where
  "marks_ok hl l fl th \<longleftrightarrow> mark_le hl (base_mark l fl) \<and> mark_le (base_mark l fl) th \<and> mark_le (historyThrough l) th \<and>
     (\<forall>plan. history_done fl = Some plan \<longrightarrow> th = plan_historyThrough plan \<and> plan_history plan \<noteq> None)"

definition agrees :: "day \<Rightarrow> usageLedger \<Rightarrow> (flushPlan \<times> stage) option \<Rightarrow> liveFile \<Rightarrow> historyFile option \<Rightarrow> bool" where
  "agrees hz l fl lf hf \<longleftrightarrow> ledger_ok l \<and> LfTimezone lf = timezone l \<and> history_agrees hz l hf \<and>
     marks_ok (LfHistoryThrough lf) l fl (file_mark hf) \<and>
     (\<forall>plan st. fl = Some (plan, st) \<longrightarrow> plan_ok hz l plan) \<and>
     (\<not> dirty l \<longrightarrow> keys_agree (base_mark l fl) l (LfKeys lf)) \<and>
     (\<forall>plan h. fl = Some (plan, LiveDone h True) \<longrightarrow> revision l = plan_revision plan \<longrightarrow>
        keys_agree (live_mark plan h) l (LfKeys lf))"

definition consistent :: "string \<Rightarrow> world \<Rightarrow> bool" where
  "consistent dsid w \<longleftrightarrow> (\<exists>lf hf. live_is dsid (live_disk w) lf \<and> hist_is dsid (hist_disk w) hf \<and>
     agrees (horizon w) (mem w) (flushing w) lf hf)"


subsection \<open>Marks\<close>

lemma mark_le_refl [simp]: "mark_le a a"
  by (simp add: mark_le_def)

lemma mark_le_trans: "mark_le a b \<Longrightarrow> mark_le b c \<Longrightarrow> mark_le a c"
  by (simp add: mark_le_def)

lemma mark_le_None [simp]: "mark_le None b"
  by (simp add: mark_le_def after_mark_def)

lemma mark_le_Some [simp]: "mark_le (Some a) (Some b) \<longleftrightarrow> a \<le> b"
proof
  assume "mark_le (Some a) (Some b)"
  then have "b < b + 1 \<longrightarrow> a < b + 1" unfolding mark_le_def after_mark_def by (metis option.case(2))
  then show "a \<le> b" by simp
qed (auto simp: mark_le_def after_mark_def)

lemma mark_le_max: "mark_le a (max_mark a b)" "mark_le b (max_mark a b)"
  by (cases a; cases b; simp)+

lemma keys_agree_mono: "keys_agree a l ks \<Longrightarrow> mark_le a b \<Longrightarrow> keys_agree b l ks"
  by (auto simp: keys_agree_def mark_le_def)

lemma keys_agree_cong:
  "(\<And>k. ledger_meta l' k = ledger_meta l k) \<Longrightarrow> (\<And>k d m. ledger_bucket l' k d m = ledger_bucket l k d m) \<Longrightarrow>
     keys_agree mark l' ks = keys_agree mark l ks"
  by (simp add: keys_agree_def)

lemma keys_agree_snapshot: "ledger_ok l \<Longrightarrow> keys_agree mark l (liveSnapshotLocked mark l)"
  by (simp add: keys_agree_def live_snapshot_meta live_snapshot_bucket)

lemma keys_agree_document:
  "live_keys_ok ks \<Longrightarrow> keys_agree mark l ks \<Longrightarrow> mark_le mark through \<Longrightarrow>
     keys_agree through l (LfKeys (live_document dsid zone through ks t))"
  by (simp add: keys_agree_def live_document_bucket live_document_meta mark_le_def)


subsection \<open>Operations and plans keep the agreement\<close>

lemma mem_rel_same:
  assumes "mem_rel now l l'" "revision l' = revision l"
  shows "dirty l' = dirty l" "keys_agree mark l' ks = keys_agree mark l ks"
  using assms by (auto simp: mem_rel_def ledger_meta_def intro!: keys_agree_cong)

lemma mem_rel_changed: "mem_rel now l l' \<Longrightarrow> revision l' \<noteq> revision l \<Longrightarrow> revision l < revision l' \<and> dirty l'"
  by (simp add: mem_rel_def)

lemma mem_rel_fields:
  assumes "mem_rel now l l'"
  shows "ledger_ok l'" "ledger_location l' = ledger_location l" "timezone l' = timezone l"
    "historyThrough l' = historyThrough l" "closedThrough l' = closedThrough l"
    "\<And>k d m. \<not> after_mark (closedThrough l) d \<Longrightarrow> oldestKept l now \<le> d \<Longrightarrow> ledger_bucket l' k d m = ledger_bucket l k d m"
  using assms by (simp_all add: mem_rel_def)

lemma history_agrees_mem_rel:
  assumes "history_agrees hz l hf" "mem_rel now l l'" "hz \<le> hz'" "oldestKept l now \<le> hz'"
  shows "history_agrees hz' l' hf"
  using assms mem_rel_fields(5,6) [OF assms(2)] unfolding history_agrees_def mark_le_def by (metis order_trans)

lemma plan_ok_mem_rel:
  assumes "plan_ok hz l plan" "mem_rel now l l'" "hz \<le> hz'" "oldestKept l now \<le> hz'"
  shows "plan_ok hz' l' plan"
proof -
  note f = mem_rel_fields [OF assms(2)]
  have rev: "revision l \<le> revision l'" using assms(2) by (auto simp: mem_rel_def split: if_splits)
  have hist: "(case plan_history plan of None \<Rightarrow> plan_historyThrough plan = None
      | Some days \<Rightarrow> (\<exists>T. plan_historyThrough plan = Some T \<and> mark_le (historyThrough l') (Some T) \<and>
          mark_le (Some T) (closedThrough l') \<and> history_until T days \<and>
          (\<forall>k d m. d \<le> T \<longrightarrow> hz' \<le> d \<longrightarrow> history_bucket days k d m = ledger_bucket l' k d m)))"
  proof (cases "plan_history plan")
    case None
    then show ?thesis using assms(1) by (simp add: plan_ok_def)
  next
    case (Some days)
    then obtain T where T: "plan_historyThrough plan = Some T" "mark_le (historyThrough l) (Some T)" "mark_le (Some T) (closedThrough l)"
      "history_until T days" "\<And>k d m. d \<le> T \<Longrightarrow> hz \<le> d \<Longrightarrow> history_bucket days k d m = ledger_bucket l k d m"
      using assms(1) by (auto simp: plan_ok_def)
    have "history_bucket days k d m = ledger_bucket l' k d m" if "d \<le> T" "hz' \<le> d" for k d m
    proof -
      have "\<not> after_mark (closedThrough l) d" using T(3) that(1) by (auto simp: mark_le_def after_mark_def)
      then show ?thesis using f(6) [of d k m] T(5) [of d k m] that assms(3,4) by simp
    qed
    then show ?thesis using Some T f by auto
  qed
  have "revision l' = plan_revision plan" if "\<not> dirty l'"
  proof -
    have r: "revision l' = revision l" using that mem_rel_changed [OF assms(2)] by auto
    with mem_rel_same(1) [OF assms(2) r] that assms(1) show ?thesis by (simp add: plan_ok_def)
  qed
  moreover have "keys_agree (historyThrough l') l' (plan_live plan)" if "revision l' = plan_revision plan"
  proof -
    have "revision l' = revision l" using that rev assms(1) by (simp add: plan_ok_def)
    then show ?thesis using assms(1) that mem_rel_same(2) [OF assms(2)] f(4) by (simp add: plan_ok_def)
  qed
  ultimately show ?thesis using assms(1) hist rev f by (auto simp: plan_ok_def)
qed

lemma base_mark_cong: "historyThrough l' = historyThrough l \<Longrightarrow> base_mark l' fl = base_mark l fl"
  by (simp add: base_mark_def split: option.splits stage.splits)

lemma agrees_mem_rel:
  assumes "agrees hz l fl lf hf" "mem_rel now l l'" "hz \<le> hz'" "oldestKept l now \<le> hz'"
  shows "agrees hz' l' fl lf hf"
proof -
  note f = mem_rel_fields [OF assms(2)]
  have b: "base_mark l' fl = base_mark l fl" by (rule base_mark_cong [OF f(4)])
  have rev: "revision l \<le> revision l'" using assms(2) by (auto simp: mem_rel_def split: if_splits)
  have "keys_agree (base_mark l' fl) l' (LfKeys lf)" if "\<not> dirty l'"
  proof -
    have r: "revision l' = revision l" using that mem_rel_changed [OF assms(2)] by auto
    show ?thesis using assms(1) that mem_rel_same [OF assms(2) r] b by (simp add: agrees_def)
  qed
  moreover have "keys_agree (live_mark plan h) l' (LfKeys lf)"
    if "fl = Some (plan, LiveDone h True)" "revision l' = plan_revision plan" for plan h
  proof -
    have p: "plan_ok hz l plan" using assms(1) that(1) by (simp add: agrees_def)
    then have r: "revision l' = revision l" using that(2) rev by (simp add: plan_ok_def)
    show ?thesis using assms(1) that mem_rel_same(2) [OF assms(2) r] r by (simp add: agrees_def)
  qed
  moreover have "history_agrees hz' l' hf" "\<And>plan st. fl = Some (plan, st) \<Longrightarrow> plan_ok hz' l' plan"
    using history_agrees_mem_rel plan_ok_mem_rel assms by (auto simp: agrees_def)
  ultimately show ?thesis using assms(1) f b by (simp add: agrees_def marks_ok_def)
qed

lemma flags_bucket [simp]:
  "ledger_bucket (l\<lparr>closedThrough := c, historyStale := x\<rparr>) k d m = ledger_bucket l k d m"
  "ledger_meta (l\<lparr>closedThrough := c, historyStale := x\<rparr>) k = ledger_meta l k"
  by (simp_all add: ledger_bucket_def ledger_meta_def usage_of_def)

lemma agrees_close:
  assumes "agrees hz l None lf hf"
  shows "agrees hz (l\<lparr>closedThrough := max_mark (closedThrough l) b, historyStale := x\<rparr>) None lf hf" (is "agrees _ ?l _ _ _")
proof -
  have c: "mark_le a (closedThrough l) \<Longrightarrow> mark_le a (max_mark (closedThrough l) b)" for a
    using mark_le_trans mark_le_max(1) by blast
  have "keys_agree mark ?l ks = keys_agree mark l ks" for mark ks by (rule keys_agree_cong) simp_all
  then show ?thesis
    using assms c by (simp add: agrees_def ledger_ok_def history_agrees_def marks_ok_def base_mark_def history_done_def)
qed

lemma agrees_plan:
  assumes "agrees hz l0 None lf hf" "planFlush now l0 = (l', p)" "hz \<le> hz'" "oldestKept l0 now \<le> hz'"
  shows "agrees hz' l' (map_option (\<lambda>plan. (plan, Planned)) p) lf hf"
proof -
  have "ledger_ok l0" using assms(1) by (simp add: agrees_def)
  from mem_rel_plan_base [OF this, of now]
  have a: "agrees hz' (advance_all now (evict now l0)) None lf hf" by (rule agrees_mem_rel [OF assms(1) _ assms(3,4)])
  then have ok: "ledger_ok (advance_all now (evict now l0))" by (simp add: agrees_def)
  have start: "agrees hz' l (Some (plan, Planned)) lf hf" if "agrees hz' l None lf hf" "plan_ok hz' l plan" for l plan
    using that by (simp add: agrees_def marks_ok_def base_mark_def history_done_def)
  from assms(2) show ?thesis
  proof (cases rule: planFlush_cases)
    case clean
    with a show ?thesis by simp
  next
    case live
    have "plan_ok hz' l' (the p)" using ok keys_agree_snapshot [OF ok]
      by (simp add: live plan_ok_def live_snapshot_keys_ok)
    with start [of l'] a show ?thesis by (simp add: live)
  next
    case (history T)
    let ?l = "advance_all now (evict now l0)"
    have b: "ledger_bucket l' k d m = ledger_bucket ?l k d m" "ledger_meta l' k = ledger_meta ?l k" for k d m
      by (simp_all add: history(2))
    have "keys_agree (historyThrough ?l) l' ks = keys_agree (historyThrough ?l) ?l ks" for ks
      by (rule keys_agree_cong) (use b in auto)
    moreover have "mark_le (historyThrough ?l) (Some T)" using history(1) by (auto simp: after_mark_def split: option.splits)
    moreover have "mark_le (Some T) (max_mark (closedThrough ?l) (Some T))" by (rule mark_le_max(2))
    ultimately have "plan_ok hz' l' (the p)"
      using history_snapshot_until [OF ok, of T] history_snapshot_bucket [OF ok, of T] keys_agree_snapshot [OF ok] live_snapshot_keys_ok [OF ok] b
      by (simp add: plan_ok_def history(2,3))
    moreover have "agrees hz' l' None lf hf" unfolding history(2) by (rule agrees_close [OF a])
    ultimately show ?thesis using start by (simp add: history(3))
  qed
qed

lemma markFlushed_fields [simp]:
  "entries (markFlushed plan h ok l) = entries l" "revision (markFlushed plan h ok l) = revision l"
  "timezone (markFlushed plan h ok l) = timezone l" "ledger_location (markFlushed plan h ok l) = ledger_location l"
  "closedThrough (markFlushed plan h ok l) = closedThrough l"
  "historyThrough (markFlushed plan h ok l) = (if h then plan_historyThrough plan else historyThrough l)"
  "dirty (markFlushed plan h ok l) \<longleftrightarrow> dirty l \<and> \<not> (ok \<and> revision l = plan_revision plan)"
  by (auto simp: markFlushed_def Let_def)

lemma agrees_mark:
  assumes "agrees hz l (Some (plan, LiveDone h ok)) lf hf"
  shows "agrees hz (markFlushed plan h ok l) None lf hf" (is "agrees _ ?l _ _ _")
proof -
  have p: "plan_ok hz l plan" and m: "marks_ok (LfHistoryThrough lf) l (Some (plan, LiveDone h ok)) (file_mark hf)"
    using assms by (simp_all add: agrees_def)
  have ht: "historyThrough ?l = live_mark plan h" using p by (simp add: live_mark_def plan_ok_def)
  have b: "ledger_bucket ?l k d x = ledger_bucket l k d x" "ledger_meta ?l k = ledger_meta l k" for k d x
    by (simp_all add: ledger_bucket_def ledger_meta_def usage_of_def)
  have ka: "keys_agree mark ?l ks = keys_agree mark l ks" for mark ks by (rule keys_agree_cong) (use b in auto)
  have "mark_le (live_mark plan h) (closedThrough l)"
  proof (cases h)
    case True
    then have "plan_history plan \<noteq> None" using m by (simp add: marks_ok_def history_done_def)
    then show ?thesis using p True by (auto simp: plan_ok_def live_mark_def)
  qed (use assms p in \<open>simp add: agrees_def ledger_ok_def live_mark_def plan_ok_def\<close>)
  then have "ledger_ok ?l" using assms ht by (simp add: agrees_def ledger_ok_def)
  moreover have "keys_agree (live_mark plan h) l (LfKeys lf)" if "\<not> dirty ?l"
    using that assms by (cases ok) (auto simp: agrees_def base_mark_def)
  ultimately show ?thesis
    using assms m ht ka b by (simp add: agrees_def history_agrees_def marks_ok_def base_mark_def history_done_def)
qed



subsection \<open>Writes keep the agreement\<close>

lemma agrees_stage:
  assumes "agrees hz l (Some (plan, Planned)) lf hf" "plan_history plan = None"
  shows "agrees hz l (Some (plan, HistoryDone False)) lf hf"
  using assms by (simp add: agrees_def marks_ok_def base_mark_def history_done_def)

text \<open>A history write that reached the disk, whether it then reported an error or not.\<close>

lemma agrees_history:
  assumes "agrees hz l (Some (plan, Planned)) lf hf" "plan_history plan = Some days" "plan_historyThrough plan = Some T"
    "HfThrough h = T" "HfDays h = days"
  shows "agrees hz l (Some (plan, HistoryDone ok)) lf (Some h)" "hist_ok h"
proof -
  have p: "plan_ok hz l plan" using assms(1) by (simp add: agrees_def)
  then have T: "mark_le (historyThrough l) (Some T)" "mark_le (Some T) (closedThrough l)" "history_until T days"
    "\<And>k d m. d \<le> T \<Longrightarrow> hz \<le> d \<Longrightarrow> history_bucket days k d m = ledger_bucket l k d m"
    using assms(2,3) by (auto simp: plan_ok_def)
  then have "history_agrees hz l (Some h)"
    using assms(4,5) by (simp add: history_agrees_def file_mark_def file_history_def after_mark_def)
  then show "agrees hz l (Some (plan, HistoryDone ok)) lf (Some h)"
    using assms T(1) by (cases ok) (auto simp: agrees_def marks_ok_def base_mark_def history_done_def file_mark_def)
  show "hist_ok h" using T(3) assms(4,5) by (simp add: hist_ok_def)
qed

lemma agrees_no_history:
  assumes "agrees hz l (Some (plan, Planned)) lf hf"
  shows "agrees hz l (Some (plan, HistoryDone False)) lf hf"
  using assms by (simp add: agrees_def marks_ok_def base_mark_def history_done_def)

lemma live_mark_after:
  assumes "agrees hz l (Some (plan, HistoryDone h)) lf hf"
  shows "mark_le (historyThrough l) (live_mark plan h)" "mark_le (live_mark plan h) (file_mark hf)"
proof -
  have p: "plan_ok hz l plan" and m: "marks_ok (LfHistoryThrough lf) l (Some (plan, HistoryDone h)) (file_mark hf)"
    using assms by (simp_all add: agrees_def)
  show "mark_le (historyThrough l) (live_mark plan h)"
    using p m by (cases h) (auto simp: live_mark_def plan_ok_def marks_ok_def history_done_def)
  show "mark_le (live_mark plan h) (file_mark hf)"
    using p m by (cases h) (auto simp: live_mark_def plan_ok_def marks_ok_def history_done_def)
qed

text \<open>A live write that did not reach the disk, and one that did, with or without an error.\<close>

lemma agrees_live_failed:
  assumes "agrees hz l (Some (plan, HistoryDone h)) lf hf"
  shows "agrees hz l (Some (plan, LiveDone h False)) lf hf"
proof -
  note m = live_mark_after [OF assms]
  have "mark_le (LfHistoryThrough lf) (live_mark plan h)"
    using assms m(1) mark_le_trans by (auto simp: agrees_def marks_ok_def base_mark_def)
  moreover have "keys_agree (live_mark plan h) l (LfKeys lf)" if "\<not> dirty l"
    using assms that keys_agree_mono [OF _ m(1)] by (simp add: agrees_def base_mark_def)
  ultimately show ?thesis using assms m by (cases h) (auto simp: agrees_def marks_ok_def base_mark_def history_done_def)
qed

lemma agrees_live_written:
  assumes "agrees hz l (Some (plan, HistoryDone h)) lf hf"
    and doc: "doc = live_document dsid (timezone l) (live_mark plan h) (plan_live plan) t"
  shows "agrees hz l (Some (plan, LiveDone h ok)) doc hf" "live_ok doc"
proof -
  note m = live_mark_after [OF assms(1)]
  have p: "plan_ok hz l plan" using assms(1) by (simp add: agrees_def)
  then have ks: "live_keys_ok (plan_live plan)" by (simp add: plan_ok_def)
  have w: "keys_agree (live_mark plan h) l (LfKeys doc)" if "revision l = plan_revision plan"
    unfolding doc by (rule keys_agree_document [OF ks _ m(1)]) (use p that in \<open>simp add: plan_ok_def\<close>)
  then show "agrees hz l (Some (plan, LiveDone h ok)) doc hf"
    using assms m p by (cases h) (auto simp: agrees_def marks_ok_def base_mark_def history_done_def plan_ok_def)
  show "live_ok doc" unfolding doc by (rule live_document_ok [OF ks])
qed

text \<open>A management write that reached the disk: the ledger is clean and its snapshot is the live file.\<close>

lemma agrees_persisted:
  assumes "agrees hz l None lf hf" "ledger_ok l2" "timezone l2 = timezone l" "historyThrough l2 = historyThrough l"
    "closedThrough l2 = closedThrough l" "hz \<le> hz'"
    "\<And>k d m. \<not> after_mark (closedThrough l) d \<Longrightarrow> hz' \<le> d \<Longrightarrow> ledger_bucket l2 k d m = ledger_bucket l k d m"
    and doc: "doc = live_document dsid (timezone l) (historyThrough l) (liveSnapshotLocked (historyThrough l) l2) t"
  shows "agrees hz' (l2\<lparr>dirty := False\<rparr>) None doc hf" "live_ok doc"
proof -
  have ks: "live_keys_ok (liveSnapshotLocked (historyThrough l) l2)" by (rule live_snapshot_keys_ok [OF assms(2)])
  have b: "ledger_bucket (l2\<lparr>dirty := False\<rparr>) k d m = ledger_bucket l2 k d m" "ledger_meta (l2\<lparr>dirty := False\<rparr>) k = ledger_meta l2 k" for k d m
    by (simp_all add: ledger_bucket_def ledger_meta_def usage_of_def)
  have "keys_agree (historyThrough l) l2 (LfKeys doc)"
    unfolding doc by (rule keys_agree_document [OF ks keys_agree_snapshot [OF assms(2)]]) simp
  moreover have "keys_agree mark (l2\<lparr>dirty := False\<rparr>) ks = keys_agree mark l2 ks" for mark ks
    by (rule keys_agree_cong) (use b in auto)
  moreover have "history_agrees hz' (l2\<lparr>dirty := False\<rparr>) hf"
  proof -
    have h: "history_agrees hz l hf" using assms(1) by (simp add: agrees_def)
    have "file_history hf k d m = ledger_bucket l2 k d m" if "\<not> after_mark (file_mark hf) d" "hz' \<le> d" for k d m
    proof -
      have "\<not> after_mark (closedThrough l) d" using h that(1) by (auto simp: history_agrees_def mark_le_def)
      then show ?thesis using h that assms(6,7) by (simp add: history_agrees_def)
    qed
    then show ?thesis using h assms(5) b by (simp add: history_agrees_def)
  qed
  ultimately show "agrees hz' (l2\<lparr>dirty := False\<rparr>) None doc hf"
    using assms(1-4) by (simp add: agrees_def marks_ok_def base_mark_def history_done_def ledger_ok_def doc)
  show "live_ok doc" unfolding doc by (rule live_document_ok [OF ks])
qed

lemma agrees_persisted_entry:
  assumes "agrees hz l None lf hf" "usage_ok u" "\<And>d m. day_bucket u d m = ledger_bucket l kid d m"
    and l2: "l2 = markDirtyLocked (l\<lparr>entries := aset kid u (entries l)\<rparr>)"
    and doc: "doc = live_document dsid (timezone l) (historyThrough l) (liveSnapshotLocked (historyThrough l) l2) t"
  shows "agrees hz (l2\<lparr>dirty := False\<rparr>) None doc hf" "live_ok doc"
proof -
  have ok: "ledger_ok l" using assms(1) by (simp add: agrees_def)
  have b: "ledger_bucket l2 k d m = ledger_bucket l k d m" for k d m
    using ledger_bucket_aset [of u d m l kid k] assms(3) by (simp add: l2)
  have f: "ledger_ok l2" "timezone l2 = timezone l" "historyThrough l2 = historyThrough l" "closedThrough l2 = closedThrough l"
    using ledger_ok_aset [OF ok assms(2), of kid] by (simp_all add: l2)
  note p = agrees_persisted [OF assms(1) f order_refl b doc]
  show "agrees hz (l2\<lparr>dirty := False\<rparr>) None doc hf" by (rule p(1))
  show "live_ok doc" by (rule p(2))
qed

lemma write_live_cases:
  assumes "writeLive fails dsid zone through ks t f = (f', ok)"
  obtains "f' = f" "\<not> ok"
    | "f' = Content (Document currentFileVersion dsid (Some (live_document dsid zone through ks t)))"
      "ok \<longleftrightarrow> \<not> fails OpenDir \<and> \<not> fails SyncDir"
  using AtomicWrite_cases [OF assms [unfolded writeLive_def]] by metis

lemma agrees_adjust:
  assumes "agrees hz l None lf hf" "live_is dsid f lf" "\<not> fails OpenDir" "\<not> fails SyncDir"
    "adjustBalanceAndPersist kid amount req (\<lambda>through keys f. writeLive fails dsid (timezone l) through keys t f) (l, f) = ((l', f'), r)"
  shows "\<exists>lf'. agrees hz l' None lf' hf \<and> live_is dsid f' lf'"
proof (cases "case aget (entries l) kid of None \<Rightarrow> True | Some u \<Rightarrow> Cycles u = None")
  case True
  then have "l' = l" "f' = f" using assms(5) by (simp_all add: adjust_unknown)
  then show ?thesis using assms(1,2) by blast
next
  case False
  then obtain u where u: "aget (entries l) kid = Some u" "Cycles u \<noteq> None" by (auto split: option.splits)
  let ?persist = "\<lambda>through keys f. writeLive fails dsid (timezone l) through keys t f"
  from u show ?thesis
  proof (cases rule: adjust_cases [where req = req and amount = amount and persist = ?persist and s = f])
    case (failed s')
    have "s' = f"
    proof (rule ccontr)
      assume "s' \<noteq> f"
      let ?v = "u\<lparr>UsageBalance := Some (credit amount req (balance_of u))\<rparr>"
      let ?l = "markDirtyLocked (l\<lparr>entries := aset kid ?v (entries l)\<rparr>)"
      obtain g ok where g: "?persist (historyThrough ?l) (liveSnapshotLocked (historyThrough ?l) ?l) f = (g, ok)" by fastforce
      have "s' = g" "\<not> ok" using failed u g
        by (auto simp: adjustBalanceAndPersist_def Let_def split: if_splits)
      with g \<open>s' \<noteq> f\<close> assms(3,4) show False by (elim write_live_cases) auto
    qed
    then show ?thesis using failed assms by auto
  next
    case (written l2 s')
    have ok: "ledger_ok l" using assms(1) by (simp add: agrees_def)
    let ?v = "u\<lparr>UsageBalance := Some (credit amount req (balance_of u))\<rparr>"
    have uo: "usage_of l kid = u" using u(1) by (simp add: usage_of_def)
    have "usage_ok ?v" using usage_of_ok [OF ok, of kid] uo by (simp add: usage_ok_def)
    moreover have "day_bucket ?v d m = ledger_bucket l kid d m" for d m by (simp add: ledger_bucket_def uo)
    ultimately have a: "agrees hz (l2\<lparr>dirty := False\<rparr>) None (live_document dsid (timezone l) (historyThrough l)
        (liveSnapshotLocked (historyThrough l) l2) t) hf"
      "live_ok (live_document dsid (timezone l) (historyThrough l) (liveSnapshotLocked (historyThrough l) l2) t)"
      using agrees_persisted_entry [OF assms(1) _ _ written(2) refl] by blast+
    have "live_is dsid s' (live_document dsid (timezone l) (historyThrough l) (liveSnapshotLocked (historyThrough l) l2) t)"
      using written(3) a(2) by (elim write_live_cases) (auto simp: live_is_def)
    then show ?thesis using a(1) written(4) assms(5) by auto
  qed (use assms in auto)
qed

lemma agrees_reset:
  assumes "agrees hz l None lf hf" "live_is dsid f lf" "\<not> fails OpenDir" "\<not> fails SyncDir" "hz \<le> hz'" "oldestKept l now \<le> hz'"
    "resetWindowAndPersist now kid win expected (\<lambda>through keys f. writeLive fails dsid (timezone l) through keys t f) (l, f) = ((l', f'), r)"
  shows "\<exists>lf'. agrees hz' l' None lf' hf \<and> live_is dsid f' lf'"
proof -
  have ok: "ledger_ok l" using assms(1) by (simp add: agrees_def)
  have keep: "agrees hz' l None lf hf" using agrees_mem_rel [OF assms(1) mem_rel_refl [OF ok] assms(5,6)] .
  let ?persist = "\<lambda>through keys f. writeLive fails dsid (timezone l) through keys t f"
  show ?thesis
  proof (cases "case aget (entries l) kid of None \<Rightarrow> True | Some u \<Rightarrow> Cycles u = None")
    case True
    then have "l' = l" "f' = f" using assms(7) by (auto simp: resetWindowAndPersist_def split: option.splits)
    then show ?thesis using keep assms(2) by auto
  next
    case False
    then obtain u cs0 where u: "aget (entries l) kid = Some u" "Cycles u = Some cs0" by (auto split: option.splits)
    obtain l1 cs where c: "currentCyclesLocked kid now l = (l1, cs)" by fastforce
    have m: "mem_rel now l l1" using mem_rel_current [OF ok, of now kid now] c by simp
    have a1: "agrees hz' l1 None lf hf" by (rule agrees_mem_rel [OF assms(1) m assms(5,6)])
    from u c show ?thesis
    proof (cases rule: reset_cases [where w = win and expected = expected and persist = ?persist and s = f])
      case changed
      then show ?thesis using a1 assms(2,7) by auto
    next
      case (failed s')
      have "s' = f"
      proof (rule ccontr)
        assume "s' \<noteq> f"
        obtain k ok' where "?persist (fst k) (snd k) f = (s', ok')" "\<not> ok'"
          using failed by (auto simp: resetWindowAndPersist_def u c Let_def split: if_splits prod.splits)
        with \<open>s' \<noteq> f\<close> assms(3,4) show False by (elim write_live_cases) auto
      qed
      then show ?thesis using failed a1 assms(2,7) by auto
    next
      case (written l2 s' a)
      have ok1: "ledger_ok l1" using a1 by (simp add: agrees_def)
      let ?cs = "set_cycle win (manual_cycle (ledger_location l) now win) cs"
      let ?v = "u\<lparr>Cycles := Some ?cs\<rparr>"
      have e1: "usage_of l1 kid = u\<lparr>Cycles := Some cs\<rparr>"
        using currentCycles_Some [OF u, where now = now] c by (simp add: usage_of_def)
      have "\<forall>w \<in> set quotaWindows. models_ok (ByModel (cycle_of ?cs w))"
        using usage_of_ok [OF ok1, of kid] e1
        by (auto simp: usage_ok_def set_cycle_def manual_cycle_def quotaWindows_def cycle_of_def)
      then have v: "usage_ok ?v" using usage_of_ok [OF ok1, of kid] e1 by (simp add: usage_ok_def)
      have d: "day_bucket ?v d m = ledger_bucket l1 kid d m" for d m by (simp add: ledger_bucket_def e1)
      have tz: "timezone l1 = timezone l" "historyThrough l1 = historyThrough l" using mem_rel_fields [OF m] by simp_all
      have p: "agrees hz' (l2\<lparr>dirty := False\<rparr>) None (live_document dsid (timezone l1) (historyThrough l1)
          (liveSnapshotLocked (historyThrough l1) l2) t) hf"
        "live_ok (live_document dsid (timezone l1) (historyThrough l1) (liveSnapshotLocked (historyThrough l1) l2) t)"
        using agrees_persisted_entry [OF a1 v d written(2) refl] by blast+
      have "live_is dsid s' (live_document dsid (timezone l1) (historyThrough l1) (liveSnapshotLocked (historyThrough l1) l2) t)"
        using written(3) p(2) by (elim write_live_cases) (auto simp: live_is_def tz)
      then show ?thesis using p(1) written(4) assms(7) by auto
    qed
  qed
qed

lemma reached_horizon_le: "horizon w \<le> reached_horizon now w" "oldestKept (mem w) now \<le> reached_horizon now w"
  by (simp_all add: reached_horizon_def)

lemma write_history_cases:
  assumes "writeHistory fails dsid T days t f = (f', ok)"
  obtains "f' = f" "\<not> ok"
    | "f' = Content (Document currentFileVersion dsid (Some \<lparr>HfVersion = currentFileVersion, HfDatasetID = dsid,
        HfUpdatedAt = t, HfThrough = T, HfDays = days\<rparr>))"
  using AtomicWrite_cases [OF assms [unfolded writeHistory_def]] by metis

lemma consistentI:
  "live_is dsid (live_disk w) lf \<Longrightarrow> hist_is dsid (hist_disk w) hf \<Longrightarrow> agrees (horizon w) (mem w) (flushing w) lf hf \<Longrightarrow> consistent dsid w"
  unfolding consistent_def by blast

lemma consistent_step: "step dsid w w' \<Longrightarrow> consistent dsid w \<Longrightarrow> consistent dsid w'"
proof (induction rule: step.induct)
  case (s_op now w l)
  then obtain lf hf where i: "live_is dsid (live_disk w) lf" "hist_is dsid (hist_disk w) hf" "agrees (horizon w) (mem w) (flushing w) lf hf"
    by (auto simp: consistent_def)
  then have "mem_rel now (mem w) l" using ledger_op_mem_rel [OF s_op(1)] by (simp add: agrees_def)
  from agrees_mem_rel [OF i(3) this reached_horizon_le] show ?case by (intro consistentI [where dsid = dsid and lf = lf and hf = hf]) (use i in simp_all)
next
  case (s_clean w now l)
  then obtain lf hf where i: "live_is dsid (live_disk w) lf" "hist_is dsid (hist_disk w) hf" "agrees (horizon w) (mem w) None lf hf"
    by (auto simp: consistent_def)
  from agrees_plan [OF i(3) s_clean(2) reached_horizon_le] show ?case
    by (intro consistentI [where dsid = dsid and lf = lf and hf = hf]) (use i s_clean in simp_all)
next
  case (s_plan w now l plan)
  then obtain lf hf where i: "live_is dsid (live_disk w) lf" "hist_is dsid (hist_disk w) hf" "agrees (horizon w) (mem w) None lf hf"
    by (auto simp: consistent_def)
  from agrees_plan [OF i(3) s_plan(2) reached_horizon_le] show ?case
    by (intro consistentI [where dsid = dsid and lf = lf and hf = hf]) (use i in simp_all)
next
  case (s_no_history w plan)
  then obtain lf hf where i: "live_is dsid (live_disk w) lf" "hist_is dsid (hist_disk w) hf"
    "agrees (horizon w) (mem w) (Some (plan, Planned)) lf hf" by (auto simp: consistent_def)
  from agrees_no_history [OF i(3)] show ?case by (intro consistentI [where dsid = dsid and lf = lf and hf = hf]) (use i in simp_all)
next
  case (s_history w plan days T fails t f ok)
  then obtain lf hf where i: "live_is dsid (live_disk w) lf" "hist_is dsid (hist_disk w) hf"
    "agrees (horizon w) (mem w) (Some (plan, Planned)) lf hf" by (auto simp: consistent_def)
  let ?h = "\<lparr>HfVersion = currentFileVersion, HfDatasetID = dsid, HfUpdatedAt = t, HfThrough = T, HfDays = days\<rparr>"
  from s_history(4) show ?case
  proof (cases rule: write_history_cases)
    case 1
    then show ?thesis using agrees_no_history [OF i(3)] by (intro consistentI [where dsid = dsid and lf = lf and hf = hf]) (use i in simp_all)
  next
    case 2
    have "agrees (horizon w) (mem w) (Some (plan, HistoryDone ok)) lf (Some ?h)" "hist_ok ?h"
      using agrees_history [OF i(3) s_history(2,3), of ?h] by simp_all
    then show ?thesis using i 2 by (intro consistentI [where dsid = dsid and lf = lf and hf = "Some ?h"]) (simp_all add: hist_is_def)
  qed
next
  case (s_live w plan h fails t f ok)
  then obtain lf hf where i: "live_is dsid (live_disk w) lf" "hist_is dsid (hist_disk w) hf"
    "agrees (horizon w) (mem w) (Some (plan, HistoryDone h)) lf hf" by (auto simp: consistent_def)
  from s_live(2) show ?case
  proof (cases rule: write_live_cases)
    case 1
    then show ?thesis using agrees_live_failed [OF i(3)] by (intro consistentI [where dsid = dsid and lf = lf and hf = hf]) (use i in simp_all)
  next
    case 2
    let ?doc = "live_document dsid (timezone (mem w)) (live_mark plan h) (plan_live plan) t"
    from agrees_live_written [where dsid = dsid and t = t, OF i(3) refl]
    have "agrees (horizon w) (mem w) (Some (plan, LiveDone h ok)) ?doc hf" "live_ok ?doc" by simp_all
    then show ?thesis using i 2(1) by (intro consistentI [where dsid = dsid and lf = "?doc" and hf = hf]) (simp_all add: live_is_def)
  qed
next
  case (s_mark w plan h ok)
  then obtain lf hf where i: "live_is dsid (live_disk w) lf" "hist_is dsid (hist_disk w) hf"
    "agrees (horizon w) (mem w) (Some (plan, LiveDone h ok)) lf hf" by (auto simp: consistent_def)
  from agrees_mark [OF i(3)] show ?case by (intro consistentI [where dsid = dsid and lf = lf and hf = hf]) (use i in simp_all)
next
  case (s_adjust w fails kid amount req t l f r)
  then obtain lf hf where i: "live_is dsid (live_disk w) lf" "hist_is dsid (hist_disk w) hf"
    "agrees (horizon w) (mem w) None lf hf" by (auto simp: consistent_def)
  from agrees_adjust [OF i(3,1) s_adjust(2-4)] obtain lf' where "agrees (horizon w) l None lf' hf" "live_is dsid f lf'" by blast
  then show ?case using i s_adjust(1) by (intro consistentI [where dsid = dsid and lf = lf' and hf = hf]) simp_all
next
  case (s_reset w fails now kid win expected t l f r)
  then obtain lf hf where i: "live_is dsid (live_disk w) lf" "hist_is dsid (hist_disk w) hf"
    "agrees (horizon w) (mem w) None lf hf" by (auto simp: consistent_def)
  from agrees_reset [OF i(3,1) s_reset(2,3) reached_horizon_le s_reset(4)]
  obtain lf' where "agrees (reached_horizon now w) l None lf' hf" "live_is dsid f lf'" by blast
  then show ?case using i s_reset(1) by (intro consistentI [where dsid = dsid and lf = lf' and hf = hf]) simp_all
qed


subsection \<open>From a start\<close>

text \<open>A start: the first one, whose live file is the snapshot of the new ledger, or one that loads
  the files another run left (a map of a decoded file has distinct keys, and its numbers are
  int64, so the entries are well formed).\<close>

definition loaded_entries :: "(string, KeyUsage) amap \<Rightarrow> bool" where
  "loaded_entries keys \<longleftrightarrow> amap_ok keys \<and> (\<forall>u \<in> snd ` set keys. usage_ok u)"

inductive reachable :: "string \<Rightarrow> world \<Rightarrow> bool" for dsid where
  boot: "ledger_ok l \<Longrightarrow> historyThrough l = None \<Longrightarrow> reachable dsid \<lparr>mem = l\<lparr>dirty := False\<rparr>,
      live_disk = Content (Document currentFileVersion dsid (Some (live_document dsid (timezone l) None (liveSnapshotLocked None l) t))),
      hist_disk = Absent, flushing = None, horizon = hz\<rparr>"
| load: "live_is dsid f lf \<Longrightarrow> hist_is dsid g hf \<Longrightarrow> mark_le (LfHistoryThrough lf) (file_mark hf) \<Longrightarrow>
    mergeUsage lf hf = Inr ds \<Longrightarrow> loaded_entries (DsKeys ds) \<Longrightarrow>
    l = ledger_load now (DsKeys ds) (DsThrough ds) (newUsageLedger loc (DsTimezone ds)) \<Longrightarrow>
    reachable dsid \<lparr>mem = l, live_disk = f, hist_disk = g, flushing = None, horizon = oldestKept l now\<rparr>"
| steps: "reachable dsid w \<Longrightarrow> step dsid w w' \<Longrightarrow> reachable dsid w'"

lemma consistent_boot:
  assumes "ledger_ok l" "historyThrough l = None"
  shows "consistent dsid \<lparr>mem = l\<lparr>dirty := False\<rparr>,
      live_disk = Content (Document currentFileVersion dsid (Some (live_document dsid (timezone l) None (liveSnapshotLocked None l) t))),
      hist_disk = Absent, flushing = None, horizon = hz\<rparr>"
proof -
  let ?doc = "live_document dsid (timezone l) None (liveSnapshotLocked None l) t"
  have ks: "live_keys_ok (liveSnapshotLocked None l)" by (rule live_snapshot_keys_ok [OF assms(1)])
  have "keys_agree None l (LfKeys ?doc)" by (rule keys_agree_document [OF ks keys_agree_snapshot [OF assms(1)]]) simp
  moreover have "keys_agree mark (l\<lparr>dirty := False\<rparr>) ks = keys_agree mark l ks" for mark ks
    by (rule keys_agree_cong) (simp_all add: ledger_bucket_def ledger_meta_def usage_of_def)
  ultimately have "agrees hz (l\<lparr>dirty := False\<rparr>) None ?doc None"
    using assms by (simp add: agrees_def history_agrees_def marks_ok_def base_mark_def history_done_def file_mark_def ledger_ok_def after_mark_def)
  then show ?thesis
    by (intro consistentI [where dsid = dsid and lf = "?doc" and hf = None]) (use live_document_ok [OF ks] in \<open>simp_all add: live_is_def hist_is_def\<close>)
qed

lemma consistent_load:
  assumes "live_is dsid f lf" "hist_is dsid g hf" "mark_le (LfHistoryThrough lf) (file_mark hf)"
    "mergeUsage lf hf = Inr ds" "loaded_entries (DsKeys ds)"
    "l = ledger_load now (DsKeys ds) (DsThrough ds) (newUsageLedger loc (DsTimezone ds))"
  shows "consistent dsid \<lparr>mem = l, live_disk = f, hist_disk = g, flushing = None, horizon = oldestKept l now\<rparr>"
proof -
  define l0 where "l0 = (newUsageLedger loc (DsTimezone ds))\<lparr>entries := DsKeys ds, historyThrough := DsThrough ds,
    closedThrough := DsThrough ds, historyStale := False, lastEvictedDate := None, dirty := False\<rparr>"
  have h: "\<And>h. hf = Some h \<Longrightarrow> hist_ok h \<and> HfDatasetID h = LfDatasetID lf" and lo: "live_ok lf"
    using assms(1,2) by (auto simp: live_is_def hist_is_def)
  obtain ds' where "mergeUsage lf hf = Inr ds'" "DsThrough ds' = file_mark hf" "DsTimezone ds' = LfTimezone lf"
    "\<And>kid d m. keys_bucket (DsKeys ds') kid d m =
       (if after_mark (file_mark hf) d then live_bucket (LfKeys lf) kid d m else file_history hf kid d m)"
    "\<And>kid. keys_meta (DsKeys ds') kid = live_meta (LfKeys lf) kid"
    by (rule merge_usage [OF lo h assms(3)]) auto
  with assms(4) have ds: "DsThrough ds = file_mark hf" "DsTimezone ds = LfTimezone lf"
    "\<And>kid d m. keys_bucket (DsKeys ds) kid d m =
       (if after_mark (file_mark hf) d then live_bucket (LfKeys lf) kid d m else file_history hf kid d m)"
    "\<And>kid. keys_meta (DsKeys ds) kid = live_meta (LfKeys lf) kid" by simp_all
  have b: "ledger_bucket l0 k d m = keys_bucket (DsKeys ds) k d m" "ledger_meta l0 k = keys_meta (DsKeys ds) k" for k d m
    by (simp_all add: l0_def ledger_bucket_def ledger_meta_def usage_of_def keys_bucket_def keys_meta_def day_bucket_def
        empty_usage_def models_bucket_def split: option.splits)
  have f: "historyThrough l0 = file_mark hf" "closedThrough l0 = file_mark hf" "timezone l0 = LfTimezone lf" "\<not> dirty l0"
    by (simp_all add: l0_def ds(1,2) newUsageLedger_def)
  have ok: "ledger_ok l0" using assms(5) by (simp add: l0_def ledger_ok_def loaded_entries_def)
  have "agrees (oldestKept l now) l0 None lf hf"
    using ok assms(3) by (simp add: agrees_def history_agrees_def marks_ok_def base_mark_def history_done_def keys_agree_def f b ds(3,4))
  moreover have l: "l = evict now l0" using assms(6) by (simp add: ledger_load_def l0_def)
  ultimately have "agrees (oldestKept l now) l None lf hf"
    using agrees_mem_rel [OF _ mem_rel_evict [OF ok, of now] order_refl]
      oldestKept_cong [of l l0 now] by (simp add: oldestKept_def dateKeyOffset_def)
  then show ?thesis using assms(1,2) by (intro consistentI) simp_all
qed

lemma reachable_consistent: "reachable dsid w \<Longrightarrow> consistent dsid w"
  by (induction rule: reachable.induct) (auto intro: consistent_boot consistent_load consistent_step)



subsection \<open>A restart\<close>

text \<open>The errors of a load that a file's own content can cause: a zone this host does not know, or
  names, periods, balances or numbers the checks refuse.\<close>

fun content_error :: "persist_error \<Rightarrow> bool" where
  "content_error (InvalidTimezone z) = True"
| "content_error EmptyKeyID = True"
| "content_error (InvalidKeyCycles k e) = True"
| "content_error (InvalidKeyBalance k) = True"
| "content_error (InvalidKeyDays k e) = True"
| "content_error (DayAfterThrough k d t) = True"
| "content_error _ = False"

lemma first_error_Some: "first_error f xs = Some e \<Longrightarrow> \<exists>x \<in> set xs. f x = Some e"
  by (induction xs) (auto split: option.splits)

lemma validate_live_content: "first_error (validate_live_key loc) ks = Some e \<Longrightarrow> content_error e"
  by (drule first_error_Some) (auto simp: validate_live_key_def split: option.splits if_splits)

lemma validate_history_content: "first_error (validate_history_key t) ks = Some e \<Longrightarrow> content_error e"
  by (drule first_error_Some)
    (auto simp: validate_history_key_def dest!: first_error_Some split: option.splits if_splits)

lemma decode_live_is:
  assumes "live_is dsid f lf" "TrimSpace dsid = dsid" "dsid \<noteq> []"
  obtains e where "f = Content (Document currentFileVersion dsid (Some lf))"
      "decodeLive zones (Document currentFileVersion dsid (Some lf)) = Inl e" "content_error e"
    | "f = Content (Document currentFileVersion dsid (Some lf))"
      "decodeLive zones (Document currentFileVersion dsid (Some lf)) = Inr lf"
proof -
  have f: "f = Content (Document currentFileVersion dsid (Some lf))" "LfDatasetID lf = dsid" using assms(1) by (simp_all add: live_is_def)
  have same: "lf\<lparr>LfDatasetID := TrimSpace (LfDatasetID lf)\<rparr> = lf" using f(2) assms(2) by (cases lf) simp
  show thesis
  proof (cases "decodeLive zones (Document currentFileVersion dsid (Some lf))")
    case (Inl e)
    then have "content_error e" using assms(2,3) validate_live_content
      by (auto simp: decodeLive_def same Let_def split: option.splits if_splits)
    then show thesis using that(1) f(1) Inl by blast
  next
    case (Inr lf')
    then have "lf' = lf" using assms(2,3) by (auto simp: decodeLive_def same Let_def split: option.splits if_splits)
    then show thesis using that(2) f(1) Inr by blast
  qed
qed

lemma decode_hist_is:
  assumes "hist_is dsid f (Some h)" "TrimSpace dsid = dsid" "dsid \<noteq> []"
  obtains e where "f = Content (Document currentFileVersion dsid (Some h))"
      "decodeHistory (Document currentFileVersion dsid (Some h)) = Inl e" "content_error e"
    | "f = Content (Document currentFileVersion dsid (Some h))"
      "decodeHistory (Document currentFileVersion dsid (Some h)) = Inr h"
proof -
  have f: "f = Content (Document currentFileVersion dsid (Some h))" "HfDatasetID h = dsid" using assms(1) by (simp_all add: hist_is_def)
  have same: "h\<lparr>HfDatasetID := TrimSpace (HfDatasetID h)\<rparr> = h" using f(2) assms(2) by (cases h) simp
  show thesis
  proof (cases "decodeHistory (Document currentFileVersion dsid (Some h))")
    case (Inl e)
    then have "content_error e" using assms(2,3) validate_history_content
      by (auto simp: decodeHistory_def same Let_def split: option.splits if_splits)
    then show thesis using that(1) f(1) Inl by blast
  next
    case (Inr h')
    then have "h' = h" using assms(2,3) by (auto simp: decodeHistory_def same Let_def split: option.splits if_splits)
    then show thesis using that(2) f(1) Inr by blast
  qed
qed

lemma restart_agrees:
  assumes "reachable dsid w" "TrimSpace dsid = dsid" "dsid \<noteq> []"
  shows "case LoadUsage zones (live_disk w) (hist_disk w) of
      Inl e \<Rightarrow> content_error e
    | Inr ds \<Rightarrow> DsTimezone ds = timezone (mem w) \<and>
        (\<forall>k d m. horizon w \<le> d \<longrightarrow> \<not> after_mark (DsThrough ds) d \<or> \<not> dirty (mem w) \<longrightarrow>
           keys_bucket (DsKeys ds) k d m = ledger_bucket (mem w) k d m) \<and>
        (\<not> dirty (mem w) \<longrightarrow> (\<forall>k. keys_meta (DsKeys ds) k = ledger_meta (mem w) k))"
proof -
  obtain lf hf where i: "live_is dsid (live_disk w) lf" "hist_is dsid (hist_disk w) hf"
      "agrees (horizon w) (mem w) (flushing w) lf hf"
    using reachable_consistent [OF assms(1)] by (auto simp: consistent_def)
  have m: "mark_le (LfHistoryThrough lf) (file_mark hf)" "mark_le (base_mark (mem w) (flushing w)) (file_mark hf)"
    using i(3) mark_le_trans by (auto simp: agrees_def marks_ok_def)
  have lo: "live_ok lf" and h: "\<And>h. hf = Some h \<Longrightarrow> hist_ok h \<and> HfDatasetID h = LfDatasetID lf"
    using i(1,2) by (auto simp: live_is_def hist_is_def)
  obtain ds where ds: "mergeUsage lf hf = Inr ds" "DsThrough ds = file_mark hf" "DsTimezone ds = LfTimezone lf"
    "\<And>kid d m. keys_bucket (DsKeys ds) kid d m =
       (if after_mark (file_mark hf) d then live_bucket (LfKeys lf) kid d m else file_history hf kid d m)"
    "\<And>kid. keys_meta (DsKeys ds) kid = live_meta (LfKeys lf) kid"
    by (rule merge_usage [OF lo h m(1)]) auto
  have closed: "keys_bucket (DsKeys ds) k d x = ledger_bucket (mem w) k d x"
    if "horizon w \<le> d" "\<not> after_mark (file_mark hf) d" for k d x
    using i(3) that by (simp add: agrees_def history_agrees_def ds(4))
  have clean: "keys_agree (file_mark hf) (mem w) (LfKeys lf)" if "\<not> dirty (mem w)"
    using i(3) that keys_agree_mono [OF _ m(2)] by (simp add: agrees_def)
  have "LoadUsage zones (live_disk w) (hist_disk w) = Inr ds \<or> (\<exists>e. LoadUsage zones (live_disk w) (hist_disk w) = Inl e \<and> content_error e)"
  proof (cases rule: decode_live_is [OF i(1) assms(2,3), of zones])
    case (1 e)
    then show ?thesis by (simp add: LoadUsage_def)
  next
    case 2
    show ?thesis
    proof (cases hf)
      case None
      then have "hist_disk w = Absent" using i(2) by (simp add: hist_is_def)
      moreover have "LfHistoryThrough lf = None" using m(1) None
        by (cases "LfHistoryThrough lf") (auto simp: file_mark_def mark_le_def after_mark_def)
      ultimately show ?thesis using 2 ds(1) None by (simp add: LoadUsage_def)
    next
      case (Some hh)
      with i(2) have "hist_is dsid (hist_disk w) (Some hh)" by simp
      then show ?thesis
        by (rule decode_hist_is [OF _ assms(2,3)]) (use 2 ds(1) Some in \<open>auto simp: LoadUsage_def\<close>)
    qed
  qed
  moreover have "DsTimezone ds = timezone (mem w)" using i(3) ds(3) by (simp add: agrees_def)
  moreover have "keys_bucket (DsKeys ds) k d x = ledger_bucket (mem w) k d x" if "horizon w \<le> d" "\<not> dirty (mem w)" for k d x
    using closed [of d k x] clean that by (cases "after_mark (file_mark hf) d") (auto simp: keys_agree_def ds(4))
  moreover have "keys_meta (DsKeys ds) k = ledger_meta (mem w) k" if "\<not> dirty (mem w)" for k
    using clean [OF that] by (simp add: keys_agree_def ds(5))
  ultimately show ?thesis using closed ds(2) by auto
qed




subsection \<open>A whole flush\<close>

text \<open>The writes of \<open>FlushUsage\<close> on the ledger and its files, with whether the history and the live
  write failed (the history write can only fail when one is planned).\<close>

definition FlushUsage :: "(write_call \<Rightarrow> bool) \<Rightarrow> (write_call \<Rightarrow> bool) \<Rightarrow> instant \<Rightarrow> instant \<Rightarrow> string \<Rightarrow>
    usageLedger \<times> liveFile raw disk_file \<times> historyFile raw disk_file \<Rightarrow>
    (usageLedger \<times> liveFile raw disk_file \<times> historyFile raw disk_file) \<times> bool \<times> bool" where
  "FlushUsage failsH failsL now t dsid = (\<lambda>(l, lf, hf). case planFlush now l of
     (l, None) \<Rightarrow> ((l, lf, hf), False, False)
   | (l, Some plan) \<Rightarrow>
       (let (hf, historyWritten) = (case plan_history plan of None \<Rightarrow> (hf, False)
              | Some days \<Rightarrow> (case plan_historyThrough plan of None \<Rightarrow> (hf, False)
                  | Some T \<Rightarrow> writeHistory failsH dsid T days t hf));
            through = (if historyWritten then plan_historyThrough plan else plan_through plan);
            (lf, liveWritten) = writeLive failsL dsid (timezone l) through (plan_live plan) t lf
        in ((markFlushed plan historyWritten liveWritten l, lf, hf),
            plan_history plan \<noteq> None \<and> \<not> historyWritten, \<not> liveWritten)))"

lemma flush_run:
  assumes "flushing w = None" "FlushUsage failsH failsL now t dsid (mem w, live_disk w, hist_disk w) = ((l, lf, hf), e)"
  shows "(step dsid)\<^sup>*\<^sup>* w (w\<lparr>mem := l, live_disk := lf, hist_disk := hf, horizon := reached_horizon now w\<rparr>)"
proof -
  obtain l1 p where p: "planFlush now (mem w) = (l1, p)" by fastforce
  show ?thesis
  proof (cases p)
    case None
    then have "l = l1" "lf = live_disk w" "hf = hist_disk w" using assms(2) p by (simp_all add: FlushUsage_def)
    then show ?thesis using step.s_clean [OF assms(1), of now l1 dsid] p None by (cases w) auto
  next
    case (Some plan)
    let ?w1 = "w\<lparr>mem := l1, flushing := Some (plan, Planned), horizon := reached_horizon now w\<rparr>"
    have s1: "step dsid w ?w1" using step.s_plan [OF assms(1)] p Some by simp
    obtain hf' h where hw: "(case plan_history plan of None \<Rightarrow> (hist_disk w, False)
        | Some days \<Rightarrow> (case plan_historyThrough plan of None \<Rightarrow> (hist_disk w, False)
            | Some T \<Rightarrow> writeHistory failsH dsid T days t (hist_disk w))) = (hf', h)" by fastforce
    let ?w2 = "?w1\<lparr>hist_disk := hf', flushing := Some (plan, HistoryDone h)\<rparr>"
    have s2: "step dsid ?w1 ?w2"
    proof (cases "plan_history plan")
      case None
      then show ?thesis using hw step.s_no_history [of ?w1 plan dsid] by (cases w) auto
    next
      case (Some days)
      then obtain T where "plan_historyThrough plan = Some T"
        using \<open>p = Some plan\<close> by (cases rule: planFlush_cases [OF p]) auto
      then show ?thesis using Some hw step.s_history [of ?w1 plan days T failsH dsid t hf' h] by simp
    qed
    obtain lf' ok where lw: "writeLive failsL dsid (timezone l1) (live_mark plan h) (plan_live plan) t (live_disk w) = (lf', ok)"
      by fastforce
    let ?w3 = "?w2\<lparr>live_disk := lf', flushing := Some (plan, LiveDone h ok)\<rparr>"
    have s3: "step dsid ?w2 ?w3" using step.s_live [of ?w2 plan h failsL dsid t lf' ok] lw by simp
    let ?w4 = "?w3\<lparr>mem := markFlushed plan h ok l1, flushing := None\<rparr>"
    have s4: "step dsid ?w3 ?w4" using step.s_mark [of ?w3 plan h ok dsid] by simp
    have "FlushUsage failsH failsL now t dsid (mem w, live_disk w, hist_disk w) =
        ((markFlushed plan h ok l1, lf', hf'), plan_history plan \<noteq> None \<and> \<not> h, \<not> ok)"
      by (simp only: FlushUsage_def prod.case p Some option.case hw Let_def lw [unfolded live_mark_def])
    from trans [OF this [symmetric] assms(2)] have "l = markFlushed plan h ok l1" "lf = lf'" "hf = hf'" by (simp_all only: prod.inject)
    then have e: "?w4 = w\<lparr>mem := l, live_disk := lf, hist_disk := hf, horizon := reached_horizon now w\<rparr>"
      using assms(1) by (cases w) simp
    have "(step dsid)\<^sup>*\<^sup>* w ?w4"
      by (rule converse_rtranclp_into_rtranclp [OF s1 converse_rtranclp_into_rtranclp [OF s2
            converse_rtranclp_into_rtranclp [OF s3 r_into_rtranclp [of "step dsid", OF s4]]]])
    then show ?thesis by (simp only: e)
  qed
qed


lemma FlushUsage_no_failure:
  obtains l lf hf where "FlushUsage (\<lambda>_. False) (\<lambda>_. False) now t dsid st = ((l, lf, hf), False, False)"
proof -
  obtain l0 lf0 hf0 where st: "st = (l0, lf0, hf0)" by (cases st)
  obtain l1 p where p: "planFlush now l0 = (l1, p)" by fastforce
  show thesis
  proof (cases p)
    case None
    with that p show thesis by (simp add: FlushUsage_def st)
  next
    case (Some plan)
    then have "plan_history plan \<noteq> None \<Longrightarrow> plan_historyThrough plan \<noteq> None" by (cases rule: planFlush_cases [OF p]) auto
    with that p Some show thesis
      by (cases "plan_history plan"; cases "plan_historyThrough plan")
        (auto simp: FlushUsage_def st writeHistory_def writeLive_def AtomicWrite_unfold)
  qed
qed

lemma sample_world:
  obtains w where "reachable ''d'' w" "flushing w = None" "timezone (mem w) = ''UTC''"
  using reachable.boot [OF sample_ledger_ok(1), of "''d''"] by (force simp: sample_ledger_def newUsageLedger_def)





subsection \<open>A management write whose directory sync fails\<close>

text \<open>C3: When the write of the live file fails after the rename (opening or syncing the directory),
  an adjustment reports an error and restores the memory, but the live file holds the credit: the
  ledger is as clean as before, so no flush is due to write the file again, and a restart before
  one brings the credit the management was told had failed. (A credit is to be answered only once
  it is on disk, and here it is on disk without being answered.)\<close>

theorem adjust_rolled_back_but_stored:
  assumes "ledger_ok l" "aget (entries l) kid = Some u" "Cycles u \<noteq> None" "find_request req (balance_of u) = None"
  shows "\<exists>lf. adjustBalanceAndPersist kid amount req
      (\<lambda>through keys f. writeLive (\<lambda>c. c = SyncDir) dsid (timezone l) through keys t f) (l, f) =
        ((l, Content (Document currentFileVersion dsid (Some lf))), Inl PersistError) \<and>
    live_meta (LfKeys lf) kid = (Cycles u, Some (credit amount req (balance_of u)))"
proof -
  let ?v = "u\<lparr>UsageBalance := Some (credit amount req (balance_of u))\<rparr>"
  let ?l = "markDirtyLocked (l\<lparr>entries := aset kid ?v (entries l)\<rparr>)"
  let ?doc = "live_document dsid (timezone l) (historyThrough l) (liveSnapshotLocked (historyThrough l) ?l) t"
  have uo: "usage_of l kid = u" using assms(2) by (simp add: usage_of_def)
  have "usage_ok ?v" using usage_of_ok [OF assms(1), of kid] uo by (simp add: usage_ok_def)
  then have ok: "ledger_ok ?l" using ledger_ok_aset [OF assms(1)] by simp
  have m: "live_meta (LfKeys ?doc) kid = (Cycles u, Some (credit amount req (balance_of u)))"
    using live_document_meta [OF live_snapshot_keys_ok [OF ok]] live_snapshot_meta [of "historyThrough l" ?l kid]
    by (simp add: ledger_meta_def)
  have w: "writeLive (\<lambda>c. c = SyncDir) dsid (timezone l) (historyThrough l) (liveSnapshotLocked (historyThrough l) ?l) t f =
      (Content (Document currentFileVersion dsid (Some ?doc)), False)"
    by (simp add: writeLive_def AtomicWrite_unfold)
  have "adjustBalanceAndPersist kid amount req
      (\<lambda>through keys f. writeLive (\<lambda>c. c = SyncDir) dsid (timezone l) through keys t f) (l, f) =
        ((?l\<lparr>entries := aset kid (u\<lparr>UsageBalance := UsageBalance u\<rparr>) (entries ?l), dirty := dirty l, revision := revision l\<rparr>,
          Content (Document currentFileVersion dsid (Some ?doc))), Inl PersistError)"
    using assms(2-4) w by (simp add: adjustBalanceAndPersist_def Let_def)
  moreover have "?l\<lparr>entries := aset kid (u\<lparr>UsageBalance := UsageBalance u\<rparr>) (entries ?l), dirty := dirty l, revision := revision l\<rparr> = l"
    using restore_entry [OF assms(2), of ?v] by (simp add: same_balance)
  ultimately show ?thesis using m by auto
qed

lemma adjust_rolled_back_but_stored_witness:
  "\<exists>lf. adjustBalanceAndPersist ''k'' 7 [] (\<lambda>through keys f. writeLive (\<lambda>c. c = SyncDir) ''d'' ''UTC'' through keys 0 f) (sample_ledger, Absent) =
        ((sample_ledger, Content (Document currentFileVersion ''d'' (Some lf))), Inl PersistError) \<and>
    (\<exists>b. live_meta (LfKeys lf) ''k'' = (Some sample_cycles, Some b) \<and> Nano b = 7)"
proof -
  have tz: "timezone sample_ledger = ''UTC''" by (simp add: sample_ledger_def newUsageLedger_def)
  have "Nano (credit 7 [] (balance_of (empty_usage\<lparr>Cycles := Some sample_cycles\<rparr>))) = 7"
    by (simp add: credit_def balance_of_def empty_usage_def zero_balance_def wrap64_id int64_def)
  then show ?thesis
    using adjust_rolled_back_but_stored [OF sample_ledger_ok(1) sample_entry sample_request, of 7 "[]" "''d''" 0 Absent]
    by (auto simp: tz)
qed

end
