(* ===== verification/Limiter.thy ===== *)
theory Limiter
  imports Cycle
begin

text \<open>
  The request rate limiter of internal/policy/limiter.go: one fixed one-minute window per key,
  opened by the first request after the previous window ended. Every operation takes the clock
  reading the method makes. \<open>limiter_run\<close> is a sequence of \<open>Allow\<close> calls for any keys.
\<close>

record rateBucket =
  windowStart :: instant
  count :: int

type_synonym limiter = "(string, rateBucket) amap"

definition NewRateLimiter :: limiter where
  "NewRateLimiter = []"

text \<open>A missing map entry reads as the zero struct.\<close>

definition rate_bucket :: "limiter \<Rightarrow> string \<Rightarrow> rateBucket" where
  "rate_bucket l kid = (case aget l kid of Some b \<Rightarrow> b | None \<Rightarrow> \<lparr>windowStart = zero_time, count = 0\<rparr>)"

definition Allow :: "instant \<Rightarrow> string \<Rightarrow> int \<Rightarrow> limiter \<Rightarrow> limiter \<times> bool \<times> instant" where
  "Allow now kid rpm l =
     (if rpm \<le> 0 then (l, True, zero_time)
      else let b0 = rate_bucket l kid;
               b = (if IsZero (windowStart b0) \<or> minute \<le> time_sub now (windowStart b0) \<or> now < windowStart b0
                    then \<lparr>windowStart = now, count = 0\<rparr> else b0)
           in if rpm \<le> count b then (aset kid b l, False, windowStart b + minute)
              else (aset kid (b\<lparr>count := count b + 1\<rparr>) l, True, zero_time))"

definition limiter_Reset :: "string \<Rightarrow> limiter \<Rightarrow> limiter" where
  "limiter_Reset kid l = adel kid l"

definition limiter_Snapshot :: "instant \<Rightarrow> limiter \<Rightarrow> (string, int) amap" where
  "limiter_Snapshot now l = map (\<lambda>(k, b). (k, count b))
     (filter (\<lambda>(k, b). \<not> (minute \<le> time_sub now (windowStart b) \<or> now < windowStart b)) l)"

text \<open>A sequence of requests (key, rpm, time): the decisions, in order.\<close>

fun limiter_run :: "limiter \<Rightarrow> (string \<times> int \<times> instant) list \<Rightarrow> bool list" where
  "limiter_run l [] = []"
| "limiter_run l ((kid, rpm, now) # reqs) = (let (l', ok, _) = Allow now kid rpm l in ok # limiter_run l' reqs)"

text \<open>The times at which a key's requests were admitted.\<close>

definition admitted :: "string \<Rightarrow> limiter \<Rightarrow> (string \<times> int \<times> instant) list \<Rightarrow> instant list" where
  "admitted kid l reqs = [now. ((i, _, now), ok) \<leftarrow> zip reqs (limiter_run l reqs), i = kid \<and> ok]"


subsection \<open>One key's window\<close>

text \<open>The window a request at now falls in: the stored one, or none when it has ended.\<close>

definition open_window :: "rateBucket \<Rightarrow> instant \<Rightarrow> bool" where
  "open_window b now \<longleftrightarrow> windowStart b \<noteq> zero_time \<and> windowStart b \<le> now \<and> now < windowStart b + minute"

lemma window_expired:
  "(IsZero (windowStart b) \<or> minute \<le> time_sub now (windowStart b) \<or> now < windowStart b) \<longleftrightarrow> \<not> open_window b now"
proof -
  have "minute \<le> time_sub now (windowStart b) \<longleftrightarrow> minute \<le> now - windowStart b"
    by (rule time_sub_ge) (simp_all add: maxInt64_def)
  then show ?thesis by (auto simp: open_window_def IsZero_def)
qed

lemma Allow_other: "i \<noteq> kid \<Longrightarrow> rate_bucket (fst (Allow now i rpm l)) kid = rate_bucket l kid"
  by (simp add: Allow_def rate_bucket_def Let_def)

lemma Allow_bucket:
  fixes l :: limiter and kid :: string and now :: instant
  assumes "0 < rpm"
  defines "b \<equiv> (if open_window (rate_bucket l kid) now then rate_bucket l kid else \<lparr>windowStart = now, count = 0\<rparr>)"
  shows "fst (snd (Allow now kid rpm l)) \<longleftrightarrow> count b < rpm"
    and "rate_bucket (fst (Allow now kid rpm l)) kid = (if count b < rpm then b\<lparr>count := count b + 1\<rparr> else b)"
    and "\<not> count b < rpm \<Longrightarrow> snd (snd (Allow now kid rpm l)) = windowStart b + minute"
proof -
  have "Allow now kid rpm l = (if rpm \<le> count b then (aset kid b l, False, windowStart b + minute)
      else (aset kid (b\<lparr>count := count b + 1\<rparr>) l, True, zero_time))"
    using assms(1) unfolding Allow_def window_expired b_def by (auto simp: Let_def)
  then show "fst (snd (Allow now kid rpm l)) \<longleftrightarrow> count b < rpm"
    "rate_bucket (fst (Allow now kid rpm l)) kid = (if count b < rpm then b\<lparr>count := count b + 1\<rparr> else b)"
    "\<not> count b < rpm \<Longrightarrow> snd (snd (Allow now kid rpm l)) = windowStart b + minute"
    by (auto simp: rate_bucket_def)
qed

text \<open>How many requests can still be admitted in the minute from t on, when the key's window is b
  and the clock does not go back: what is left of the window, and one more window when it ends
  before that minute does.\<close>

definition budget :: "int \<Rightarrow> instant \<Rightarrow> rateBucket \<Rightarrow> int" where
  "budget rpm t b =
     (if windowStart b = zero_time \<or> windowStart b + minute \<le> t then 2 * rpm
      else if t + minute \<le> windowStart b then 0
      else if t \<le> windowStart b then rpm - count b
      else (rpm - count b) + rpm)"

definition in_minute :: "instant \<Rightarrow> instant \<Rightarrow> int" where
  "in_minute t s = (if t \<le> s \<and> s < t + minute then 1 else 0)"

lemma budget_step:
  fixes b :: rateBucket and s t :: instant
  assumes "0 < rpm" "0 \<le> count b" "count b \<le> rpm" "windowStart b = zero_time \<or> windowStart b \<le> s"
    "zero_time < s"
  defines "b' \<equiv> (if open_window b s then b else \<lparr>windowStart = s, count = 0\<rparr>)"
  shows "count b' < rpm \<Longrightarrow> in_minute t s + budget rpm t (b'\<lparr>count := count b' + 1\<rparr>) \<le> budget rpm t b"
    and "\<not> count b' < rpm \<Longrightarrow> budget rpm t b' \<le> budget rpm t b"
    and "0 \<le> count b'" "count b' \<le> rpm" "windowStart b' \<le> s"
  using assms by (auto simp: b'_def open_window_def budget_def in_minute_def)

text \<open>The admitted requests of a key in any minute stay within two windows.\<close>

lemma admitted_Cons:
  "admitted kid l ((i, rpm, now) # reqs) =
     (if i = kid \<and> fst (snd (Allow now i rpm l)) then [now] else []) @ admitted kid (fst (Allow now i rpm l)) reqs"
  by (cases "Allow now i rpm l") (simp add: admitted_def)

lemma admitted_budget:
  assumes "0 < rpm" "\<forall>(i, r, s) \<in> set reqs. i = kid \<longrightarrow> r = rpm"
    "sorted (map (\<lambda>(_, _, s). s) reqs)" "\<forall>(_, _, s) \<in> set reqs. zero_time < s"
    "0 \<le> count (rate_bucket l kid)" "count (rate_bucket l kid) \<le> rpm"
    "\<forall>(_, _, s) \<in> set reqs. windowStart (rate_bucket l kid) = zero_time \<or> windowStart (rate_bucket l kid) \<le> s"
  shows "sum_list (map (in_minute t) (admitted kid l reqs)) \<le> budget rpm t (rate_bucket l kid)"
  using assms(2-)
proof (induction reqs arbitrary: l)
  case Nil
  then show ?case using assms(1) by (simp add: admitted_def budget_def)
next
  case (Cons req reqs)
  obtain i r s where req: "req = (i, r, s)" by (cases req)
  let ?l' = "fst (Allow s i r l)"
  have later: "s \<le> u" if "(x, y, u) \<in> set reqs" for x y u
    using Cons.prems(2) that by (auto simp: req)
  show ?case
  proof (cases "i = kid")
    case False
    then have b: "rate_bucket ?l' kid = rate_bucket l kid" by (rule Allow_other)
    have "sum_list (map (in_minute t) (admitted kid ?l' reqs)) \<le> budget rpm t (rate_bucket ?l' kid)"
      by (rule Cons.IH) (use Cons.prems in \<open>auto simp: req b\<close>)
    with False show ?thesis by (simp add: req admitted_Cons b)
  next
    case True
    have r: "r = rpm" using Cons.prems(1) True by (simp add: req)
    let ?b = "rate_bucket l kid"
    let ?b' = "if open_window ?b s then ?b else \<lparr>windowStart = s, count = 0\<rparr>"
    have "windowStart ?b = zero_time \<or> windowStart ?b \<le> s" "zero_time < s"
      using Cons.prems(6) Cons.prems(3) by (auto simp: req)
    note step = budget_step [OF assms(1) Cons.prems(4,5) this]
    note al = Allow_bucket [OF assms(1), where l = l and kid = kid and now = s]
    have new: "rate_bucket ?l' kid = (if count ?b' < rpm then ?b'\<lparr>count := count ?b' + 1\<rparr> else ?b')"
      using al(2) True r by simp
    have w: "windowStart (rate_bucket ?l' kid) \<le> s" using step(5) new by auto
    have "sum_list (map (in_minute t) (admitted kid ?l' reqs)) \<le> budget rpm t (rate_bucket ?l' kid)"
    proof (rule Cons.IH)
      show "0 \<le> count (rate_bucket ?l' kid)" "count (rate_bucket ?l' kid) \<le> rpm" using step(3,4) new by auto
      show "\<forall>(_, _, u) \<in> set reqs. windowStart (rate_bucket ?l' kid) = zero_time \<or> windowStart (rate_bucket ?l' kid) \<le> u"
        using w later by (fastforce dest: order_trans)
    qed (use Cons.prems in \<open>auto simp: req\<close>)
    moreover have dec: "fst (snd (Allow s i r l)) \<longleftrightarrow> count ?b' < rpm" using al(1) True r by simp
    moreover have "(if count ?b' < rpm then in_minute t s else 0) + budget rpm t (rate_bucket ?l' kid) \<le> budget rpm t ?b"
    proof (cases "count ?b' < rpm")
      case True
      from step(1) [OF this, of t] show ?thesis unfolding new if_P [OF True] .
    next
      case False
      from step(2) [OF this, of t] show ?thesis unfolding new if_not_P [OF False] by (simp only: add_0)
    qed
    ultimately show ?thesis using True by (simp add: req admitted_Cons split: if_splits)
  qed
qed

lemma sum_in_minute: "sum_list (map (in_minute t) xs) = int (length (filter (\<lambda>s. t \<le> s \<and> s < t + minute) xs))"
  by (induction xs) (auto simp: in_minute_def)


subsection \<open>Properties\<close>

text \<open>C13: Whatever other keys do in between, and however the requests fall on the fixed windows, a
  key with limit rpm never gets more than twice rpm requests admitted within any one minute, as
  long as the clock does not go back.\<close>

theorem rpm_two_windows:
  assumes "0 < rpm" "\<forall>(i, r, s) \<in> set reqs. i = kid \<longrightarrow> r = rpm"
    and "sorted (map (\<lambda>(_, _, s). s) reqs)" "\<forall>(_, _, s) \<in> set reqs. zero_time < s"
  shows "int (length (filter (\<lambda>s. t \<le> s \<and> s < t + minute) (admitted kid NewRateLimiter reqs))) \<le> 2 * rpm"
proof -
  have b: "rate_bucket NewRateLimiter kid = \<lparr>windowStart = zero_time, count = 0\<rparr>"
    by (simp add: rate_bucket_def NewRateLimiter_def)
  have "sum_list (map (in_minute t) (admitted kid NewRateLimiter reqs)) \<le> budget rpm t (rate_bucket NewRateLimiter kid)"
    by (rule admitted_budget) (use assms in \<open>auto simp: b\<close>)
  then show ?thesis by (simp add: sum_in_minute b budget_def)
qed

lemma rpm_two_windows_witness:
  "int (length (filter (\<lambda>s. 59 * second \<le> s \<and> s < 59 * second + minute)
     (admitted ''k'' NewRateLimiter [(''k'', 1, 59 * second), (''j'', 5, minute), (''k'', 1, 2 * minute - second)]))) \<le> 2 * 1"
  by (rule rpm_two_windows) (simp_all add: zero_time_def)

text \<open>A denied request reports exactly when it can be admitted: repeated at any time before the
  reported one it is denied again with the same answer, and at that time it is admitted.\<close>

theorem rpm_retry_exact:
  assumes "Allow now kid rpm l = (l', False, retry)"
  shows "now < retry \<and> fst (snd (Allow retry kid rpm l')) \<and>
    (\<forall>t. now \<le> t \<and> t < retry \<longrightarrow> snd (Allow t kid rpm l') = (False, retry))"
proof -
  have r: "0 < rpm" using assms by (auto simp: Allow_def split: if_splits)
  note al = Allow_bucket [OF r, where l = l and kid = kid and now = now]
  let ?b = "rate_bucket l kid"
  from al(1) assms r have op: "open_window ?b now" by (auto split: if_splits)
  with al assms have c: "\<not> count ?b < rpm" and retry: "retry = windowStart ?b + minute"
    and b': "rate_bucket l' kid = ?b" by simp_all
  have "now < retry" using op retry by (simp add: open_window_def)
  moreover have "fst (snd (Allow retry kid rpm l'))"
    using Allow_bucket(1) [OF r, where l = l' and kid = kid and now = retry] r
    by (simp add: b' open_window_def retry)
  moreover have "snd (Allow t kid rpm l') = (False, retry)" if "now \<le> t" "t < retry" for t
  proof -
    have "open_window (rate_bucket l' kid) t" using op that by (simp add: b' open_window_def retry)
    then show ?thesis using Allow_bucket(1,3) [OF r, where l = l' and kid = kid and now = t] c
      by (simp add: b' retry prod_eq_iff)
  qed
  ultimately show ?thesis by blast
qed

lemma rpm_retry_exact_witness:
  "let l' = [(''k'', \<lparr>windowStart = 0, count = 1\<rparr>)]
   in second < minute \<and> fst (snd (Allow minute ''k'' 1 l')) \<and>
     (\<forall>t. second \<le> t \<and> t < minute \<longrightarrow> snd (Allow t ''k'' 1 l') = (False, minute))"
proof -
  have "Allow second ''k'' 1 [(''k'', \<lparr>windowStart = 0, count = 1\<rparr>)] = ([(''k'', \<lparr>windowStart = 0, count = 1\<rparr>)], False, minute)"
    by (simp add: Allow_def rate_bucket_def IsZero_def zero_time_def time_sub_def minInt64_def maxInt64_def)
  from rpm_retry_exact [OF this] show ?thesis unfolding Let_def .
qed

end
