(* ===== verification/Traces.thy ===== *)
theory Traces
  imports Prelude "HOL-Library.Multiset"
begin

text \<open>
  The media trace set of internal/policy/billing.go: the trace ids of admitted media generations
  that still await their usage record. \<open>index\<close> holds the live ids with the time they were
  remembered, \<open>order\<close> every remembered entry oldest first; an id taken early leaves the index at
  once and the order when it is trimmed or evicted. One clock reading stands for the readings an
  operation makes under its lock.
\<close>

definition mediaTraceCapacity :: nat where
  "mediaTraceCapacity = 4096"

definition mediaTraceTTL :: duration where
  "mediaTraceTTL = hour"

type_synonym mediaTrace = "string \<times> instant"

record mediaTraceSet =
  order :: "mediaTrace list"
  index :: "(string, instant) amap"

definition newMediaTraceSet :: mediaTraceSet where
  "newMediaTraceSet = \<lparr>order = [], index = []\<rparr>"

text \<open>\<open>if at, live := m.index[e.id]; live && at.Equal(e.at) { delete(m.index, e.id) }\<close>.\<close>

definition drop_entry :: "mediaTrace \<Rightarrow> (string, instant) amap \<Rightarrow> (string, instant) amap" where
  "drop_entry e idx = (if aget idx (fst e) = Some (snd e) then adel (fst e) idx else idx)"

fun trim_order :: "instant \<Rightarrow> mediaTrace list \<Rightarrow> (string, instant) amap \<Rightarrow> mediaTraceSet" where
  "trim_order cutoff [] idx = \<lparr>order = [], index = idx\<rparr>"
| "trim_order cutoff (e # es) idx = (if snd e < cutoff then trim_order cutoff es (drop_entry e idx)
     else \<lparr>order = e # es, index = idx\<rparr>)"

definition trimLocked :: "instant \<Rightarrow> mediaTraceSet \<Rightarrow> mediaTraceSet" where
  "trimLocked now m = trim_order (now - mediaTraceTTL) (order m) (index m)"

text \<open>\<open>for len(m.index) >= mediaTraceCapacity && len(m.order) > 0\<close>.\<close>

fun evict_order :: "mediaTrace list \<Rightarrow> (string, instant) amap \<Rightarrow> mediaTraceSet" where
  "evict_order [] idx = \<lparr>order = [], index = idx\<rparr>"
| "evict_order (e # es) idx = (if mediaTraceCapacity \<le> length idx then evict_order es (drop_entry e idx)
     else \<lparr>order = e # es, index = idx\<rparr>)"

definition remember :: "instant \<Rightarrow> string \<Rightarrow> mediaTraceSet \<Rightarrow> mediaTraceSet" where
  "remember now tid m =
     (let m = trimLocked now m
      in if aget (index m) tid \<noteq> None then m
         else let m = evict_order (order m) (index m)
              in \<lparr>order = order m @ [(tid, now)], index = aset tid now (index m)\<rparr>)"

definition rememberAt :: "instant \<Rightarrow> string \<Rightarrow> instant \<Rightarrow> mediaTraceSet \<Rightarrow> mediaTraceSet" where
  "rememberAt now tid t m =
     (let m = trimLocked now m
      in if aget (index m) tid \<noteq> None \<or> t < now - mediaTraceTTL then m
         else \<lparr>order = sort_key snd (order m @ [(tid, t)]), index = aset tid t (index m)\<rparr>)"

definition live :: "instant \<Rightarrow> mediaTraceSet \<Rightarrow> mediaTraceSet \<times> mediaTrace list" where
  "live now m = (let m = trimLocked now m in (m, filter (\<lambda>e. aget (index m) (fst e) = Some (snd e)) (order m)))"

definition contains :: "instant \<Rightarrow> string \<Rightarrow> mediaTraceSet \<Rightarrow> mediaTraceSet \<times> bool" where
  "contains now tid m = (let m = trimLocked now m in (m, aget (index m) tid \<noteq> None))"

definition take_trace :: "instant \<Rightarrow> string \<Rightarrow> mediaTraceSet \<Rightarrow> mediaTraceSet \<times> bool" where
  "take_trace now tid m =
     (let m = trimLocked now m
      in if aget (index m) tid = None then (m, False) else (m\<lparr>index := adel tid (index m)\<rparr>, True))"

text \<open>Sequences of operations; the number of times an id was taken is what a per-call price bills.\<close>

datatype trace_op = Remember instant string | RememberAt instant string instant
  | Contains instant string | Take instant string | Live instant

fun trace_step :: "trace_op \<Rightarrow> mediaTraceSet \<Rightarrow> mediaTraceSet" where
  "trace_step (Remember now i) m = remember now i m"
| "trace_step (RememberAt now i t) m = rememberAt now i t m"
| "trace_step (Contains now i) m = fst (contains now i m)"
| "trace_step (Take now i) m = fst (take_trace now i m)"
| "trace_step (Live now) m = fst (live now m)"

definition takes :: "string \<Rightarrow> mediaTraceSet \<Rightarrow> trace_op \<Rightarrow> nat" where
  "takes i m op = (case op of Take now j \<Rightarrow> if j = i \<and> snd (take_trace now j m) then 1 else 0 | _ \<Rightarrow> 0)"

fun taken :: "string \<Rightarrow> mediaTraceSet \<Rightarrow> trace_op list \<Rightarrow> nat" where
  "taken i m [] = 0"
| "taken i m (op # ops) = takes i m op + taken i (trace_step op m) ops"

definition admits :: "string \<Rightarrow> trace_op \<Rightarrow> nat" where
  "admits i op = (case op of Remember _ j \<Rightarrow> if j = i then 1 else 0 | RememberAt _ j _ \<Rightarrow> if j = i then 1 else 0 | _ \<Rightarrow> 0)"


subsection \<open>What trimming and evicting keep\<close>

lemma drop_entry_get: "aget (drop_entry e idx) i = Some t \<Longrightarrow> aget idx i = Some t"
  by (auto simp: drop_entry_def split: if_splits)

lemma drop_entry_other: "aget idx i = Some t \<Longrightarrow> e \<noteq> (i, t) \<Longrightarrow> aget (drop_entry e idx) i = Some t"
  by (cases e) (auto simp: drop_entry_def)

lemma drop_entry_ok [simp]: "amap_ok idx \<Longrightarrow> amap_ok (drop_entry e idx)"
  by (simp add: drop_entry_def)

text \<open>The invariant: distinct ids, and a live id has its entry in the order.\<close>

definition traces_ok :: "mediaTraceSet \<Rightarrow> bool" where
  "traces_ok m \<longleftrightarrow> amap_ok (index m) \<and> (\<forall>i t. aget (index m) i = Some t \<longrightarrow> (i, t) \<in> set (order m))"

lemma drop_entry_covered:
  assumes "\<forall>i t. aget idx i = Some t \<longrightarrow> (i, t) \<in> set (e # es)"
  shows "\<forall>i t. aget (drop_entry e idx) i = Some t \<longrightarrow> (i, t) \<in> set es"
proof (intro allI impI)
  fix i t
  assume a: "aget (drop_entry e idx) i = Some t"
  then have "(i, t) \<in> set (e # es)" using assms drop_entry_get by blast
  moreover have "(i, t) \<noteq> e" using a by (auto simp: drop_entry_def split: if_splits)
  ultimately show "(i, t) \<in> set es" by simp
qed

lemma trim_ok:
  "amap_ok idx \<Longrightarrow> \<forall>i t. aget idx i = Some t \<longrightarrow> (i, t) \<in> set es \<Longrightarrow> traces_ok (trim_order c es idx)"
proof (induction es arbitrary: idx)
  case (Cons e es)
  show ?case
  proof (cases "snd e < c")
    case True
    with Cons.IH [OF drop_entry_ok [OF Cons.prems(1)] drop_entry_covered [OF Cons.prems(2)]] show ?thesis by simp
  qed (use Cons.prems in \<open>simp add: traces_ok_def\<close>)
qed (auto simp: traces_ok_def)

lemma evict_order_ok:
  "amap_ok idx \<Longrightarrow> \<forall>i t. aget idx i = Some t \<longrightarrow> (i, t) \<in> set es \<Longrightarrow> traces_ok (evict_order es idx)"
proof (induction es arbitrary: idx)
  case (Cons e es)
  show ?case
  proof (cases "mediaTraceCapacity \<le> length idx")
    case True
    with Cons.IH [OF drop_entry_ok [OF Cons.prems(1)] drop_entry_covered [OF Cons.prems(2)]] show ?thesis by simp
  qed (use Cons.prems in \<open>simp add: traces_ok_def\<close>)
qed (auto simp: traces_ok_def)

lemma trimLocked_ok [simp]: "traces_ok m \<Longrightarrow> traces_ok (trimLocked now m)"
  unfolding trimLocked_def by (rule trim_ok) (auto simp: traces_ok_def)

lemma evicted_ok: "traces_ok m \<Longrightarrow> traces_ok (evict_order (order m) (index m))"
  by (rule evict_order_ok) (auto simp: traces_ok_def)

lemma traces_ok_add: "traces_ok m \<Longrightarrow> set es = insert (i, t) (set (order m)) \<Longrightarrow>
    traces_ok \<lparr>order = es, index = aset i t (index m)\<rparr>"
  by (simp add: traces_ok_def)

lemma traces_ok_del: "traces_ok m \<Longrightarrow> traces_ok (m\<lparr>index := adel i (index m)\<rparr>)"
  by (simp add: traces_ok_def)

lemma remember_ok: "traces_ok m \<Longrightarrow> traces_ok (remember now i m)"
  by (simp add: remember_def Let_def evicted_ok traces_ok_add)

lemma rememberAt_ok: "traces_ok m \<Longrightarrow> traces_ok (rememberAt now i t m)"
  by (simp add: rememberAt_def Let_def traces_ok_add)

lemma take_ok: "traces_ok m \<Longrightarrow> traces_ok (fst (take_trace now i m))"
  by (simp add: take_trace_def Let_def traces_ok_del)

lemma trace_step_ok: "traces_ok m \<Longrightarrow> traces_ok (trace_step op m)"
  by (cases op) (simp_all add: remember_ok rememberAt_ok take_ok contains_def live_def Let_def)

lemma trim_get: "aget (index (trim_order c es idx)) i = Some t \<Longrightarrow> aget idx i = Some t"
proof (induction es arbitrary: idx)
  case (Cons e es)
  show ?case
  proof (cases "snd e < c")
    case True
    with Cons have "aget (drop_entry e idx) i = Some t" by simp
    then show ?thesis by (rule drop_entry_get)
  qed (use Cons.prems in simp)
qed simp

lemma trimLocked_get: "aget (index (trimLocked now m)) i = Some t \<Longrightarrow> aget (index m) i = Some t"
  by (auto simp: trimLocked_def dest: trim_get)

lemma evict_get: "aget (index (evict_order es idx)) i = Some t \<Longrightarrow> aget idx i = Some t"
proof (induction es arbitrary: idx)
  case (Cons e es)
  show ?case
  proof (cases "mediaTraceCapacity \<le> length idx")
    case True
    with Cons have "aget (drop_entry e idx) i = Some t" by simp
    then show ?thesis by (rule drop_entry_get)
  qed (use Cons.prems in simp)
qed simp

lemma evict_None: "aget idx i = None \<Longrightarrow> aget (index (evict_order es idx)) i = None"
  using evict_get [of es idx i] by (cases "aget (index (evict_order es idx)) i") auto

text \<open>An entry not older than the time to live survives trimming.\<close>

lemma trim_keeps: "aget idx i = Some t \<Longrightarrow> c \<le> t \<Longrightarrow> aget (index (trim_order c es idx)) i = Some t"
proof (induction es arbitrary: idx)
  case (Cons e es)
  then show ?case using drop_entry_other [of idx i t e] by (cases e) auto
qed simp

lemma trim_expired:
  assumes "traces_ok m" "sorted (map snd (order m))" "aget (index (trimLocked now m)) i = Some t"
  shows "now - mediaTraceTTL \<le> t"
proof -
  have "sorted (map snd es) \<Longrightarrow> (i, t) \<in> set (order (trim_order c es idx)) \<Longrightarrow> c \<le> t" for c es idx
    by (induction c es idx rule: trim_order.induct) (auto split: if_splits)
  moreover have "(i, t) \<in> set (order (trimLocked now m))"
    using trimLocked_ok [OF assms(1), of now] assms(3) by (simp add: traces_ok_def)
  ultimately show ?thesis using assms(2) by (simp add: trimLocked_def)
qed


subsection \<open>Properties\<close>

definition is_live :: "string \<Rightarrow> mediaTraceSet \<Rightarrow> nat" where
  "is_live i m = (if aget (index m) i = None then 0 else 1)"

lemma trimLocked_live: "is_live i (trimLocked now m) \<le> is_live i m"
  using trimLocked_get [of now m i] by (auto simp: is_live_def)

lemma take_live: "(if snd (take_trace now i m) then 1 else 0) + is_live i (fst (take_trace now i m)) \<le> is_live i m"
  using trimLocked_live [of i now m] by (auto simp: take_trace_def Let_def is_live_def split: if_splits)

lemma step_live: "takes i m op + is_live i (trace_step op m) \<le> is_live i m + admits i op"
proof (cases op)
  case (Remember now j)
  have "is_live i (remember now j m) \<le> is_live i m + (if j = i then 1 else 0)"
    using trimLocked_live [of i now m] evict_None [of "index (trimLocked now m)" i]
    by (auto simp: remember_def Let_def is_live_def split: if_splits)
  then show ?thesis by (simp add: Remember takes_def admits_def)
next
  case (RememberAt now j t)
  have "is_live i (rememberAt now j t m) \<le> is_live i m + (if j = i then 1 else 0)"
    using trimLocked_live [of i now m] by (auto simp: rememberAt_def Let_def is_live_def split: if_splits)
  then show ?thesis by (simp add: RememberAt takes_def admits_def)
next
  case (Contains now j)
  then show ?thesis using trimLocked_live [of i now m] by (simp add: contains_def Let_def takes_def admits_def)
next
  case (Take now j)
  have "j \<noteq> i \<Longrightarrow> is_live i (fst (take_trace now j m)) \<le> is_live i m"
    using trimLocked_live [of i now m] by (auto simp: take_trace_def Let_def is_live_def split: if_splits)
  then show ?thesis using take_live [of now i m] by (cases "j = i") (simp_all add: Take takes_def admits_def)
next
  case (Live now)
  then show ?thesis using trimLocked_live [of i now m] by (simp add: live_def Let_def takes_def admits_def)
qed

text \<open>C12: An admitted media generation is billed at most once: over any sequence of operations,
  starting from the empty set, an id is taken successfully at most as often as it was
  remembered.\<close>

theorem trace_taken_once: "taken i newMediaTraceSet ops \<le> sum_list (map (admits i) ops)"
proof -
  have "taken i m ops \<le> is_live i m + sum_list (map (admits i) ops)" for m
  proof (induction ops arbitrary: m)
    case (Cons op ops)
    from Cons.IH [of "trace_step op m"] step_live [of i m op] show ?case by simp
  qed simp
  from this [of newMediaTraceSet] show ?thesis by (simp add: is_live_def newMediaTraceSet_def)
qed

lemma evict_bound:
  assumes "\<forall>i t. aget idx i = Some t \<longrightarrow> (i, t) \<in> set es"
  shows "length (index (evict_order es idx)) < mediaTraceCapacity"
  using assms
proof (induction es arbitrary: idx)
  case Nil
  then have none: "aget idx i = None" for i by (cases "aget idx i") auto
  have "idx = []"
  proof (cases idx)
    case (Cons a l)
    then show ?thesis using none [of "fst a"] by (cases a) simp
  qed
  then show ?case by (simp add: mediaTraceCapacity_def)
next
  case (Cons e es)
  from Cons.IH [OF drop_entry_covered [OF Cons.prems]] show ?case by simp
qed

lemma length_aset: "aget idx i = None \<Longrightarrow> length (aset i t idx) = length idx + 1"
  by (induction idx) (auto split: if_splits)

lemma length_adel: "length (adel i idx) \<le> length idx"
  by (rule length_delete_le)

lemma length_trim: "length (index (trim_order c es idx)) \<le> length idx"
proof (induction es arbitrary: idx)
  case (Cons e es)
  have "length (drop_entry e idx) \<le> length idx" by (simp add: drop_entry_def length_adel)
  with Cons.IH [of "drop_entry e idx"] show ?case by simp
qed simp

text \<open>Memory stays bounded: remembering a generation leaves at most 4096 live ids, or no more
  than there were when the handover added more.\<close>

theorem remember_bounded:
  assumes "traces_ok m"
  shows "length (index (remember now i m)) \<le> max mediaTraceCapacity (length (index m))"
proof -
  let ?m = "trimLocked now m"
  let ?e = "evict_order (order ?m) (index ?m)"
  have "length (index ?m) \<le> length (index m)" by (simp add: trimLocked_def length_trim)
  moreover have "length (index ?e) < mediaTraceCapacity"
    by (rule evict_bound) (use trimLocked_ok [OF assms, of now] in \<open>simp add: traces_ok_def\<close>)
  moreover have "aget (index ?m) i = None \<Longrightarrow> aget (index ?e) i = None" by (rule evict_None)
  ultimately show ?thesis by (auto simp: remember_def Let_def length_aset split: if_splits)
qed

text \<open>A live generation that was remembered once keeps its place in the order: k counts the
  entries after it.\<close>

definition kept :: "string \<Rightarrow> instant \<Rightarrow> nat \<Rightarrow> mediaTraceSet \<Rightarrow> bool" where
  "kept i t k m \<longleftrightarrow> traces_ok m \<and> aget (index m) i = Some t \<and>
     (\<exists>pre post. order m = pre @ (i, t) # post \<and> (i, t) \<notin> set pre \<and> length post \<le> k)"

lemma trim_kept:
  assumes "aget idx i = Some t" "c \<le> t" "(i, t) \<notin> set pre"
  shows "\<exists>pre'. order (trim_order c (pre @ (i, t) # post) idx) = pre' @ (i, t) # post \<and> (i, t) \<notin> set pre'"
  using assms
proof (induction pre arbitrary: idx)
  case Nil
  have "order (trim_order c ([] @ (i, t) # post) idx) = [] @ (i, t) # post" using Nil by simp
  then show ?case by fastforce
next
  case (Cons e pre)
  show ?case
  proof (cases "snd e < c")
    case True
    have "aget (drop_entry e idx) i = Some t" using Cons.prems by (intro drop_entry_other) auto
    with Cons.IH [OF this] Cons.prems True show ?thesis by simp
  next
    case False
    then have "order (trim_order c ((e # pre) @ (i, t) # post) idx) = (e # pre) @ (i, t) # post" by simp
    with Cons.prems(3) show ?thesis by blast
  qed
qed

lemma trimLocked_kept: "kept i t k m \<Longrightarrow> now - mediaTraceTTL \<le> t \<Longrightarrow> kept i t k (trimLocked now m)"
proof -
  assume k: "kept i t k m" and c: "now - mediaTraceTTL \<le> t"
  then obtain pre post where m: "traces_ok m" "aget (index m) i = Some t" "order m = pre @ (i, t) # post"
    "(i, t) \<notin> set pre" "length post \<le> k" by (auto simp: kept_def)
  from trim_kept [OF m(2) c m(4)] obtain pre' where
    "order (trimLocked now m) = pre' @ (i, t) # post" "(i, t) \<notin> set pre'"
    unfolding trimLocked_def m(3) by blast
  moreover have "aget (index (trimLocked now m)) i = Some t"
    using trim_keeps [OF m(2) c] by (simp add: trimLocked_def)
  ultimately show ?thesis using m(1,5) by (auto simp: kept_def)
qed

lemma covered_length:
  assumes "amap_ok idx" "\<forall>i t. aget idx i = Some t \<longrightarrow> (i, t) \<in> set es"
  shows "length idx \<le> length es"
proof -
  have "fst ` set idx \<subseteq> fst ` set es"
  proof
    fix i assume "i \<in> fst ` set idx"
    then obtain t where "aget idx i = Some t" by (metis not_None_eq map_of_eq_None_iff)
    with assms(2) show "i \<in> fst ` set es" by force
  qed
  then have "card (fst ` set idx) \<le> card (fst ` set es)" by (simp add: card_mono)
  moreover have "card (fst ` set idx) = length idx"
    using distinct_card [of "map fst idx"] assms(1) by (simp add: amap_ok_def)
  moreover have "card (fst ` set es) \<le> length es" using card_length [of "map fst es"] by simp
  ultimately show ?thesis by linarith
qed

lemma evict_order_kept:
  assumes "amap_ok idx" "aget idx i = Some t" "(i, t) \<notin> set pre" "length post + 1 < mediaTraceCapacity"
    "\<forall>j u. aget idx j = Some u \<longrightarrow> (j, u) \<in> set (pre @ (i, t) # post)"
  shows "aget (index (evict_order (pre @ (i, t) # post) idx)) i = Some t \<and>
    (\<exists>pre'. order (evict_order (pre @ (i, t) # post) idx) = pre' @ (i, t) # post \<and> (i, t) \<notin> set pre')"
  using assms
proof (induction pre arbitrary: idx)
  case Nil
  have "length idx \<le> length ((i, t) # post)"
    by (rule covered_length) (use Nil.prems in auto)
  with Nil.prems(4) have "order (evict_order ([] @ (i, t) # post) idx) = [] @ (i, t) # post"
    "index (evict_order ([] @ (i, t) # post) idx) = idx" by simp_all
  with Nil.prems(2) show ?case by fastforce
next
  case (Cons e pre)
  show ?case
  proof (cases "mediaTraceCapacity \<le> length idx")
    case True
    have "aget (drop_entry e idx) i = Some t" using Cons.prems(2,3) by (intro drop_entry_other) auto
    moreover have "\<forall>j u. aget (drop_entry e idx) j = Some u \<longrightarrow> (j, u) \<in> set (pre @ (i, t) # post)"
      using drop_entry_covered [of idx e "pre @ (i, t) # post"] Cons.prems(5) by simp
    ultimately show ?thesis
      using Cons.IH [OF drop_entry_ok [OF Cons.prems(1)]] Cons.prems(3,4) True by simp
  next
    case False
    then have "order (evict_order ((e # pre) @ (i, t) # post) idx) = (e # pre) @ (i, t) # post"
      "index (evict_order ((e # pre) @ (i, t) # post) idx) = idx" by simp_all
    with Cons.prems(2,3) show ?thesis by metis
  qed
qed

text \<open>Operations on other ids within the time to live.\<close>

fun others_in_time :: "string \<Rightarrow> instant \<Rightarrow> trace_op \<Rightarrow> bool" where
  "others_in_time i t (Remember now j) \<longleftrightarrow> j \<noteq> i \<and> now \<le> t + mediaTraceTTL"
| "others_in_time i t (RememberAt now j u) \<longleftrightarrow> False"
| "others_in_time i t (Contains now j) \<longleftrightarrow> now \<le> t + mediaTraceTTL"
| "others_in_time i t (Take now j) \<longleftrightarrow> j \<noteq> i \<and> now \<le> t + mediaTraceTTL"
| "others_in_time i t (Live now) \<longleftrightarrow> now \<le> t + mediaTraceTTL"

definition remembers :: "trace_op \<Rightarrow> nat" where
  "remembers op = (case op of Remember _ _ \<Rightarrow> 1 | _ \<Rightarrow> 0)"

lemma remember_kept:
  assumes "kept i t k m" "now \<le> t + mediaTraceTTL" "j \<noteq> i" "k + 1 < mediaTraceCapacity"
  shows "kept i t (k + 1) (remember now j m)"
proof -
  let ?m = "trimLocked now m"
  have tk: "kept i t k ?m" using trimLocked_kept [OF assms(1)] assms(2) by simp
  show ?thesis
  proof (cases "aget (index ?m) j")
    case None
    from tk obtain pre post where m: "traces_ok ?m" "aget (index ?m) i = Some t" "order ?m = pre @ (i, t) # post"
      "(i, t) \<notin> set pre" "length post \<le> k" by (auto simp: kept_def)
    have "length post + 1 < mediaTraceCapacity" using m(5) assms(4) by simp
    from evict_order_kept [OF _ m(2,4) this] m(1,3) obtain pre' where
      e: "aget (index (evict_order (order ?m) (index ?m))) i = Some t"
      "order (evict_order (order ?m) (index ?m)) = pre' @ (i, t) # post" "(i, t) \<notin> set pre'"
      by (auto simp: traces_ok_def)
    have "traces_ok (remember now j m)" by (rule remember_ok) (use assms(1) in \<open>simp add: kept_def\<close>)
    moreover have "order (remember now j m) = pre' @ (i, t) # (post @ [(j, now)])"
      using None e(2) by (simp add: remember_def Let_def)
    moreover have "aget (index (remember now j m)) i = Some t"
      using None e(1) assms(3) by (simp add: remember_def Let_def)
    moreover have "length (post @ [(j, now)]) \<le> k + 1" using m(5) by simp
    ultimately show ?thesis using e(3) unfolding kept_def by blast
  next
    case (Some u)
    then have "remember now j m = ?m" by (simp add: remember_def Let_def)
    with tk show ?thesis by (auto simp: kept_def intro: le_SucI)
  qed
qed

lemma step_kept:
  assumes "kept i t k m" "others_in_time i t op" "k + remembers op < mediaTraceCapacity"
  shows "kept i t (k + remembers op) (trace_step op m)"
proof -
  have tk: "now \<le> t + mediaTraceTTL \<Longrightarrow> kept i t k (trimLocked now m)" for now
    using trimLocked_kept [OF assms(1), of now] by simp
  show ?thesis
  proof (cases op)
    case (Remember now j)
    with assms show ?thesis using remember_kept [of i t k m now j] by (simp add: remembers_def)
  next
    case (Take now j)
    with assms(2) tk [of now] show ?thesis
      by (auto simp: remembers_def take_trace_def Let_def kept_def traces_ok_del)
  qed (use assms(2) tk in \<open>auto simp: remembers_def contains_def live_def Let_def\<close>)
qed

lemma steps_kept:
  "kept i t k m \<Longrightarrow> \<forall>op \<in> set ops. others_in_time i t op \<Longrightarrow>
     k + sum_list (map remembers ops) < mediaTraceCapacity \<Longrightarrow>
     kept i t (k + sum_list (map remembers ops)) (fold trace_step ops m)"
proof (induction ops arbitrary: k m)
  case (Cons op ops)
  have "kept i t (k + remembers op) (trace_step op m)"
    using step_kept Cons.prems by simp
  from Cons.IH [OF this] Cons.prems show ?case by (simp add: add.assoc)
qed simp

text \<open>An admitted generation is not lost within the hour: after it is remembered, and as long
  as at most 4095 other generations are remembered meanwhile, its usage record is recognised
  up to an hour later, whatever operations on other ids came in between.\<close>

theorem trace_recognised:
  assumes "traces_ok m" "i \<notin> fst ` set (order m)" "\<forall>op \<in> set ops. others_in_time i t op"
    and "sum_list (map remembers ops) \<le> 4095" "now \<le> t + hour"
  shows "snd (take_trace now i (fold trace_step ops (remember t i m)))"
proof -
  let ?m = "trimLocked t m"
  let ?e = "evict_order (order ?m) (index ?m)"
  have "aget (index m) i = None" using assms(1,2) by (cases "aget (index m) i") (force simp: traces_ok_def)+
  then have none: "aget (index ?m) i = None" using trimLocked_get [of t m i] by (cases "aget (index ?m) i") auto
  have sub: "set (order (trim_order c es idx)) \<subseteq> set es" for c es idx
    by (induction c es idx rule: trim_order.induct) auto
  have sub': "set (order (evict_order es idx)) \<subseteq> set es" for es idx
    by (induction es idx rule: evict_order.induct) auto
  have "(i, t) \<notin> set (order ?e)"
    using sub [of "t - mediaTraceTTL" "order m" "index m"] sub' [of "order ?m" "index ?m"] assms(2)
    by (force simp: trimLocked_def)
  then have "kept i t 0 (remember t i m)"
    using none remember_ok [OF assms(1), of t i] by (auto simp: kept_def remember_def Let_def)
  then have "kept i t (0 + sum_list (map remembers ops)) (fold trace_step ops (remember t i m))"
    by (rule steps_kept) (use assms(3,4) in \<open>simp_all add: mediaTraceCapacity_def\<close>)
  then have "kept i t (0 + sum_list (map remembers ops)) (trimLocked now (fold trace_step ops (remember t i m)))"
    by (rule trimLocked_kept) (use assms(5) in \<open>simp add: mediaTraceTTL_def\<close>)
  then show ?thesis by (simp add: take_trace_def Let_def kept_def)
qed

lemma trace_recognised_witness:
  "snd (take_trace (60 * minute) ''a''
     (fold trace_step [Remember minute ''b'', Take (2 * minute) ''b''] (remember 0 ''a'' newMediaTraceSet)))"
  by (rule trace_recognised)
    (simp_all add: newMediaTraceSet_def traces_ok_def remembers_def mediaTraceTTL_def)

lemma remember_bounded_witness:
  "length (index (remember 5 ''a'' newMediaTraceSet)) \<le> max mediaTraceCapacity (length (index newMediaTraceSet))"
  by (rule remember_bounded) (simp add: newMediaTraceSet_def traces_ok_def)

end
