(* ===== verification/Billing.thy ===== *)
theory Billing
  imports Prices Bucket
begin

text \<open>
  The pure part of internal/policy/billing.go: the boundary for upstream token counts
  (\<open>sanitizeDetail\<close>), how a provider reports cache and reasoning tokens, the split of a record
  into disjoint token classes, and the bucket a token-priced call is billed with.

  The lemmas show that after sanitizing no sum of token counts wraps, that the split neither
  loses nor invents tokens, that the charges of the four classes stay in int64 together, and that
  every billed bucket passes the validation of the ledger files.
\<close>

record UsageDetail =
  dInputTokens :: int
  dOutputTokens :: int
  ReasoningTokens :: int
  CachedTokens :: int
  dCacheReadTokens :: int
  CacheCreationTokens :: int
  TotalTokens :: int

text \<open>One turn of each loop of \<open>sanitizeDetail\<close>: the new count, and the flags it sets.\<close>

definition sanitize_billed :: "int \<Rightarrow> int \<times> bool \<times> bool" where
  "sanitize_billed n = (if n < 0 then (0, True, False)
     else if maxTokensPerRecord < n then (n, False, True) else (n, False, False))"

definition sanitize_unbilled :: "int \<Rightarrow> int \<times> bool" where
  "sanitize_unbilled n = (if n < 0 \<or> maxTokensPerRecord < n then (0, True) else (n, False))"

definition sanitizeDetail :: "UsageDetail \<Rightarrow> UsageDetail \<times> bool \<times> bool" where
  "sanitizeDetail d =
     (let (i, c1, v1) = sanitize_billed (dInputTokens d);
          (out, c2, v2) = sanitize_billed (dOutputTokens d);
          (r, c3, v3) = sanitize_billed (ReasoningTokens d);
          (cr, c4, v4) = sanitize_billed (dCacheReadTokens d);
          (cc, c5, v5) = sanitize_billed (CacheCreationTokens d);
          (t, c6) = sanitize_unbilled (TotalTokens d);
          (ca, c7) = sanitize_unbilled (CachedTokens d)
      in (\<lparr>dInputTokens = i, dOutputTokens = out, ReasoningTokens = r, CachedTokens = ca,
            dCacheReadTokens = cr, CacheCreationTokens = cc, TotalTokens = t\<rparr>,
          c1 \<or> c2 \<or> c3 \<or> c4 \<or> c5 \<or> c6 \<or> c7, v1 \<or> v2 \<or> v3 \<or> v4 \<or> v5))"

datatype tokenSemantics = semanticsSubset | semanticsIndependent | semanticsSeparateReasoning

definition tokenSemanticsFor :: "string \<Rightarrow> string \<Rightarrow> tokenSemantics" where
  "tokenSemanticsFor provider0 executorType0 =
     (let provider = ToLower (TrimSpace provider0);
          executorType = ToLower (TrimSpace executorType0);
          val = TrimSpace (provider @ '' '' @ executorType)
      in if executorType = ''openaicompatexecutor'' \<or> provider = ''openai-compatibility'' \<or>
            HasPrefix provider ''openai-compatible-'' then semanticsSubset
         else if str_contains val ''claude'' \<or> str_contains val ''anthropic'' then semanticsIndependent
         else if list_ex (str_contains val) [''gemini'', ''aistudio'', ''antigravity'', ''vertex'', ''interaction'']
         then semanticsSeparateReasoning
         else semanticsSubset)"

record tokenSplit =
  split_input :: int
  split_cacheRead :: int
  split_cacheWrite :: int
  split_output :: int

definition splitTokens :: "tokenSemantics \<Rightarrow> UsageDetail \<Rightarrow> bool \<Rightarrow> tokenSplit" where
  "splitTokens sem d writesApart =
     (let cacheRead = dCacheReadTokens d; out = dOutputTokens d
      in if sem = semanticsIndependent then
           (let input = dInputTokens d
            in if writesApart
               then \<lparr>split_input = input, split_cacheRead = cacheRead, split_cacheWrite = CacheCreationTokens d, split_output = out\<rparr>
               else \<lparr>split_input = wrap64 (input + CacheCreationTokens d), split_cacheRead = cacheRead, split_cacheWrite = 0, split_output = out\<rparr>)
         else
           (let cacheRead = min cacheRead (dInputTokens d);
                input = wrap64 (dInputTokens d - cacheRead);
                cacheWrite = (if writesApart then min (CacheCreationTokens d) input else 0);
                input = (if writesApart then wrap64 (input - cacheWrite) else input);
                out = (if sem = semanticsSeparateReasoning then wrap64 (out + ReasoningTokens d)
                  else if 0 < ReasoningTokens d \<and>
                    wrap64 (wrap64 (TotalTokens d - dInputTokens d) - dOutputTokens d) = ReasoningTokens d
                  then wrap64 (out + ReasoningTokens d) else out)
            in \<lparr>split_input = input, split_cacheRead = cacheRead, split_cacheWrite = cacheWrite, split_output = out\<rparr>))"

text \<open>prompt, cached, generated, reasoning.\<close>

definition ShapeTokens :: "string \<Rightarrow> string \<Rightarrow> UsageDetail \<Rightarrow> int \<times> int \<times> int \<times> int" where
  "ShapeTokens provider executorType d0 =
     (let (d, _, invalid) = sanitizeDetail d0
      in if invalid then (0, 0, 0, 0)
         else let s = splitTokens (tokenSemanticsFor provider executorType) d True
              in (wrap64 (wrap64 (split_input s + split_cacheRead s) + split_cacheWrite s),
                  split_cacheRead s, split_output s, ReasoningTokens d))"

definition billTokens :: "ModelPrice \<Rightarrow> tokenSemantics \<Rightarrow> UsageDetail \<Rightarrow> bucket" where
  "billTokens price sem d =
     (let s = splitTokens sem d (CacheWritePricePerMillion price \<noteq> None);
          inputPrice = InputPricePerMillion price;
          readPrice = (if f64_eq (CacheReadPricePerMillion price) (Fin 0) then inputPrice else CacheReadPricePerMillion price);
          writePrice = (case CacheWritePricePerMillion price of None \<Rightarrow> inputPrice | Some w \<Rightarrow> w);
          mul = BillingMultiplier price;
          inputCost = tokenCharge (f64_mul (f64_of_int (split_input s)) inputPrice) mul;
          outputCost = tokenCharge (f64_mul (f64_of_int (split_output s)) (OutputPricePerMillion price)) mul;
          readCost = tokenCharge (f64_mul (f64_of_int (split_cacheRead s)) readPrice) mul;
          writeCost = tokenCharge (f64_mul (f64_of_int (split_cacheWrite s)) writePrice) mul
      in \<lparr>Calls = 1, UnpricedCalls = 0, InputTokens = split_input s, CacheReadTokens = split_cacheRead s,
          CacheWriteTokens = split_cacheWrite s, OutputTokens = split_output s,
          ChargedNano = wrap64 (wrap64 (wrap64 (inputCost + readCost) + writeCost) + outputCost),
          CacheReadCostNano = readCost, CacheWriteCostNano = writeCost\<rparr>)"


subsection \<open>The boundary\<close>

definition detail_sane :: "UsageDetail \<Rightarrow> bool" where
  "detail_sane d \<longleftrightarrow> (\<forall>n \<in> {dInputTokens d, dOutputTokens d, ReasoningTokens d, CachedTokens d,
     dCacheReadTokens d, CacheCreationTokens d, TotalTokens d}. 0 \<le> n \<and> n \<le> maxTokensPerRecord)"

lemma sanitize_billed_sane: "sanitize_billed n = (m, c, v) \<Longrightarrow> \<not> v \<Longrightarrow> 0 \<le> m \<and> m \<le> maxTokensPerRecord"
  by (auto simp: sanitize_billed_def maxTokensPerRecord_def split: if_splits)

lemma sanitize_unbilled_sane: "sanitize_unbilled n = (m, c) \<Longrightarrow> 0 \<le> m \<and> m \<le> maxTokensPerRecord"
  by (auto simp: sanitize_unbilled_def maxTokensPerRecord_def split: if_splits)

lemma sanitizeDetail_sane:
  assumes "sanitizeDetail d = (d', c, v)" "\<not> v"
  shows "detail_sane d'"
proof -
  obtain i c1 v1 where 1: "sanitize_billed (dInputTokens d) = (i, c1, v1)" by (cases "sanitize_billed (dInputTokens d)")
  obtain out c2 v2 where 2: "sanitize_billed (dOutputTokens d) = (out, c2, v2)" by (cases "sanitize_billed (dOutputTokens d)")
  obtain r c3 v3 where 3: "sanitize_billed (ReasoningTokens d) = (r, c3, v3)" by (cases "sanitize_billed (ReasoningTokens d)")
  obtain cr c4 v4 where 4: "sanitize_billed (dCacheReadTokens d) = (cr, c4, v4)" by (cases "sanitize_billed (dCacheReadTokens d)")
  obtain cc c5 v5 where 5: "sanitize_billed (CacheCreationTokens d) = (cc, c5, v5)" by (cases "sanitize_billed (CacheCreationTokens d)")
  obtain t c6 where 6: "sanitize_unbilled (TotalTokens d) = (t, c6)" by (cases "sanitize_unbilled (TotalTokens d)")
  obtain ca c7 where 7: "sanitize_unbilled (CachedTokens d) = (ca, c7)" by (cases "sanitize_unbilled (CachedTokens d)")
  show ?thesis
    using assms sanitize_billed_sane [OF 1] sanitize_billed_sane [OF 2] sanitize_billed_sane [OF 3]
      sanitize_billed_sane [OF 4] sanitize_billed_sane [OF 5] sanitize_unbilled_sane [OF 6] sanitize_unbilled_sane [OF 7]
    unfolding sanitizeDetail_def 1 2 3 4 5 6 7 Let_def prod.case
    by (auto simp: detail_sane_def)
qed

text \<open>What the boundary lets through is what the upstream reported, negative counts as zero.\<close>

lemma sanitizeDetail_id: "detail_sane d \<Longrightarrow> sanitizeDetail d = (d, False, False)"
  by (cases d) (simp add: detail_sane_def sanitizeDetail_def sanitize_billed_def sanitize_unbilled_def)


subsection \<open>The split\<close>

lemma int64_tokens: "- (4 * maxTokensPerRecord) \<le> n \<Longrightarrow> n \<le> 4 * maxTokensPerRecord \<Longrightarrow> int64 n"
  by (simp add: int64_def maxTokensPerRecord_def)

text \<open>The split of a sane record without the wrap-around: no sum leaves the range.\<close>

lemma splitTokens_sane:
  assumes "detail_sane d"
  shows "splitTokens sem d apart =
    (if sem = semanticsIndependent then
       \<lparr>split_input = dInputTokens d + (if apart then 0 else CacheCreationTokens d),
        split_cacheRead = dCacheReadTokens d,
        split_cacheWrite = (if apart then CacheCreationTokens d else 0), split_output = dOutputTokens d\<rparr>
     else let rd = min (dCacheReadTokens d) (dInputTokens d);
              wr = (if apart then min (CacheCreationTokens d) (dInputTokens d - rd) else 0)
          in \<lparr>split_input = dInputTokens d - rd - wr, split_cacheRead = rd, split_cacheWrite = wr,
              split_output = dOutputTokens d + (if sem = semanticsSeparateReasoning \<or>
                0 < ReasoningTokens d \<and> TotalTokens d - dInputTokens d - dOutputTokens d = ReasoningTokens d
                then ReasoningTokens d else 0)\<rparr>)"
proof -
  have b: "0 \<le> dInputTokens d" "dInputTokens d \<le> maxTokensPerRecord" "0 \<le> dOutputTokens d" "dOutputTokens d \<le> maxTokensPerRecord"
    "0 \<le> ReasoningTokens d" "ReasoningTokens d \<le> maxTokensPerRecord" "0 \<le> dCacheReadTokens d" "dCacheReadTokens d \<le> maxTokensPerRecord"
    "0 \<le> CacheCreationTokens d" "CacheCreationTokens d \<le> maxTokensPerRecord" "0 \<le> TotalTokens d" "TotalTokens d \<le> maxTokensPerRecord"
    using assms by (simp_all add: detail_sane_def)
  let ?rd = "min (dCacheReadTokens d) (dInputTokens d)"
  let ?wr = "min (CacheCreationTokens d) (dInputTokens d - ?rd)"
  have rd: "0 \<le> ?rd" "?rd \<le> dInputTokens d" using b by auto
  have wr: "0 \<le> ?wr" "?wr \<le> dInputTokens d - ?rd" using b rd by auto
  have w: "int64 (dInputTokens d + CacheCreationTokens d)" "int64 (dInputTokens d - ?rd)"
    "int64 (dInputTokens d - ?rd - ?wr)" "int64 (dOutputTokens d + ReasoningTokens d)"
    "int64 (TotalTokens d - dInputTokens d)" "int64 (TotalTokens d - dInputTokens d - dOutputTokens d)"
    by (rule int64_tokens; use b rd wr in linarith)+
  show ?thesis by (simp add: splitTokens_def Let_def w del: min_less_iff_conj min_less_iff_disj)
qed

lemma splitTokens_bounds:
  fixes sem :: tokenSemantics and apart :: bool
  assumes "detail_sane d"
  defines "s \<equiv> splitTokens sem d apart"
  shows "0 \<le> split_input s" "split_input s \<le> 2 * maxTokensPerRecord"
    "0 \<le> split_cacheRead s" "split_cacheRead s \<le> maxTokensPerRecord"
    "0 \<le> split_cacheWrite s" "split_cacheWrite s \<le> maxTokensPerRecord"
    "0 \<le> split_output s" "split_output s \<le> 2 * maxTokensPerRecord"
    "split_input s \<le> maxTokensPerRecord \<or> split_output s \<le> maxTokensPerRecord"
  using assms(1) unfolding s_def splitTokens_sane [OF assms(1)]
  by (auto simp: detail_sane_def Let_def maxTokensPerRecord_def)


subsection \<open>Properties\<close>

text \<open>C11: No token is lost or billed twice: a record's input-side classes add up to the input
  tokens the provider reported (with its cache reads and writes, for a provider that reports them
  outside), cache reads and writes are never more than reported, and the output class is the
  reported output, with the reasoning added only where it was reported outside output.\<close>

theorem split_conserves:
  assumes "sanitizeDetail d0 = (d, clamped, False)" "s = splitTokens sem d apart"
  shows "split_input s + split_cacheRead s + split_cacheWrite s =
      dInputTokens d + (if sem = semanticsIndependent then dCacheReadTokens d + CacheCreationTokens d else 0) \<and>
    0 \<le> split_input s \<and> split_cacheRead s \<in> {0..dCacheReadTokens d} \<and>
    split_cacheWrite s \<in> {0..CacheCreationTokens d} \<and>
    split_output s = dOutputTokens d +
      (if sem = semanticsSeparateReasoning \<or>
          sem = semanticsSubset \<and> TotalTokens d = dInputTokens d + dOutputTokens d + ReasoningTokens d
       then ReasoningTokens d else 0)"
proof -
  have sane: "detail_sane d" by (rule sanitizeDetail_sane [OF assms(1)]) simp
  then show ?thesis
    unfolding assms(2) splitTokens_sane [OF sane] by (cases sem) (auto simp: detail_sane_def Let_def)
qed

lemma split_conserves_witness:
  "let d = \<lparr>dInputTokens = 100, dOutputTokens = 20, ReasoningTokens = 5, CachedTokens = 0, dCacheReadTokens = 30,
       CacheCreationTokens = 10, TotalTokens = 125\<rparr>; s = splitTokens semanticsSubset d True
   in split_input s + split_cacheRead s + split_cacheWrite s = 100 \<and> split_output s = 25"
proof -
  let ?d = "\<lparr>dInputTokens = 100, dOutputTokens = 20, ReasoningTokens = 5, CachedTokens = 0, dCacheReadTokens = 30,
       CacheCreationTokens = 10, TotalTokens = 125\<rparr>"
  have "sanitizeDetail ?d = (?d, False, False)" by (rule sanitizeDetail_id) (simp add: detail_sane_def maxTokensPerRecord_def)
  from split_conserves [OF this refl, of semanticsSubset True] show ?thesis by (simp add: Let_def)
qed

lemma charge_class:
  assumes "0 \<le> n" "n \<le> 2 ^ k" "k \<le> 32" "validPrice p maxPricePerMillion"
    "mul = Fin m" "1 \<le> m" "m \<le> maxBillingMultiplier"
  shows "0 \<le> tokenCharge (f64_mul (f64_of_int n) p) mul \<and>
    tokenCharge (f64_mul (f64_of_int n) p) mul \<le> 500000000 * 2 ^ k"
proof -
  from assms(4) obtain x where "p = Fin x" "0 \<le> x" "x \<le> 10000"
    by (auto simp: validPrice_Fin maxPricePerMillion_def)
  with assms show ?thesis
    using tokenCharge_bound [of n k x m] by (simp add: maxBillingMultiplier_def)
qed

text \<open>The four charges of a bill, and their bounds: of the input and the output class only one can
  hold more than the per-record ceiling.\<close>

lemma billTokens_charges:
  assumes "row_ok price" "detail_sane d"
  obtains i r w out where
    "ChargedNano (billTokens price sem d) = i + r + w + out"
    "CacheReadCostNano (billTokens price sem d) = r" "CacheWriteCostNano (billTokens price sem d) = w"
    "0 \<le> i" "0 \<le> r" "0 \<le> w" "0 \<le> out" "i + r + w + out \<le> 5 * (500000000 * 2 ^ 31)"
proof -
  let ?s = "splitTokens sem d (CacheWritePricePerMillion price \<noteq> None)"
  let ?rp = "if f64_eq (CacheReadPricePerMillion price) (Fin 0) then InputPricePerMillion price else CacheReadPricePerMillion price"
  let ?wp = "case CacheWritePricePerMillion price of None \<Rightarrow> InputPricePerMillion price | Some w \<Rightarrow> w"
  define c where "c = (\<lambda>n p. tokenCharge (f64_mul (f64_of_int n) p) (BillingMultiplier price))"
  note b = splitTokens_bounds [OF assms(2), of sem "CacheWritePricePerMillion price \<noteq> None"]
  obtain m where m: "BillingMultiplier price = Fin m" "1 \<le> m" "m \<le> maxBillingMultiplier"
    and vp: "validPrice (InputPricePerMillion price) maxPricePerMillion"
      "validPrice (OutputPricePerMillion price) maxPricePerMillion"
      "validPrice ?rp maxPricePerMillion" "validPrice ?wp maxPricePerMillion"
    using assms(1) by (auto simp: row_ok_def split: option.splits)
  have cb: "0 \<le> c n p \<and> c n p \<le> 500000000 * 2 ^ k" if "0 \<le> n" "n \<le> 2 ^ k" "k \<le> 32" "validPrice p maxPricePerMillion" for n p k
    unfolding c_def by (rule charge_class [OF that m])
  have c31: "0 \<le> c n p \<and> c n p \<le> 500000000 * 2 ^ 31" if "0 \<le> n" "n \<le> maxTokensPerRecord" "validPrice p maxPricePerMillion" for n p
    using cb [of n 31 p] that by (simp add: maxTokensPerRecord_def)
  have c32: "0 \<le> c n p \<and> c n p \<le> 2 * (500000000 * 2 ^ 31)" if "0 \<le> n" "n \<le> 2 * maxTokensPerRecord" "validPrice p maxPricePerMillion" for n p
    using cb [of n 32 p] that by (simp add: maxTokensPerRecord_def)
  let ?i = "c (split_input ?s) (InputPricePerMillion price)"
  let ?r = "c (split_cacheRead ?s) ?rp"
  let ?w = "c (split_cacheWrite ?s) ?wp"
  let ?o = "c (split_output ?s) (OutputPricePerMillion price)"
  have i: "0 \<le> ?i" "?i \<le> 2 * (500000000 * 2 ^ 31)" and o: "0 \<le> ?o" "?o \<le> 2 * (500000000 * 2 ^ 31)"
    and r: "0 \<le> ?r" "?r \<le> 500000000 * 2 ^ 31" and w: "0 \<le> ?w" "?w \<le> 500000000 * 2 ^ 31"
    and io: "?i \<le> 500000000 * 2 ^ 31 \<or> ?o \<le> 500000000 * 2 ^ 31"
    using c32 [OF b(1,2) vp(1)] c32 [OF b(7,8) vp(2)] c31 [OF b(3,4) vp(3)] c31 [OF b(5,6) vp(4)]
      c31 [OF b(1) _ vp(1)] c31 [OF b(7) _ vp(2)] b(9) by blast+
  have sum: "?i + ?r + ?w + ?o \<le> 5 * (500000000 * 2 ^ 31)" using i o r w io by linarith
  have "int64 (?i + ?r)" "int64 (?i + ?r + ?w)" "int64 (?i + ?r + ?w + ?o)"
    unfolding int64_def using i o r w sum by simp_all
  then have "ChargedNano (billTokens price sem d) = ?i + ?r + ?w + ?o"
    by (simp add: billTokens_def Let_def c_def)
  moreover have "CacheReadCostNano (billTokens price sem d) = ?r" "CacheWriteCostNano (billTokens price sem d) = ?w"
    by (simp_all add: billTokens_def Let_def c_def)
  ultimately show thesis using that i o r w sum by blast
qed

text \<open>C10: Every bill of a validated price row is a valid ledger bucket of one call: no counter is
  negative or wraps, the shown cache amounts are parts of the charge, and the charge stays within
  5.4e18 nanodollars, below the largest int64.\<close>

theorem bill_within_int64:
  assumes "row_ok price" "sanitizeDetail d0 = (d, clamped, False)" "b = billTokens price sem d"
  shows "bucket_validate b \<and> bucket_ok b \<and> Calls b = 1 \<and> UnpricedCalls b = 0 \<and>
    CacheReadCostNano b + CacheWriteCostNano b \<le> ChargedNano b \<and> ChargedNano b \<le> 5368709120000000000"
proof -
  have sane: "detail_sane d" by (rule sanitizeDetail_sane [OF assms(2)]) simp
  from billTokens_charges [OF assms(1) sane, of sem] obtain i r w out where
    c: "ChargedNano b = i + r + w + out" "CacheReadCostNano b = r" "CacheWriteCostNano b = w"
      "0 \<le> i" "0 \<le> r" "0 \<le> w" "0 \<le> out" "i + r + w + out \<le> 5 * (500000000 * 2 ^ 31)"
    unfolding assms(3) by blast
  let ?s = "splitTokens sem d (CacheWritePricePerMillion price \<noteq> None)"
  have t: "Calls b = 1" "UnpricedCalls b = 0" "InputTokens b = split_input ?s" "CacheReadTokens b = split_cacheRead ?s"
    "CacheWriteTokens b = split_cacheWrite ?s" "OutputTokens b = split_output ?s"
    by (simp_all add: assms(3) billTokens_def Let_def)
  note sb = splitTokens_bounds [OF sane, of sem "CacheWritePricePerMillion price \<noteq> None"]
  have "int64 (ChargedNano b)" "int64 r" "int64 w" unfolding c int64_def using c(4-8) by simp_all
  moreover have "int64 (split_input ?s)" "int64 (split_cacheRead ?s)" "int64 (split_cacheWrite ?s)" "int64 (split_output ?s)"
    by (rule int64_tokens; use sb in \<open>simp add: maxTokensPerRecord_def\<close>)+
  moreover have "int64 (1 :: int)" by (simp add: int64_def)
  ultimately have "bucket_ok b" by (simp add: bucket_ok_def t c(2,3))
  moreover have "bucket_validate b" using c sb by (simp add: bucket_validate_def t)
  moreover have "r + w \<le> i + r + w + out" using c by linarith
  ultimately show ?thesis using c t by simp
qed

definition sample_price :: ModelPrice where
  "sample_price = zero_price\<lparr>ModelName := ''m'', BillingMode := ''tokens'', BillingMultiplier := Fin 50,
     InputPricePerMillion := Fin 10000, OutputPricePerMillion := Fin 10000\<rparr>"

definition sample_detail :: UsageDetail where
  "sample_detail = \<lparr>dInputTokens = 0, dOutputTokens = 2147483648, ReasoningTokens = 2147483648, CachedTokens = 0,
     dCacheReadTokens = 0, CacheCreationTokens = 0, TotalTokens = 0\<rparr>"

lemma sample_price_ok: "row_ok sample_price"
  by (simp add: sample_price_def zero_price_def row_ok_def validPrice_Fin maxPricePerMillion_def
      maxPerCallUSD_def maxBillingMultiplier_def TrimSpace_def strip_spaces.simps ascii_space_def)

lemma sample_detail_sane: "sanitizeDetail sample_detail = (sample_detail, False, False)"
  by (rule sanitizeDetail_id) (simp add: sample_detail_def detail_sane_def maxTokensPerRecord_def)

lemma bill_within_int64_witness:
  "bucket_validate (billTokens sample_price semanticsSeparateReasoning sample_detail)"
  using bill_within_int64 [OF sample_price_ok sample_detail_sane refl] by blast

text \<open>A single class can charge more than the 1.1e18 nanodollars the comment on \<open>tokenCharge\<close>
  gives as its ceiling: a provider that reports reasoning outside output, with both at the
  per-record ceiling, puts twice the ceiling into the output class.\<close>

theorem class_charge_above_comment:
  "ChargedNano (billTokens sample_price semanticsSeparateReasoning sample_detail) = 2147483648000000000"
proof -
  have p1: "f64_mul (Fin 4294967296) (Fin 10000) = Fin 42949672960000"
    using f64_mul_exact [of 4294967296 10000 10000 32] by simp
  have p2: "f64_mul (Fin 42949672960000) (Fin 1000) = Fin 42949672960000000"
    using f64_mul_exact [of 42949672960000 1000 10000000 32] by simp
  have p3: "f64_mul (Fin 42949672960000000) (Fin 50) = Fin 2147483648000000000"
    using f64_mul_exact [of 42949672960000000 50 500000000 32] by simp
  have r: "f64_round_to_int64 (Fin 2147483648000000000) = 2147483648000000000"
    using round_away_of_int [of 2147483648000000000] int64_of_rat_of_int [of 2147483648000000000]
    by (simp add: int64_def)
  have n: "f64_of_int 4294967296 = Fin 4294967296" by simp
  have c: "tokenCharge (f64_mul (f64_of_int 4294967296) (Fin 10000)) (Fin 50) = 2147483648000000000"
    unfolding tokenCharge_def n p1 p2 p3 r ..
  have z: "tokenCharge (f64_mul (f64_of_int 0) (Fin 10000)) (Fin 50) = 0"
    using tokenCharge_bound [of 0 0 10000 50] round_away_of_int [of 0] int64_of_rat_of_int [of 0]
    by (simp add: tokenCharge_def f64_of_rat_def)
  have sane: "detail_sane sample_detail" by (rule sanitizeDetail_sane [OF sample_detail_sane]) simp
  have s: "splitTokens semanticsSeparateReasoning sample_detail False =
      \<lparr>split_input = 0, split_cacheRead = 0, split_cacheWrite = 0, split_output = 4294967296\<rparr>"
    unfolding splitTokens_sane [OF sane] by (simp add: sample_detail_def Let_def)
  have f: "CacheWritePricePerMillion sample_price = None" "InputPricePerMillion sample_price = Fin 10000"
    "OutputPricePerMillion sample_price = Fin 10000" "CacheReadPricePerMillion sample_price = Fin 0"
    "BillingMultiplier sample_price = Fin 50"
    by (simp_all add: sample_price_def zero_price_def)
  show ?thesis unfolding billTokens_def Let_def f
    by (simp add: s c z int64_def del: f64_mul.simps f64_of_int_small)
qed

end
