(* ===== verification/Routes.thy ===== *)
theory Routes
  imports Config
begin

text \<open>
  What admission decides from a request alone: the routes of internal/policy/routes.go, and the
  client key and its hash of internal/policy/keys.go. SHA-256 is the parameter \<open>sha\<close>.

  A request's headers are a Go map from names to value lists (a nil map is the empty one); a nil
  query is \<open>None\<close>.
\<close>

type_synonym header = "(string, string list) amap"
type_synonym query = "(string, string list) amap option"


subsection \<open>Routes\<close>

definition clean_path :: "string \<Rightarrow> string" where
  "clean_path path = TrimRight (TrimSpace path) (CHR ''/'')"

definition IsModelsEndpoint :: "string \<Rightarrow> bool" where
  "IsModelsEndpoint path0 = (let path = clean_path path0
     in path = ''/v1/models'' \<or> path = ''/openai/v1/models'' \<or> path = ''/v1beta/models'' \<or> HasSuffix path ''/v1/models'')"

definition mediaGenerationSuffixes :: "string list" where
  "mediaGenerationSuffixes = [''/v1/images/generations'', ''/v1/images/edits'', ''/v1/videos'', ''/v1/videos/generations'',
     ''/v1/videos/edits'', ''/v1/videos/extensions'']"

definition isMediaGenerationPath :: "string \<Rightarrow> bool" where
  "isMediaGenerationPath path = list_ex (HasSuffix (clean_path path)) mediaGenerationSuffixes"

definition isMediaResultPath :: "string \<Rightarrow> bool" where
  "isMediaResultPath path0 = (let path = clean_path path0
     in if isMediaGenerationPath path then False else str_contains path ''/v1/videos/'')"

datatype admissionStage = admitAtAuth | admitQuotaAtAuth | admitAtInterceptor

definition interceptedPOSTPaths :: "string list" where
  "interceptedPOSTPaths = [''/v1/chat/completions'', ''/v1/completions'', ''/v1/images/generations'', ''/v1/images/edits'',
     ''/v1/videos'', ''/v1/videos/generations'', ''/v1/videos/edits'', ''/v1/videos/extensions'', ''/openai/v1/videos'',
     ''/v1/audio/speech'', ''/v1/tts'', ''/v1/messages'', ''/v1/messages/count_tokens'', ''/v1/responses'',
     ''/v1/responses/compact'', ''/backend-api/codex/responses'', ''/backend-api/codex/responses/compact'',
     ''/v1beta/interactions'']"

definition websocketResponsePaths :: "string list" where
  "websocketResponsePaths = [''/v1/responses'', ''/backend-api/codex/responses'']"


subsection \<open>The client key of a request\<close>

text \<open>\<open>strings.Fields\<close>: the runs of bytes between space runes.\<close>

function go_fields :: "string \<Rightarrow> string \<Rightarrow> string list" where
  "go_fields cur s = (if s = [] then (if cur = [] then [] else [rev cur])
     else if 0 < space_len s then (if cur = [] then [] else [rev cur]) @ go_fields [] (drop (space_len s) s)
     else go_fields (hd s # cur) (tl s))"
  by pat_completeness auto
termination
  by (relation "measure (\<lambda>(cur, s). length s)") (auto simp: neq_Nil_conv)

declare go_fields.simps [simp del]

definition Fields :: "string \<Rightarrow> string list" where
  "Fields s = go_fields [] s"

text \<open>\<open>textproto.CanonicalMIMEHeaderKey\<close> on a name of letters, digits and hyphens.\<close>

fun canonical_from :: "bool \<Rightarrow> string \<Rightarrow> string" where
  "canonical_from upper [] = []"
| "canonical_from upper (c # s) = (if upper then char_upper c else char_lower c) # canonical_from (c = CHR ''-'') s"

definition CanonicalHeaderKey :: "string \<Rightarrow> string" where
  "CanonicalHeaderKey name = canonical_from True name"

definition header_Get :: "header \<Rightarrow> string \<Rightarrow> string" where
  "header_Get h name = (case aget h (CanonicalHeaderKey name) of Some (v # _) \<Rightarrow> v | _ \<Rightarrow> [])"

definition headerValue :: "header \<Rightarrow> string \<Rightarrow> string" where
  "headerValue h name = (let value = header_Get h name
     in if value \<noteq> [] then value
        else case find (\<lambda>(k, vs). EqualFold k name \<and> vs \<noteq> []) h of Some (_, vs) \<Rightarrow> hd vs | None \<Rightarrow> [])"

definition bearerToken :: "string \<Rightarrow> string" where
  "bearerToken value = (case Fields value of [scheme, token] \<Rightarrow> if EqualFold scheme ''Bearer'' then TrimSpace token else []
     | _ \<Rightarrow> [])"

definition keyHeaders :: "string list" where
  "keyHeaders = [''Authorization'', ''X-API-Key'', ''api-key'', ''x-api-key'', ''x-goog-api-key'']"

fun header_key :: "header \<Rightarrow> string list \<Rightarrow> string" where
  "header_key h [] = []"
| "header_key h (name # names) =
     (let value = TrimSpace (headerValue h name)
      in if value = [] then header_key h names
         else if EqualFold name ''Authorization'' then
           (let token = bearerToken value in if token \<noteq> [] then token else header_key h names)
         else value)"

fun query_key :: "(string, string list) amap \<Rightarrow> string list \<Rightarrow> string" where
  "query_key q [] = []"
| "query_key q (name # names) = (case aget q name of
     Some (v # _) \<Rightarrow> if TrimSpace v \<noteq> [] then TrimSpace v else query_key q names
   | _ \<Rightarrow> query_key q names)"

definition ExtractAPIKey :: "header \<Rightarrow> query \<Rightarrow> string" where
  "ExtractAPIKey h q = (let k = header_key h keyHeaders
     in if k \<noteq> [] then k else case q of None \<Rightarrow> [] | Some q \<Rightarrow> query_key q [''api_key'', ''key''])"

definition admissionStageFor :: "string \<Rightarrow> string \<Rightarrow> header \<Rightarrow> admissionStage" where
  "admissionStageFor verb path0 h =
     (let path = clean_path path0; verb = ToUpper (TrimSpace verb)
      in if ExtractAPIKey h None = [] then admitAtAuth
         else if verb = ''POST'' then
           (if path \<in> set interceptedPOSTPaths \<or> HasPrefix path ''/v1beta/models/'' then admitAtInterceptor else admitAtAuth)
         else if verb = ''GET'' then
           (if path \<in> set websocketResponsePaths then admitQuotaAtAuth
            else if isMediaResultPath path then admitAtInterceptor else admitAtAuth)
         else admitAtAuth)"


subsection \<open>Hashes and previews\<close>

definition HashPrefix :: string where
  "HashPrefix = ''sha256:''"

definition hex_digit :: "nat \<Rightarrow> char" where
  "hex_digit n = (if n < 10 then char_of (48 + n) else char_of (87 + n))"

definition hex_encode :: "string \<Rightarrow> string" where
  "hex_encode s = concat (map (\<lambda>c. [hex_digit (of_char c div 16), hex_digit (of_char c mod 16)]) s)"

text \<open>\<open>None\<close> is the error of an empty key.\<close>

definition HashKey :: "(string \<Rightarrow> string) \<Rightarrow> string \<Rightarrow> string option" where
  "HashKey sha key0 = (let key = TrimSpace key0 in if key = [] then None else Some (HashPrefix @ hex_encode (sha key)))"

definition MatchHash :: "(string \<Rightarrow> string) \<Rightarrow> string \<Rightarrow> string \<Rightarrow> bool" where
  "MatchHash sha key0 hash0 = (let key = TrimSpace key0; hash = TrimSpace hash0
     in if key = [] \<or> hash = [] \<or> \<not> HasPrefix hash HashPrefix then False
        else case HashKey sha key of None \<Rightarrow> False | Some got \<Rightarrow> got = hash)"

definition PreviewKey :: "string \<Rightarrow> string" where
  "PreviewKey key0 = (let key = TrimSpace key0; n = length key
     in if n \<le> 8 then ''...''
        else if n < 24 then take 3 key @ ''...'' @ drop (n - 2) key
        else take 7 key @ ''...'' @ drop (n - 5) key)"


subsection \<open>Lemmas\<close>

text \<open>A key in a header wins over the query, so where the interceptor can see a key it sees the one
  authentication identified.\<close>

lemma ExtractAPIKey_header: "ExtractAPIKey h None \<noteq> [] \<Longrightarrow> ExtractAPIKey h q = ExtractAPIKey h None"
  by (auto simp: ExtractAPIKey_def Let_def split: if_splits)

lemma admission_deferred: "admissionStageFor verb path h \<noteq> admitAtAuth \<Longrightarrow> ExtractAPIKey h None \<noteq> []"
  by (auto simp: admissionStageFor_def Let_def split: if_splits)

lemma TrimRight_idem [simp]: "TrimRight (TrimRight s c) c = TrimRight s c"
  by (simp add: TrimRight_def dropWhile_idem)

text \<open>The prefix check of \<open>MatchHash\<close> rejects nothing a hash of a key could match.\<close>

lemma MatchHash_iff: "MatchHash sha key hash \<longleftrightarrow> HashKey sha key = Some (TrimSpace hash)"
proof -
  have "HasPrefix (HashPrefix @ s) HashPrefix" "HashPrefix \<noteq> []" for s by (auto simp: HasPrefix_iff HashPrefix_def)
  then show ?thesis by (auto simp: MatchHash_def HashKey_def Let_def) metis
qed

text \<open>A preview shows at most half of a key, and 5 bytes of one shorter than 24.\<close>

lemma PreviewKey_hides:
  "\<exists>p s. PreviewKey key = p @ ''...'' @ s \<and> HasPrefix (TrimSpace key) p \<and> HasSuffix (TrimSpace key) s \<and>
     2 * (length p + length s) \<le> max (length (TrimSpace key)) 10 \<and>
     (length (TrimSpace key) < 24 \<longrightarrow> length p + length s \<le> 5)"
proof -
  let ?k = "TrimSpace key"
  have pre: "HasPrefix ?k (take n ?k)" for n unfolding HasPrefix_iff by (metis append_take_drop_id)
  have suf: "HasSuffix ?k (drop n ?k)" for n unfolding HasSuffix_iff by (metis append_take_drop_id)
  consider "length ?k \<le> 8" | "8 < length ?k" "length ?k < 24" | "24 \<le> length ?k" by linarith
  then show ?thesis
  proof cases
    case 1
    then show ?thesis by (intro exI [of _ "[]"]) (simp add: PreviewKey_def Let_def HasSuffix_def)
  next
    case 2
    then show ?thesis using pre suf
      by (intro exI [of _ "take 3 ?k"] exI [of _ "drop (length ?k - 2) ?k"]) (simp add: PreviewKey_def Let_def)
  next
    case 3
    then show ?thesis using pre suf
      by (intro exI [of _ "take 7 ?k"] exI [of _ "drop (length ?k - 5) ?k"]) (simp add: PreviewKey_def Let_def)
  qed
qed

end
