(* ===== verification/Store.thy ===== *)
theory Store
  imports Durability Limiter Traces Billing Routes
begin

text \<open>
  The request path of the policy store (internal/policy/store.go, auth.go, billing.go and the
  journal hooks of handoff.go): the store's state, the key lookups, authentication and admission,
  billing of a finished call, and the periodic flush with its health counters.

  The store is one record; a method takes it and returns it updated, as every method runs under
  the store's locks. \<open>now\<close> is the clock of the ledger, the limiter and the traces (SetClock gives
  them one source), \<open>wall\<close> is time.Now(). The files are part of the record; the failures of their
  system calls are arguments. The log of the host is the list of lines sent to it, the audit log
  the list of events handed to it.
\<close>

subsection \<open>Health\<close>

datatype flush_error = HistoryWriteError | LiveWriteError | BothWriteErrors

record Health =
  lastFlushAt :: instant
  lastFlushError :: "flush_error option"
  flushFailures :: int
  skippedFailed :: int
  ignoredUnknownKey :: int
  ignoredNoModel :: int
  ignoredEmptyUsage :: int
  clampedTokens :: int
  invalidUsage :: int
  unmeteredPerCall :: int
  unpricedCalls :: int

definition flushSucceeded :: "instant \<Rightarrow> Health \<Rightarrow> Health" where
  "flushSucceeded t h = h\<lparr>lastFlushAt := t, lastFlushError := None\<rparr>"

definition flushFailed :: "flush_error \<Rightarrow> Health \<Rightarrow> Health" where
  "flushFailed e h = h\<lparr>flushFailures := flushFailures h + 1, lastFlushError := Some e\<rparr>"


subsection \<open>The store\<close>

datatype audit_value = ANil | AText string | ABool bool | ANumber f64 | AInt int | AOptional "f64 option" | ATime instant

type_synonym Change = "audit_value \<times> audit_value"

record Event =
  Actor :: string
  Action :: string
  EventKeyID :: string
  Target :: string
  Changes :: "(string, Change) amap"

definition event :: "string \<Rightarrow> string \<Rightarrow> (string, Change) amap \<Rightarrow> Event" where
  "event action kid changes = \<lparr>Actor = [], Action = action, EventKeyID = kid, Target = [], Changes = changes\<rparr>"

datatype handoffEntry =
    UsageEntry string string bucket bool instant
  | TraceEntry string instant
  | ModuleEntry string string instant

text \<open>The journal writer of a handoff: the lines appended, and whether the file is still open.\<close>

record handoffWriter =
  journal_lines :: "handoffEntry list"
  journal_open :: bool

record store =
  st_enabled :: bool
  statePath :: string
  datasetID :: string
  st_keys :: "(string, KeyConfig) amap"
  keysByHash :: "(string, KeyConfig) amap"
  st_prices :: priceTable
  st_limiter :: limiter
  usage :: usageLedger
  mediaTraces :: mediaTraceSet
  st_health :: Health
  handoff :: "handoffWriter option"
  unsaved :: bool
  st_files :: files
  audit :: "Event list"
  log_lines :: "string list"

definition recordAudit :: "Event \<Rightarrow> store \<Rightarrow> store" where
  "recordAudit e s = s\<lparr>audit := audit s @ [e]\<rparr>"


subsection \<open>Finding keys\<close>

definition findBySecret :: "(string \<Rightarrow> string) \<Rightarrow> string \<Rightarrow> store \<Rightarrow> KeyConfig option" where
  "findBySecret sha raw0 s = (let raw = TrimSpace raw0
     in if raw = [] then None
        else case HashKey sha raw of None \<Rightarrow> None | Some hash \<Rightarrow> aget (keysByHash s) (ToLower hash))"

text \<open>The key and whether the plugin is enabled.\<close>

definition findBySecretWhenEnabled :: "(string \<Rightarrow> string) \<Rightarrow> string \<Rightarrow> store \<Rightarrow> KeyConfig option \<times> bool" where
  "findBySecretWhenEnabled sha raw0 s = (let raw = TrimSpace raw0
     in if raw = [] then (None, st_enabled s)
        else case HashKey sha raw of None \<Rightarrow> (None, True)
        | Some hash \<Rightarrow> if \<not> st_enabled s then (None, False) else (aget (keysByHash s) (ToLower hash), True))"

definition findByID :: "string \<Rightarrow> store \<Rightarrow> KeyConfig option" where
  "findByID kid0 s = (let kid = TrimSpace kid0 in if kid = [] then None else aget (st_keys s) kid)"

definition add_hash :: "KeyConfig \<Rightarrow> (string, KeyConfig) amap \<Rightarrow> (string, KeyConfig) amap" where
  "add_hash key byHash = (let hash = ToLower (KeyHash key)
     in if hash \<noteq> [] \<and> aget byHash hash = None then aset hash key byHash else byHash)"

definition rebuildKeysByHash :: "(string, KeyConfig) amap \<Rightarrow> (string, KeyConfig) amap" where
  "rebuildKeysByHash keys = fold (\<lambda>kid byHash. case aget keys kid of Some key \<Rightarrow> add_hash key byHash | None \<Rightarrow> byHash)
     (sort (akeys keys)) []"

definition keysSnapshot :: "store \<Rightarrow> KeyConfig list" where
  "keysSnapshot s = sort_key ID (map snd (st_keys s))"


subsection \<open>The handoff journal\<close>

definition append_journal :: "handoffEntry list \<Rightarrow> handoffWriter \<Rightarrow> handoffWriter" where
  "append_journal es w = (if journal_open w then w\<lparr>journal_lines := journal_lines w @ es\<rparr> else w)"

definition journal :: "handoffEntry \<Rightarrow> store \<Rightarrow> store" where
  "journal e s = s\<lparr>handoff := map_option (append_journal [e]) (handoff s)\<rparr>"

definition journalUsage :: "instant \<Rightarrow> string \<Rightarrow> string \<Rightarrow> bucket \<Rightarrow> bool \<Rightarrow> store \<Rightarrow> store" where
  "journalUsage now kid model b deduct s = journal (UsageEntry kid model b deduct now) s"

definition journalTrace :: "string \<Rightarrow> instant \<Rightarrow> store \<Rightarrow> store" where
  "journalTrace tid t s = journal (TraceEntry tid t) s"

definition JournalModule :: "instant \<Rightarrow> string \<Rightarrow> string \<Rightarrow> store \<Rightarrow> store" where
  "JournalModule wall modl payload s = journal (ModuleEntry modl payload wall) s"


subsection \<open>Admission\<close>

definition admit :: "instant \<Rightarrow> KeyConfig \<Rightarrow> string \<Rightarrow> bool \<Rightarrow> store \<Rightarrow> store \<times> Denial option" where
  "admit now key path countRPM s =
     (let (lim, allowed, retryAt) = (if countRPM then Allow now (ID key) (RPM key) (st_limiter s) else (st_limiter s, True, zero_time));
          s = s\<lparr>st_limiter := lim\<rparr>
      in if \<not> allowed then (s, Some \<lparr>Reason = ''rpm_exceeded'', DenialLimit = f64_of_int (RPM key), DenialRetryAt = retryAt, DenialTimezone = []\<rparr>)
         else if isMediaResultPath path then (s, None)
         else let (l, denial) = quotaDenial now (ID key) (quotaLimitsForKey key) (usage s)
              in (s\<lparr>usage := l\<rparr>, denial))"

record AuthDecision =
  Known :: bool
  Allowed :: bool
  AuthKeyID :: string
  Principal :: string
  AuthReason :: string
  ModelList :: bool
  AuthDenial :: "Denial option"
  Deferred :: bool

definition refused :: "string \<Rightarrow> AuthDecision" where
  "refused reason = \<lparr>Known = False, Allowed = False, AuthKeyID = [], Principal = [], AuthReason = reason, ModelList = False,
     AuthDenial = None, Deferred = False\<rparr>"

definition decide_admit :: "instant \<Rightarrow> KeyConfig \<Rightarrow> string \<Rightarrow> bool \<Rightarrow> AuthDecision \<Rightarrow> store \<Rightarrow> store \<times> AuthDecision" where
  "decide_admit now key path countRPM decision s = (case admit now key path countRPM s of
     (s, Some denial) \<Rightarrow> (s, decision\<lparr>AuthDenial := Some denial, AuthReason := Reason denial\<rparr>)
   | (s, None) \<Rightarrow> (s, decision\<lparr>Allowed := True, AuthReason := ''allowed''\<rparr>))"

definition Authenticate :: "(string \<Rightarrow> string) \<Rightarrow> instant \<Rightarrow> string \<Rightarrow> string \<Rightarrow> header \<Rightarrow> query \<Rightarrow> store \<Rightarrow> store \<times> AuthDecision" where
  "Authenticate sha now verb path h q s =
     (case findBySecretWhenEnabled sha (ExtractAPIKey h q) s of
        (_, False) \<Rightarrow> (s, refused ''plugin_disabled'')
      | (None, True) \<Rightarrow> (s, refused ''unknown_key'')
      | (Some key, True) \<Rightarrow>
          (let decision = \<lparr>Known = True, Allowed = False, AuthKeyID = ID key, Principal = ID key, AuthReason = [],
                 ModelList = IsModelsEndpoint path, AuthDenial = None, Deferred = False\<rparr>
           in if \<not> Enabled key then (s, decision\<lparr>AuthReason := ''key_disabled''\<rparr>)
              else if ModelList decision then (s, decision\<lparr>Allowed := True, AuthReason := ''models_endpoint''\<rparr>)
              else case admissionStageFor verb path h of
                admitAtInterceptor \<Rightarrow> (s, decision\<lparr>Deferred := True, Allowed := True, AuthReason := ''allowed''\<rparr>)
              | admitQuotaAtAuth \<Rightarrow> decide_admit now key path False decision s
              | admitAtAuth \<Rightarrow>
                  if isMediaGenerationPath path \<and> ExtractAPIKey h None = []
                  then (s, decision\<lparr>AuthReason := ''media_generation_requires_header_key''\<rparr>)
                  else if EqualFold (TrimSpace verb) ''GET'' \<and> clean_path path \<in> set websocketResponsePaths \<and> ExtractAPIKey h None = []
                  then (s, decision\<lparr>AuthReason := ''websocket_requires_header_key''\<rparr>)
                  else decide_admit now key path True decision s))"

definition AdmitIntercepted :: "(string \<Rightarrow> string) \<Rightarrow> instant \<Rightarrow> instant \<Rightarrow> header \<Rightarrow> string \<Rightarrow> string \<Rightarrow> store \<Rightarrow> store \<times> Denial option" where
  "AdmitIntercepted sha now wall h path tid s =
     (if \<not> st_enabled s then (s, None)
      else case findBySecret sha (ExtractAPIKey h None) s of
        None \<Rightarrow> (s, None)
      | Some key \<Rightarrow>
          if \<not> Enabled key then (s, None)
          else case admit now key path True s of
            (s, Some denial) \<Rightarrow> (s, Some denial)
          | (s, None) \<Rightarrow>
              if tid \<noteq> [] \<and> isMediaGenerationPath path
              then (journalTrace tid wall (s\<lparr>mediaTraces := remember now tid (mediaTraces s)\<rparr>), None)
              else (s, None))"


subsection \<open>Billing\<close>

record UsageEvent =
  TraceID :: string
  EventProvider :: string
  ExecutorType :: string
  EventModel :: string
  RequestedModel :: string
  APIKey :: string
  Failed :: bool
  Detail :: UsageDetail

datatype UsageResult = UsageRecorded | UsageIgnoredDisabled | UsageSkippedFailed | UsageIgnoredUnknownKey
  | UsageIgnoredNoModel | UsageInvalid | UsageIgnoredEmpty | UsageUnmeteredPerCall

definition event_model :: "UsageEvent \<Rightarrow> string" where
  "event_model e = (if TrimSpace (EventModel e) \<noteq> [] then TrimSpace (EventModel e) else TrimSpace (RequestedModel e))"

definition count_health :: "(Health \<Rightarrow> Health) \<Rightarrow> store \<Rightarrow> store" where
  "count_health f s = s\<lparr>st_health := f (st_health s)\<rparr>"

text \<open>The last part: the record that has a bucket.\<close>

definition book_event :: "instant \<Rightarrow> KeyConfig \<Rightarrow> string \<Rightarrow> bool \<Rightarrow> bucket \<Rightarrow> store \<Rightarrow> store \<times> UsageResult" where
  "book_event now key model priced b s =
     (let (b, s) = (if priced then (b, s) else (b\<lparr>UnpricedCalls := 1\<rparr>, count_health (\<lambda>h. h\<lparr>unpricedCalls := unpricedCalls h + 1\<rparr>) s));
          s = s\<lparr>usage := record_usage now (ID key) model b (BalanceMode key) (usage s)\<rparr>
      in (journalUsage now (ID key) model b (BalanceMode key) s, UsageRecorded))"

definition unpriced_row :: ModelPrice where
  "unpriced_row = zero_price\<lparr>BillingMode := ''tokens'', BillingMultiplier := Fin 1\<rparr>"

text \<open>What \<open>RecordUsage\<close> does for a known key and a named model.\<close>

definition bill_event :: "instant \<Rightarrow> KeyConfig \<Rightarrow> string \<Rightarrow> UsageEvent \<Rightarrow> store \<Rightarrow> store \<times> UsageResult" where
  "bill_event now key model e s =
     (let (detail, clamped, invalid) = sanitizeDetail (Detail e)
      in if invalid then (count_health (\<lambda>h. h\<lparr>invalidUsage := invalidUsage h + 1\<rparr>) s, UsageInvalid)
         else let s = (if clamped then count_health (\<lambda>h. h\<lparr>clampedTokens := clampedTokens h + 1\<rparr>) s else s);
                  found = price_lookup (st_prices s) (EventProvider e) model;
                  price = (case found of Some p \<Rightarrow> p | None \<Rightarrow> unpriced_row);
                  priced = (found \<noteq> None \<and> Priced price);
                  model = ToLower model
              in if BillingMode price = ''per_call'' then
                   (if TraceID e = [] then (count_health (\<lambda>h. h\<lparr>unmeteredPerCall := unmeteredPerCall h + 1\<rparr>) s, UsageUnmeteredPerCall)
                    else let (traces, taken) = take_trace now (TraceID e) (mediaTraces s); s = s\<lparr>mediaTraces := traces\<rparr>
                         in if \<not> taken then (count_health (\<lambda>h. h\<lparr>unmeteredPerCall := unmeteredPerCall h + 1\<rparr>) s, UsageUnmeteredPerCall)
                            else book_event now key model priced
                                   (zero_bucket\<lparr>Calls := 1, ChargedNano := USDToNano (PerCallUSD price)\<rparr>) s)
                 else let b = billTokens price (tokenSemanticsFor (EventProvider e) (ExecutorType e)) detail
                      in if priced \<and> InputTokens b = 0 \<and> CacheReadTokens b = 0 \<and> CacheWriteTokens b = 0 \<and> OutputTokens b = 0
                         then (count_health (\<lambda>h. h\<lparr>ignoredEmptyUsage := ignoredEmptyUsage h + 1\<rparr>) s, UsageIgnoredEmpty)
                         else book_event now key model priced b s)"

definition billed_key :: "(string \<Rightarrow> string) \<Rightarrow> UsageEvent \<Rightarrow> store \<Rightarrow> KeyConfig option" where
  "billed_key sha e s = (case findByID (APIKey e) s of Some k \<Rightarrow> Some k | None \<Rightarrow> findBySecret sha (APIKey e) s)"

definition RecordUsage :: "(string \<Rightarrow> string) \<Rightarrow> instant \<Rightarrow> UsageEvent \<Rightarrow> store \<Rightarrow> store \<times> UsageResult" where
  "RecordUsage sha now e s =
     (if \<not> st_enabled s then (s, UsageIgnoredDisabled)
      else if Failed e then (count_health (\<lambda>h. h\<lparr>skippedFailed := skippedFailed h + 1\<rparr>) s, UsageSkippedFailed)
      else case billed_key sha e s of
        None \<Rightarrow> (count_health (\<lambda>h. h\<lparr>ignoredUnknownKey := ignoredUnknownKey h + 1\<rparr>) s, UsageIgnoredUnknownKey)
      | Some key \<Rightarrow>
          if event_model e = [] then (count_health (\<lambda>h. h\<lparr>ignoredNoModel := ignoredNoModel h + 1\<rparr>) s, UsageIgnoredNoModel)
          else bill_event now key (event_model e) e s)"

text \<open>The list price of a record, and the store with the traces trimmed by the lookup.\<close>

definition ListCost :: "instant \<Rightarrow> UsageEvent \<Rightarrow> store \<Rightarrow> store \<times> nano option" where
  "ListCost now e s =
     (if Failed e \<or> event_model e = [] then (s, None)
      else let (detail, _, invalid) = sanitizeDetail (Detail e)
           in if invalid then (s, None)
              else case price_lookup (st_prices s) (EventProvider e) (event_model e) of
                None \<Rightarrow> (s, None)
              | Some price \<Rightarrow>
                  if \<not> Priced price then (s, None)
                  else if BillingMode price = ''per_call'' then
                    (if TraceID e = [] then (s, None)
                     else let (traces, held) = contains now (TraceID e) (mediaTraces s); s = s\<lparr>mediaTraces := traces\<rparr>
                          in (s, if held then Some (USDToNano (PerCallUSD price)) else None))
                  else (s, Some (ChargedNano (billTokens (price\<lparr>BillingMultiplier := Fin 1\<rparr>)
                         (tokenSemanticsFor (EventProvider e) (ExecutorType e)) detail))))"


subsection \<open>Flushing\<close>

definition noteFlush :: "bool \<Rightarrow> store \<Rightarrow> store" where
  "noteFlush failed s =
     (if failed \<and> \<not> unsaved s then s\<lparr>unsaved := True, log_lines := log_lines s @ [''error'']\<rparr>
      else if \<not> failed \<and> unsaved s then s\<lparr>unsaved := False, log_lines := log_lines s @ [''info'']\<rparr>
      else s)"

text \<open>\<open>FlushUsage\<close> of the store: the writes (\<open>Durability.FlushUsage\<close>), the health counters and the
  report. A flush that had nothing to plan changes neither.\<close>

definition store_flush :: "(write_call \<Rightarrow> bool) \<Rightarrow> (write_call \<Rightarrow> bool) \<Rightarrow> instant \<Rightarrow> instant \<Rightarrow> store \<Rightarrow> store \<times> flush_error option" where
  "store_flush failsH failsL now wall s =
     (if statePath s = [] \<or> datasetID s = [] then (s, None)
      else let planned = snd (planFlush now (usage s)) \<noteq> None;
               ((l, lf, hf), historyFailed, liveFailed) =
                 FlushUsage failsH failsL now wall (datasetID s) (usage s, live_file (st_files s), history_file (st_files s));
               s = s\<lparr>usage := l, st_files := (st_files s)\<lparr>live_file := lf, history_file := hf\<rparr>\<rparr>;
               err = (if liveFailed then Some (if historyFailed then BothWriteErrors else LiveWriteError)
                      else if historyFailed then Some HistoryWriteError else None)
           in if \<not> planned then (s, None)
              else case err of
                Some e \<Rightarrow> (noteFlush True (count_health (flushFailed e) s), Some e)
              | None \<Rightarrow> (noteFlush False (count_health (flushSucceeded wall) s), None))"

definition store_saveState :: "(write_call \<Rightarrow> bool) \<Rightarrow> instant \<Rightarrow> KeyConfig list \<Rightarrow> ModelPrice list \<Rightarrow> store \<Rightarrow> store \<times> persist_error option" where
  "store_saveState fails wall keys models s =
     (let (f, e) = SaveState fails wall (datasetID s) keys models (state_file (st_files s))
      in (s\<lparr>st_files := (st_files s)\<lparr>state_file := f\<rparr>\<rparr>, e))"


subsection \<open>The index of hashes\<close>

text \<open>The keys are filed under their ids and the index is the one of the keys.\<close>

definition keys_indexed :: "store \<Rightarrow> bool" where
  "keys_indexed s \<longleftrightarrow> amap_ok (st_keys s) \<and> (\<forall>(kid, k) \<in> set (st_keys s). ID k = kid) \<and>
     keysByHash s = rebuildKeysByHash (st_keys s)"

definition has_hash :: "(string, KeyConfig) amap \<Rightarrow> string \<Rightarrow> string \<Rightarrow> bool" where
  "has_hash keys h kid \<longleftrightarrow> (\<exists>key. aget keys kid = Some key \<and> ToLower (KeyHash key) = h)"

lemma aget_rebuild_fold:
  assumes "h \<noteq> []"
  shows "aget (fold (\<lambda>kid byHash. case aget keys kid of Some key \<Rightarrow> add_hash key byHash | None \<Rightarrow> byHash) ids acc) h =
    (case aget acc h of Some k \<Rightarrow> Some k
     | None \<Rightarrow> (case find (has_hash keys h) ids of Some kid \<Rightarrow> aget keys kid | None \<Rightarrow> None))"
proof (induction ids arbitrary: acc)
  case (Cons i ids)
  have "aget (case aget keys i of Some key \<Rightarrow> add_hash key acc | None \<Rightarrow> acc) h =
    (case aget acc h of Some k \<Rightarrow> Some k | None \<Rightarrow> if has_hash keys h i then aget keys i else None)"
    using assms by (auto simp: add_hash_def Let_def has_hash_def split: option.splits)
  then show ?case
    by (cases "aget acc h"; cases "has_hash keys h i") (auto simp: Cons.IH, auto simp: has_hash_def)
qed (auto split: option.splits)

lemma rebuild_lookup:
  assumes "h \<noteq> []"
  shows "aget (rebuildKeysByHash keys) h = (case find (has_hash keys h) (sort (akeys keys)) of Some kid \<Rightarrow> aget keys kid | None \<Rightarrow> None)"
  unfolding rebuildKeysByHash_def aget_rebuild_fold [OF assms] by simp

lemma rebuild_unique:
  assumes "amap_ok keys" "h \<noteq> []" "\<And>i j k k'. (i, k) \<in> set keys \<Longrightarrow> (j, k') \<in> set keys \<Longrightarrow> ToLower (KeyHash k) = h \<Longrightarrow> ToLower (KeyHash k') = h \<Longrightarrow> i = j"
  shows "aget (rebuildKeysByHash keys) h = Some k \<longleftrightarrow> (\<exists>i. (i, k) \<in> set keys \<and> ToLower (KeyHash k) = h)"
proof (cases "find (has_hash keys h) (sort (akeys keys))")
  case None
  then have "\<not> has_hash keys h i" if "i \<in> set (akeys keys)" for i using that by (auto simp: find_None_iff)
  then have "(i, k) \<in> set keys \<Longrightarrow> ToLower (KeyHash k) \<noteq> h" for i
    using aget_SomeI [OF assms(1)] by (force simp: has_hash_def)
  then show ?thesis using None by (auto simp: rebuild_lookup [OF assms(2)])
next
  case (Some i)
  then have "has_hash keys h i" by (auto simp: find_Some_iff)
  then obtain key where key: "aget keys i = Some key" "ToLower (KeyHash key) = h" by (auto simp: has_hash_def)
  then have mem: "(i, key) \<in> set keys" by (simp add: map_of_SomeD)
  have "k = key" if "(j, k) \<in> set keys" "ToLower (KeyHash k) = h" for j
    using assms(3) [OF mem that(1) key(2) that(2)] aget_SomeI [OF assms(1)] that(1) key(1) by auto
  then show ?thesis using Some key mem by (auto simp: rebuild_lookup [OF assms(2)])
qed

text \<open>No two keys of the store have a secret in common.\<close>

definition secrets_unique :: "store \<Rightarrow> bool" where
  "secrets_unique s \<longleftrightarrow> uniqueSecrets (map snd (st_keys s)) = None"

lemma first_error_all: "first_error f xs = None \<longleftrightarrow> (\<forall>x \<in> set xs. f x = None)"
  by simp

lemma secrets_uniqueD:
  assumes "secrets_unique s" "keys_indexed s" "\<forall>(_, k) \<in> set (st_keys s). key_normal k"
    "(i, k) \<in> set (st_keys s)" "(j, k') \<in> set (st_keys s)" "ToLower (KeyHash k) = h" "ToLower (KeyHash k') = h" "h \<noteq> []"
  shows "i = j"
proof -
  have "secretUnique (map snd (st_keys s)) k = None"
    using assms(1,4) by (force simp: secrets_unique_def uniqueSecrets_def)
  moreover have "secret_of k = h" "secret_of k' = h" using assms(3-7) by (auto simp: secret_of_def key_normal_def)
  ultimately have "ID k' = ID k" using assms(5,8) by (force simp: secretUnique_None)
  moreover have "\<forall>(kid, k) \<in> set (st_keys s). ID k = kid" using assms(2) by (simp add: keys_indexed_def)
  from bspec [OF this assms(4)] bspec [OF this assms(5)] have "ID k = i" "ID k' = j" by simp_all
  ultimately show ?thesis by simp
qed

lemma hash_nonempty: "HashKey sha raw = Some h \<Longrightarrow> h \<noteq> []"
  by (auto simp: HashKey_def HashPrefix_def Let_def split: if_splits)

lemma findBySecret_iff:
  assumes "keys_indexed s" "secrets_unique s" "\<forall>(_, k) \<in> set (st_keys s). key_normal k"
  shows "findBySecret sha raw s = Some k \<longleftrightarrow>
    (\<exists>i h. (i, k) \<in> set (st_keys s) \<and> HashKey sha raw = Some h \<and> ToLower h = ToLower (KeyHash k))"
proof (cases "HashKey sha (TrimSpace raw)")
  case None
  then show ?thesis by (auto simp: findBySecret_def HashKey_def Let_def split: if_splits)
next
  case (Some h)
  have same: "HashKey sha raw = HashKey sha (TrimSpace raw)" by (simp add: HashKey_def)
  have ne: "ToLower h \<noteq> []" using hash_nonempty [OF Some] by simp
  have "TrimSpace raw \<noteq> []" using Some by (auto simp: HashKey_def Let_def)
  then have "findBySecret sha raw s = aget (rebuildKeysByHash (st_keys s)) (ToLower h)"
    using assms(1) Some by (simp add: findBySecret_def Let_def keys_indexed_def)
  moreover have "amap_ok (st_keys s)" using assms(1) by (simp add: keys_indexed_def)
  ultimately show ?thesis
    using rebuild_unique [OF _ ne secrets_uniqueD [OF assms(2,1,3) _ _ _ _ ne]] same Some by auto
qed


text \<open>A secret identifies its key: in a store whose keys are normalized, indexed and have secrets
  of their own, looking a client's key up finds a key exactly when that key's stored hash is the
  hash of what the client sent (up to letter case), and finds none for an empty one.\<close>

theorem findBySecret_exact:
  assumes "keys_indexed s" "secrets_unique s" "\<forall>(_, k) \<in> set (st_keys s). key_normal k"
  shows "findBySecret sha raw s = Some k \<longleftrightarrow>
    (\<exists>i h. (i, k) \<in> set (st_keys s) \<and> HashKey sha raw = Some h \<and> ToLower h = ToLower (KeyHash k))"
  using assms by (rule findBySecret_iff)

text \<open>A store with one key, whose secret is \<open>secret\<close>, and what is empty in a new store.\<close>

definition sample_sha :: "string \<Rightarrow> string" where
  "sample_sha s = s"

definition sample_key :: KeyConfig where
  "sample_key = \<lparr>ID = ''k'', KeyName = ''k'', Enabled = True, KeyHash = ''sha256:6b'', KeyPreview = [], RPM = 0,
     DailyLimitUSD = Fin 0, WeeklyLimitUSD = Fin 0, MonthlyLimitUSD = Fin 0, QuotaMode = [], CreatedAt = 5, UpdatedAt = 5\<rparr>"

definition zero_health :: Health where
  "zero_health = \<lparr>lastFlushAt = zero_time, lastFlushError = None, flushFailures = 0, skippedFailed = 0, ignoredUnknownKey = 0,
     ignoredNoModel = 0, ignoredEmptyUsage = 0, clampedTokens = 0, invalidUsage = 0, unmeteredPerCall = 0, unpricedCalls = 0\<rparr>"

definition new_store :: "usageLedger \<Rightarrow> store" where
  "new_store l = \<lparr>st_enabled = True, statePath = ''state.json'', datasetID = ''d'', st_keys = [], keysByHash = [],
     st_prices = \<lparr>rows = [], row_index = (\<lambda>_. None)\<rparr>, st_limiter = NewRateLimiter, usage = l, mediaTraces = newMediaTraceSet,
     st_health = zero_health, handoff = None, unsaved = False, st_files = \<lparr>state_file = Absent, live_file = Absent, history_file = Absent\<rparr>,
     audit = [], log_lines = []\<rparr>"

definition sample_store :: store where
  "sample_store = (new_store sample_ledger)\<lparr>st_keys := [(''k'', sample_key)], keysByHash := rebuildKeysByHash [(''k'', sample_key)]\<rparr>"


lemma sample_key_normal [simp]: "key_normal sample_key"
  unfolding key_normal_def key_ok_def sample_key_def by code_simp

lemma sample_hash: "HashKey sample_sha '' k '' = Some ''sha256:6b''" "HashKey sample_sha ''k'' = Some ''sha256:6b''"
  by code_simp+

lemma sample_store_ok: "keys_indexed sample_store" "secrets_unique sample_store"
    "\<forall>(_, k) \<in> set (st_keys sample_store). key_normal k"
proof -
  show "keys_indexed sample_store"
    by (simp add: sample_store_def keys_indexed_def amap_ok_def) (simp add: sample_key_def)
  have "secretUnique [sample_key] sample_key = None" by (simp add: secretUnique_None)
  then show "secrets_unique sample_store" by (simp add: sample_store_def secrets_unique_def uniqueSecrets_def)
qed (simp add: sample_store_def)

lemma sample_lookup: "findBySecret sample_sha ''k'' sample_store = Some sample_key"
  by code_simp

lemma findBySecret_exact_witness: "findBySecret sample_sha '' k '' sample_store = Some sample_key"
  unfolding findBySecret_exact [OF sample_store_ok] sample_hash
  by (rule exI [of _ "''k''"]) (simp add: sample_store_def sample_key_def)


subsection \<open>Admission happens once\<close>

lemma decide_admit_fields [simp]:
  "Deferred (snd (decide_admit now key path c d s)) = Deferred d" "AuthKeyID (snd (decide_admit now key path c d s)) = AuthKeyID d"
  "ModelList (snd (decide_admit now key path c d s)) = ModelList d" "Known (snd (decide_admit now key path c d s)) = Known d"
  by (auto simp: decide_admit_def split: prod.splits option.splits)

lemma decide_admit_allowed:
  "Allowed (snd (decide_admit now key path c d s)) \<longleftrightarrow> Allowed d \<or> snd (admit now key path c s) = None"
  by (auto simp: decide_admit_def split: prod.splits option.splits)

text \<open>What authentication found when it gave the client a request id.\<close>

lemma enabled_lookup:
  assumes "findBySecretWhenEnabled sha raw s = (Some key, True)"
  shows "st_enabled s \<and> findBySecret sha raw s = Some key"
  using assms by (auto simp: findBySecretWhenEnabled_def findBySecret_def Let_def split: if_splits option.splits)

lemma findBySecret_Nil [simp]: "findBySecret sha [] s = None"
  by (simp add: findBySecret_def)

lemma auth_unknown:
  assumes "findBySecretWhenEnabled sha (ExtractAPIKey h q) s = (k, en)" "k = None \<or> \<not> en"
  shows "\<not> Deferred (snd (Authenticate sha now verb path h q s))"
  using assms(2) unfolding Authenticate_def assms(1) by (cases k; cases en) (simp_all add: refused_def)

lemma auth_not_deferred:
  assumes "findBySecretWhenEnabled sha (ExtractAPIKey h q) s = (Some key, True)"
    "\<not> Enabled key \<or> IsModelsEndpoint path \<or> admissionStageFor verb path h \<noteq> admitAtInterceptor"
  shows "\<not> Deferred (snd (Authenticate sha now verb path h q s))"
proof (cases "Enabled key \<and> \<not> IsModelsEndpoint path")
  case True
  then show ?thesis using assms(2) unfolding Authenticate_def assms(1) Let_def
    by (cases "admissionStageFor verb path h") (auto)
next
  case False
  then show ?thesis unfolding Authenticate_def assms(1) Let_def by auto
qed




subsection \<open>A usage record is booked once or counted as ignored\<close>

text \<open>Only health counters and the set of media traces differ.\<close>

definition same_books :: "store \<Rightarrow> store \<Rightarrow> bool" where
  "same_books s s' \<longleftrightarrow> s' = s\<lparr>st_health := st_health s', mediaTraces := mediaTraces s'\<rparr>"

lemma same_books_refl [simp]: "same_books s s"
  by (simp add: same_books_def)

lemma same_books_count [simp]: "same_books s (count_health f s)"
  by (cases s) (simp add: same_books_def count_health_def)

lemma same_books_traces [simp]: "same_books s (s\<lparr>mediaTraces := t\<rparr>)"
  by (cases s) (simp add: same_books_def)

lemma same_books_trans: "same_books s t \<Longrightarrow> same_books t u \<Longrightarrow> same_books s u"
  by (cases s; cases t; cases u) (simp add: same_books_def)

lemma same_books_fields:
  assumes "same_books s s'"
  shows "usage s' = usage s" "handoff s' = handoff s" "st_keys s' = st_keys s" "keysByHash s' = keysByHash s"
    "st_prices s' = st_prices s" "st_files s' = st_files s" "audit s' = audit s" "st_limiter s' = st_limiter s"
    "st_enabled s' = st_enabled s" "unsaved s' = unsaved s" "log_lines s' = log_lines s" "statePath s' = statePath s" "datasetID s' = datasetID s"
  by (subst assms [unfolded same_books_def], simp)+

lemma book_event_result:
  assumes "Calls b = 1"
  obtains s1 b' where "same_books s s1" "Calls b' = 1" "ChargedNano b' = ChargedNano b"
    "book_event now key model priced b s = (journalUsage now (ID key) model b' (BalanceMode key)
       (s1\<lparr>usage := record_usage now (ID key) model b' (BalanceMode key) (usage s1)\<rparr>), UsageRecorded)"
proof (cases priced)
  case True
  then show thesis using assms by (intro that [of s b]) (simp_all add: book_event_def Let_def)
next
  case False
  then show thesis using assms
    by (intro that [of "count_health (\<lambda>h. h\<lparr>unpricedCalls := unpricedCalls h + 1\<rparr>) s" "b\<lparr>UnpricedCalls := 1\<rparr>"])
      (simp_all add: book_event_def Let_def)
qed

text \<open>How billing a record ends: it is booked, or it is ignored with only counters changed.\<close>

lemma bill_event_cases:
  obtains (booked) s1 b priced where "bill_event now key model e s = book_event now key (ToLower model) priced b s1"
      "same_books s s1" "Calls b = 1"
  | (ignored) s1 r where "bill_event now key model e s = (s1, r)" "r \<noteq> UsageRecorded" "same_books s s1"
proof -
  obtain d c i where sd: "sanitizeDetail (Detail e) = (d, c, i)" by (cases "sanitizeDetail (Detail e)")
  define s0 where "s0 = (if c then count_health (\<lambda>h. h\<lparr>clampedTokens := clampedTokens h + 1\<rparr>) s else s)"
  have s0: "same_books s s0" by (simp add: s0_def)
  define found where "found = price_lookup (st_prices s0) (EventProvider e) model"
  define price where "price = (case found of Some p \<Rightarrow> p | None \<Rightarrow> unpriced_row)"
  define priced where "priced = (found \<noteq> None \<and> Priced price)"
  obtain traces taken where tk: "take_trace now (TraceID e) (mediaTraces s0) = (traces, taken)" by fastforce
  have t: "same_books s (s0\<lparr>mediaTraces := traces\<rparr>)" by (rule same_books_trans [OF s0]) simp
  note def = bill_event_def sd prod.case Let_def s0_def [symmetric] found_def [symmetric] price_def [symmetric] priced_def [symmetric] tk
  consider "i" | "\<not> i" "BillingMode price = ''per_call''" "TraceID e = [] \<or> \<not> taken"
    | "\<not> i" "BillingMode price = ''per_call''" "TraceID e \<noteq> []" "taken" | "\<not> i" "BillingMode price \<noteq> ''per_call''" by blast
  then show thesis
  proof cases
    case 1
    show thesis by (rule ignored [of "count_health (\<lambda>h. h\<lparr>invalidUsage := invalidUsage h + 1\<rparr>) s" UsageInvalid])
        (simp_all add: bill_event_def sd Let_def 1)
  next
    case 2
    show thesis
    proof (cases "TraceID e = []")
      case True
      show thesis by (rule ignored [of "count_health (\<lambda>h. h\<lparr>unmeteredPerCall := unmeteredPerCall h + 1\<rparr>) s0" UsageUnmeteredPerCall])
          (unfold def, simp_all add: 2 True same_books_trans [OF s0])
    next
      case False
      show thesis by (rule ignored [of "count_health (\<lambda>h. h\<lparr>unmeteredPerCall := unmeteredPerCall h + 1\<rparr>) (s0\<lparr>mediaTraces := traces\<rparr>)" UsageUnmeteredPerCall])
          (unfold def, use 2 False in \<open>simp_all add: same_books_trans [OF t]\<close>)
    qed
  next
    case 3
    show thesis by (rule booked [of priced "zero_bucket\<lparr>Calls := 1, ChargedNano := USDToNano (PerCallUSD price)\<rparr>" "s0\<lparr>mediaTraces := traces\<rparr>"])
        (unfold def, use 3 t in simp_all)
  next
    case 4
    define b where "b = billTokens price (tokenSemanticsFor (EventProvider e) (ExecutorType e)) d"
    have one: "Calls b = 1" by (simp add: b_def billTokens_def Let_def)
    show thesis
    proof (cases "priced \<and> InputTokens b = 0 \<and> CacheReadTokens b = 0 \<and> CacheWriteTokens b = 0 \<and> OutputTokens b = 0")
      case True
      show thesis by (rule ignored [of "count_health (\<lambda>h. h\<lparr>ignoredEmptyUsage := ignoredEmptyUsage h + 1\<rparr>) s0" UsageIgnoredEmpty])
          (unfold def b_def [symmetric], use 4 True in \<open>simp_all add: same_books_trans [OF s0]\<close>)
    next
      case False
      show thesis by (rule booked [of priced b s0]) (unfold def b_def [symmetric], use 4 False one s0 in auto)
    qed
  qed
qed


lemma journalUsage_fields [simp]:
  "usage (journalUsage now kid m b d s) = usage s" "st_keys (journalUsage now kid m b d s) = st_keys s"
  "keysByHash (journalUsage now kid m b d s) = keysByHash s" "audit (journalUsage now kid m b d s) = audit s"
  "st_files (journalUsage now kid m b d s) = st_files s" "st_limiter (journalUsage now kid m b d s) = st_limiter s"
  "handoff (journalUsage now kid m b d s) = map_option (append_journal [UsageEntry kid m b d now]) (handoff s)"
  by (simp_all add: journalUsage_def journal_def)

text \<open>How a record ends.\<close>

lemma RecordUsage_cases:
  obtains (booked) key b s1 where "st_enabled s" "\<not> Failed e" "event_model e \<noteq> []" "billed_key sha e s = Some key" "Calls b = 1"
      "same_books s s1" "RecordUsage sha now e s = (journalUsage now (ID key) (ToLower (event_model e)) b (BalanceMode key)
         (s1\<lparr>usage := record_usage now (ID key) (ToLower (event_model e)) b (BalanceMode key) (usage s1)\<rparr>), UsageRecorded)"
  | (ignored) s1 r where "RecordUsage sha now e s = (s1, r)" "r \<noteq> UsageRecorded" "same_books s s1"
proof (cases "\<not> st_enabled s \<or> Failed e \<or> billed_key sha e s = None \<or> event_model e = []")
  case True
  then have "same_books s (fst (RecordUsage sha now e s)) \<and> snd (RecordUsage sha now e s) \<noteq> UsageRecorded"
    by (cases "billed_key sha e s") (auto simp: RecordUsage_def)
  then show thesis by (intro ignored [of "fst (RecordUsage sha now e s)" "snd (RecordUsage sha now e s)"]) simp_all
next
  case False
  then obtain key where key: "billed_key sha e s = Some key" by auto
  with False have r: "RecordUsage sha now e s = bill_event now key (event_model e) e s" by (simp add: RecordUsage_def)
  show thesis
  proof (rule bill_event_cases [where now = now and key = key and model = "event_model e" and e = e and s = s])
    fix s1 b priced
    assume b: "bill_event now key (event_model e) e s = book_event now key (ToLower (event_model e)) priced b s1"
      "same_books s s1" "Calls b = 1"
    obtain s2 b' where "same_books s1 s2" "Calls b' = 1"
      "book_event now key (ToLower (event_model e)) priced b s1 = (journalUsage now (ID key) (ToLower (event_model e)) b' (BalanceMode key)
       (s2\<lparr>usage := record_usage now (ID key) (ToLower (event_model e)) b' (BalanceMode key) (usage s2)\<rparr>), UsageRecorded)"
      by (rule book_event_result [OF b(3), where now = now and key = key and model = "ToLower (event_model e)" and priced = priced and s = s1])
    then show thesis using False key r b by (intro booked [of key b' s2]) (simp_all add: same_books_trans [OF b(2)])
  next
    fix s1 r'
    assume "bill_event now key (event_model e) e s = (s1, r')" "r' \<noteq> UsageRecorded" "same_books s s1"
    then show thesis using r by (intro ignored [of s1 r']) simp_all
  qed
qed

text \<open>Every usage record ends in exactly one of two ways. It is booked: one call of a key the
  store knows, by id or by secret, written to the ledger once and, during a handoff, to the journal
  with the same bucket; or it is ignored, and the ledger, the journal, the limiter, the keys and
  the files are untouched.\<close>

theorem RecordUsage_outcome:
  assumes "RecordUsage sha now e s = (s', r)"
  shows "(r = UsageRecorded \<longrightarrow> st_enabled s \<and> \<not> Failed e \<and> event_model e \<noteq> [] \<and> (\<exists>key b. billed_key sha e s = Some key \<and> Calls b = 1 \<and>
      usage s' = record_usage now (ID key) (ToLower (event_model e)) b (BalanceMode key) (usage s) \<and>
      handoff s' = map_option (append_journal [UsageEntry (ID key) (ToLower (event_model e)) b (BalanceMode key) now]) (handoff s))) \<and>
    (r \<noteq> UsageRecorded \<longrightarrow> usage s' = usage s \<and> handoff s' = handoff s) \<and>
    st_keys s' = st_keys s \<and> st_files s' = st_files s \<and> st_limiter s' = st_limiter s"
  by (rule RecordUsage_cases [where sha = sha and now = now and e = e and s = s])
    (use assms in \<open>auto simp: same_books_fields\<close>)

definition sample_event :: UsageEvent where
  "sample_event = \<lparr>TraceID = [], EventProvider = [], ExecutorType = [], EventModel = ''M'', RequestedModel = [], APIKey = ''k'',
     Failed = False, Detail = \<lparr>dInputTokens = 100, dOutputTokens = 20, ReasoningTokens = 0, CachedTokens = 0, dCacheReadTokens = 0,
       CacheCreationTokens = 0, TotalTokens = 120\<rparr>\<rparr>"

lemma sample_event_key: "billed_key sha sample_event sample_store = Some sample_key"
  unfolding billed_key_def by (simp add: findByID_def sample_event_def sample_store_def)
    (simp add: TrimSpace_def strip_spaces.simps ascii_space_def)

lemma sample_event_model: "event_model sample_event = ''M''"
  by code_simp

lemma RecordUsage_outcome_witness:
  "\<exists>s' r. RecordUsage sample_sha 7 sample_event sample_store = (s', r) \<and> st_limiter s' = NewRateLimiter"
proof -
  obtain s' r where run: "RecordUsage sample_sha 7 sample_event sample_store = (s', r)" by fastforce
  have "st_limiter s' = st_limiter sample_store" using RecordUsage_outcome [OF run] by blast
  with run show ?thesis by (simp add: sample_store_def new_store_def)
qed


subsection \<open>Reports of the flush\<close>

lemma noteFlush_step [simp]:
  "log_lines (noteFlush failed s) = log_lines s @ (if failed = unsaved s then [] else [if failed then ''error'' else ''info''])"
  "unsaved (noteFlush failed s) \<longleftrightarrow> failed"
  by (auto simp: noteFlush_def)

definition alternating :: "string list \<Rightarrow> bool" where
  "alternating ls \<longleftrightarrow> ls = map (\<lambda>i. if even i then ''error'' else ''info'') [0..<length ls]"

lemma alternating_snoc: "alternating ls \<Longrightarrow> alternating (ls @ [if even (length ls) then ''error'' else ''info''])"
  unfolding alternating_def by (simp only: length_append list.size add_0 add_Suc_right add_0_right upt_Suc_append le0 map_append list.map)

text \<open>The host's log hears of a failing ledger once: over any run of flushes from a saved store
  the reports alternate, an error first, and the last report says whether the ledger is saved.\<close>

theorem flush_reports_alternate:
  assumes "\<not> unsaved s" "log_lines s = []" "s' = fold noteFlush outcomes s"
  shows "log_lines s' = map (\<lambda>i. if even i then ''error'' else ''info'') [0..<length (log_lines s')] \<and>
    (unsaved s' \<longleftrightarrow> odd (length (log_lines s'))) \<and> (outcomes \<noteq> [] \<longrightarrow> unsaved s' = last outcomes)"
proof -
  have "alternating (log_lines (fold noteFlush os s)) \<and>
    (unsaved (fold noteFlush os s) \<longleftrightarrow> odd (length (log_lines (fold noteFlush os s)))) \<and>
    (os \<noteq> [] \<longrightarrow> unsaved (fold noteFlush os s) = last os)" for os
  proof (induction os rule: rev_induct)
    case Nil
    then show ?case using assms by (simp add: alternating_def)
  next
    case (snoc x xs)
    then show ?case unfolding fold_append comp_apply fold_simps
      using alternating_snoc [of "log_lines (fold noteFlush xs s)"] by (cases x) auto
  qed
  then show ?thesis unfolding assms(3) alternating_def by blast
qed

lemma flush_reports_alternate_witness:
  "log_lines (fold noteFlush [True, True, False, False, True] sample_store) = [''error'', ''info'', ''error'']"
proof -
  let ?s = "fold noteFlush [True, True, False, False, True] sample_store"
  have "\<not> unsaved sample_store" "log_lines sample_store = []" by (simp_all add: sample_store_def new_store_def)
  from flush_reports_alternate [OF this refl, of "[True, True, False, False, True]"]
  have "log_lines ?s = map (\<lambda>i. if even i then ''error'' else ''info'') [0..<length (log_lines ?s)]" by blast
  moreover have "length (log_lines ?s) = 3" by (simp add: sample_store_def new_store_def)
  moreover have "map (\<lambda>i :: nat. if even i then ''error'' else ''info'') [0..<3] = [''error'', ''info'', ''error'']"
    by (simp add: upt_rec)
  ultimately show ?thesis by simp
qed

end
