(* ===== verification/Admin.thy ===== *)
theory Admin
  imports Store
begin

text \<open>
  The management of client keys: internal/policy/admin.go, and \<open>AdjustBalance\<close> of balance.go. An
  operation validates, writes the state file (or, for periods and balances, the live file) and only
  then publishes in memory; it holds updateMu throughout, except \<open>RotateKey\<close>, which reads the key
  first (\<open>rotate_read\<close>) and takes the lock for the write (\<open>rotate_write\<close>).

  \<open>now\<close> is the clock of the ledger, \<open>wall\<close> time.Now(). The arguments \<open>fails\<close> say which system calls of
  a write fail. A plain secret is drawn by the caller: crypto/rand is its source in the code.
\<close>

datatype admin_error =
    IDMissing
  | UnknownKey
  | KeysRejected key_error
  | StatePersist persist_error
  | InvalidUsageResetWindow UsageResetWindow
  | InvalidUsageResetExpectation
  | LedgerRejected ledger_error
  | KeyRequired
  | AmountInvalid
  | AmountOutOfRange
  | NoteTooLong
  | RequestIDTooLong
  | NotBalanceModeKey


subsection \<open>Keys\<close>

definition key_index :: "string \<Rightarrow> KeyConfig list \<Rightarrow> nat" where
  "key_index kid keys = length (takeWhile (\<lambda>k. ID k \<noteq> kid) keys)"

definition put_key :: "KeyConfig \<Rightarrow> KeyConfig list \<Rightarrow> KeyConfig list" where
  "put_key input keys = (if key_index (ID input) keys < length keys then keys[key_index (ID input) keys := input] else keys @ [input])"

definition publish_key :: "KeyConfig \<Rightarrow> store \<Rightarrow> store" where
  "publish_key key s = (let keys = aset (ID key) key (st_keys s) in s\<lparr>st_keys := keys, keysByHash := rebuildKeysByHash keys\<rparr>)"

text \<open>The key as it will be stored: the creation time of the previous one is kept.\<close>

definition stamp_key :: "instant \<Rightarrow> KeyConfig option \<Rightarrow> KeyConfig \<Rightarrow> KeyConfig" where
  "stamp_key now previous input =
     (let input = (case previous of Some p \<Rightarrow> if IsZero (CreatedAt p) then input else input\<lparr>CreatedAt := CreatedAt p\<rparr> | None \<Rightarrow> input);
          input = (if IsZero (CreatedAt input) then input\<lparr>CreatedAt := now\<rparr> else input)
      in input\<lparr>UpdatedAt := now\<rparr>)"

definition applyKeyMutation :: "(write_call \<Rightarrow> bool) \<Rightarrow> instant \<Rightarrow> instant \<Rightarrow> KeyConfig \<Rightarrow> store \<Rightarrow>
    store \<times> (admin_error + KeyConfig option \<times> KeyConfig)" where
  "applyKeyMutation fails now wall input0 s =
     (let keys = keysSnapshot s; models = prices_snapshot (st_prices s);
          input0 = input0\<lparr>ID := TrimSpace (ID input0)\<rparr>;
          previous = find (\<lambda>k. ID k = ID input0) keys;
          input = stamp_key now previous input0;
          index = key_index (ID input) keys
      in case normalizeKeys (put_key input keys) of
           Inl e \<Rightarrow> (s, Inl (KeysRejected e))
         | Inr keys \<Rightarrow> (case secretUnique keys (keys ! index) of
             Some e \<Rightarrow> (s, Inl (KeysRejected e))
           | None \<Rightarrow> (case store_saveState fails wall keys models s of
               (s, Some e) \<Rightarrow> (s, Inl (StatePersist e))
             | (s, None) \<Rightarrow>
                 (let stored = keys ! index; s = s\<lparr>usage := openCyclesLocked stored now (usage s)\<rparr>
                  in (publish_key stored s, Inr (previous, stored))))))"

text \<open>Values of type any are compared as Go compares them: a NaN differs from itself.\<close>

definition audit_differs :: "audit_value \<Rightarrow> audit_value \<Rightarrow> bool" where
  "audit_differs a b = (case (a, b) of (ANumber x, ANumber y) \<Rightarrow> \<not> f64_eq x y | _ \<Rightarrow> a \<noteq> b)"

definition record_changes :: "(string \<times> audit_value \<times> audit_value) list \<Rightarrow> (string, Change) amap" where
  "record_changes fs = filter (\<lambda>(_, from, to). audit_differs from to) fs"

definition zero_key :: KeyConfig where
  "zero_key = \<lparr>ID = [], KeyName = [], Enabled = False, KeyHash = [], KeyPreview = [], RPM = 0, DailyLimitUSD = Fin 0,
     WeeklyLimitUSD = Fin 0, MonthlyLimitUSD = Fin 0, QuotaMode = [], CreatedAt = zero_time, UpdatedAt = zero_time\<rparr>"

definition keyChanges :: "KeyConfig option \<Rightarrow> KeyConfig \<Rightarrow> (string, Change) amap" where
  "keyChanges previous current = (let before = (case previous of Some p \<Rightarrow> p | None \<Rightarrow> zero_key)
     in record_changes [
       (''name'', AText (KeyName before), AText (KeyName current)),
       (''enabled'', ABool (Enabled before), ABool (Enabled current)),
       (''rpm'', AInt (RPM before), AInt (RPM current)),
       (''daily_limit_usd'', ANumber (DailyLimitUSD before), ANumber (DailyLimitUSD current)),
       (''weekly_limit_usd'', ANumber (WeeklyLimitUSD before), ANumber (WeeklyLimitUSD current)),
       (''monthly_limit_usd'', ANumber (MonthlyLimitUSD before), ANumber (MonthlyLimitUSD current)),
       (''quota_mode'', AText (key_Mode before), AText (key_Mode current))])"

definition UpsertKey :: "(write_call \<Rightarrow> bool) \<Rightarrow> instant \<Rightarrow> instant \<Rightarrow> KeyConfig \<Rightarrow> store \<Rightarrow> store \<times> admin_error option" where
  "UpsertKey fails now wall input s = (case applyKeyMutation fails now wall input s of
     (s, Inl e) \<Rightarrow> (s, Some e)
   | (s, Inr (previous, stored)) \<Rightarrow>
       (recordAudit (event (if previous = None then ''create_key'' else ''update_key'') (ID stored) (keyChanges previous stored)) s, None))"

text \<open>What a deletion removes, and the amounts it reports.\<close>

definition unpublish_key :: "string \<Rightarrow> store \<Rightarrow> store" where
  "unpublish_key kid s = (let keys = adel kid (st_keys s) in s\<lparr>st_keys := keys, keysByHash := rebuildKeysByHash keys\<rparr>)"

definition deletion_changes :: "nano \<Rightarrow> nano \<Rightarrow> nano \<Rightarrow> nano \<Rightarrow> (string, Change) amap" where
  "deletion_changes daily weekly monthly balance =
     [(''daily_usd'', ANumber (nano_USD daily), ANil), (''weekly_usd'', ANumber (nano_USD weekly), ANil),
      (''monthly_usd'', ANumber (nano_USD monthly), ANil)] @
     (if balance \<noteq> 0 then [(''balance_usd'', ANumber (nano_USD balance), ANil)] else [])"

definition DeleteKey :: "(write_call \<Rightarrow> bool) \<Rightarrow> (write_call \<Rightarrow> bool) \<Rightarrow> (write_call \<Rightarrow> bool) \<Rightarrow> instant \<Rightarrow> instant \<Rightarrow> string \<Rightarrow> store \<Rightarrow>
    store \<times> admin_error option" where
  "DeleteKey fails failsH failsL now wall kid0 s =
     (let kid = TrimSpace kid0
      in if kid = [] then (s, Some IDMissing)
         else if aget (st_keys s) kid = None then (s, Some UnknownKey)
         else case store_saveState fails wall (filter (\<lambda>k. ID k \<noteq> kid) (keysSnapshot s)) (prices_snapshot (st_prices s)) s of
           (s, Some e) \<Rightarrow> (s, Some (StatePersist e))
         | (s, None) \<Rightarrow>
             (let s = unpublish_key kid s;
                  s = s\<lparr>st_limiter := limiter_Reset kid (st_limiter s)\<rparr>;
                  (l, daily, weekly, monthly, balance) = forgetKey now kid (usage s);
                  s = recordAudit (event ''delete_key'' kid (deletion_changes daily weekly monthly balance)) (s\<lparr>usage := l\<rparr>)
              in (fst (store_flush failsH failsL now wall s), None)))"

definition rotate_read :: "(string \<Rightarrow> string) \<Rightarrow> string \<Rightarrow> string \<Rightarrow> store \<Rightarrow> admin_error + KeyConfig" where
  "rotate_read sha plain kid0 s =
     (let kid = TrimSpace kid0
      in if kid = [] then Inl IDMissing
         else case HashKey sha plain of None \<Rightarrow> Inl KeyRequired
         | Some hash \<Rightarrow> (case findByID kid s of None \<Rightarrow> Inl UnknownKey
             | Some key \<Rightarrow> Inr (key\<lparr>KeyHash := hash, KeyPreview := PreviewKey plain\<rparr>)))"

definition rotate_write :: "(write_call \<Rightarrow> bool) \<Rightarrow> instant \<Rightarrow> instant \<Rightarrow> string \<Rightarrow> KeyConfig \<Rightarrow> store \<Rightarrow> store \<times> (admin_error + KeyConfig)" where
  "rotate_write fails now wall kid0 key s = (case applyKeyMutation fails now wall key s of
     (s, Inl e) \<Rightarrow> (s, Inl e)
   | (s, Inr (_, stored)) \<Rightarrow> (recordAudit (event ''rotate_key'' (TrimSpace kid0) []) s, Inr stored))"

definition RotateKey :: "(string \<Rightarrow> string) \<Rightarrow> (write_call \<Rightarrow> bool) \<Rightarrow> instant \<Rightarrow> instant \<Rightarrow> string \<Rightarrow> string \<Rightarrow> store \<Rightarrow>
    store \<times> (admin_error + string \<times> KeyConfig)" where
  "RotateKey sha fails now wall plain kid s = (case rotate_read sha plain kid s of
     Inl e \<Rightarrow> (s, Inl e)
   | Inr key \<Rightarrow> (case rotate_write fails now wall kid key s of
       (s, Inl e) \<Rightarrow> (s, Inl e) | (s, Inr stored) \<Rightarrow> (s, Inr (plain, stored))))"

definition ResetRPM :: "string \<Rightarrow> store \<Rightarrow> store \<times> admin_error option" where
  "ResetRPM kid s = (if TrimSpace kid = [] then (s, Some IDMissing)
     else (s\<lparr>st_limiter := limiter_Reset kid (st_limiter s)\<rparr>, None))"


subsection \<open>Periods and balances\<close>

text \<open>The callback both operations give the ledger: it writes the live file.\<close>

definition persist_live :: "(write_call \<Rightarrow> bool) \<Rightarrow> string \<Rightarrow> string \<Rightarrow> instant \<Rightarrow> files persist_callback" where
  "persist_live fails dataset zone writtenAt = (\<lambda>through keys fs.
     let (f, ok) = writeLive fails dataset zone through keys writtenAt (live_file fs) in (fs\<lparr>live_file := f\<rparr>, ok))"

definition reset_changes :: "UsageResetWindow \<Rightarrow> UsageResetResult \<Rightarrow> (string, Change) amap" where
  "reset_changes w result =
     [(''window'', AText [], AText w),
      (''daily_usd'', ANumber (BeforeDailyUSD result), ANumber (AfterDailyUSD result)),
      (''weekly_usd'', ANumber (BeforeWeeklyUSD result), ANumber (AfterWeeklyUSD result)),
      (''monthly_usd'', ANumber (BeforeMonthlyUSD result), ANumber (AfterMonthlyUSD result)),
      (''next_reset_at'', ANil, ATime (ResetNextBoundaryAt result))]"

definition ResetUsageWindow :: "(write_call \<Rightarrow> bool) \<Rightarrow> instant \<Rightarrow> instant \<Rightarrow> string \<Rightarrow> UsageResetWindow \<Rightarrow> UsageResetExpectation option \<Rightarrow> store \<Rightarrow>
    store \<times> (admin_error + UsageResetResult)" where
  "ResetUsageWindow fails writtenAt now kid0 w expected s =
     (let kid = TrimSpace kid0
      in if kid = [] then (s, Inl IDMissing)
         else if \<not> window_valid w then (s, Inl (InvalidUsageResetWindow w))
         else if (case expected of None \<Rightarrow> False | Some e \<Rightarrow> IsZero (ExpStartedAt e) \<or> IsZero (ExpResetAfterManualAt e))
         then (s, Inl InvalidUsageResetExpectation)
         else if aget (st_keys s) kid = None then (s, Inl UnknownKey)
         else let ((l, fs), r) = resetWindowAndPersist now kid w expected
                    (persist_live fails (datasetID s) (timezone (usage s)) writtenAt) (usage s, st_files s);
                  s = s\<lparr>usage := l, st_files := fs\<rparr>
              in (case r of Inl e \<Rightarrow> (s, Inl (LedgerRejected e))
                  | Inr result \<Rightarrow> (recordAudit (event ''reset_usage'' kid (reset_changes w result)) s, Inr result)))"

definition maxBalanceAdjustmentUSD :: rat where "maxBalanceAdjustmentUSD = 1000000"
definition maxBalanceNoteRunes :: nat where "maxBalanceNoteRunes = 200"
definition maxBalanceRequestIDLen :: nat where "maxBalanceRequestIDLen = 128"

text \<open>\<open>utf8.RuneCountInString\<close>: the length of the valid encoding at the start of a string; a byte
  that starts none is one rune of its own.\<close>

definition cont_byte :: "nat \<Rightarrow> nat \<Rightarrow> char \<Rightarrow> bool" where
  "cont_byte lo hi c \<longleftrightarrow> lo \<le> of_char c \<and> of_char c \<le> hi"

definition rune_len :: "string \<Rightarrow> nat" where
  "rune_len s = (case s of [] \<Rightarrow> 0
   | c0 # rest \<Rightarrow>
       (let a = of_char c0 :: nat;
            second = (if a = 224 then cont_byte 160 191 else if a = 237 then cont_byte 128 159
                      else if a = 240 then cont_byte 144 191 else if a = 244 then cont_byte 128 143 else cont_byte 128 191);
            n = (if 194 \<le> a \<and> a \<le> 223 then 2 else if 224 \<le> a \<and> a \<le> 239 then 3 else if 240 \<le> a \<and> a \<le> 244 then 4 else 1)
        in if n \<noteq> 1 \<and> n - 1 \<le> length rest \<and> second (hd rest) \<and> list_all (cont_byte 128 191) (take (n - 2) (tl rest)) then n else 1))"

function RuneCount :: "string \<Rightarrow> nat" where
  "RuneCount s = (if s = [] then 0 else Suc (RuneCount (drop (max 1 (rune_len s)) s)))"
  by pat_completeness auto
termination
  by (relation "measure length") auto

declare RuneCount.simps [simp del]

definition adjustment_error :: "f64 \<Rightarrow> string \<Rightarrow> string \<Rightarrow> admin_error option" where
  "adjustment_error amountUSD note req =
     (if \<not> IsFinite amountUSD \<or> USDToNano amountUSD = 0 then Some AmountInvalid
      else if f64_lt (Fin maxBalanceAdjustmentUSD) amountUSD \<or> f64_lt amountUSD (Fin (- maxBalanceAdjustmentUSD)) then Some AmountOutOfRange
      else if maxBalanceNoteRunes < RuneCount note then Some NoteTooLong
      else if maxBalanceRequestIDLen < length req then Some RequestIDTooLong
      else None)"

definition adjustment_changes :: "string \<Rightarrow> string \<Rightarrow> BalanceAdjustment \<Rightarrow> (string, Change) amap" where
  "adjustment_changes note req result =
     [(''amount_usd'', ANil, ANumber (AmountUSD result)),
      (''balance_usd'', ANumber (BeforeUSD result), ANumber (AfterUSD result))] @
     (if note \<noteq> [] then [(''note'', ANil, AText note)] else []) @
     (if req \<noteq> [] then [(''request_id'', ANil, AText req)] else [])"

definition AdjustBalance :: "(write_call \<Rightarrow> bool) \<Rightarrow> instant \<Rightarrow> string \<Rightarrow> f64 \<Rightarrow> string \<Rightarrow> string \<Rightarrow> store \<Rightarrow>
    store \<times> (admin_error + BalanceAdjustment)" where
  "AdjustBalance fails writtenAt kid0 amountUSD note0 req0 s =
     (let kid = TrimSpace kid0; note = TrimSpace note0; req = TrimSpace req0
      in if kid = [] then (s, Inl IDMissing)
         else case adjustment_error amountUSD note req of Some e \<Rightarrow> (s, Inl e)
         | None \<Rightarrow> (case aget (st_keys s) kid of
             None \<Rightarrow> (s, Inl UnknownKey)
           | Some key \<Rightarrow>
               if \<not> BalanceMode key then (s, Inl NotBalanceModeKey)
               else let ((l, fs), r) = adjustBalanceAndPersist kid (USDToNano amountUSD) req
                          (persist_live fails (datasetID s) (timezone (usage s)) writtenAt) (usage s, st_files s);
                        s = s\<lparr>usage := l, st_files := fs\<rparr>
                    in (case r of
                          Inl e \<Rightarrow> (s, Inl (LedgerRejected e))
                        | Inr result \<Rightarrow>
                            (if Duplicate result then (s, Inr result)
                             else (recordAudit (event ''adjust_balance'' kid (adjustment_changes note req result)) s, Inr result)))))"


subsection \<open>The invariant of the store\<close>

text \<open>Keys normalized and indexed, prices a valid table whose providers normalization leaves alone,
  the ledger well formed.\<close>

definition provider_settled :: "string \<Rightarrow> bool" where
  "provider_settled p \<longleftrightarrow> normalizeProvider p = p \<and> CHR 0x00 \<notin> set p"

definition prices_settled :: "priceTable \<Rightarrow> bool" where
  "prices_settled t \<longleftrightarrow> table_ok t \<and> (\<forall>r \<in> set (rows t). provider_settled (Provider r))"

definition store_ok :: "store \<Rightarrow> bool" where
  "store_ok s \<longleftrightarrow> keys_indexed s \<and> (\<forall>(_, k) \<in> set (st_keys s). key_normal k) \<and> prices_settled (st_prices s) \<and> ledger_ok (usage s)"

lemma keysSnapshot_set: "set (keysSnapshot s) = snd ` set (st_keys s)"
  by (simp add: keysSnapshot_def)

lemma keysSnapshot_ids:
  assumes "keys_indexed s"
  shows "distinct (map ID (keysSnapshot s))" "ID ` set (keysSnapshot s) = set (akeys (st_keys s))"
proof -
  have same: "map ID (map snd (st_keys s)) = akeys (st_keys s)"
    using assms by (auto simp: keys_indexed_def)
  have "mset (map ID (keysSnapshot s)) = mset (map ID (map snd (st_keys s)))"
    unfolding keysSnapshot_def by (simp only: mset_map mset_sort)
  then have m: "mset (map ID (keysSnapshot s)) = mset (akeys (st_keys s))" unfolding same .
  have "distinct (akeys (st_keys s))" using assms by (simp add: keys_indexed_def amap_ok_def)
  then show "distinct (map ID (keysSnapshot s))" using m by (metis mset_eq_imp_distinct_iff)
  show "ID ` set (keysSnapshot s) = set (akeys (st_keys s))" using arg_cong [OF m, of set_mset] by (simp only: set_mset_mset set_map)
qed

lemma aget_ID:
  assumes "keys_indexed s"
  shows "aget (st_keys s) kid = Some k \<longleftrightarrow> k \<in> set (keysSnapshot s) \<and> ID k = kid"
proof
  assume "aget (st_keys s) kid = Some k"
  then have "(kid, k) \<in> set (st_keys s)" by (rule map_of_SomeD)
  with assms show "k \<in> set (keysSnapshot s) \<and> ID k = kid" unfolding keysSnapshot_set by (force simp: keys_indexed_def)
next
  assume "k \<in> set (keysSnapshot s) \<and> ID k = kid"
  then obtain i where i: "(i, k) \<in> set (st_keys s)" "ID k = kid" by (auto simp: keysSnapshot_set)
  moreover have "ID k = i" using assms i(1) by (force simp: keys_indexed_def)
  ultimately show "aget (st_keys s) kid = Some k" using assms aget_SomeI by (auto simp: keys_indexed_def)
qed


subsection \<open>What is written is what is loaded\<close>

lemma mode_names [simp]: "ToLower (TrimSpace ''tokens'') = ''tokens''" "ToLower (TrimSpace ''per_call'') = ''per_call''"
  by code_simp+

lemma normalize_row_id:
  assumes "row_ok r" "normalizeProvider (Provider r) = Provider r" "idx (row_key r) = None"
  shows "normalize_row i idx r = Inr (r, row_key r)"
proof -
  obtain m where m: "BillingMultiplier r = Fin m" "1 \<le> m" "m \<le> maxBillingMultiplier" using assms(1) by (auto simp: row_ok_def)
  have mode: "BillingMode r = ''tokens'' \<or> BillingMode r = ''per_call''" using assms(1) by (auto simp: row_ok_def)
  have key: "priceKey (ModelName r) (Provider r) = row_key r" by (simp add: row_key_def)
  have same: "r\<lparr>ModelName := ModelName r\<rparr> = r" "r\<lparr>Provider := Provider r\<rparr> = r" "r\<lparr>BillingMode := BillingMode r\<rparr> = r" by simp_all
  have trim: "TrimSpace (ModelName r) = ModelName r" "ModelName r \<noteq> []" using assms(1) by (auto simp: row_ok_def)
  have prices: "validPrice (InputPricePerMillion r) maxPricePerMillion" "validPrice (OutputPricePerMillion r) maxPricePerMillion"
    "validPrice (CacheReadPricePerMillion r) maxPricePerMillion" "validPrice (PerCallUSD r) maxPerCallUSD"
    "\<not> (case CacheWritePricePerMillion r of None \<Rightarrow> False | Some w \<Rightarrow> \<not> validPrice w maxPricePerMillion)"
    using assms(1) by (auto simp: row_ok_def split: option.splits)
  note def = normalize_row_def Let_def trim(1) same(1,2) assms(2) key m(1)
  from mode show ?thesis
  proof
    assume bm: "BillingMode r = ''tokens''"
    then have upd: "r\<lparr>BillingMode := ''tokens''\<rparr> = r" using same(3) by simp
    show ?thesis unfolding def bm using m prices trim(2) assms(3) by (simp add: upd bm)
  next
    assume bm: "BillingMode r = ''per_call''"
    then have upd: "r\<lparr>BillingMode := ''per_call''\<rparr> = r" using same(3) by simp
    show ?thesis unfolding def bm using m prices trim(2) assms(3) by (simp add: upd bm)
  qed
qed

lemma normalize_rows_id:
  assumes "\<forall>r \<in> set rs. row_ok r \<and> normalizeProvider (Provider r) = Provider r \<and> idx (row_key r) = None" "distinct (map row_key rs)"
  shows "\<exists>idx'. normalize_rows i idx rs = Inr (rs, idx')"
  using assms
proof (induction rs arbitrary: i idx)
  case (Cons r rs)
  have "row_key x \<noteq> row_key r" if "x \<in> set rs" for x using Cons.prems(2) that by (metis distinct.simps(2) image_eqI list.simps(9) set_map)
  then have "\<exists>idx'. normalize_rows (i + 1) (idx(row_key r \<mapsto> i)) rs = Inr (rs, idx')" using Cons.prems by (intro Cons.IH) auto
  moreover have "normalize_row i idx r = Inr (r, row_key r)" using Cons.prems by (intro normalize_row_id) auto
  ultimately show ?case by auto
qed simp

lemma normalize_prices_id:
  assumes "\<forall>r \<in> set rs. row_ok r \<and> provider_settled (Provider r)" "distinct (map row_key rs)"
  obtains t where "normalizeModelPrices rs = Inr t" "rows t = rs" "prices_settled t"
proof -
  obtain idx where "normalize_rows 0 Map.empty rs = Inr (rs, idx)"
    using normalize_rows_id [of rs Map.empty 0] assms by (auto simp: provider_settled_def)
  then have n: "normalizeModelPrices rs = Inr \<lparr>rows = rs, row_index = idx\<rparr>" by (simp add: normalizeModelPrices_def)
  from normalizeModelPrices_ok(1) [OF this] assms(1) show thesis by (intro that [OF n]) (auto simp: prices_settled_def)
qed

lemma prices_snapshot_set [simp]: "set (prices_snapshot t) = set (rows t)"
  by (simp add: prices_snapshot_def)

lemma normalize_snapshot:
  assumes "prices_settled t"
  obtains t' where "normalizeModelPrices (prices_snapshot t) = Inr t'" "rows t' = prices_snapshot t" "prices_settled t'"
proof (rule normalize_prices_id [of "prices_snapshot t"])
  have "mset (map row_key (prices_snapshot t)) = mset (map row_key (rows t))"
    unfolding prices_snapshot_def by (simp only: mset_map mset_sort)
  moreover have "distinct (map row_key (rows t))" using assms by (simp add: prices_settled_def table_ok_def)
  ultimately show "distinct (map row_key (prices_snapshot t))" by (metis mset_eq_imp_distinct_iff)
qed (use assms in \<open>auto simp: prices_settled_def table_ok_def\<close>)

lemma normal_keys_fixed: "\<forall>k \<in> set ks. key_normal k \<Longrightarrow> distinct (map ID ks) \<Longrightarrow> normalizeKeys ks = Inr ks"
  unfolding normalizeKeys_def by (rule normalize_keys_id) auto

definition state_holds :: "State raw disk_file \<Rightarrow> KeyConfig list \<Rightarrow> ModelPrice list \<Rightarrow> bool" where
  "state_holds f keys models \<longleftrightarrow> (\<exists>st. LoadState f = Inr st \<and> StKeys st = keys \<and> StModels st = models)"

text \<open>A successful write of settled rows puts exactly them in the file.\<close>

lemma saved_state:
  assumes "\<forall>k \<in> set keys. key_normal k" "distinct (map ID keys)" "normalizeModelPrices models = Inr t" "rows t = models"
    "store_saveState fails wall keys models s = (s', e)"
  shows "s' = s\<lparr>st_files := (st_files s)\<lparr>state_file := state_file (st_files s')\<rparr>\<rparr>"
    "e = None \<Longrightarrow> state_holds (state_file (st_files s')) keys models"
proof -
  obtain f where f: "SaveState fails wall (datasetID s) keys models (state_file (st_files s)) = (f, e)"
    "s' = s\<lparr>st_files := (st_files s)\<lparr>state_file := f\<rparr>\<rparr>"
    using assms(5) by (auto simp: store_saveState_def split: prod.splits)
  then show "s' = s\<lparr>st_files := (st_files s)\<lparr>state_file := state_file (st_files s')\<rparr>\<rparr>" by simp
  assume none: "e = None"
  let ?ds = "TrimSpace (datasetID s)"
  let ?st = "\<lparr>StVersion = currentFileVersion, StDatasetID = ?ds, StKeys = keys, StModels = models, StUpdatedAt = wall\<rparr>"
  note nk = normal_keys_fixed [OF assms(1,2)]
  have ne: "?ds \<noteq> []" and aw: "AtomicWrite fails (Document currentFileVersion ?ds (Some ?st)) (state_file (st_files s)) = (f, True)"
    using f(1) none nk assms(3,4) by (auto simp: SaveState_def MarshalState_def Let_def split: if_splits prod.splits)
  from AtomicWrite_ok [OF aw] have "state_file (st_files s') = Content (Document currentFileVersion ?ds (Some ?st))" by (simp add: f(2))
  then have "LoadState (state_file (st_files s')) = Inr ?st"
    using ne nk assms(3,4) by (simp add: LoadState_def decodeState_def decode_document_current)
  then show "state_holds (state_file (st_files s')) keys models" unfolding state_holds_def by (intro exI [of _ ?st]) simp
qed


subsection \<open>One key replaced in the list\<close>

lemma takeWhile_shorter: "\<exists>x \<in> set xs. \<not> P x \<Longrightarrow> length (takeWhile P xs) < length xs"
  by (induction xs) auto

lemma key_index_cases:
  obtains (found) "key_index kid keys < length keys" "ID (keys ! key_index kid keys) = kid" "kid \<in> ID ` set keys"
  | (fresh) "key_index kid keys = length keys" "kid \<notin> ID ` set keys"
proof (cases "kid \<in> ID ` set keys")
  case True
  then have "\<exists>k \<in> set keys. \<not> ID k \<noteq> kid" by auto
  then have "length (takeWhile (\<lambda>k. ID k \<noteq> kid) keys) < length keys" by (rule takeWhile_shorter)
  with True show thesis using nth_length_takeWhile [of "\<lambda>k. ID k \<noteq> kid" keys] by (intro found) (simp_all add: key_index_def)
next
  case False
  then have "takeWhile (\<lambda>k. ID k \<noteq> kid) keys = keys" unfolding takeWhile_eq_all_conv by auto
  then have "key_index kid keys = length keys" by (simp only: key_index_def)
  then show thesis using False by (rule fresh)
qed

lemma put_key_nth: "put_key k keys ! key_index (ID k) keys = k" "key_index (ID k) keys < length (put_key k keys)"
  by (cases rule: key_index_cases [of "ID k" keys]; simp add: put_key_def)+

lemma map_ID_put: "map ID (put_key k keys) = (if ID k \<in> ID ` set keys then map ID keys else map ID keys @ [ID k])"
proof (cases rule: key_index_cases [of "ID k" keys])
  case found
  then show ?thesis by (simp add: put_key_def map_update) (metis length_map list_update_id nth_map)
qed (simp add: put_key_def)

lemma put_key_set:
  assumes "distinct (map ID keys)"
  shows "set (put_key k keys) = insert k {x \<in> set keys. ID x \<noteq> ID k}"
proof (cases rule: key_index_cases [of "ID k" keys])
  case found
  let ?i = "key_index (ID k) keys"
  have "ID (keys ! j) \<noteq> ID k" if "j < length keys" "j \<noteq> ?i" for j
    using assms that found(1,2) by (metis distinct_conv_nth length_map nth_map)
  then show ?thesis using found(1,2)
    by (auto simp: put_key_def set_conv_nth nth_list_update) metis+
qed (auto simp: put_key_def image_iff)

text \<open>Normalizing a list keeps the keys that are normal where they are.\<close>

lemma normalize_normal: "key_normal k \<Longrightarrow> normalize_key seen k = Inr k' \<Longrightarrow> k' = k"
  using normalize_key_normal [of seen k k'] normalize_key_id [of k seen] by (auto simp: key_normal_def key_ok_def)

lemma normalize_keys_nth:
  "normalize_keys seen ks = Inr ks' \<Longrightarrow> i < length ks \<Longrightarrow> key_normal (ks ! i) \<Longrightarrow> ks' ! i = ks ! i"
proof (induction ks arbitrary: seen ks' i)
  case (Cons k ks)
  then obtain k' rest where r: "normalize_key seen k = Inr k'" "normalize_keys (ID k' # seen) ks = Inr rest" "ks' = k' # rest"
    by (auto split: sum.splits)
  show ?case
  proof (cases i)
    case 0
    then show ?thesis using Cons.prems(3) normalize_normal [OF _ r(1)] by (simp add: r(3))
  next
    case (Suc j)
    then show ?thesis using Cons.IH [OF r(2), of j] Cons.prems by (simp add: r(3))
  qed
qed simp

lemma normalize_keys_at:
  "normalize_keys seen ks = Inr ks' \<Longrightarrow> i < length ks \<Longrightarrow> \<exists>seen'. normalize_key seen' (ks ! i) = Inr (ks' ! i)"
proof (induction ks arbitrary: seen ks' i)
  case (Cons k ks)
  then obtain k' rest where r: "normalize_key seen k = Inr k'" "normalize_keys (ID k' # seen) ks = Inr rest" "ks' = k' # rest"
    by (auto split: sum.splits)
  then show ?case using Cons.IH [OF r(2)] Cons.prems(2) by (cases i) auto
qed simp

text \<open>What the caller asked for and what is stored.\<close>

definition same_settings :: "KeyConfig \<Rightarrow> KeyConfig \<Rightarrow> bool" where
  "same_settings input stored \<longleftrightarrow> Enabled stored = Enabled input \<and> KeyHash stored = TrimSpace (KeyHash input) \<and>
     KeyPreview stored = TrimSpace (KeyPreview input) \<and> RPM stored = RPM input \<and> DailyLimitUSD stored = DailyLimitUSD input \<and>
     WeeklyLimitUSD stored = WeeklyLimitUSD input \<and> MonthlyLimitUSD stored = MonthlyLimitUSD input \<and>
     CreatedAt stored = CreatedAt input \<and> UpdatedAt stored = UpdatedAt input"

lemma normalize_settings: "normalize_key seen k = Inr k' \<Longrightarrow> same_settings k k'"
  unfolding normalize_key_def Let_def by (auto simp: same_settings_def split: if_splits)

lemma normalized_put:
  assumes "\<forall>k \<in> set keys. key_normal k" "normalizeKeys (put_key input keys) = Inr keys'" "TrimSpace (ID input) = ID input"
  obtains stored where "keys' = put_key stored keys" "keys' ! key_index (ID input) keys = stored" "ID stored = ID input" "key_normal stored"
    "same_settings input stored"
proof -
  let ?i = "key_index (ID input) keys" and ?p = "put_key input keys"
  note n = normalize_keys_normal [OF assms(2) [unfolded normalizeKeys_def]]
  define stored where "stored = keys' ! ?i"
  have len: "length keys' = length ?p" using n by (metis length_map)
  have ids: "ID (keys' ! j) = TrimSpace (ID (?p ! j))" if "j < length ?p" for j
    using n that len by (metis nth_map)
  have sid: "ID stored = ID input" using ids [OF put_key_nth(2)] put_key_nth(1) assms(3) by (simp add: stored_def)
  have same: "keys' ! j = ?p ! j" if "j < length ?p" "j \<noteq> ?i" for j
  proof -
    have "?p ! j \<in> set keys" using that by (cases rule: key_index_cases [of "ID input" keys]) (auto simp: put_key_def nth_append)
    then show ?thesis using normalize_keys_nth [OF assms(2) [unfolded normalizeKeys_def] that(1)] assms(1) by blast
  qed
  have "keys' = put_key stored keys"
  proof (rule nth_equalityI)
    show "length keys' = length (put_key stored keys)" by (simp add: len put_key_def sid)
    fix j
    assume j: "j < length keys'"
    show "keys' ! j = put_key stored keys ! j"
    proof (cases "j = ?i")
      case True
      have "keys' ! ?i = stored" by (simp add: stored_def)
      then show ?thesis using put_key_nth(1) [of stored keys] by (simp only: True sid)
    next
      case False
      then show ?thesis using same [of j] j len
        by (cases rule: key_index_cases [of "ID input" keys]) (auto simp: put_key_def sid nth_append)
    qed
  qed
  moreover have "stored \<in> set keys'" unfolding stored_def using put_key_nth(2) [of input keys] len by (intro nth_mem) simp
  then have "key_normal stored" using n by blast
  moreover have "same_settings input stored"
    using normalize_keys_at [OF assms(2) [unfolded normalizeKeys_def] put_key_nth(2)] put_key_nth(1) [of input keys]
      normalize_settings [of _ input stored] by (auto simp: stored_def)
  ultimately show thesis using that [OF _ stored_def [symmetric] sid] by simp
qed


subsection \<open>A key write\<close>

lemma publish_fields [simp]:
  "usage (publish_key k s) = usage s" "st_files (publish_key k s) = st_files s" "st_prices (publish_key k s) = st_prices s"
  "st_keys (publish_key k s) = aset (ID k) k (st_keys s)" "st_limiter (publish_key k s) = st_limiter s" "audit (publish_key k s) = audit s"
  by (simp_all add: publish_key_def Let_def)

lemma set_aget: "amap_ok m \<Longrightarrow> (i, k) \<in> set m \<longleftrightarrow> aget m i = Some k"
  using aget_SomeI map_of_SomeD by fastforce

lemma publish_indexed:
  assumes "keys_indexed s"
  shows "keys_indexed (publish_key k s)"
    "set (keysSnapshot (publish_key k s)) = insert k {x \<in> set (keysSnapshot s). ID x \<noteq> ID k}"
proof -
  have ok: "amap_ok (st_keys s)" "\<forall>(i, x) \<in> set (st_keys s). ID x = i" using assms by (simp_all add: keys_indexed_def)
  have mem: "(i, x) \<in> set (aset (ID k) k (st_keys s)) \<longleftrightarrow> (if i = ID k then x = k else (i, x) \<in> set (st_keys s))" for i x
    using ok(1) by (simp add: set_aget) auto
  then show "keys_indexed (publish_key k s)" using ok by (auto simp: keys_indexed_def publish_key_def Let_def split: if_splits)
  show "set (keysSnapshot (publish_key k s)) = insert k {x \<in> set (keysSnapshot s). ID x \<noteq> ID k}"
    unfolding keysSnapshot_set publish_fields
  proof (intro set_eqI iffI)
    fix x
    assume "x \<in> snd ` set (aset (ID k) k (st_keys s))"
    then obtain i where i: "(i, x) \<in> set (aset (ID k) k (st_keys s))" by auto
    then show "x \<in> insert k {x \<in> snd ` set (st_keys s). ID x \<noteq> ID k}"
      using ok(2) unfolding mem by (cases "i = ID k") force+
  next
    fix x
    assume "x \<in> insert k {x \<in> snd ` set (st_keys s). ID x \<noteq> ID k}"
    then have "x = k \<or> (ID x, x) \<in> set (st_keys s) \<and> ID x \<noteq> ID k" using ok(2) by auto
    then have "(ID x, x) \<in> set (aset (ID k) k (st_keys s))" unfolding mem by auto
    then show "x \<in> snd ` set (aset (ID k) k (st_keys s))" by force
  qed
qed

lemma keys_indexed_cong: "st_keys s' = st_keys s \<Longrightarrow> keysByHash s' = keysByHash s \<Longrightarrow> keys_indexed s' = keys_indexed s"
  by (simp add: keys_indexed_def)

lemma keysSnapshot_cong: "st_keys s' = st_keys s \<Longrightarrow> keysSnapshot s' = keysSnapshot s"
  by (simp add: keysSnapshot_def)

lemma openCycles_ok: "ledger_ok l \<Longrightarrow> ledger_ok (openCyclesLocked k now l)"
  using mem_rel_openCycles [of l now k now] by (simp add: mem_rel_def)

lemma openCycles_open: "Cycles (usage_of (openCyclesLocked k now l) (ID k)) \<noteq> None"
  by (auto simp: openCyclesLocked_def Let_def split: prod.splits option.splits)

definition with_state_file :: "State raw disk_file \<Rightarrow> store \<Rightarrow> store" where
  "with_state_file f s = s\<lparr>st_files := (st_files s)\<lparr>state_file := f\<rparr>\<rparr>"

lemma with_state_file_fields [simp]:
  "usage (with_state_file f s) = usage s" "st_keys (with_state_file f s) = st_keys s" "keysByHash (with_state_file f s) = keysByHash s"
  "st_prices (with_state_file f s) = st_prices s" "state_file (st_files (with_state_file f s)) = f"
  "live_file (st_files (with_state_file f s)) = live_file (st_files s)" "history_file (st_files (with_state_file f s)) = history_file (st_files s)"
  "audit (with_state_file f s) = audit s" "st_limiter (with_state_file f s) = st_limiter s"
  by (simp_all add: with_state_file_def)

text \<open>The outcomes of a key write: rejected or not written, with the memory as it was, or stored.\<close>

lemma key_write_cases:
  assumes "store_ok s"
  obtains (refused) e f where "applyKeyMutation fails now wall input s = (with_state_file f s, Inl e)"
  | (stored) f previous stored where "applyKeyMutation fails now wall input s =
        (publish_key stored ((with_state_file f s)\<lparr>usage := openCyclesLocked stored now (usage s)\<rparr>), Inr (previous, stored))"
      "ID stored = TrimSpace (ID input)" "key_normal stored" "previous = aget (st_keys s) (ID stored)"
      "secretUnique (put_key stored (keysSnapshot s)) stored = None"
      "state_holds f (put_key stored (keysSnapshot s)) (prices_snapshot (st_prices s))"
      "same_settings (stamp_key now previous (input\<lparr>ID := TrimSpace (ID input)\<rparr>)) stored"
proof -
  let ?keys = "keysSnapshot s" and ?models = "prices_snapshot (st_prices s)"
  define in0 where "in0 = input\<lparr>ID := TrimSpace (ID input)\<rparr>"
  define previous where "previous = find (\<lambda>k. ID k = ID in0) ?keys"
  define inp where "inp = stamp_key now previous in0"
  have id: "ID inp = TrimSpace (ID input)" by (simp add: inp_def in0_def stamp_key_def Let_def split: option.splits)
  have ix: "keys_indexed s" "\<forall>k \<in> set ?keys. key_normal k" "prices_settled (st_prices s)"
    using assms by (auto simp: store_ok_def keysSnapshot_set)
  have self: "with_state_file (state_file (st_files s)) s = s" by (simp add: with_state_file_def)
  note def = applyKeyMutation_def Let_def in0_def [symmetric] previous_def [symmetric] inp_def [symmetric]
  show thesis
  proof (cases "normalizeKeys (put_key inp ?keys)")
    case (Inl e)
    then show thesis by (intro refused [of "state_file (st_files s)" "KeysRejected e"]) (simp add: def self)
  next
    case (Inr keys')
    obtain stored where st: "keys' = put_key stored ?keys" "keys' ! key_index (ID inp) ?keys = stored" "ID stored = ID inp"
        "key_normal stored" "same_settings inp stored"
      by (rule normalized_put [OF ix(2) Inr]) (simp_all add: id)
    show thesis
    proof (cases "secretUnique keys' stored")
      case (Some e)
      then show thesis using Inr st(2) by (intro refused [of "state_file (st_files s)" "KeysRejected e"]) (simp add: def self)
    next
      case None
      obtain s' e where sv: "store_saveState fails wall keys' ?models s = (s', e)" by fastforce
      obtain t where t: "normalizeModelPrices ?models = Inr t" "rows t = ?models" by (rule normalize_snapshot [OF ix(3)])
      have kn: "\<forall>k \<in> set keys'. key_normal k" "distinct (map ID keys')"
        using normalize_keys_normal [OF Inr [unfolded normalizeKeys_def]] by blast+
      note saved = saved_state [OF kn t sv]
      define f where "f = state_file (st_files s')"
      have s': "s' = with_state_file f s" using saved(1) by (simp add: with_state_file_def f_def)
      show thesis
      proof (cases e)
        case (Some x)
        then show thesis using Inr st(2) None sv s' by (intro refused [of f "StatePersist x"]) (simp add: def)
      next
        case none: None
        have prev: "previous = aget (st_keys s) (ID stored)"
        proof (cases previous)
          case None
          then have "aget (st_keys s) (ID stored) \<noteq> Some k" for k
            unfolding aget_ID [OF ix(1)] by (auto simp: previous_def find_None_iff in0_def id st(3))
          then show ?thesis using None by (cases "aget (st_keys s) (ID stored)") auto
        next
          case (Some p)
          then have "p \<in> set ?keys" "ID p = ID stored" by (auto simp: previous_def find_Some_iff in0_def id st(3))
          then show ?thesis using Some aget_ID [OF ix(1), of "ID stored" p] by simp
        qed
        have st2: "same_settings (stamp_key now previous (input\<lparr>ID := TrimSpace (ID input)\<rparr>)) stored" using st(5) by (simp add: inp_def in0_def)
        have "applyKeyMutation fails now wall input s =
            (publish_key stored ((with_state_file f s)\<lparr>usage := openCyclesLocked stored now (usage s)\<rparr>), Inr (previous, stored))"
          using Inr st(2) None sv s' none by (simp add: def)
        then show thesis using st id None saved(2) [OF none] prev st2 by (intro stored) (simp_all add: f_def)
      qed
    qed
  qed
qed


lemma event_fields [simp]:
  "st_keys (recordAudit e s) = st_keys s" "keysByHash (recordAudit e s) = keysByHash s" "usage (recordAudit e s) = usage s"
  "st_files (recordAudit e s) = st_files s" "st_prices (recordAudit e s) = st_prices s" "st_limiter (recordAudit e s) = st_limiter s"
  "audit (recordAudit e s) = audit s @ [e]"
  by (simp_all add: recordAudit_def)

lemma store_ok_cong:
  "st_keys s' = st_keys s \<Longrightarrow> keysByHash s' = keysByHash s \<Longrightarrow> st_prices s' = st_prices s \<Longrightarrow> usage s' = usage s \<Longrightarrow> store_ok s' = store_ok s"
  by (simp add: store_ok_def keys_indexed_def)

lemma store_ok_audit [simp]: "store_ok (recordAudit e s) = store_ok s"
  by (rule store_ok_cong) simp_all

lemma keysSnapshot_audit [simp]: "keysSnapshot (recordAudit e s) = keysSnapshot s"
  by (rule keysSnapshot_cong) simp

text \<open>The store a key write publishes.\<close>

lemma published_ok:
  assumes "store_ok s" "key_normal k" "s' = publish_key k ((with_state_file f s)\<lparr>usage := l\<rparr>)" "ledger_ok l"
  shows "store_ok s'" "set (keysSnapshot s') = set (put_key k (keysSnapshot s))"
proof -
  let ?s = "(with_state_file f s)\<lparr>usage := l\<rparr>"
  have ix: "keys_indexed s" using assms(1) by (simp add: store_ok_def)
  have ix': "keys_indexed ?s" using ix by (simp add: keys_indexed_def)
  have snap: "keysSnapshot ?s = keysSnapshot s" by (simp add: keysSnapshot_def)
  note p = publish_indexed [OF ix', of k]
  show set: "set (keysSnapshot s') = set (put_key k (keysSnapshot s))"
    unfolding assms(3) p(2) snap put_key_set [OF keysSnapshot_ids(1) [OF ix]] ..
  have "\<forall>x \<in> set (keysSnapshot s'). key_normal x"
    using assms(1,2) unfolding set put_key_set [OF keysSnapshot_ids(1) [OF ix]] by (auto simp: store_ok_def keysSnapshot_set)
  then have "\<forall>(_, x) \<in> set (st_keys s'). key_normal x" by (auto simp: keysSnapshot_set)
  then show "store_ok s'" using p(1) assms by (simp add: store_ok_def)
qed

text \<open>Secrets stay unique: the write checks the key it stores against all the others.\<close>

lemma secrets_unique_iff:
  assumes "keys_indexed s"
  shows "secrets_unique s \<longleftrightarrow> (\<forall>a \<in> set (keysSnapshot s). \<forall>b \<in> set (keysSnapshot s).
    ID a \<noteq> ID b \<longrightarrow> secret_of a \<noteq> [] \<longrightarrow> secret_of a \<noteq> secret_of b)"
  unfolding keysSnapshot_set secrets_unique_def uniqueSecrets_def first_error_None secretUnique_None by fastforce

lemma published_unique:
  assumes "store_ok s" "secrets_unique s" "secretUnique (put_key k (keysSnapshot s)) k = None"
    "store_ok s'" "set (keysSnapshot s') = set (put_key k (keysSnapshot s))"
  shows "secrets_unique s'"
proof -
  have ix: "keys_indexed s" "keys_indexed s'" using assms(1,4) by (simp_all add: store_ok_def)
  note ps = put_key_set [OF keysSnapshot_ids(1) [OF ix(1)], of k]
  have k: "secret_of k = [] \<or> (\<forall>x \<in> set (put_key k (keysSnapshot s)). ID x \<noteq> ID k \<longrightarrow> secret_of x \<noteq> secret_of k)"
    using assms(3) unfolding secretUnique_None .
  show ?thesis using assms(2) k unfolding secrets_unique_iff [OF ix(1)] secrets_unique_iff [OF ix(2)] assms(5) ps
    by (metis (no_types, lifting) insert_iff mem_Collect_eq)
qed

lemma state_holds_keys: "state_holds f ks ms \<Longrightarrow> \<exists>st. LoadState f = Inr st \<and> set (StKeys st) = set ks \<and> StModels st = ms"
  by (auto simp: state_holds_def)

lemma upsert_stored:
  assumes "store_ok s" "UpsertKey fails now wall input s = (s', None)"
  shows "store_ok s' \<and> (secrets_unique s \<longrightarrow> secrets_unique s') \<and>
    (\<exists>k. aget (st_keys s') (TrimSpace (ID input)) = Some k \<and> key_normal k \<and> Enabled k = Enabled input \<and> RPM k = RPM input \<and>
      (\<forall>kid. kid \<noteq> ID k \<longrightarrow> aget (st_keys s') kid = aget (st_keys s) kid) \<and> Cycles (usage_of (usage s') (ID k)) \<noteq> None) \<and>
    (\<exists>st. LoadState (state_file (st_files s')) = Inr st \<and> set (StKeys st) = set (keysSnapshot s') \<and>
      StModels st = prices_snapshot (st_prices s'))"
proof (rule key_write_cases [OF assms(1), where fails = fails and now = now and wall = wall and input = input])
  fix f e
  assume "applyKeyMutation fails now wall input s = (with_state_file f s, Inl e)"
  then show ?thesis using assms(2) by (simp add: UpsertKey_def)
next
  fix f previous stored
  assume w: "applyKeyMutation fails now wall input s =
      (publish_key stored ((with_state_file f s)\<lparr>usage := openCyclesLocked stored now (usage s)\<rparr>), Inr (previous, stored))"
    "ID stored = TrimSpace (ID input)" "key_normal stored" "previous = aget (st_keys s) (ID stored)"
    "secretUnique (put_key stored (keysSnapshot s)) stored = None"
    "state_holds f (put_key stored (keysSnapshot s)) (prices_snapshot (st_prices s))"
    "same_settings (stamp_key now previous (input\<lparr>ID := TrimSpace (ID input)\<rparr>)) stored"
  let ?p = "publish_key stored ((with_state_file f s)\<lparr>usage := openCyclesLocked stored now (usage s)\<rparr>)"
  obtain e where s': "s' = recordAudit e ?p" using assms(2) w(1) by (auto simp: UpsertKey_def)
  have lok: "ledger_ok (openCyclesLocked stored now (usage s))" using assms(1) openCycles_ok by (simp add: store_ok_def)
  note p = published_ok [OF assms(1) w(3) refl lok]
  have set': "set (keysSnapshot s') = set (put_key stored (keysSnapshot s))" "store_ok s'"
    using p unfolding s' keysSnapshot_audit store_ok_audit by simp_all
  have uq: "secrets_unique s \<longrightarrow> secrets_unique s'"
    using published_unique [OF assms(1) _ w(5) set'(2,1)] by blast
  have en: "Enabled stored = Enabled input" "RPM stored = RPM input" using w(7)
    by (auto simp: same_settings_def stamp_key_def Let_def split: option.splits)
  have a: "aget (st_keys s') kid = (if kid = ID stored then Some stored else aget (st_keys s) kid)" for kid
    by (simp add: s')
  have c: "Cycles (usage_of (usage s') (ID stored)) \<noteq> None" using openCycles_open [of stored now "usage s"] by (simp add: s')
  have pr: "state_file (st_files s') = f" "st_prices s' = st_prices s" by (simp_all add: s')
  have "aget (st_keys s') (TrimSpace (ID input)) = Some stored" "\<forall>kid. kid \<noteq> ID stored \<longrightarrow> aget (st_keys s') kid = aget (st_keys s) kid"
    unfolding a by (simp_all add: w(2))
  then have "\<exists>k. aget (st_keys s') (TrimSpace (ID input)) = Some k \<and> key_normal k \<and> Enabled k = Enabled input \<and> RPM k = RPM input \<and>
      (\<forall>kid. kid \<noteq> ID k \<longrightarrow> aget (st_keys s') kid = aget (st_keys s) kid) \<and> Cycles (usage_of (usage s') (ID k)) \<noteq> None"
    using w(3) en c by (intro exI [of _ stored]) simp
  moreover have "\<exists>st. LoadState (state_file (st_files s')) = Inr st \<and> set (StKeys st) = set (keysSnapshot s') \<and>
      StModels st = prices_snapshot (st_prices s')"
    using state_holds_keys [OF w(6)] by (simp only: pr set'(1))
  ultimately show ?thesis using set'(2) uq by simp
qed

text \<open>C18: A key write is durable when it is answered: after a successful create or update the store is
  well formed again, the state file loads exactly the keys and prices in memory, no two keys share a
  secret, the key has its settings and its quota periods are open, and every other key is untouched.\<close>

theorem upsert_durable:
  assumes "store_ok s" "UpsertKey fails now wall input s = (s', None)"
  shows "store_ok s' \<and> (secrets_unique s \<longrightarrow> secrets_unique s') \<and>
    (\<exists>k. aget (st_keys s') (TrimSpace (ID input)) = Some k \<and> key_normal k \<and> Enabled k = Enabled input \<and> RPM k = RPM input \<and>
      (\<forall>kid. kid \<noteq> ID k \<longrightarrow> aget (st_keys s') kid = aget (st_keys s) kid) \<and> Cycles (usage_of (usage s') (ID k)) \<noteq> None) \<and>
    (\<exists>st. LoadState (state_file (st_files s')) = Inr st \<and> set (StKeys st) = set (keysSnapshot s') \<and>
      StModels st = prices_snapshot (st_prices s'))"
  using assms by (rule upsert_stored)


subsection \<open>What a flush leaves alone\<close>

lemma current_bucket [simp]: "ledger_bucket (fst (currentCyclesLocked kid now l)) k d m = ledger_bucket l k d m"
proof (cases "aget (entries l) kid")
  case (Some u)
  then have u: "day_bucket (u\<lparr>Cycles := c\<rparr>) d m = ledger_bucket l kid d m" for c by (simp add: ledger_bucket_def usage_of_def)
  show ?thesis
  proof (cases "Cycles u")
    case (Some cs)
    obtain cs' adv where a: "advanceCyclesLocked (ledger_location l) cs now = (cs', adv)" by fastforce
    show ?thesis using ledger_bucket_aset [OF u, where k = k]
      by (simp add: currentCyclesLocked_def \<open>aget (entries l) kid = Some u\<close> Some a Let_def)
  qed (simp add: currentCyclesLocked_def Some)
qed (simp add: currentCyclesLocked_def)

lemma current_no_meta:
  "ledger_meta l kid = (None, None) \<Longrightarrow> ledger_meta (fst (currentCyclesLocked k now l)) kid = (None, None)"
  by (cases "aget (entries l) k"; cases "Cycles (usage_of l k)")
    (auto simp: currentCyclesLocked_def ledger_meta_def usage_of_def Let_def split: option.splits prod.splits if_splits)

lemma advance_all_keeps:
  "ledger_bucket (advance_all now l) k d m = ledger_bucket l k d m"
  "ledger_meta l kid = (None, None) \<Longrightarrow> ledger_meta (advance_all now l) kid = (None, None)"
proof -
  have "ledger_bucket (fold (\<lambda>x l. fst (currentCyclesLocked x now l)) xs l) k d m = ledger_bucket l k d m" for xs l
    by (induction xs arbitrary: l) simp_all
  then show "ledger_bucket (advance_all now l) k d m = ledger_bucket l k d m" by (simp add: advance_all_def)
  have "ledger_meta l kid = (None, None) \<Longrightarrow> ledger_meta (fold (\<lambda>x l. fst (currentCyclesLocked x now l)) xs l) kid = (None, None)" for xs l
    by (induction xs arbitrary: l) (simp_all add: current_no_meta)
  then show "ledger_meta l kid = (None, None) \<Longrightarrow> ledger_meta (advance_all now l) kid = (None, None)" by (simp add: advance_all_def)
qed

lemma evict_no_meta:
  assumes "ledger_ok l" "ledger_meta l kid = (None, None)"
  shows "ledger_meta (evict now l) kid = (None, None)"
proof -
  have "amap_ok (entries l)" using assms(1) by (simp add: ledger_ok_def)
  from evict_usage [OF this] assms(2) show ?thesis by (simp add: ledger_meta_def Let_def evict_days_def empty_usage_def)
qed

lemma plan_keeps:
  assumes "ledger_ok l0" "planFlush now l0 = (l', p)"
  shows "ledger_ok l'" "oldestKept l0 now \<le> d \<Longrightarrow> ledger_bucket l' k d m = ledger_bucket l0 k d m"
    "ledger_meta l0 kid = (None, None) \<Longrightarrow> ledger_meta l' kid = (None, None)"
    "p = Some plan \<Longrightarrow> mark_le (plan_historyThrough plan) (closedThrough l')"
proof -
  let ?l = "advance_all now (evict now l0)"
  have ok: "ledger_ok ?l" using mem_rel_plan_base [OF assms(1), of now] by (simp add: mem_rel_def)
  have b: "oldestKept l0 now \<le> d \<Longrightarrow> ledger_bucket ?l k d m = ledger_bucket l0 k d m"
    using evict_kept [OF assms(1)] by (simp add: advance_all_keeps)
  have n: "ledger_meta l0 kid = (None, None) \<Longrightarrow> ledger_meta ?l kid = (None, None)"
    using advance_all_keeps(2) evict_no_meta [OF assms(1)] by blast
  have r: "ledger_ok l' \<and> (oldestKept l0 now \<le> d \<longrightarrow> ledger_bucket l' k d m = ledger_bucket l0 k d m) \<and>
      (ledger_meta l0 kid = (None, None) \<longrightarrow> ledger_meta l' kid = (None, None)) \<and>
      (p = Some plan \<longrightarrow> mark_le (plan_historyThrough plan) (closedThrough l'))"
    using assms(2)
  proof (cases rule: planFlush_cases)
    case (history T)
    have "ledger_ok l'" using ok mark_le_trans [OF _ mark_le_max(1)] by (simp add: history(2) ledger_ok_def)
    then show ?thesis using b n mark_le_max(2) by (auto simp: history(2,3))
  qed (use ok b n in auto)
  then show "ledger_ok l'" "oldestKept l0 now \<le> d \<Longrightarrow> ledger_bucket l' k d m = ledger_bucket l0 k d m"
    "ledger_meta l0 kid = (None, None) \<Longrightarrow> ledger_meta l' kid = (None, None)"
    "p = Some plan \<Longrightarrow> mark_le (plan_historyThrough plan) (closedThrough l')" by blast+
qed

lemma flush_keeps:
  assumes "ledger_ok l0" "FlushUsage fH fL now t ds (l0, lf, hf) = ((l, lf', hf'), e)"
  shows "ledger_ok l" "oldestKept l0 now \<le> d \<Longrightarrow> ledger_bucket l k d m = ledger_bucket l0 k d m"
    "ledger_meta l0 kid = (None, None) \<Longrightarrow> ledger_meta l kid = (None, None)"
proof -
  obtain l1 p where p: "planFlush now l0 = (l1, p)" by fastforce
  note k = plan_keeps [OF assms(1) p]
  have "\<exists>plan h ok. l = l1 \<or> p = Some plan \<and> l = markFlushed plan h ok l1"
    using assms(2) p by (cases p) (auto simp: FlushUsage_def Let_def split: prod.splits)
  then obtain plan h ok where l: "l = l1 \<or> p = Some plan \<and> l = markFlushed plan h ok l1" by blast
  then have same: "entries l = entries l1" by auto
  then have e: "ledger_bucket l = ledger_bucket l1" "ledger_meta l = ledger_meta l1"
    by (simp_all add: fun_eq_iff ledger_bucket_def ledger_meta_def usage_of_def)
  show "ledger_ok l" using l k(1,4) by (auto simp: ledger_ok_def)
  show "oldestKept l0 now \<le> d \<Longrightarrow> ledger_bucket l k d m = ledger_bucket l0 k d m"
    "ledger_meta l0 kid = (None, None) \<Longrightarrow> ledger_meta l kid = (None, None)"
    unfolding e using k by blast+
qed

lemma store_flush_fields [simp]:
  "st_keys (fst (store_flush fH fL now wall s)) = st_keys s" "keysByHash (fst (store_flush fH fL now wall s)) = keysByHash s"
  "st_prices (fst (store_flush fH fL now wall s)) = st_prices s" "st_limiter (fst (store_flush fH fL now wall s)) = st_limiter s"
  "audit (fst (store_flush fH fL now wall s)) = audit s"
  "state_file (st_files (fst (store_flush fH fL now wall s))) = state_file (st_files s)"
  by (simp_all add: store_flush_def noteFlush_def count_health_def Let_def split: prod.split option.split)

lemma store_flush_usage:
  assumes "ledger_ok (usage s)"
  shows "ledger_ok (usage (fst (store_flush fH fL now wall s)))"
    "oldestKept (usage s) now \<le> d \<Longrightarrow> ledger_bucket (usage (fst (store_flush fH fL now wall s))) k d m = ledger_bucket (usage s) k d m"
    "ledger_meta (usage s) kid = (None, None) \<Longrightarrow> ledger_meta (usage (fst (store_flush fH fL now wall s))) kid = (None, None)"
proof -
  obtain l lf hf e where f: "FlushUsage fH fL now wall (datasetID s) (usage s, live_file (st_files s), history_file (st_files s)) = ((l, lf, hf), e)"
    by (metis prod_cases3 surj_pair)
  have "usage (fst (store_flush fH fL now wall s)) = (if statePath s = [] \<or> datasetID s = [] then usage s else l)"
    by (simp add: store_flush_def f noteFlush_def count_health_def Let_def split: prod.split option.split)
  with flush_keeps [OF assms f] assms show
    "ledger_ok (usage (fst (store_flush fH fL now wall s)))"
    "oldestKept (usage s) now \<le> d \<Longrightarrow> ledger_bucket (usage (fst (store_flush fH fL now wall s))) k d m = ledger_bucket (usage s) k d m"
    "ledger_meta (usage s) kid = (None, None) \<Longrightarrow> ledger_meta (usage (fst (store_flush fH fL now wall s))) kid = (None, None)"
    by simp_all
qed


subsection \<open>A deletion\<close>

lemma unpublish_indexed:
  assumes "keys_indexed s"
  shows "keys_indexed (unpublish_key kid s)" "set (keysSnapshot (unpublish_key kid s)) = {x \<in> set (keysSnapshot s). ID x \<noteq> kid}"
    "st_keys (unpublish_key kid s) = adel kid (st_keys s)"
proof -
  have ok: "amap_ok (st_keys s)" "\<forall>(i, x) \<in> set (st_keys s). ID x = i" using assms by (simp_all add: keys_indexed_def)
  have mem: "(i, x) \<in> set (adel kid (st_keys s)) \<longleftrightarrow> i \<noteq> kid \<and> (i, x) \<in> set (st_keys s)" for i x
    using ok(1) by (simp add: set_aget)
  show e: "st_keys (unpublish_key kid s) = adel kid (st_keys s)" by (simp add: unpublish_key_def Let_def)
  show "keys_indexed (unpublish_key kid s)" using ok mem by (auto simp: keys_indexed_def unpublish_key_def Let_def)
  show "set (keysSnapshot (unpublish_key kid s)) = {x \<in> set (keysSnapshot s). ID x \<noteq> kid}"
    unfolding keysSnapshot_set e using mem ok(2) by (force simp: image_iff)
qed

lemma unpublish_fields [simp]:
  "usage (unpublish_key kid s) = usage s" "st_files (unpublish_key kid s) = st_files s" "st_prices (unpublish_key kid s) = st_prices s"
  "st_limiter (unpublish_key kid s) = st_limiter s"
  by (simp_all add: unpublish_key_def Let_def)

lemma forget_keeps:
  assumes "ledger_ok l" "forgetKey now kid l = (l', r)"
  shows "ledger_ok l'" "ledger_bucket l' k d m = ledger_bucket l k d m" "ledger_meta l' kid = (None, None)"
    "oldestKept l' now = oldestKept l now"
proof -
  have r: "ledger_ok l' \<and> ledger_bucket l' k d m = ledger_bucket l k d m \<and> ledger_meta l' kid = (None, None) \<and>
      oldestKept l' now = oldestKept l now"
  proof (cases "aget (entries l) kid")
    case None
    then show ?thesis using assms by (auto simp: forgetKey_def ledger_meta_def usage_of_def empty_usage_def)
  next
    case (Some u)
    have u: "usage_of l kid = u" using Some by (simp add: usage_of_def)
    show ?thesis
    proof (cases "Cycles u = None \<and> UsageBalance u = None")
      case True
      then show ?thesis using assms Some u by (auto simp: forgetKey_def ledger_meta_def)
    next
      case False
      then have l': "l' = forget_entry kid u l" using assms(2) Some by (auto simp: forgetKey_def Let_def split: option.splits)
      have "ledger_ok l'" using mem_rel_forget [OF assms(1) Some] by (simp add: l' mem_rel_def)
      moreover have "ledger_bucket l' k d m = ledger_bucket l k d m" using u
        by (auto simp: l' forget_entry_def Let_def ledger_bucket_def usage_of_def Some day_bucket_def empty_usage_def models_bucket_def)
      moreover have "ledger_meta l' kid = (None, None)"
        by (auto simp: l' forget_entry_def Let_def ledger_meta_def usage_of_def empty_usage_def)
      moreover have "ledger_location l' = ledger_location l" by (simp add: l' forget_entry_def Let_def)
      ultimately show ?thesis using oldestKept_cong by blast
    qed
  qed
  then show "ledger_ok l'" "ledger_bucket l' k d m = ledger_bucket l k d m" "ledger_meta l' kid = (None, None)"
    "oldestKept l' now = oldestKept l now" by blast+
qed

lemma filtered_keys:
  assumes "store_ok s"
  shows "\<forall>k \<in> set (filter P (keysSnapshot s)). key_normal k" "distinct (map ID (filter P (keysSnapshot s)))"
  using assms keysSnapshot_ids(1) [of s] by (auto simp: store_ok_def keysSnapshot_set distinct_map_filter)

text \<open>A deletion that is answered: what the store did.\<close>

lemma delete_done:
  assumes "store_ok s" "DeleteKey fails failsH failsL now wall kid0 s = (s', None)"
  obtains kid f l daily weekly monthly balance e where "kid = TrimSpace kid0" "aget (st_keys s) kid \<noteq> None"
    "state_holds f (filter (\<lambda>k. ID k \<noteq> kid) (keysSnapshot s)) (prices_snapshot (st_prices s))"
    "forgetKey now kid (usage s) = (l, daily, weekly, monthly, balance)"
    "s' = fst (store_flush failsH failsL now wall (recordAudit e
       ((unpublish_key kid (with_state_file f s))\<lparr>st_limiter := limiter_Reset kid (st_limiter s), usage := l\<rparr>)))"
proof -
  let ?kid = "TrimSpace kid0"
  let ?keys = "filter (\<lambda>k. ID k \<noteq> ?kid) (keysSnapshot s)" and ?models = "prices_snapshot (st_prices s)"
  have pre: "?kid \<noteq> []" "aget (st_keys s) ?kid \<noteq> None" using assms(2) by (auto simp: DeleteKey_def Let_def split: if_splits)
  obtain s1 e where sv: "store_saveState fails wall ?keys ?models s = (s1, e)" by fastforce
  obtain t where t: "normalizeModelPrices ?models = Inr t" "rows t = ?models"
    by (rule normalize_snapshot [of "st_prices s"]) (use assms(1) in \<open>auto simp: store_ok_def\<close>)
  note saved = saved_state [OF filtered_keys [OF assms(1)] t sv]
  have e: "e = None" using assms(2) pre sv by (cases e) (auto simp: DeleteKey_def Let_def)
  define f where "f = state_file (st_files s1)"
  have s1: "s1 = with_state_file f s" using saved(1) by (simp add: with_state_file_def f_def)
  obtain l daily weekly monthly balance where fg: "forgetKey now ?kid (usage s) = (l, daily, weekly, monthly, balance)"
    by (cases "forgetKey now ?kid (usage s)") auto
  have "s' = fst (store_flush failsH failsL now wall (recordAudit (event ''delete_key'' ?kid (deletion_changes daily weekly monthly balance))
       ((unpublish_key ?kid (with_state_file f s))\<lparr>st_limiter := limiter_Reset ?kid (st_limiter s), usage := l\<rparr>)))"
    using assms(2) pre sv e fg by (simp add: DeleteKey_def Let_def s1)
  then show thesis using that [of ?kid f l daily weekly monthly balance] pre(2) saved(2) [OF e] fg by (simp add: f_def)
qed

text \<open>A deleted key leaves no credentials, quota or rate window behind: after a successful deletion
  the store is well formed, neither memory nor the state file holds the key, its periods, balance
  and rate window are gone (so a key created again under the id starts afresh), its daily history
  and everything of the other keys stay. This holds whether or not the usage flush that follows
  fails.\<close>

theorem delete_forgets:
  assumes "store_ok s" "DeleteKey fails failsH failsL now wall kid0 s = (s', None)"
  shows "store_ok s' \<and> aget (st_keys s') (TrimSpace kid0) = None \<and>
    (\<forall>k. k \<noteq> TrimSpace kid0 \<longrightarrow> aget (st_keys s') k = aget (st_keys s) k) \<and>
    (\<exists>st. LoadState (state_file (st_files s')) = Inr st \<and> set (StKeys st) = set (keysSnapshot s') \<and>
      StModels st = prices_snapshot (st_prices s')) \<and>
    aget (st_limiter s') (TrimSpace kid0) = None \<and> ledger_meta (usage s') (TrimSpace kid0) = (None, None) \<and>
    (\<forall>k d m. oldestKept (usage s) now \<le> d \<longrightarrow> ledger_bucket (usage s') k d m = ledger_bucket (usage s) k d m)"
proof (rule delete_done [OF assms])
  fix kid f l daily weekly monthly balance e
  assume d: "kid = TrimSpace kid0" "aget (st_keys s) kid \<noteq> None"
    "state_holds f (filter (\<lambda>k. ID k \<noteq> kid) (keysSnapshot s)) (prices_snapshot (st_prices s))"
    "forgetKey now kid (usage s) = (l, daily, weekly, monthly, balance)"
    "s' = fst (store_flush failsH failsL now wall (recordAudit e
       ((unpublish_key kid (with_state_file f s))\<lparr>st_limiter := limiter_Reset kid (st_limiter s), usage := l\<rparr>)))"
  let ?u = "unpublish_key kid (with_state_file f s)"
  let ?r = "recordAudit e (?u\<lparr>st_limiter := limiter_Reset kid (st_limiter s), usage := l\<rparr>)"
  have lok: "ledger_ok (usage s)" and ix: "keys_indexed (with_state_file f s)"
    using assms(1) by (simp_all add: store_ok_def keys_indexed_def)
  note fk = forget_keeps [OF lok d(4)]
  have ru: "usage ?r = l" "st_limiter ?r = limiter_Reset kid (st_limiter s)" "st_keys ?r = st_keys ?u" "keysByHash ?r = keysByHash ?u"
    "st_prices ?r = st_prices s" "state_file (st_files ?r) = f" by simp_all
  have lr: "ledger_ok (usage ?r)" using fk(1) by simp
  note fl = store_flush_usage [OF lr, where fH = failsH and fL = failsL and now = now and wall = wall, folded d(5), unfolded ru]
  have fields: "st_keys s' = adel kid (st_keys s)" "keysByHash s' = keysByHash ?u" "st_prices s' = st_prices s"
    "st_limiter s' = limiter_Reset kid (st_limiter s)" "state_file (st_files s') = f"
    unfolding d(5) by (simp_all add: unpublish_indexed(3) [OF ix])
  have snap: "set (keysSnapshot s') = {x \<in> set (keysSnapshot s). ID x \<noteq> kid}"
  proof -
    have "keysSnapshot s' = keysSnapshot ?u" by (rule keysSnapshot_cong) (simp add: fields unpublish_indexed(3) [OF ix])
    moreover have "keysSnapshot (with_state_file f s) = keysSnapshot s" by (rule keysSnapshot_cong) simp
    ultimately show ?thesis using unpublish_indexed(2) [OF ix, of kid] by simp
  qed
  have "keys_indexed s'" using unpublish_indexed(1,3) [OF ix, of kid] fields by (simp add: keys_indexed_def)
  moreover have "\<forall>x \<in> set (keysSnapshot s'). key_normal x" using assms(1) snap by (auto simp: store_ok_def keysSnapshot_set)
  then have "\<forall>(_, x) \<in> set (st_keys s'). key_normal x" by (auto simp: keysSnapshot_set)
  ultimately have "store_ok s'" using assms(1) fl(1) fields by (simp add: store_ok_def)
  moreover have "\<exists>st. LoadState (state_file (st_files s')) = Inr st \<and> set (StKeys st) = set (keysSnapshot s') \<and>
      StModels st = prices_snapshot (st_prices s')"
    using state_holds_keys [OF d(3)] by (simp add: fields snap)
  moreover have "\<forall>k d m. oldestKept (usage s) now \<le> d \<longrightarrow> ledger_bucket (usage s') k d m = ledger_bucket (usage s) k d m"
    using fl(2) fk(2,4) by auto
  moreover have "ledger_meta (usage s') kid = (None, None)" using fl(3) fk(3) by blast
  ultimately show ?thesis unfolding d(1) [symmetric] by (simp add: fields limiter_Reset_def)
qed


subsection \<open>A valid write succeeds when the disk does\<close>

lemma save_succeeds:
  assumes "\<forall>k \<in> set keys. key_normal k" "distinct (map ID keys)" "prices_settled (st_prices s)" "TrimSpace (datasetID s) \<noteq> []"
  obtains f where "store_saveState (\<lambda>_. False) wall keys (prices_snapshot (st_prices s)) s = (with_state_file f s, None)"
proof -
  obtain t where t: "normalizeModelPrices (prices_snapshot (st_prices s)) = Inr t" by (rule normalize_snapshot [OF assms(3)])
  show thesis
    by (rule that, simp add: store_saveState_def SaveState_def MarshalState_def Let_def assms(4) t
        normal_keys_fixed [OF assms(1,2)] AtomicWrite_unfold with_state_file_def)
qed

lemma stamp_fields [simp]:
  "ID (stamp_key now p k) = ID k" "key_normal (stamp_key now p k) = key_normal k" "secret_of (stamp_key now p k) = secret_of k"
  by (simp_all add: stamp_key_def Let_def key_normal_def key_ok_def BalanceMode_def secret_of_def split: option.splits)

lemma put_key_normal:
  assumes "store_ok s" "key_normal k"
  shows "\<forall>x \<in> set (put_key k (keysSnapshot s)). key_normal x" "distinct (map ID (put_key k (keysSnapshot s)))"
proof -
  have ix: "keys_indexed s" using assms(1) by (simp add: store_ok_def)
  show "\<forall>x \<in> set (put_key k (keysSnapshot s)). key_normal x"
    using assms unfolding put_key_set [OF keysSnapshot_ids(1) [OF ix]] by (auto simp: store_ok_def keysSnapshot_set)
  show "distinct (map ID (put_key k (keysSnapshot s)))" using keysSnapshot_ids(1) [OF ix] by (auto simp: map_ID_put)
qed

lemma mutation_accepted:
  assumes "store_ok s" "key_normal k" "TrimSpace (datasetID s) \<noteq> []"
    "\<forall>x \<in> set (keysSnapshot s). ID x \<noteq> ID k \<longrightarrow> secret_of x \<noteq> secret_of k"
  obtains s' previous stored where "applyKeyMutation (\<lambda>_. False) now wall k s = (s', Inr (previous, stored))"
proof -
  have ix: "keys_indexed s" "prices_settled (st_prices s)" using assms(1) by (simp_all add: store_ok_def)
  have tid: "k\<lparr>ID := TrimSpace (ID k)\<rparr> = k" using assms(2) by (simp add: key_normal_def key_ok_def)
  let ?in = "stamp_key now (find (\<lambda>x. ID x = ID k) (keysSnapshot s)) k"
  have n: "key_normal ?in" using assms(2) by simp
  note pn = put_key_normal [OF assms(1) n]
  have nk: "normalizeKeys (put_key ?in (keysSnapshot s)) = Inr (put_key ?in (keysSnapshot s))" by (rule normal_keys_fixed [OF pn])
  have at: "put_key ?in (keysSnapshot s) ! key_index (ID k) (keysSnapshot s) = ?in" using put_key_nth(1) [of ?in] by simp
  have uq: "secretUnique (put_key ?in (keysSnapshot s)) ?in = None"
    using assms(4) unfolding secretUnique_None put_key_set [OF keysSnapshot_ids(1) [OF ix(1)]] by auto
  obtain f where f: "store_saveState (\<lambda>_. False) wall (put_key ?in (keysSnapshot s)) (prices_snapshot (st_prices s)) s = (with_state_file f s, None)"
    by (rule save_succeeds [OF pn ix(2) assms(3)])
  show thesis
    by (rule that, simp add: applyKeyMutation_def Let_def tid nk at uq f)
qed

lemma upsert_accepted:
  assumes "store_ok s" "key_normal k" "TrimSpace (datasetID s) \<noteq> []"
    "\<forall>x \<in> set (keysSnapshot s). ID x \<noteq> ID k \<longrightarrow> secret_of x \<noteq> secret_of k"
  obtains s' where "UpsertKey (\<lambda>_. False) now wall k s = (s', None)"
  by (rule mutation_accepted [OF assms, of now wall]) (simp add: UpsertKey_def)

lemma rotate_accepted:
  assumes "store_ok s" "key_normal k" "TrimSpace (datasetID s) \<noteq> []"
    "\<forall>x \<in> set (keysSnapshot s). ID x \<noteq> ID k \<longrightarrow> secret_of x \<noteq> secret_of k"
  obtains s' stored where "rotate_write (\<lambda>_. False) now wall kid k s = (s', Inr stored)"
  by (rule mutation_accepted [OF assms, of now wall]) (simp add: rotate_write_def)

lemma sample_prices_settled: "prices_settled (st_prices sample_store)"
  by (simp add: prices_settled_def table_ok_def sample_store_def new_store_def)

lemma sample_store_wf: "store_ok sample_store" "TrimSpace (datasetID sample_store) \<noteq> []"
proof -
  show "store_ok sample_store" using sample_store_ok(1,3) sample_prices_settled sample_ledger_ok(1)
    by (simp add: store_ok_def) (simp add: sample_store_def new_store_def)
  have "TrimSpace ''d'' \<noteq> []" by code_simp
  then show "TrimSpace (datasetID sample_store) \<noteq> []" by (simp add: sample_store_def new_store_def)
qed

lemma sample_snapshot: "set (keysSnapshot sample_store) = {sample_key}"
  by (simp add: keysSnapshot_set) (simp add: sample_store_def)

lemma upsert_durable_witness:
  "\<exists>s'. UpsertKey (\<lambda>_. False) 7 7 sample_key sample_store = (s', None) \<and> store_ok s' \<and> secrets_unique s'"
proof -
  have "\<forall>x \<in> set (keysSnapshot sample_store). ID x \<noteq> ID sample_key \<longrightarrow> secret_of x \<noteq> secret_of sample_key"
    by (simp add: sample_snapshot)
  from upsert_accepted [OF sample_store_wf(1) sample_key_normal sample_store_wf(2) this, of 7 7] obtain s' where
    s': "UpsertKey (\<lambda>_. False) 7 7 sample_key sample_store = (s', None)" by blast
  from upsert_durable [OF sample_store_wf(1) this] sample_store_ok(2) s' show ?thesis by blast
qed

lemma delete_accepted:
  assumes "store_ok s" "TrimSpace (datasetID s) \<noteq> []" "TrimSpace kid \<noteq> []" "aget (st_keys s) (TrimSpace kid) \<noteq> None"
  obtains s' where "DeleteKey (\<lambda>_. False) fH fL now wall kid s = (s', None)"
proof -
  have "prices_settled (st_prices s)" using assms(1) by (simp add: store_ok_def)
  from save_succeeds [OF filtered_keys [OF assms(1)] this assms(2)] obtain f where
    f: "store_saveState (\<lambda>_. False) wall (filter (\<lambda>k. ID k \<noteq> TrimSpace kid) (keysSnapshot s)) (prices_snapshot (st_prices s)) s = (with_state_file f s, None)"
    by blast
  have "snd (DeleteKey (\<lambda>_. False) fH fL now wall kid s) = None"
    by (simp add: DeleteKey_def Let_def assms(3,4) f split: prod.splits)
  then show thesis by (intro that [of "fst (DeleteKey (\<lambda>_. False) fH fL now wall kid s)"]) (simp add: prod_eq_iff)
qed

lemma delete_forgets_witness:
  "\<exists>s'. DeleteKey (\<lambda>_. False) (\<lambda>_. True) (\<lambda>_. True) 7 7 ''k'' sample_store = (s', None) \<and> aget (st_keys s') ''k'' = None"
proof -
  have k: "TrimSpace ''k'' = ''k''" by code_simp
  have "TrimSpace ''k'' \<noteq> []" "aget (st_keys sample_store) (TrimSpace ''k'') \<noteq> None" by (simp_all add: k sample_store_def)
  from delete_accepted [OF sample_store_wf this] obtain s' where
    s': "DeleteKey (\<lambda>_. False) (\<lambda>_. True) (\<lambda>_. True) 7 7 ''k'' sample_store = (s', None)" by blast
  from delete_forgets [OF sample_store_wf(1) this] s' show ?thesis unfolding k by blast
qed


subsection \<open>Rotating a key\<close>

lemma upsert_dataset: "UpsertKey fails now wall input s = (s', e) \<Longrightarrow> datasetID s' = datasetID s"
  by (auto simp: UpsertKey_def applyKeyMutation_def store_saveState_def recordAudit_def publish_key_def Let_def
      split: sum.splits option.splits prod.splits)

lemma rotate_read_Inr:
  assumes "rotate_read sha plain kid s = Inr key"
  obtains k h where "aget (st_keys s) (TrimSpace kid) = Some k" "HashKey sha plain = Some h"
    "key = k\<lparr>KeyHash := h, KeyPreview := PreviewKey plain\<rparr>"
  using assms by (auto simp: rotate_read_def findByID_def Let_def split: if_splits option.splits)

lemma rotate_write_Inr:
  assumes "store_ok s" "rotate_write fails now wall kid key s = (s', Inr stored)"
  shows "store_ok s' \<and> (secrets_unique s \<longrightarrow> secrets_unique s') \<and> aget (st_keys s') (ID stored) = Some stored \<and>
    ID stored = TrimSpace (ID key) \<and> Enabled stored = Enabled key \<and> RPM stored = RPM key \<and> KeyHash stored = TrimSpace (KeyHash key) \<and>
    set (keysSnapshot s') = insert stored {x \<in> set (keysSnapshot s). ID x \<noteq> ID stored}"
proof (rule key_write_cases [OF assms(1), where fails = fails and now = now and wall = wall and input = key])
  fix f e
  assume "applyKeyMutation fails now wall key s = (with_state_file f s, Inl e)"
  then show ?thesis using assms(2) by (simp add: rotate_write_def)
next
  fix f previous k
  assume w: "applyKeyMutation fails now wall key s =
      (publish_key k ((with_state_file f s)\<lparr>usage := openCyclesLocked k now (usage s)\<rparr>), Inr (previous, k))"
    "ID k = TrimSpace (ID key)" "key_normal k" "secretUnique (put_key k (keysSnapshot s)) k = None"
    "same_settings (stamp_key now previous (key\<lparr>ID := TrimSpace (ID key)\<rparr>)) k"
  let ?p = "publish_key k ((with_state_file f s)\<lparr>usage := openCyclesLocked k now (usage s)\<rparr>)"
  have "rotate_write fails now wall kid key s = (recordAudit (event ''rotate_key'' (TrimSpace kid) []) ?p, Inr k)"
    by (simp add: rotate_write_def w(1))
  from trans [OF this [symmetric] assms(2)]
  have e: "recordAudit (event ''rotate_key'' (TrimSpace kid) []) ?p = s' \<and> k = stored"
    unfolding prod.inject sum.inject .
  note st = conjunct2 [OF e, symmetric] and s' = conjunct1 [OF e, symmetric]
  have lok: "ledger_ok (openCyclesLocked k now (usage s))" using assms(1) openCycles_ok by (simp add: store_ok_def)
  note p = published_ok [OF assms(1) w(3) refl lok]
  have ok: "store_ok s'" "set (keysSnapshot s') = set (put_key k (keysSnapshot s))"
    using p unfolding s' keysSnapshot_audit store_ok_audit by simp_all
  have ix: "keys_indexed s" using assms(1) by (simp add: store_ok_def)
  have "secrets_unique s \<longrightarrow> secrets_unique s'" using published_unique [OF assms(1) _ w(4) ok] by blast
  moreover have "Enabled k = Enabled key" "RPM k = RPM key" "KeyHash k = TrimSpace (KeyHash key)" using w(5)
    by (auto simp: same_settings_def stamp_key_def Let_def split: option.splits)
  moreover have "aget (st_keys s') (ID k) = Some k" by (simp add: s')
  ultimately show ?thesis unfolding st using ok w(2) put_key_set [OF keysSnapshot_ids(1) [OF ix], of k] by simp
qed

text \<open>The hash of a secret is a trimmed string.\<close>

lemma hash_in_snapshot: "(\<exists>i. (i, k) \<in> set (st_keys s)) \<longleftrightarrow> k \<in> set (keysSnapshot s)"
  by (force simp: keysSnapshot_set)

lemma findBySecret_snapshot:
  assumes "store_ok s" "secrets_unique s"
  shows "findBySecret sha raw s = Some k \<longleftrightarrow> k \<in> set (keysSnapshot s) \<and> (\<exists>h. HashKey sha raw = Some h \<and> ToLower h = ToLower (KeyHash k))"
  using findBySecret_iff [of s sha raw k] hash_in_snapshot [of k s] assms by (auto simp: store_ok_def)

text \<open>Rotating a key moves its identity to the new secret: afterwards the new secret authenticates
  as the key, with its settings, and a secret that authenticated as the key before authenticates as
  nothing, unless it hashes like the new one.\<close>

theorem rotate_retires_secret:
  assumes "store_ok s" "secrets_unique s" "RotateKey sha fails now wall plain kid s = (s', Inr (secret, stored))"
    "findBySecret sha old s = Some k" "ID k = TrimSpace kid" "HashKey sha old = Some ho" "HashKey sha plain = Some hn" "TrimSpace hn = hn"
  shows "secret = plain \<and> findBySecret sha plain s' = Some stored \<and> ID stored = ID k \<and> Enabled stored = Enabled k \<and> RPM stored = RPM k \<and>
    (ToLower ho \<noteq> ToLower hn \<longrightarrow> findBySecret sha old s' = None)"
proof -
  obtain key where rr: "rotate_read sha plain kid s = Inr key" "rotate_write fails now wall kid key s = (s', Inr stored)" "secret = plain"
    using assms(3) by (auto simp: RotateKey_def split: sum.splits prod.splits)
  obtain k0 where key: "aget (st_keys s) (TrimSpace kid) = Some k0" "key = k0\<lparr>KeyHash := hn, KeyPreview := PreviewKey plain\<rparr>"
    by (rule rotate_read_Inr [OF rr(1)]) (use assms(7) in auto)
  have ix: "keys_indexed s" using assms(1) by (simp add: store_ok_def)
  have k: "k \<in> set (keysSnapshot s)" "ToLower ho = ToLower (KeyHash k)"
    using assms(4,6) unfolding findBySecret_snapshot [OF assms(1,2)] by auto
  then have k0: "k0 = k" using key(1) assms(5) aget_ID [OF ix, of "TrimSpace kid" k] by simp
  have kn: "key_normal k" using assms(1) k(1) by (auto simp: store_ok_def keysSnapshot_set)
  note w = rotate_write_Inr [OF assms(1) rr(2)]
  have sid: "ID stored = ID k" "KeyHash stored = hn" using w kn assms(8) by (simp_all add: key(2) k0 key_normal_def key_ok_def)
  have ok: "store_ok s'" "secrets_unique s'" using w assms(2) by blast+
  have snap: "set (keysSnapshot s') = insert stored {x \<in> set (keysSnapshot s). ID x \<noteq> ID k}" using w sid(1) by simp
  have new: "findBySecret sha plain s' = Some stored"
    unfolding findBySecret_snapshot [OF ok] snap using assms(7) sid(2) by simp
  have "findBySecret sha old s' = None" if ne: "ToLower ho \<noteq> ToLower hn"
  proof (cases "findBySecret sha old s'")
    case (Some x)
    then have x: "x \<in> insert stored {x \<in> set (keysSnapshot s). ID x \<noteq> ID k}" "ToLower ho = ToLower (KeyHash x)"
      using assms(6) unfolding findBySecret_snapshot [OF ok] snap by auto
    show ?thesis
    proof (cases "x = stored")
      case True
      then show ?thesis using x(2) ne sid(2) by simp
    next
      case False
      then have "x \<in> set (keysSnapshot s)" "ID x \<noteq> ID k" using x(1) by auto
      then have "findBySecret sha old s = Some x" unfolding findBySecret_snapshot [OF assms(1,2)] using assms(6) x(2) by simp
      then show ?thesis using assms(4) \<open>ID x \<noteq> ID k\<close> by simp
    qed
  qed
  then show ?thesis using new rr(3) sid w by (simp add: key(2) k0)
qed

definition rotated_key :: KeyConfig where
  "rotated_key = sample_key\<lparr>KeyHash := ''sha256:6e'', KeyPreview := ''...''\<rparr>"

lemma rotated_key_normal: "key_normal rotated_key" "ID rotated_key = ''k''"
  unfolding key_normal_def key_ok_def rotated_key_def sample_key_def by code_simp+

lemma sample_trim: "TrimSpace ''k'' = ''k''" "HashKey sample_sha ''n'' = Some ''sha256:6e''" "PreviewKey ''n'' = ''...''"
    "TrimSpace ''sha256:6e'' = ''sha256:6e''" "ToLower ''sha256:6b'' \<noteq> ToLower ''sha256:6e''"
  by code_simp+

lemma sample_key_fields [simp]: "ID sample_key = ''k''" "Enabled sample_key"
  by (simp_all add: sample_key_def)

lemma sample_rotate_read: "rotate_read sample_sha ''n'' ''k'' sample_store = Inr rotated_key"
proof -
  have "aget (st_keys sample_store) ''k'' = Some sample_key" by (simp add: sample_store_def)
  then show ?thesis by (simp add: rotate_read_def findByID_def sample_trim rotated_key_def)
qed

lemma rotate_retires_secret_witness:
  "\<exists>s' secret stored. RotateKey sample_sha (\<lambda>_. False) 7 7 ''n'' ''k'' sample_store = (s', Inr (secret, stored)) \<and>
     findBySecret sample_sha ''n'' s' = Some stored \<and> findBySecret sample_sha ''k'' s' = None"
proof -
  have "\<forall>x \<in> set (keysSnapshot sample_store). ID x \<noteq> ID rotated_key \<longrightarrow> secret_of x \<noteq> secret_of rotated_key"
    by (simp add: sample_snapshot rotated_key_normal)
  from rotate_accepted [OF sample_store_wf(1) rotated_key_normal(1) sample_store_wf(2) this, of 7 7 "''k''"] obtain s' stored where
    w: "rotate_write (\<lambda>_. False) 7 7 ''k'' rotated_key sample_store = (s', Inr stored)" by blast
  then have r: "RotateKey sample_sha (\<lambda>_. False) 7 7 ''n'' ''k'' sample_store = (s', Inr (''n'', stored))"
    by (simp add: RotateKey_def sample_rotate_read)
  have "ID sample_key = TrimSpace ''k''" by (simp add: sample_trim)
  from rotate_retires_secret [OF sample_store_wf(1) sample_store_ok(2) r sample_lookup this sample_hash(2) sample_trim(2,4)] r sample_trim(5)
  show ?thesis by blast
qed

text \<open>C19: \<open>RotateKey\<close> reads the key before it takes the update lock, so a key write between the two is
  lost: whatever a concurrent update stored in between, a rotation that then succeeds puts back the
  enabled flag and the limits it had read. A key disabled while it is being rotated is enabled
  again.\<close>

theorem rotate_loses_update:
  assumes "store_ok s" "rotate_read sha plain kid s = Inr key"
    "UpsertKey failsU nowU wallU input s = (s1, None)" "TrimSpace (ID input) = TrimSpace kid"
    "rotate_write fails now wall kid key s1 = (s2, Inr stored)"
  shows "\<exists>k0 k1 k2. aget (st_keys s) (TrimSpace kid) = Some k0 \<and> aget (st_keys s1) (TrimSpace kid) = Some k1 \<and>
    aget (st_keys s2) (TrimSpace kid) = Some k2 \<and> Enabled k1 = Enabled input \<and> RPM k1 = RPM input \<and>
    Enabled k2 = Enabled k0 \<and> RPM k2 = RPM k0"
proof -
  obtain k0 h where key: "aget (st_keys s) (TrimSpace kid) = Some k0" "key = k0\<lparr>KeyHash := h, KeyPreview := PreviewKey plain\<rparr>"
    by (rule rotate_read_Inr [OF assms(2)]) auto
  note u = upsert_stored [OF assms(1,3), unfolded assms(4)]
  then have ok1: "store_ok s1" by blast
  note w = rotate_write_Inr [OF ok1 assms(5)]
  have ix: "keys_indexed s" using assms(1) by (simp add: store_ok_def)
  then have id0: "k0 \<in> set (keysSnapshot s)" "ID k0 = TrimSpace kid" using key(1) aget_ID by blast+
  have sid: "ID stored = TrimSpace kid" using w id0(2) by (simp add: key(2))
  obtain k1 where k1: "aget (st_keys s1) (TrimSpace kid) = Some k1" "Enabled k1 = Enabled input" "RPM k1 = RPM input" using u by blast
  have "aget (st_keys s2) (TrimSpace kid) = Some stored" using w unfolding sid by blast
  moreover have "Enabled stored = Enabled k0" "RPM stored = RPM k0" using w by (simp_all add: key(2))
  ultimately show ?thesis using k1 key(1) by blast
qed


lemma rotate_loses_update_witness:
  "\<exists>s1 s2 stored k1 k2. UpsertKey (\<lambda>_. False) 7 7 (sample_key\<lparr>Enabled := False\<rparr>) sample_store = (s1, None) \<and>
     rotate_write (\<lambda>_. False) 8 8 ''k'' rotated_key s1 = (s2, Inr stored) \<and>
     aget (st_keys s1) ''k'' = Some k1 \<and> \<not> Enabled k1 \<and> aget (st_keys s2) ''k'' = Some k2 \<and> Enabled k2"
proof -
  let ?in = "sample_key\<lparr>Enabled := False\<rparr>"
  have n: "key_normal ?in" using sample_key_normal by (simp add: key_normal_def key_ok_def BalanceMode_def)
  have "\<forall>x \<in> set (keysSnapshot sample_store). ID x \<noteq> ID ?in \<longrightarrow> secret_of x \<noteq> secret_of ?in" by (simp add: sample_snapshot)
  from upsert_accepted [OF sample_store_wf(1) n sample_store_wf(2) this, of 7 7] obtain s1 where
    u: "UpsertKey (\<lambda>_. False) 7 7 ?in sample_store = (s1, None)" by blast
  note us = upsert_stored [OF sample_store_wf(1) u]
  have ok1: "store_ok s1" using us by blast
  have ix: "keys_indexed s1" using ok1 by (simp add: store_ok_def)
  have only: "aget (st_keys s1) kid = None" if "kid \<noteq> ''k''" for kid
  proof -
    obtain k where "aget (st_keys s1) ''k'' = Some k" "\<forall>kid. kid \<noteq> ID k \<longrightarrow> aget (st_keys s1) kid = aget (st_keys sample_store) kid"
      using us by (auto simp: sample_trim)
    moreover from this(1) have "ID k = ''k''" using aget_ID [OF ix] by blast
    ultimately show ?thesis using that by (simp add: sample_store_def)
  qed
  have "\<forall>x \<in> set (keysSnapshot s1). ID x \<noteq> ID rotated_key \<longrightarrow> secret_of x \<noteq> secret_of rotated_key"
  proof (intro ballI impI)
    fix x
    assume "x \<in> set (keysSnapshot s1)" "ID x \<noteq> ID rotated_key"
    then show "secret_of x \<noteq> secret_of rotated_key" using only [of "ID x"] aget_ID [OF ix, of "ID x" x] by (simp add: rotated_key_normal)
  qed
  moreover have "TrimSpace (datasetID s1) \<noteq> []" using sample_store_wf(2) upsert_dataset [OF u] by simp
  ultimately obtain s2 stored where r: "rotate_write (\<lambda>_. False) 8 8 ''k'' rotated_key s1 = (s2, Inr stored)"
    using rotate_accepted [OF ok1 rotated_key_normal(1), of 8 8 "''k''"] by blast
  have "aget (st_keys sample_store) (TrimSpace ''k'') = Some sample_key" by (simp add: sample_trim sample_store_def)
  moreover have "TrimSpace (ID ?in) = TrimSpace ''k''" by simp
  ultimately show ?thesis using rotate_loses_update [OF sample_store_wf(1) sample_rotate_read u _ r] u r by (auto simp: sample_trim)
qed

end
