(* ===== verification/PriceAdmin.thy ===== *)
theory PriceAdmin
  imports Admin
begin

text \<open>
  The management of price rows: internal/policy/price_admin.go. As for the keys, an operation works
  on a snapshot of the rows, normalizes them, writes the state file and then publishes the table.
  The slice that \<open>normalizeModelPrices\<close> normalizes in place is \<open>rows t\<close> of the table it returns.
\<close>

datatype price_admin_error =
    PricesRejected price_error
  | PriceStatePersist persist_error
  | ModelNameRequired
  | UnknownModel string string
  | ImportNameRequired
  | ImportRejected price_error
  | PriceImportRejected price_error

definition publishPrices :: "priceTable \<Rightarrow> store \<Rightarrow> store" where
  "publishPrices t s = s\<lparr>st_prices := t\<rparr>"

definition price_index :: "string \<Rightarrow> ModelPrice list \<Rightarrow> nat" where
  "price_index key rs = length (takeWhile (\<lambda>r. priceKey (ModelName r) (Provider r) \<noteq> key) rs)"

text \<open>The rows with the input in its place (under the name already stored) or at the end.\<close>

definition put_row :: "ModelPrice \<Rightarrow> ModelPrice list \<Rightarrow> ModelPrice list" where
  "put_row input rs = (let i = price_index (priceKey (ModelName input) (Provider input)) rs
     in if i < length rs then rs[i := input\<lparr>ModelName := ModelName (rs ! i)\<rparr>] else rs @ [input])"

definition priceChanges :: "ModelPrice option \<Rightarrow> ModelPrice \<Rightarrow> (string, Change) amap" where
  "priceChanges before after =
     (let prior = (case before of None \<Rightarrow> zero_price | Some p \<Rightarrow> p)
      in [(''model'', AText (if before = None then [] else ModelName after), AText (ModelName after)),
          (''provider'', AText (Provider after), AText (Provider after))] @
         record_changes [
           (''billing_mode'', AText (BillingMode prior), AText (BillingMode after)),
           (''billing_multiplier'', ANumber (BillingMultiplier prior), ANumber (BillingMultiplier after)),
           (''input_price_per_million'', ANumber (InputPricePerMillion prior), ANumber (InputPricePerMillion after)),
           (''output_price_per_million'', ANumber (OutputPricePerMillion prior), ANumber (OutputPricePerMillion after)),
           (''cache_read_price_per_million'', ANumber (CacheReadPricePerMillion prior), ANumber (CacheReadPricePerMillion after))] @
         (if \<not> pricePointersEqual (CacheWritePricePerMillion prior) (CacheWritePricePerMillion after)
          then [(''cache_write_price_per_million'', AOptional (CacheWritePricePerMillion prior), AOptional (CacheWritePricePerMillion after))]
          else []) @
         record_changes [(''per_call_usd'', ANumber (PerCallUSD prior), ANumber (PerCallUSD after))])"

definition UpsertModel :: "(write_call \<Rightarrow> bool) \<Rightarrow> instant \<Rightarrow> ModelPrice \<Rightarrow> store \<Rightarrow> store \<times> price_admin_error option" where
  "UpsertModel fails wall input0 s =
     (let keys = keysSnapshot s; rs = prices_snapshot (st_prices s);
          input = input0\<lparr>ModelName := TrimSpace (ModelName input0), Provider := normalizeProvider (Provider input0)\<rparr>;
          index = price_index (priceKey (ModelName input) (Provider input)) rs;
          previous = (if index < length rs then Some (rs ! index) else None)
      in case normalizeModelPrices (put_row input rs) of
           Inl e \<Rightarrow> (s, Some (PricesRejected e))
         | Inr table \<Rightarrow> (case store_saveState fails wall keys (rows table) s of
             (s, Some e) \<Rightarrow> (s, Some (PriceStatePersist e))
           | (s, None) \<Rightarrow>
               (recordAudit (event (if previous = None then ''create_model'' else ''update_model'') [] (priceChanges previous (rows table ! index)))
                  (publishPrices table s), None)))"

definition DeleteModel :: "(write_call \<Rightarrow> bool) \<Rightarrow> instant \<Rightarrow> string \<Rightarrow> string \<Rightarrow> store \<Rightarrow> store \<times> price_admin_error option" where
  "DeleteModel fails wall name0 provider s =
     (let name = TrimSpace name0
      in if name = [] then (s, Some ModelNameRequired)
         else let keys = keysSnapshot s; rs = prices_snapshot (st_prices s); key = priceKey name provider;
                  matches = filter (\<lambda>r. priceKey (ModelName r) (Provider r) = key) rs;
                  filtered = filter (\<lambda>r. priceKey (ModelName r) (Provider r) \<noteq> key) rs
              in if matches = [] then (s, Some (UnknownModel name (normalizeProvider provider)))
                 else case normalizeModelPrices filtered of
                   Inl e \<Rightarrow> (s, Some (PricesRejected e))
                 | Inr table \<Rightarrow> (case store_saveState fails wall keys (rows table) s of
                     (s, Some e) \<Rightarrow> (s, Some (PriceStatePersist e))
                   | (s, None) \<Rightarrow> (let stored = last matches in
                       (recordAudit (event ''delete_model'' [] [(''model'', AText (ModelName stored), AText []),
                            (''provider'', AText (Provider stored), AText [])]) (publishPrices table s), None))))"


subsection \<open>Imports\<close>

record ModelImportItem =
  ItemName :: string
  ItemProvider :: string

record ModelImportRow =
  ImportName :: string
  ImportReason :: string

record ModelImportResult =
  Created :: "ModelImportRow list"
  Skipped :: "ModelImportRow list"

definition empty_import :: ModelImportResult where
  "empty_import = \<lparr>Created = [], Skipped = []\<rparr>"

text \<open>The loop over the items: the rows grow, \<open>batch\<close> are the keys the items before had. An item
  without a name ends it with the result so far.\<close>

fun import_items :: "string list \<Rightarrow> string list \<Rightarrow> ModelImportItem list \<Rightarrow> ModelPrice list \<Rightarrow> ModelImportResult \<Rightarrow>
    (ModelPrice list \<times> ModelImportResult) \<times> bool" where
  "import_items present batch [] rs result = ((rs, result), True)"
| "import_items present batch (item # items) rs result =
     (let name = TrimSpace (ItemName item); key = priceKey name (ItemProvider item)
      in if name = [] then ((rs, result), False)
         else if key \<in> set batch then
           import_items present batch items rs (result\<lparr>Skipped := Skipped result @ [\<lparr>ImportName = name, ImportReason = ''duplicate''\<rparr>]\<rparr>)
         else if key \<in> set present then
           import_items present (key # batch) items rs (result\<lparr>Skipped := Skipped result @ [\<lparr>ImportName = name, ImportReason = ''exists''\<rparr>]\<rparr>)
         else import_items present (key # batch) items (rs @ [zero_price\<lparr>ModelName := name, Provider := ItemProvider item\<rparr>])
           (result\<lparr>Created := Created result @ [\<lparr>ImportName = name, ImportReason = []\<rparr>]\<rparr>))"

definition import_event :: "ModelPrice \<Rightarrow> Event" where
  "import_event row = event ''import_create_model'' [] [(''model'', AText [], AText (ModelName row)),
     (''provider'', AText (Provider row), AText (Provider row))]"

definition ImportModels :: "(write_call \<Rightarrow> bool) \<Rightarrow> instant \<Rightarrow> ModelImportItem list \<Rightarrow> store \<Rightarrow>
    store \<times> ModelImportResult \<times> price_admin_error option" where
  "ImportModels fails wall items s =
     (if items = [] then (s, empty_import, None)
      else let keys = keysSnapshot s; rs0 = prices_snapshot (st_prices s);
               ((rs, result), named) = import_items (map (\<lambda>r. priceKey (ModelName r) (Provider r)) rs0) [] items rs0 empty_import
           in if \<not> named then (s, result, Some ImportNameRequired)
              else if Created result = [] then (s, result, None)
              else case normalizeModelPrices rs of
                Inl e \<Rightarrow> (s, empty_import, Some (ImportRejected e))
              | Inr table \<Rightarrow> (case store_saveState fails wall keys (rows table) s of
                  (s, Some e) \<Rightarrow> (s, empty_import, Some (PriceStatePersist e))
                | (s, None) \<Rightarrow>
                    (fold (\<lambda>row. recordAudit (import_event row)) (drop (length (rows table) - length (Created result)) (rows table))
                       (publishPrices table s), result, None)))"

record PriceImportMatch =
  MatchModel :: string
  PromptPricePer1M :: "f64 option"
  CompletionPricePer1M :: "f64 option"
  CacheReadPricePer1M :: "f64 option"
  CacheWritePricePer1M :: "f64 option"

record PriceImportApplied =
  AppliedModel :: string
  AppliedProvider :: string
  OldInput :: f64
  OldOutput :: f64
  OldCacheRead :: f64
  OldCacheWrite :: "f64 option"
  NewInput :: f64
  NewOutput :: f64
  NewCacheRead :: f64
  NewCacheWrite :: "f64 option"
  AppliedNote :: string

record PriceImportResult =
  Applied :: "PriceImportApplied list"
  Unchanged :: "(string \<times> string) list"
  NoMatch :: "string list"

record importPricePatch =
  patch_input :: "f64 option"
  patch_output :: "f64 option"
  patch_cache :: "f64 option"
  patch_cacheWrite :: "f64 option"

definition patch_empty :: "importPricePatch \<Rightarrow> bool" where
  "patch_empty p \<longleftrightarrow> patch_input p = None \<and> patch_output p = None \<and> patch_cache p = None \<and> patch_cacheWrite p = None"

definition match_patch :: "PriceImportMatch \<Rightarrow> importPricePatch" where
  "match_patch match = \<lparr>patch_input = PromptPricePer1M match, patch_output = CompletionPricePer1M match,
     patch_cache = CacheReadPricePer1M match, patch_cacheWrite = CacheWritePricePer1M match\<rparr>"

text \<open>The patches by name, the last one of a name winning; the order of the map is \<open>matchOrder\<close>.\<close>

definition import_patches :: "PriceImportMatch list \<Rightarrow> (string, importPricePatch) amap" where
  "import_patches ms = fold (\<lambda>m patches. let name = ToLower (TrimSpace (MatchModel m)); patch = match_patch m
     in if name = [] \<or> patch_empty patch then patches else aset name patch patches) ms []"

definition patched :: "f64 option \<Rightarrow> f64 \<Rightarrow> f64" where
  "patched p old = (case p of None \<Rightarrow> old | Some x \<Rightarrow> x)"

definition apply_patch :: "importPricePatch \<Rightarrow> ModelPrice \<Rightarrow> ModelPrice" where
  "apply_patch p row = row\<lparr>InputPricePerMillion := patched (patch_input p) (InputPricePerMillion row),
     OutputPricePerMillion := patched (patch_output p) (OutputPricePerMillion row),
     CacheReadPricePerMillion := patched (patch_cache p) (CacheReadPricePerMillion row),
     CacheWritePricePerMillion := (case patch_cacheWrite p of None \<Rightarrow> CacheWritePricePerMillion row | Some w \<Rightarrow> Some w)\<rparr>"

definition same_prices :: "ModelPrice \<Rightarrow> ModelPrice \<Rightarrow> bool" where
  "same_prices old new \<longleftrightarrow> f64_eq (InputPricePerMillion old) (InputPricePerMillion new) \<and>
     f64_eq (OutputPricePerMillion old) (OutputPricePerMillion new) \<and>
     f64_eq (CacheReadPricePerMillion old) (CacheReadPricePerMillion new) \<and>
     pricePointersEqual (CacheWritePricePerMillion old) (CacheWritePricePerMillion new)"

definition applied_record :: "ModelPrice \<Rightarrow> ModelPrice \<Rightarrow> PriceImportApplied" where
  "applied_record old new = \<lparr>AppliedModel = ModelName new, AppliedProvider = Provider new,
     OldInput = InputPricePerMillion old, OldOutput = OutputPricePerMillion old, OldCacheRead = CacheReadPricePerMillion old,
     OldCacheWrite = CacheWritePricePerMillion old, NewInput = InputPricePerMillion new, NewOutput = OutputPricePerMillion new,
     NewCacheRead = CacheReadPricePerMillion new, NewCacheWrite = CacheWritePricePerMillion new,
     AppliedNote = (if BillingMode new = ''per_call'' then ''billing_mode is per_call; token prices remain dormant'' else [])\<rparr>"

definition import_row :: "(string, importPricePatch) amap \<Rightarrow> ModelPrice \<Rightarrow> ModelPrice" where
  "import_row patches row = (case aget patches (ToLower (ModelName row)) of None \<Rightarrow> row | Some p \<Rightarrow> apply_patch p row)"

definition import_result :: "(string, importPricePatch) amap \<Rightarrow> ModelPrice list \<Rightarrow> PriceImportResult" where
  "import_result patches rs =
     (let hit = filter (\<lambda>r. aget patches (ToLower (ModelName r)) \<noteq> None) rs
      in \<lparr>Applied = map (\<lambda>r. applied_record r (import_row patches r)) (filter (\<lambda>r. \<not> same_prices r (import_row patches r)) hit),
          Unchanged = map (\<lambda>r. (ModelName r, Provider r)) (filter (\<lambda>r. same_prices r (import_row patches r)) hit),
          NoMatch = filter (\<lambda>name. name \<notin> ToLower ` ModelName ` set hit) (akeys patches)\<rparr>)"

definition applied_event :: "PriceImportApplied \<Rightarrow> Event" where
  "applied_event a = event ''import_update_prices'' [] [
     (''model'', AText (AppliedModel a), AText (AppliedModel a)),
     (''provider'', AText (AppliedProvider a), AText (AppliedProvider a)),
     (''input_price_per_million'', ANumber (OldInput a), ANumber (NewInput a)),
     (''output_price_per_million'', ANumber (OldOutput a), ANumber (NewOutput a)),
     (''cache_read_price_per_million'', ANumber (OldCacheRead a), ANumber (NewCacheRead a)),
     (''cache_write_price_per_million'', AOptional (OldCacheWrite a), AOptional (NewCacheWrite a))]"

definition ImportModelPrices :: "(write_call \<Rightarrow> bool) \<Rightarrow> instant \<Rightarrow> PriceImportMatch list \<Rightarrow> bool \<Rightarrow> store \<Rightarrow>
    store \<times> PriceImportResult \<times> price_admin_error option" where
  "ImportModelPrices fails wall ms dryRun s =
     (let patches = import_patches ms; keys = keysSnapshot s; rs = prices_snapshot (st_prices s); result = import_result patches rs
      in if Applied result = [] then (s, result, None)
         else case normalizeModelPrices (map (import_row patches) rs) of
           Inl e \<Rightarrow> (s, result, Some (PriceImportRejected e))
         | Inr table \<Rightarrow>
             if dryRun then (s, result, None)
             else (case store_saveState fails wall keys (rows table) s of
                 (s, Some e) \<Rightarrow> (s, result, Some (PriceStatePersist e))
               | (s, None) \<Rightarrow> (fold (\<lambda>a. recordAudit (applied_event a)) (Applied result) (publishPrices table s), result, None)))"


subsection \<open>What normalization makes of a row\<close>

definition norm_row :: "ModelPrice \<Rightarrow> ModelPrice" where
  "norm_row r = r\<lparr>ModelName := TrimSpace (ModelName r), Provider := normalizeProvider (Provider r),
     BillingMultiplier := (if f64_eq (BillingMultiplier r) (Fin 0) then Fin 1 else BillingMultiplier r),
     BillingMode := (if ToLower (TrimSpace (BillingMode r)) = ''per_call'' then ''per_call'' else ''tokens'')\<rparr>"

lemma normalize_row_is: "normalize_row i idx r0 = Inr (r, k) \<Longrightarrow> r = norm_row r0"
  unfolding normalize_row_def Let_def by (cases r0) (auto simp: norm_row_def split: if_splits)

lemma normalize_rows_are: "normalize_rows i idx rs = Inr (rs', idx') \<Longrightarrow> rs' = map norm_row rs"
proof (induction i idx rs arbitrary: rs' idx' rule: normalize_rows.induct)
  case (2 i idx row rest)
  from 2(2) obtain row' key where r: "normalize_row i idx row = Inr (row', key)" by (auto split: sum.splits prod.splits)
  with 2(2) obtain rest' where t: "normalize_rows (i + 1) (idx(key \<mapsto> i)) rest = Inr (rest', idx')" "rs' = row' # rest'"
    by (auto split: sum.splits prod.splits)
  show ?case using normalize_row_is [OF r] 2(1) [OF r refl t(1)] by (simp add: t(2))
qed simp

lemma normalized_rows: "normalizeModelPrices rs = Inr t \<Longrightarrow> rows t = map norm_row rs"
  using normalize_rows_are by (auto simp: normalizeModelPrices_def split: sum.splits prod.splits)

lemma norm_row_settled:
  assumes "row_ok r" "provider_settled (Provider r)"
  shows "norm_row r = r"
proof -
  have "\<exists>x. normalize_row 0 Map.empty r = Inr (r, x)" using normalize_row_id [of r Map.empty 0] assms by (auto simp: provider_settled_def)
  then show ?thesis using normalize_row_is by metis
qed

lemma norm_row_fields [simp]:
  "ModelName (norm_row r) = TrimSpace (ModelName r)" "Provider (norm_row r) = normalizeProvider (Provider r)"
  "InputPricePerMillion (norm_row r) = InputPricePerMillion r" "OutputPricePerMillion (norm_row r) = OutputPricePerMillion r"
  "CacheReadPricePerMillion (norm_row r) = CacheReadPricePerMillion r" "CacheWritePricePerMillion (norm_row r) = CacheWritePricePerMillion r"
  "PerCallUSD (norm_row r) = PerCallUSD r"
  by (simp_all add: norm_row_def)

text \<open>A table from rows whose providers normalize to settled ones.\<close>

lemma normalized_settled:
  assumes "normalizeModelPrices rs = Inr t" "\<forall>r \<in> set rs. provider_settled (normalizeProvider (Provider r))"
  shows "prices_settled t"
  using normalizeModelPrices_ok(1) [OF assms(1)] assms(2) by (auto simp: prices_settled_def normalized_rows [OF assms(1)])

lemma renormalized:
  assumes "prices_settled t"
  obtains t' where "normalizeModelPrices (rows t) = Inr t'" "rows t' = rows t"
  by (rule normalize_prices_id [of "rows t"]) (use assms in \<open>auto simp: prices_settled_def table_ok_def\<close>)

lemma NUL_split: "z \<notin> set b \<Longrightarrow> z \<notin> set b' \<Longrightarrow> b @ z # a = b' @ z # a' \<Longrightarrow> b = b' \<and> a = a'"
proof (induction b arbitrary: b')
  case Nil
  then show ?case by (cases b') auto
next
  case (Cons x b)
  then show ?case by (cases b') auto
qed

lemma priceKey_eq:
  assumes "provider_settled (normalizeProvider p)" "provider_settled (normalizeProvider q)"
  shows "priceKey n p = priceKey m q \<longleftrightarrow> ToLower (TrimSpace n) = ToLower (TrimSpace m) \<and> normalizeProvider p = normalizeProvider q"
proof
  assume "priceKey n p = priceKey m q"
  then have "rev (normalizeProvider p) @ CHR 0x00 # rev (ToLower (TrimSpace n)) = rev (normalizeProvider q) @ CHR 0x00 # rev (ToLower (TrimSpace m))"
    unfolding priceKey_def by (metis append.assoc append_Cons append_Nil rev.simps(2) rev_append)
  from NUL_split [OF _ _ this] assms show "ToLower (TrimSpace n) = ToLower (TrimSpace m) \<and> normalizeProvider p = normalizeProvider q"
    by (simp add: provider_settled_def)
qed (simp add: priceKey_def)

lemma priceKey_settled: "provider_settled (normalizeProvider p) \<Longrightarrow> priceKey n (normalizeProvider p) = priceKey n p"
  by (simp add: priceKey_def provider_settled_def)

lemma settled_normal: "provider_settled p \<Longrightarrow> provider_settled (normalizeProvider p)"
  by (simp add: provider_settled_def)


subsection \<open>A price write\<close>

lemma price_index_cases:
  obtains (found) "price_index key rs < length rs" "row_key (rs ! price_index key rs) = key" "key \<in> row_key ` set rs"
  | (fresh) "price_index key rs = length rs" "key \<notin> row_key ` set rs"
proof (cases "key \<in> row_key ` set rs")
  case True
  then have "\<exists>r \<in> set rs. \<not> priceKey (ModelName r) (Provider r) \<noteq> key" by (auto simp: row_key_def)
  then have "length (takeWhile (\<lambda>r. priceKey (ModelName r) (Provider r) \<noteq> key) rs) < length rs" by (rule takeWhile_shorter)
  with True show thesis using nth_length_takeWhile [of "\<lambda>r. priceKey (ModelName r) (Provider r) \<noteq> key" rs]
    by (intro found) (simp_all add: price_index_def row_key_def)
next
  case False
  then have "takeWhile (\<lambda>r. priceKey (ModelName r) (Provider r) \<noteq> key) rs = rs" unfolding takeWhile_eq_all_conv by (auto simp: row_key_def)
  then have "price_index key rs = length rs" by (simp only: price_index_def)
  then show thesis using False by (rule fresh)
qed

lemma set_update_distinct:
  assumes "i < length rs" "distinct (map f rs)"
  shows "set (rs[i := x]) = insert x {y \<in> set rs. f y \<noteq> f (rs ! i)}"
proof -
  have "f (rs ! j) \<noteq> f (rs ! i)" if "j < length rs" "j \<noteq> i" for j
    using assms that by (metis distinct_conv_nth length_map nth_map)
  then show ?thesis using assms(1) by (auto simp: set_conv_nth nth_list_update) metis+
qed

text \<open>The rows a price write leaves: the input's under its own name or the stored one, and the others.\<close>

lemma put_row_set:
  assumes "prices_settled t" "provider_settled (normalizeProvider (Provider input))" "set rs = set (rows t)" "distinct (map row_key rs)"
    "inp = input\<lparr>ModelName := TrimSpace (ModelName input), Provider := normalizeProvider (Provider input)\<rparr>"
  obtains r where "set (map norm_row (put_row inp rs)) = insert r {x \<in> set rs. row_key x \<noteq> priceKey (ModelName input) (Provider input)}"
    "row_key r = priceKey (ModelName input) (Provider input)" "InputPricePerMillion r = InputPricePerMillion input"
    "OutputPricePerMillion r = OutputPricePerMillion input" "PerCallUSD r = PerCallUSD input"
    "r = norm_row (put_row inp rs ! price_index (priceKey (ModelName inp) (Provider inp)) rs)"
proof -
  let ?p = "normalizeProvider (Provider input)"
  let ?key = "priceKey (ModelName input) (Provider input)"
  have idem: "normalizeProvider ?p = ?p" using assms(2) by (simp add: provider_settled_def)
  have ki: "priceKey (ModelName inp) (Provider inp) = ?key" unfolding assms(5) by (simp add: priceKey_def idem)
  have same: "map norm_row rs = rs"
    by (rule map_idI) (use assms(1,3) norm_row_settled in \<open>auto simp: prices_settled_def table_ok_def\<close>)
  show thesis
  proof (cases rule: price_index_cases [of ?key rs])
    case found
    let ?i = "price_index ?key rs"
    let ?r0 = "inp\<lparr>ModelName := ModelName (rs ! ?i)\<rparr>"
    have mem: "rs ! ?i \<in> set (rows t)" using found(1) assms(3) nth_mem by blast
    then have ps: "provider_settled (Provider (rs ! ?i))" using assms(1) by (simp add: prices_settled_def)
    have name: "ToLower (TrimSpace (ModelName (rs ! ?i))) = ToLower (TrimSpace (ModelName input))"
      using found(2) priceKey_eq [OF settled_normal [OF ps] assms(2), of "ModelName (rs ! ?i)" "ModelName input"] by (simp add: row_key_def)
    have put: "put_row inp rs = rs[?i := ?r0]" using found(1) by (simp add: put_row_def Let_def ki)
    have "map norm_row (put_row inp rs) = rs[?i := norm_row ?r0]" by (simp add: put map_update same)
    then have "set (map norm_row (put_row inp rs)) = insert (norm_row ?r0) {x \<in> set rs. row_key x \<noteq> ?key}"
      using set_update_distinct [OF found(1) assms(4)] found(2) by simp
    moreover have "row_key (norm_row ?r0) = ?key" using name by (simp add: row_key_def priceKey_def assms(5) idem)
    moreover have "InputPricePerMillion (norm_row ?r0) = InputPricePerMillion input" "OutputPricePerMillion (norm_row ?r0) = OutputPricePerMillion input"
      "PerCallUSD (norm_row ?r0) = PerCallUSD input" by (simp_all add: assms(5))
    moreover have "norm_row ?r0 = norm_row (put_row inp rs ! price_index (priceKey (ModelName inp) (Provider inp)) rs)"
      using found(1) by (simp only: put ki nth_list_update_eq)
    ultimately show thesis by (rule that)
  next
    case fresh
    have put: "put_row inp rs = rs @ [inp]" using fresh(1) by (simp add: put_row_def Let_def ki)
    have "{x \<in> set rs. row_key x \<noteq> ?key} = set rs" using fresh(2) by (auto simp: image_iff)
    then have "set (map norm_row (put_row inp rs)) = insert (norm_row inp) {x \<in> set rs. row_key x \<noteq> ?key}" by (simp add: put same)
    moreover have "row_key (norm_row inp) = ?key" by (simp add: row_key_def priceKey_def assms(5) idem)
    moreover have "InputPricePerMillion (norm_row inp) = InputPricePerMillion input" "OutputPricePerMillion (norm_row inp) = OutputPricePerMillion input"
      "PerCallUSD (norm_row inp) = PerCallUSD input" by (simp_all add: assms(5))
    moreover have "norm_row inp = norm_row (put_row inp rs ! price_index (priceKey (ModelName inp) (Provider inp)) rs)"
      using fresh(1) by (simp add: put ki)
    ultimately show thesis by (rule that)
  qed
qed


lemma snapshot_keys_distinct: "prices_settled t \<Longrightarrow> distinct (map row_key (prices_snapshot t))"
proof -
  assume "prices_settled t"
  then have "distinct (map row_key (rows t))" by (simp add: prices_settled_def table_ok_def)
  moreover have "mset (map row_key (prices_snapshot t)) = mset (map row_key (rows t))"
    unfolding prices_snapshot_def by (simp only: mset_map mset_sort)
  ultimately show ?thesis by (metis mset_eq_imp_distinct_iff)
qed

lemma publish_prices_ok:
  assumes "store_ok s" "prices_settled t" "s' = publishPrices t (with_state_file f s)"
  shows "store_ok s'" "keysSnapshot s' = keysSnapshot s" "st_prices s' = t" "state_file (st_files s') = f" "usage s' = usage s"
proof -
  show "keysSnapshot s' = keysSnapshot s" by (rule keysSnapshot_cong) (simp add: assms(3) publishPrices_def)
  show "store_ok s'" using assms(1,2) by (simp add: assms(3) publishPrices_def store_ok_def keys_indexed_def)
qed (simp_all add: assms(3) publishPrices_def)

text \<open>The state write of a price operation.\<close>

lemma price_save:
  assumes "store_ok s" "prices_settled t" "store_saveState fails wall (keysSnapshot s) (rows t) s = (s', e)"
  shows "\<exists>f. s' = with_state_file f s \<and> (e = None \<longrightarrow> state_holds f (keysSnapshot s) (rows t))"
proof -
  obtain t' where t': "normalizeModelPrices (rows t) = Inr t'" "rows t' = rows t" by (rule renormalized [OF assms(2)])
  have "filter (\<lambda>_. True) (keysSnapshot s) = keysSnapshot s" by simp
  then have k: "\<forall>k \<in> set (keysSnapshot s). key_normal k" "distinct (map ID (keysSnapshot s))"
    using filtered_keys [OF assms(1), of "\<lambda>_. True"] by simp_all
  from saved_state [OF k t' assms(3)] show ?thesis unfolding with_state_file_def by blast
qed

text \<open>The outcome shared by the price operations: the new table is published and in the file.\<close>

definition prices_published :: "store \<Rightarrow> store \<Rightarrow> bool" where
  "prices_published s s' \<longleftrightarrow> store_ok s' \<and> st_keys s' = st_keys s \<and> usage s' = usage s \<and>
     (\<exists>st. LoadState (state_file (st_files s')) = Inr st \<and> set (StKeys st) = set (keysSnapshot s') \<and> set (StModels st) = set (rows (st_prices s')))"

lemma prices_publishedI:
  assumes "store_ok s" "prices_settled t" "state_holds f (keysSnapshot s) (rows t)" "s' = publishPrices t (with_state_file f s)"
  shows "prices_published s (recordAudit e s')" "st_prices (recordAudit e s') = t"
proof -
  note p = publish_prices_ok [OF assms(1,2,4)]
  have "st_keys s' = st_keys s" by (simp add: assms(4) publishPrices_def)
  then show "prices_published s (recordAudit e s')" using p assms(3) by (auto simp: prices_published_def state_holds_def)
  show "st_prices (recordAudit e s') = t" using p by simp
qed

lemma price_row_eqI:
  assumes "prices_settled t" "prices_settled t'" "\<And>r. row_key r = priceKey n p \<Longrightarrow> r \<in> set (rows t') \<longleftrightarrow> r \<in> set (rows t)"
  shows "price_row t' n p = price_row t n p"
proof -
  have "price_row t' n p = Some r \<longleftrightarrow> price_row t n p = Some r" for r
    using price_row_Some assms by (metis prices_settled_def)
  then show ?thesis by (metis not_Some_eq)
qed

text \<open>Setting a price takes effect exactly where it was set, in memory and on disk: after a
  successful upsert the row of that model and provider carries the given prices, the row of every
  other model and provider is what it was, and the state file holds the keys and prices now in
  memory. (The provider is one that normalizing once settles, as every provider without a doubled
  prefix is; \<open>normalizeProvider\<close> is not idempotent, see \<open>provider_not_settled\<close>.)\<close>

theorem upsert_price_exact:
  assumes "store_ok s" "UpsertModel fails wall input s = (s', None)" "provider_settled (normalizeProvider (Provider input))"
  shows "prices_published s s' \<and>
    (\<exists>r. price_row (st_prices s') (ModelName input) (Provider input) = Some r \<and> InputPricePerMillion r = InputPricePerMillion input \<and>
      OutputPricePerMillion r = OutputPricePerMillion input \<and> PerCallUSD r = PerCallUSD input) \<and>
    (\<forall>n p. priceKey n p \<noteq> priceKey (ModelName input) (Provider input) \<longrightarrow> price_row (st_prices s') n p = price_row (st_prices s) n p)"
proof -
  let ?rs = "prices_snapshot (st_prices s)"
  define inp where "inp = input\<lparr>ModelName := TrimSpace (ModelName input), Provider := normalizeProvider (Provider input)\<rparr>"
  have ps: "prices_settled (st_prices s)" using assms(1) by (simp add: store_ok_def)
  obtain r where r: "set (map norm_row (put_row inp ?rs)) = insert r {x \<in> set ?rs. row_key x \<noteq> priceKey (ModelName input) (Provider input)}"
    "row_key r = priceKey (ModelName input) (Provider input)" "InputPricePerMillion r = InputPricePerMillion input"
    "OutputPricePerMillion r = OutputPricePerMillion input" "PerCallUSD r = PerCallUSD input"
    by (rule put_row_set [OF ps assms(3) prices_snapshot_set snapshot_keys_distinct [OF ps] inp_def])
  obtain t where t: "normalizeModelPrices (put_row inp ?rs) = Inr t"
    using assms(2) by (auto simp: UpsertModel_def Let_def inp_def split: sum.splits)
  have rowsset: "set (rows t) = insert r {x \<in> set (rows (st_prices s)). row_key x \<noteq> priceKey (ModelName input) (Provider input)}"
    using r(1) by (simp add: normalized_rows [OF t])
  have pst: "prices_settled t"
  proof (rule normalized_settled [OF t], rule ballI)
    fix x
    assume "x \<in> set (put_row inp ?rs)"
    then have "Provider x = normalizeProvider (Provider input) \<or> x \<in> set (rows (st_prices s))"
      by (auto simp: put_row_def Let_def inp_def dest!: set_update_subset_insert [THEN subsetD] split: if_splits)
    then show "provider_settled (normalizeProvider (Provider x))"
      using assms(3) ps settled_normal by (auto simp: prices_settled_def)
  qed
  obtain s1 e where sv: "store_saveState fails wall (keysSnapshot s) (rows t) s = (s1, e)" by fastforce
  from price_save [OF assms(1) pst sv] obtain f where f: "s1 = with_state_file f s" "e = None \<longrightarrow> state_holds f (keysSnapshot s) (rows t)" by blast
  have e: "e = None" using assms(2) t sv by (cases e) (simp_all add: UpsertModel_def Let_def inp_def)
  obtain ev where s': "s' = recordAudit ev (publishPrices t (with_state_file f s))"
    using assms(2) t sv e f(1) by (auto simp: UpsertModel_def Let_def inp_def)
  have sh: "state_holds f (keysSnapshot s) (rows t)" using f(2) e by blast
  note p = prices_publishedI [OF assms(1) pst sh refl, of ev, folded s']
  have tok: "table_ok t" using pst by (simp add: prices_settled_def)
  have "price_row t (ModelName input) (Provider input) = Some r" unfolding price_row_Some [OF tok] rowsset using r(2) by simp
  moreover have "price_row t n q = price_row (st_prices s) n q" if "priceKey n q \<noteq> priceKey (ModelName input) (Provider input)" for n q
    by (rule price_row_eqI [OF ps pst]) (use that r(2) rowsset in auto)
  ultimately show ?thesis using p r(3-5) by simp
qed

text \<open>Deleting a price removes exactly the row of that model and provider, in memory and on disk:
  calls it priced become unpriced or fall back to the row without a provider, and every other row
  keeps its price.\<close>

theorem delete_price_exact:
  assumes "store_ok s" "DeleteModel fails wall name provider s = (s', None)"
  shows "prices_published s s' \<and> price_row (st_prices s') name provider = None \<and> price_row (st_prices s) name provider \<noteq> None \<and>
    (\<forall>n p. priceKey n p \<noteq> priceKey name provider \<longrightarrow> price_row (st_prices s') n p = price_row (st_prices s) n p)"
proof -
  let ?rs = "prices_snapshot (st_prices s)" and ?key = "priceKey (TrimSpace name) provider"
  have key: "?key = priceKey name provider" by (simp add: priceKey_def)
  let ?keep = "filter (\<lambda>r. priceKey (ModelName r) (Provider r) \<noteq> ?key) ?rs"
  have ps: "prices_settled (st_prices s)" using assms(1) by (simp add: store_ok_def)
  have pre: "TrimSpace name \<noteq> []" "filter (\<lambda>r. priceKey (ModelName r) (Provider r) = ?key) ?rs \<noteq> []"
    using assms(2) by (auto simp: DeleteModel_def Let_def split: if_splits)
  have rk: "(\<lambda>r. priceKey (ModelName r) (Provider r)) = row_key" by (simp add: fun_eq_iff row_key_def)
  have "distinct (map row_key ?keep)" using snapshot_keys_distinct [OF ps] by (simp add: distinct_map_filter)
  then obtain t where t: "normalizeModelPrices ?keep = Inr t" "rows t = ?keep" "prices_settled t"
    by (rule normalize_prices_id [rotated]) (use ps in \<open>auto simp: prices_settled_def table_ok_def\<close>)
  obtain s1 e where sv: "store_saveState fails wall (keysSnapshot s) (rows t) s = (s1, e)" by fastforce
  from price_save [OF assms(1) t(3) sv] obtain f where f: "s1 = with_state_file f s" "e = None \<longrightarrow> state_holds f (keysSnapshot s) (rows t)" by blast
  have e: "e = None" using assms(2) t(1) sv pre by (cases e) (simp_all add: DeleteModel_def Let_def)
  obtain ev where s': "s' = recordAudit ev (publishPrices t (with_state_file f s))"
    using assms(2) t(1) sv e f(1) pre by (auto simp: DeleteModel_def Let_def)
  have sh: "state_holds f (keysSnapshot s) (rows t)" using f(2) e by blast
  note p = prices_publishedI [OF assms(1) t(3) sh refl, of ev, folded s']
  have tok: "table_ok t" "table_ok (st_prices s)" using t(3) ps by (simp_all add: prices_settled_def)
  have "price_row t name provider = None" unfolding price_row_None [OF tok(1)] t(2) by (auto simp: key row_key_def)
  moreover have "price_row (st_prices s) name provider \<noteq> None"
    unfolding price_row_None [OF tok(2)] using pre(2) by (auto simp: key row_key_def filter_empty_conv)
  moreover have "price_row t n q = price_row (st_prices s) n q" if "priceKey n q \<noteq> priceKey name provider" for n q
    by (rule price_row_eqI [OF ps t(3)]) (use that in \<open>auto simp: t(2) key row_key_def\<close>)
  ultimately show ?thesis using p by simp
qed


lemma provider_not_settled:
  "normalizeProvider ''openai-compatible-openai-compatible-x'' = ''openai-compatible-x''"
  "normalizeProvider ''openai-compatible-x'' = ''x''"
  by code_simp+

lemma provider_settled_names: "provider_settled []" "provider_settled (normalizeProvider [])" "provider_settled (normalizeProvider ''openai-compatible-x'')"
  unfolding provider_settled_def by code_simp+


subsection \<open>Samples\<close>

lemma price_save_succeeds:
  assumes "store_ok s" "prices_settled t" "TrimSpace (datasetID s) \<noteq> []"
  obtains f where "store_saveState (\<lambda>_. False) wall (keysSnapshot s) (rows t) s = (with_state_file f s, None)"
proof -
  obtain t' where t': "normalizeModelPrices (rows t) = Inr t'" by (rule renormalized [OF assms(2)])
  have k: "\<forall>k \<in> set (keysSnapshot s). key_normal k" "distinct (map ID (keysSnapshot s))"
    using filtered_keys [OF assms(1), of "\<lambda>_. True"] by simp_all
  show thesis
    by (rule that, simp add: store_saveState_def SaveState_def MarshalState_def Let_def assms(3) t'
        normal_keys_fixed [OF k] AtomicWrite_unfold with_state_file_def)
qed

lemma sample_price_settled: "row_ok sample_price" "provider_settled (Provider sample_price)" "ModelName sample_price = ''m''"
  using sample_price_ok provider_settled_names(1) by (simp_all add: sample_price_def zero_price_def)

lemma sample_snapshot_prices [simp]: "prices_snapshot (st_prices sample_store) = []"
  by (simp add: prices_snapshot_def sample_store_def new_store_def)

lemma sample_upsert:
  obtains s' where "UpsertModel (\<lambda>_. False) 7 sample_price sample_store = (s', None)" "TrimSpace (datasetID s') \<noteq> []"
proof -
  have np: "normalizeProvider [] = []" by code_simp
  have nm: "TrimSpace ''m'' = ''m''" by code_simp
  have same: "sample_price\<lparr>ModelName := TrimSpace (ModelName sample_price), Provider := normalizeProvider (Provider sample_price)\<rparr> = sample_price"
    by (simp add: sample_price_def zero_price_def np nm)
  obtain t where t: "normalizeModelPrices [sample_price] = Inr t" "prices_settled t"
    by (rule normalize_prices_id [of "[sample_price]"]) (use sample_price_settled in auto)
  obtain f where f: "store_saveState (\<lambda>_. False) 7 (keysSnapshot sample_store) (rows t) sample_store = (with_state_file f sample_store, None)"
    by (rule price_save_succeeds [OF sample_store_wf(1) t(2) sample_store_wf(2)])
  show thesis
    by (rule that, simp add: UpsertModel_def Let_def same put_row_def t(1) f)
      (use sample_store_wf(2) in \<open>simp add: recordAudit_def publishPrices_def with_state_file_def\<close>)
qed

lemma upsert_price_exact_witness:
  "\<exists>s' r. UpsertModel (\<lambda>_. False) 7 sample_price sample_store = (s', None) \<and> price_row (st_prices s') ''m'' [] = Some r \<and>
     InputPricePerMillion r = Fin 10000"
proof -
  obtain s' where u: "UpsertModel (\<lambda>_. False) 7 sample_price sample_store = (s', None)" by (rule sample_upsert)
  have p: "provider_settled (normalizeProvider (Provider sample_price))"
    using provider_settled_names(2) by (simp add: sample_price_def zero_price_def)
  from upsert_price_exact [OF sample_store_wf(1) u p] obtain r where
    "price_row (st_prices s') (ModelName sample_price) (Provider sample_price) = Some r" "InputPricePerMillion r = InputPricePerMillion sample_price" by blast
  with u show ?thesis by (auto simp: sample_price_def zero_price_def)
qed

lemma delete_price_accepted:
  assumes "store_ok s" "TrimSpace (datasetID s) \<noteq> []" "TrimSpace name \<noteq> []" "r \<in> set (rows (st_prices s))" "row_key r = priceKey name provider"
  obtains s' where "DeleteModel (\<lambda>_. False) wall name provider s = (s', None)"
proof -
  let ?rs = "prices_snapshot (st_prices s)" and ?key = "priceKey (TrimSpace name) provider"
  let ?keep = "filter (\<lambda>r. priceKey (ModelName r) (Provider r) \<noteq> ?key) ?rs"
  have ps: "prices_settled (st_prices s)" using assms(1) by (simp add: store_ok_def)
  have "distinct (map row_key ?keep)" using snapshot_keys_distinct [OF ps] by (simp add: distinct_map_filter)
  then obtain t where t: "normalizeModelPrices ?keep = Inr t" "rows t = ?keep" "prices_settled t"
    by (rule normalize_prices_id [rotated]) (use ps in \<open>auto simp: prices_settled_def table_ok_def\<close>)
  obtain f where f: "store_saveState (\<lambda>_. False) wall (keysSnapshot s) (rows t) s = (with_state_file f s, None)"
    by (rule price_save_succeeds [OF assms(1) t(3) assms(2)])
  have "filter (\<lambda>r. priceKey (ModelName r) (Provider r) = ?key) ?rs \<noteq> []"
    using assms(4,5) by (auto simp: filter_empty_conv row_key_def priceKey_def)
  then show thesis by (intro that) (simp add: DeleteModel_def Let_def assms(3) t(1) f)
qed

text \<open>A store with one price row.\<close>

lemma sample_priced:
  obtains s where "store_ok s" "TrimSpace (datasetID s) \<noteq> []" "rows (st_prices s) = [sample_price]"
proof -
  obtain s where u: "UpsertModel (\<lambda>_. False) 7 sample_price sample_store = (s, None)" "TrimSpace (datasetID s) \<noteq> []" by (rule sample_upsert)
  have np: "normalizeProvider [] = []" by code_simp
  have same: "sample_price\<lparr>ModelName := TrimSpace (ModelName sample_price), Provider := normalizeProvider (Provider sample_price)\<rparr> = sample_price"
    using sample_price_settled by (simp add: sample_price_def zero_price_def np row_ok_def)
  obtain t where t: "normalizeModelPrices [sample_price] = Inr t" "rows t = [sample_price]" "prices_settled t"
    by (rule normalize_prices_id [of "[sample_price]"]) (use sample_price_settled in auto)
  obtain s1 e where sv: "store_saveState (\<lambda>_. False) 7 (keysSnapshot sample_store) (rows t) sample_store = (s1, e)" by fastforce
  have e: "e = None" "\<exists>ev. s = recordAudit ev (publishPrices t s1)"
    using u(1) sv by (cases e; auto simp: UpsertModel_def Let_def same put_row_def t(1))+
  from price_save [OF sample_store_wf(1) t(3) sv] obtain f where f: "s1 = with_state_file f sample_store" by blast
  have ok: "store_ok s" "rows (st_prices s) = [sample_price]"
    using e(2) publish_prices_ok [OF sample_store_wf(1) t(3) refl, of f] t(2) by (auto simp: f)
  show thesis by (rule that [OF ok(1) u(2) ok(2)])
qed

lemma delete_price_exact_witness:
  "\<exists>s s'. store_ok s \<and> price_row (st_prices s) ''m'' [] \<noteq> None \<and> DeleteModel (\<lambda>_. False) 8 ''m'' [] s = (s', None) \<and>
     price_row (st_prices s') ''m'' [] = None"
proof -
  obtain s where s: "store_ok s" "TrimSpace (datasetID s) \<noteq> []" "rows (st_prices s) = [sample_price]" by (rule sample_priced)
  have "TrimSpace ''m'' \<noteq> []" by code_simp
  moreover have "row_key sample_price = priceKey ''m'' []" by (simp add: row_key_def sample_price_def zero_price_def)
  ultimately obtain s' where d: "DeleteModel (\<lambda>_. False) 8 ''m'' [] s = (s', None)"
    using delete_price_accepted [OF s(1,2), of "''m''" sample_price "[]" 8] s(3) by auto
  from delete_price_exact [OF s(1) d] d s(1) show ?thesis by blast
qed


subsection \<open>Imports add or change only what they name\<close>

definition item_key :: "ModelImportItem \<Rightarrow> string" where
  "item_key item = priceKey (TrimSpace (ItemName item)) (ItemProvider item)"

definition new_row :: "ModelImportItem \<Rightarrow> ModelPrice" where
  "new_row item = zero_price\<lparr>ModelName := TrimSpace (ItemName item), Provider := ItemProvider item\<rparr>"

lemma import_items_rows:
  assumes "import_items present batch items rs result = ((rs', result'), True)"
  shows "\<exists>news. rs' = rs @ map new_row news \<and> set news \<subseteq> set items \<and> length (Created result') = length (Created result) + length news \<and>
    (\<forall>item \<in> set news. item_key item \<notin> set present) \<and> (\<forall>item \<in> set items. item_key item \<in> set present \<union> set batch \<union> item_key ` set news)"
  using assms
proof (induction present batch items rs result arbitrary: rs' result' rule: import_items.induct)
  case (2 present batch item items rs result)
  have ik: "priceKey (TrimSpace (ItemName item)) (ItemProvider item) = item_key item" by (simp add: item_key_def)
  have nr: "zero_price\<lparr>ModelName := TrimSpace (ItemName item), Provider := ItemProvider item\<rparr> = new_row item" by (simp add: new_row_def)
  have ne: "TrimSpace (ItemName item) \<noteq> []" using 2(4) by (auto simp: Let_def)
  consider "item_key item \<in> set batch" | "item_key item \<notin> set batch" "item_key item \<in> set present"
    | "item_key item \<notin> set batch" "item_key item \<notin> set present" by blast
  then show ?case
  proof cases
    case 1
    from 2(4) have "import_items present batch items rs (result\<lparr>Skipped := Skipped result @ [\<lparr>ImportName = TrimSpace (ItemName item), ImportReason = ''duplicate''\<rparr>]\<rparr>) = ((rs', result'), True)"
      using ne 1 by (simp add: Let_def ik)
    from 2(1) [OF refl refl ne _ this] 1 show ?thesis by (fastforce simp: ik)
  next
    case 2
    from \<open>import_items present batch (item # items) rs result = ((rs', result'), True)\<close>
    have "import_items present (item_key item # batch) items rs (result\<lparr>Skipped := Skipped result @ [\<lparr>ImportName = TrimSpace (ItemName item), ImportReason = ''exists''\<rparr>]\<rparr>) = ((rs', result'), True)"
      using ne 2 by (simp add: Let_def ik)
    from "2.IH"(2) [OF refl refl ne _ _ this [folded ik]] 2 show ?thesis by (fastforce simp: ik)
  next
    case 3
    from \<open>import_items present batch (item # items) rs result = ((rs', result'), True)\<close>
    have "import_items present (item_key item # batch) items (rs @ [new_row item])
        (result\<lparr>Created := Created result @ [\<lparr>ImportName = TrimSpace (ItemName item), ImportReason = []\<rparr>]\<rparr>) = ((rs', result'), True)"
      using ne 3 by (simp add: Let_def ik nr)
    from "2.IH"(3) [OF refl refl ne _ _ this [folded ik nr]] 3 obtain news where
      n: "rs' = (rs @ [new_row item]) @ map new_row news" "set news \<subseteq> set items" "length (Created result') = Suc (length (Created result)) + length news"
        "\<forall>item \<in> set news. item_key item \<notin> set present"
        "\<forall>i \<in> set items. item_key i \<in> set present \<union> set (item_key item # batch) \<union> item_key ` set news"
      by (simp add: ik nr) blast
    show ?thesis by (rule exI [of _ "item # news"]) (use n 3 in auto)
  qed
qed simp


lemma new_row_unpriced: "\<not> Priced (norm_row (new_row item))"
  by (auto simp: new_row_def zero_price_def norm_row_def Priced_def)

lemma prices_published_audit [simp]: "prices_published s0 (recordAudit e s) = prices_published s0 s"
  by (simp add: prices_published_def)

lemma record_fold_fields:
  "st_prices (fold (\<lambda>x. recordAudit (f x)) xs s) = st_prices s" "store_ok (fold (\<lambda>x. recordAudit (f x)) xs s) = store_ok s"
  "prices_published s0 (fold (\<lambda>x. recordAudit (f x)) xs s) = prices_published s0 s"
  by (induction xs arbitrary: s) simp_all

lemma prices_published_record:
  assumes "store_ok s" "prices_settled t" "state_holds f (keysSnapshot s) (rows t)"
  shows "prices_published s (publishPrices t (with_state_file f s))"
  using prices_publishedI [OF assms refl, of undefined] by simp

text \<open>An import of models never touches a row that exists: after a successful import every row of
  before is still there unchanged, every row added is one of the items asked for and charges
  nothing, and every item has a row.\<close>

theorem import_never_overwrites:
  assumes "store_ok s" "ImportModels fails wall items s = (s', result, None)"
    "\<forall>item \<in> set items. provider_settled (normalizeProvider (ItemProvider item))"
  shows "store_ok s' \<and> set (rows (st_prices s)) \<subseteq> set (rows (st_prices s')) \<and>
    (\<forall>r \<in> set (rows (st_prices s')). r \<in> set (rows (st_prices s)) \<or> \<not> Priced r \<and> (\<exists>item \<in> set items. row_key r = priceKey (ItemName item) (ItemProvider item))) \<and>
    (\<forall>item \<in> set items. price_row (st_prices s') (ItemName item) (ItemProvider item) \<noteq> None)"
proof -
  let ?rs = "prices_snapshot (st_prices s)"
  have ps: "prices_settled (st_prices s)" and tok0: "table_ok (st_prices s)" using assms(1) by (simp_all add: store_ok_def prices_settled_def)
  have pk: "map (\<lambda>r. priceKey (ModelName r) (Provider r)) ?rs = map row_key ?rs" by (simp add: row_key_def)
  have ikey: "priceKey (ItemName item) (ItemProvider item) = item_key item" for item by (simp add: item_key_def priceKey_def)
  show ?thesis
  proof (cases "items = []")
    case True
    then show ?thesis using assms(1,2) by (simp add: ImportModels_def)
  next
    case ne: False
    obtain rs1 res ok where imp: "import_items (map row_key ?rs) [] items ?rs empty_import = ((rs1, res), ok)" by (metis surj_pair)
    have ok: ok using assms(2) ne imp by (cases ok) (simp_all add: ImportModels_def Let_def pk)
    from import_items_rows [OF imp [unfolded eqTrueI [OF ok]]] obtain news where
      n: "rs1 = ?rs @ map new_row news" "set news \<subseteq> set items" "length (Created res) = length news"
        "\<forall>item \<in> set news. item_key item \<notin> row_key ` set (rows (st_prices s))"
        "\<forall>item \<in> set items. item_key item \<in> row_key ` set (rows (st_prices s)) \<union> item_key ` set news"
      by (auto simp: empty_import_def)
    show ?thesis
    proof (cases "Created res = []")
      case True
      then have "s' = s" "news = []" using assms(2) ne imp ok n(3) by (simp_all add: ImportModels_def Let_def pk)
      then show ?thesis using assms(1) n(5) by (auto simp: price_row_None [OF tok0] ikey image_iff) metis
    next
      case False
      obtain t where t: "normalizeModelPrices rs1 = Inr t"
        using assms(2) ne imp ok False by (auto simp: ImportModels_def Let_def pk split: sum.splits)
      have pst: "prices_settled t"
      proof (rule normalized_settled [OF t], rule ballI)
        fix r
        assume "r \<in> set rs1"
        then have "r \<in> set (rows (st_prices s)) \<or> (\<exists>item \<in> set items. Provider r = ItemProvider item)"
          using n(2) by (auto simp: n(1) new_row_def)
        then show "provider_settled (normalizeProvider (Provider r))"
          using assms(3) ps settled_normal by (auto simp: prices_settled_def)
      qed
      have "map norm_row ?rs = ?rs"
        by (rule map_idI) (use ps norm_row_settled in \<open>auto simp: prices_settled_def table_ok_def\<close>)
      then have rowst: "rows t = ?rs @ map (norm_row \<circ> new_row) news" by (simp add: normalized_rows [OF t] n(1))
      have rk: "row_key (norm_row (new_row item)) = item_key item" if "item \<in> set items" for item
        using that assms(3) by (simp add: row_key_def new_row_def item_key_def priceKey_def provider_settled_def)
      obtain s1 e where sv: "store_saveState fails wall (keysSnapshot s) (rows t) s = (s1, e)" by fastforce
      from price_save [OF assms(1) pst sv] obtain f where f: "s1 = with_state_file f s" "e = None \<longrightarrow> state_holds f (keysSnapshot s) (rows t)" by blast
      have e: "e = None" using assms(2) ne imp ok False t sv by (cases e) (simp_all add: ImportModels_def Let_def pk)
      have s': "\<exists>xs. s' = fold (\<lambda>row. recordAudit (import_event row)) xs (publishPrices t (with_state_file f s))"
        using assms(2) ne imp ok False t sv e f(1) by (auto simp: ImportModels_def Let_def pk)
      then have st: "store_ok s'" "st_prices s' = t"
        using publish_prices_ok [OF assms(1) pst refl, of f] by (auto simp: record_fold_fields)
      have tok: "table_ok t" using pst by (simp add: prices_settled_def)
      have "\<exists>r \<in> set (rows t). row_key r = item_key item" if "item \<in> set items" for item
        using n(2,5) rk that unfolding rowst by fastforce
      then have "\<forall>item \<in> set items. price_row t (ItemName item) (ItemProvider item) \<noteq> None"
        by (simp add: price_row_None [OF tok] ikey)
      moreover have "\<forall>r \<in> set (rows t). r \<in> set (rows (st_prices s)) \<or> \<not> Priced r \<and> (\<exists>item \<in> set items. row_key r = priceKey (ItemName item) (ItemProvider item))"
        using n(2) rk new_row_unpriced by (fastforce simp: rowst ikey)
      moreover have "set (rows (st_prices s)) \<subseteq> set (rows t)" by (simp add: rowst)
      ultimately show ?thesis unfolding st(2) using st(1) by blast
    qed
  qed
qed

lemma import_never_overwrites_witness:
  "\<exists>s' result. ImportModels (\<lambda>_. False) 7 [\<lparr>ItemName = ''a'', ItemProvider = []\<rparr>, \<lparr>ItemName = ''A'', ItemProvider = []\<rparr>] sample_store = (s', result, None) \<and>
     price_row (st_prices s') ''a'' [] \<noteq> None"
proof -
  let ?items = "[\<lparr>ItemName = ''a'', ItemProvider = []\<rparr>, \<lparr>ItemName = ''A'', ItemProvider = []\<rparr>]"
  have names: "TrimSpace ''a'' = ''a''" "TrimSpace ''A'' = ''A''" "priceKey ''A'' [] = priceKey ''a'' []" "normalizeProvider [] = []"
    by code_simp+
  let ?row = "zero_price\<lparr>ModelName := ''a''\<rparr>"
  obtain res where res: "import_items [] [] ?items [] empty_import = (([?row], res), True)" "Created res \<noteq> []" "length (Created res) = 1"
    using names by (simp add: Let_def empty_import_def zero_price_def)
  have "row_ok (norm_row ?row)"
    by (simp add: row_ok_def norm_row_def names zero_price_def maxBillingMultiplier_def validPrice_Fin maxPricePerMillion_def maxPerCallUSD_def)
  moreover have nrow: "provider_settled (Provider (norm_row ?row))" using provider_settled_names(2) by (simp add: zero_price_def)
  ultimately have "\<exists>t. normalizeModelPrices [?row] = Inr t" 
    by (simp add: normalizeModelPrices_def normalize_row_def Let_def names zero_price_def maxBillingMultiplier_def validPrice_Fin maxPricePerMillion_def maxPerCallUSD_def)
  then obtain t where t: "normalizeModelPrices [?row] = Inr t" by blast
  have pst: "prices_settled t" by (rule normalized_settled [OF t]) (use provider_settled_names(2) in \<open>simp add: zero_price_def\<close>)
  obtain f where f: "store_saveState (\<lambda>_. False) 7 (keysSnapshot sample_store) (rows t) sample_store = (with_state_file f sample_store, None)"
    by (rule price_save_succeeds [OF sample_store_wf(1) pst sample_store_wf(2)])
  have "\<exists>s'. ImportModels (\<lambda>_. False) 7 ?items sample_store = (s', res, None)"
    unfolding ImportModels_def Let_def sample_snapshot_prices list.map res(1) by (simp add: res(2,3) t f)
  then obtain s' where i: "ImportModels (\<lambda>_. False) 7 ?items sample_store = (s', res, None)" by blast
  have "\<forall>item \<in> set ?items. provider_settled (normalizeProvider (ItemProvider item))" using provider_settled_names(2) by simp
  from import_never_overwrites [OF sample_store_wf(1) i this] i show ?thesis by auto
qed


lemma import_row_fields [simp]:
  "ModelName (import_row ps r) = ModelName r" "Provider (import_row ps r) = Provider r" "row_key (import_row ps r) = row_key r"
  by (simp_all add: import_row_def apply_patch_def row_key_def split: option.split)

lemma norm_import_row:
  assumes "row_ok r" "provider_settled (Provider r)"
  shows "norm_row (import_row ps r) = import_row ps r"
proof -
  have n: "norm_row r = r" by (rule norm_row_settled [OF assms])
  have "norm_row (apply_patch p r) = apply_patch p (norm_row r)" for p by (cases r; cases "patch_cacheWrite p") (simp_all add: norm_row_def apply_patch_def)
  then show ?thesis using n by (simp add: import_row_def split: option.split)
qed

lemma row_unique:
  assumes "table_ok t" "r \<in> set (rows t)" "r' \<in> set (rows t)" "row_key r = row_key r'"
  shows "r = r'"
  using assms(2-) price_row_Some [OF assms(1), of "ModelName r" "Provider r"] by (metis option.inject row_key_def)

text \<open>A price import changes token prices only, of the models it names only: after a successful
  import every row is the one of before with the given token prices of its model id put in
  (whatever its provider), so multipliers, modes and per-call prices stay, and rows of other models
  are untouched. A dry run, or an import that changes no price, changes nothing, in memory or on
  disk.\<close>

theorem import_prices_exact:
  assumes "store_ok s" "ImportModelPrices fails wall ms dryRun s = (s', result, None)"
  shows "(dryRun \<or> Applied result = [] \<longrightarrow> s' = s) \<and>
    (\<not> dryRun \<and> Applied result \<noteq> [] \<longrightarrow> prices_published s s' \<and>
      (\<forall>n p. price_row (st_prices s') n p = map_option (import_row (import_patches ms)) (price_row (st_prices s) n p)))"
proof -
  let ?rs = "prices_snapshot (st_prices s)" and ?ps = "import_patches ms"
  have ps: "prices_settled (st_prices s)" and tok0: "table_ok (st_prices s)" using assms(1) by (simp_all add: store_ok_def prices_settled_def)
  have same: "(dryRun \<or> Applied result = [] \<longrightarrow> s' = s) \<and> result = import_result ?ps ?rs"
    using assms(2) by (auto simp: ImportModelPrices_def Let_def split: if_splits sum.splits prod.splits option.splits)
  have "prices_published s s' \<and> (\<forall>n p. price_row (st_prices s') n p = map_option (import_row ?ps) (price_row (st_prices s) n p))"
    if go: "\<not> dryRun" "Applied result \<noteq> []"
  proof -
    have ap: "Applied (import_result ?ps ?rs) \<noteq> []" using same go(2) by simp
    obtain t where t: "normalizeModelPrices (map (import_row ?ps) ?rs) = Inr t"
      using assms(2) ap by (auto simp: ImportModelPrices_def Let_def split: sum.splits)
    have ok: "\<forall>r \<in> set (rows (st_prices s)). row_ok r \<and> provider_settled (Provider r)" using ps by (auto simp: prices_settled_def table_ok_def)
    have rowst: "rows t = map (import_row ?ps) ?rs" unfolding normalized_rows [OF t] using ok norm_import_row by simp
    have pst: "prices_settled t" by (rule normalized_settled [OF t]) (use ok settled_normal in auto)
    obtain s1 e where sv: "store_saveState fails wall (keysSnapshot s) (rows t) s = (s1, e)" by fastforce
    from price_save [OF assms(1) pst sv] obtain f where f: "s1 = with_state_file f s" "e = None \<longrightarrow> state_holds f (keysSnapshot s) (rows t)" by blast
    have e: "e = None" using assms(2) ap go(1) t sv by (cases e) (simp_all add: ImportModelPrices_def Let_def)
    then have sh: "state_holds f (keysSnapshot s) (rows t)" using f(2) by blast
    have "\<exists>xs. s' = fold (\<lambda>a. recordAudit (applied_event a)) xs (publishPrices t (with_state_file f s))"
      using assms(2) ap go(1) t sv e f(1) by (auto simp: ImportModelPrices_def Let_def)
    then have pub: "prices_published s s'" "st_prices s' = t"
      using prices_published_record [OF assms(1) pst sh] publish_prices_ok(3) [OF assms(1) pst refl, of f] by (auto simp: record_fold_fields)
    have tok: "table_ok t" using pst by (simp add: prices_settled_def)
    have "price_row t n p = map_option (import_row ?ps) (price_row (st_prices s) n p)" for n p
    proof (cases "price_row (st_prices s) n p")
      case None
      then have "\<forall>r \<in> set (rows (st_prices s)). row_key r \<noteq> priceKey n p" using price_row_None [OF tok0] by blast
      then have "price_row t n p = None" unfolding price_row_None [OF tok] by (simp add: rowst)
      then show ?thesis using None by simp
    next
      case (Some r)
      then have "r \<in> set (rows (st_prices s))" "row_key r = priceKey n p" by (simp_all add: price_row_Some [OF tok0])
      then have "price_row t n p = Some (import_row ?ps r)" unfolding price_row_Some [OF tok] by (simp add: rowst)
      then show ?thesis using Some by simp
    qed
    then show ?thesis using pub by simp
  qed
  then show ?thesis using same by blast
qed

lemma import_prices_exact_witness:
  "\<exists>s s' result r. ImportModelPrices (\<lambda>_. False) 7 [\<lparr>MatchModel = ''M'', PromptPricePer1M = Some (Fin 1), CompletionPricePer1M = None,
       CacheReadPricePer1M = None, CacheWritePricePer1M = None\<rparr>] False s = (s', result, None) \<and>
     price_row (st_prices s') ''m'' [] = Some r \<and> InputPricePerMillion r = Fin 1 \<and> OutputPricePerMillion r = Fin 10000"
proof -
  let ?ms = "[\<lparr>MatchModel = ''M'', PromptPricePer1M = Some (Fin 1), CompletionPricePer1M = None,
       CacheReadPricePer1M = None, CacheWritePricePer1M = None\<rparr>]"
  obtain s where s: "store_ok s" "TrimSpace (datasetID s) \<noteq> []" "rows (st_prices s) = [sample_price]" by (rule sample_priced)
  have snap: "prices_snapshot (st_prices s) = [sample_price]" by (simp add: prices_snapshot_def s(3))
  have names: "ToLower (TrimSpace ''M'') = ''m''" "ToLower ''m'' = ''m''" "TrimSpace ''M'' = ''M''" "ToLower ''M'' = ''m''"
    by code_simp+
  define p where "p = match_patch (hd ?ms)"
  have ip: "import_patches ?ms = [(''m'', p)]" by (simp add: import_patches_def names Let_def match_patch_def patch_empty_def p_def)
  have row: "import_row [(''m'', p)] sample_price = sample_price\<lparr>InputPricePerMillion := Fin 1\<rparr>"
    by (simp add: import_row_def apply_patch_def match_patch_def patched_def names p_def sample_price_def zero_price_def)
  have ap: "Applied (import_result [(''m'', p)] [sample_price]) \<noteq> []"
  proof -
    have "\<not> same_prices sample_price (sample_price\<lparr>InputPricePerMillion := Fin 1\<rparr>)" by (simp add: same_prices_def sample_price_def)
    then show ?thesis unfolding import_result_def Let_def by (simp add: row names sample_price_settled(3))
  qed
  have rok: "row_ok (sample_price\<lparr>InputPricePerMillion := Fin 1\<rparr>)" using sample_price_settled(1) by (simp add: row_ok_def validPrice_Fin maxPricePerMillion_def)
  obtain t where t: "normalizeModelPrices [sample_price\<lparr>InputPricePerMillion := Fin 1\<rparr>] = Inr t" "prices_settled t"
    by (rule normalize_prices_id [of "[sample_price\<lparr>InputPricePerMillion := Fin 1\<rparr>]"]) (use rok sample_price_settled(2) in auto)
  obtain f where f: "store_saveState (\<lambda>_. False) 7 (keysSnapshot s) (rows t) s = (with_state_file f s, None)"
    by (rule price_save_succeeds [OF s(1) t(2) s(2)])
  have "\<exists>s' result. ImportModelPrices (\<lambda>_. False) 7 ?ms False s = (s', result, None) \<and> Applied result \<noteq> []"
    unfolding ImportModelPrices_def Let_def ip snap using ap by (simp add: row t(1) f)
  then obtain s' result where run: "ImportModelPrices (\<lambda>_. False) 7 ?ms False s = (s', result, None)" "Applied result \<noteq> []" by blast
  have tok: "table_ok (st_prices s)" using s(1) by (simp add: store_ok_def prices_settled_def)
  have "price_row (st_prices s) ''m'' [] = Some sample_price"
    unfolding price_row_Some [OF tok] s(3) by (simp add: row_key_def sample_price_def zero_price_def)
  then have "price_row (st_prices s') ''m'' [] = Some (sample_price\<lparr>InputPricePerMillion := Fin 1\<rparr>)"
    using import_prices_exact [OF s(1) run(1)] run(2) by (simp add: ip row)
  then show ?thesis using run(1)
    by (intro exI [of _ s] exI [of _ s'] exI [of _ result] exI [of _ "sample_price\<lparr>InputPricePerMillion := Fin 1\<rparr>"])
      (simp add: sample_price_def)
qed

end
