(* ===== verification/Reports.thy ===== *)
theory Reports
  imports PriceAdmin
begin

text \<open>
  The reports of internal/policy/report.go and stats.go: the status, the price rows, the models
  billed without a price, the usage of one key, and the dashboard's breakdown by day, by model and
  by key.

  A report reads the ledger through \<open>visitRange\<close>, which hands over every bucket of the range; the
  code adds it up in accumulators keyed by day, model and key, in the map's unspecified order.
  \<open>Stats_breakdowns\<close> shows that the breakdowns add up to the totals whatever the order.
  \<open>sort.Slice\<close> by a descending number and then a distinct name is a stable sort by the number
  after one by the name.
\<close>

subsection \<open>Status and price rows\<close>

record StatusReport =
  RepEnabled :: bool
  RepStateFile :: string
  RepDatasetID :: string
  RepKeyCount :: nat
  RepModelCount :: nat
  RepRPMUsage :: "(string, int) amap"
  RepHealth :: Health

definition store_Status :: "instant \<Rightarrow> store \<Rightarrow> StatusReport" where
  "store_Status now s = \<lparr>RepEnabled = st_enabled s, RepStateFile = statePath s, RepDatasetID = datasetID s,
     RepKeyCount = length (st_keys s), RepModelCount = length (rows (st_prices s)),
     RepRPMUsage = limiter_Snapshot now (st_limiter s), RepHealth = st_health s\<rparr>"

definition store_Health :: "store \<Rightarrow> Health" where
  "store_Health s = st_health s"

definition store_Timezone :: "store \<Rightarrow> string" where
  "store_Timezone s = timezone (usage s)"

definition store_Location :: "store \<Rightarrow> location" where
  "store_Location s = ledger_location (usage s)"

definition PriceRows :: "store \<Rightarrow> (ModelPrice \<times> bool) list" where
  "PriceRows s = map (\<lambda>r. (r, Priced r)) (prices_snapshot (st_prices s))"

definition PriceRowFor :: "string \<Rightarrow> string \<Rightarrow> store \<Rightarrow> (ModelPrice \<times> bool) option" where
  "PriceRowFor name provider s = map_option (\<lambda>r. (r, Priced r)) (price_row (st_prices s) name provider)"


subsection \<open>Models billed without a price\<close>

record UnpricedModel =
  UnpName :: string
  UnpCalls :: int
  LastSeen :: "day option"
  HasQualifiedRows :: bool

type_synonym visit = "string \<times> day \<times> string \<times> bucket"

fun see_unpriced :: "visit \<Rightarrow> (string, UnpricedModel) amap \<Rightarrow> (string, UnpricedModel) amap" where
  "see_unpriced (_, date, model, b) seen =
     (if UnpricedCalls b = 0 then seen
      else let entry = (case aget seen model of Some e \<Rightarrow> e
                 | None \<Rightarrow> \<lparr>UnpName = model, UnpCalls = 0, LastSeen = None, HasQualifiedRows = False\<rparr>);
               entry = entry\<lparr>UnpCalls := wrap64 (UnpCalls entry + UnpricedCalls b)\<rparr>
           in aset model (if after_mark (LastSeen entry) date then entry\<lparr>LastSeen := Some date\<rparr> else entry) seen)"

definition unpriced_entries :: "priceTable \<Rightarrow> visit list \<Rightarrow> UnpricedModel list" where
  "unpriced_entries prices visits =
     [e\<lparr>HasQualifiedRows := hasName prices (UnpName e)\<rparr>. (_, e) \<leftarrow> fold see_unpriced visits [],
        price_row prices (UnpName e) [] = None]"

definition unpricedModels :: "instant \<Rightarrow> day \<Rightarrow> day \<Rightarrow> store \<Rightarrow> store \<times> UnpricedModel list" where
  "unpricedModels now from to s =
     (let (l, visits) = visitRange now from to (usage s)
      in (s\<lparr>usage := l\<rparr>, sort_key (\<lambda>e. - UnpCalls e) (sort_key UnpName (unpriced_entries (st_prices s) visits))))"

definition UnpricedModels :: "instant \<Rightarrow> store \<Rightarrow> store \<times> UnpricedModel list" where
  "UnpricedModels now s =
     (let (l, from, to) = reportRange now UsageRetentionDays (usage s)
      in unpricedModels now from to (s\<lparr>usage := l\<rparr>))"


subsection \<open>One key\<close>

definition UsageSummaryFor :: "instant \<Rightarrow> KeyConfig \<Rightarrow> store \<Rightarrow> store \<times> UsageSummary" where
  "UsageSummaryFor now key s =
     (let (l, summary) = ledger_summary now (ID key) (quotaLimitsForKey key) (usage s)
      in (s\<lparr>usage := l\<rparr>, if \<not> Enabled key then summary\<lparr>Status := ''disabled''\<rparr> else summary))"

record ModelUsageEntry =
  MueName :: string
  MueBillingMode :: string
  MueBillingMultiplier :: f64
  MuePriced :: bool
  MueDaily :: usage_window
  MueWeekly :: usage_window
  MueMonthly :: usage_window

definition pricedCalls :: "int \<Rightarrow> int \<Rightarrow> bool \<Rightarrow> bool" where
  "pricedCalls calls unpriced rowPriced = (if calls = 0 then rowPriced else unpriced = 0)"

definition model_usage_entry :: "priceTable \<Rightarrow> modelWindows \<Rightarrow> ModelUsageEntry" where
  "model_usage_entry prices w =
     (let price = rowByName prices (MwName w);
          calls = wrap64 (wrap64 (CallCount (MwDaily w) + CallCount (MwWeekly w)) + CallCount (MwMonthly w));
          unpriced = wrap64 (wrap64 (TotalsUnpricedCalls (MwDaily w) + TotalsUnpricedCalls (MwWeekly w))
            + TotalsUnpricedCalls (MwMonthly w))
      in \<lparr>MueName = MwName w,
          MueBillingMode = (case price of Some p \<Rightarrow> BillingMode p | None \<Rightarrow> []),
          MueBillingMultiplier = (case price of Some p \<Rightarrow> BillingMultiplier p | None \<Rightarrow> Fin 0),
          MuePriced = pricedCalls calls unpriced (case price of Some p \<Rightarrow> Priced p | None \<Rightarrow> False),
          MueDaily = MwDaily w, MueWeekly = MwWeekly w, MueMonthly = MwMonthly w\<rparr>)"

definition ModelUsageFor :: "instant \<Rightarrow> string \<Rightarrow> store \<Rightarrow> store \<times> (KeyConfig \<times> ModelUsageEntry list) option" where
  "ModelUsageFor now kid s = (case findByID kid s of
     None \<Rightarrow> (s, None)
   | Some key \<Rightarrow> (let (l, windows) = modelUsage now (ID key) (usage s)
                  in (s\<lparr>usage := l\<rparr>, Some (key, map (model_usage_entry (st_prices s)) windows))))"

definition UsageHistoryFor :: "instant \<Rightarrow> string \<Rightarrow> int \<Rightarrow> store \<Rightarrow> store \<times> (KeyConfig \<times> UsageHistoryDay list) option" where
  "UsageHistoryFor now kid days s = (case findByID kid s of
     None \<Rightarrow> (s, None)
   | Some key \<Rightarrow> (let (l, history) = ledger_history now (ID key) days (usage s)
                  in (s\<lparr>usage := l\<rparr>, Some (key, history))))"


subsection \<open>The dashboard\<close>

definition statsKeysLimit :: nat where
  "statsKeysLimit = 200"

record StatsTotals =
  StChargedUSD :: f64
  StCalls :: int
  StUnpricedCalls :: int
  StInputTokens :: int
  StCacheReadTokens :: int
  StCacheWriteTokens :: int
  StOutputTokens :: int

definition statsTotals :: "bucket \<Rightarrow> StatsTotals" where
  "statsTotals b = \<lparr>StChargedUSD = nano_USD (ChargedNano b), StCalls = Calls b, StUnpricedCalls = UnpricedCalls b,
     StInputTokens = InputTokens b, StCacheReadTokens = CacheReadTokens b,
     StCacheWriteTokens = CacheWriteTokens b, StOutputTokens = OutputTokens b\<rparr>"

definition zero_stats :: StatsTotals where
  "zero_stats = \<lparr>StChargedUSD = Fin 0, StCalls = 0, StUnpricedCalls = 0, StInputTokens = 0, StCacheReadTokens = 0,
     StCacheWriteTokens = 0, StOutputTokens = 0\<rparr>"

record StatsDay = StatsTotals +
  StDate :: day

record StatsModel = StatsTotals +
  StModelName :: string
  StPriced :: bool

record StatsKey = StatsTotals +
  StKeyID :: string
  StKeyName :: string
  StDeleted :: bool

record StatsReport =
  RepTimezone :: string
  RepFrom :: day
  RepTo :: day
  RepTotals :: StatsTotals
  RepDays :: "StatsDay list"
  RepModels :: "StatsModel list"
  RepKeys :: "StatsKey list"
  RepKeysTotal :: nat
  RepKeysTruncated :: bool
  RepUnpriced :: "UnpricedModel list"

text \<open>The amounts compared by the sort are the dollars of \<open>nano_USD\<close>, which are finite.\<close>

fun f64_value :: "f64 \<Rightarrow> rat" where
  "f64_value (Fin x) = x"
| "f64_value _ = 0"

definition accumulate :: "(visit \<Rightarrow> 'k) \<Rightarrow> visit list \<Rightarrow> ('k, bucket) amap" where
  "accumulate name visits = fold (\<lambda>v index. book bucket_add zero_bucket (name v) (snd (snd (snd v))) index) visits []"

definition visit_key :: "visit \<Rightarrow> string" where "visit_key v = fst v"
definition visit_day :: "visit \<Rightarrow> day" where "visit_day v = fst (snd v)"
definition visit_model :: "visit \<Rightarrow> string" where "visit_model v = fst (snd (snd v))"
definition visit_bucket :: "visit \<Rightarrow> bucket" where "visit_bucket v = snd (snd (snd v))"

definition stats_day :: "(day, bucket) amap \<Rightarrow> day \<Rightarrow> StatsDay" where
  "stats_day byDay date = StatsTotals.extend
     (case aget byDay date of Some b \<Rightarrow> statsTotals b | None \<Rightarrow> zero_stats) (StatsDay.fields date)"

definition stats_model :: "priceTable \<Rightarrow> string \<times> bucket \<Rightarrow> StatsModel" where
  "stats_model prices = (\<lambda>(name, b). StatsTotals.extend (statsTotals b) (StatsModel.fields name
     (pricedCalls (Calls b) (UnpricedCalls b) (case rowByName prices name of Some p \<Rightarrow> Priced p | None \<Rightarrow> False))))"

definition stats_key :: "(string, KeyConfig) amap \<Rightarrow> string \<times> bucket \<Rightarrow> StatsKey" where
  "stats_key keys = (\<lambda>(kid, b). StatsTotals.extend (statsTotals b) (StatsKey.fields kid
     (case aget keys kid of Some k \<Rightarrow> KeyName k | None \<Rightarrow> []) (aget keys kid = None)))"

definition by_charge :: "('a StatsTotals_scheme \<Rightarrow> string) \<Rightarrow> 'a StatsTotals_scheme list \<Rightarrow> 'a StatsTotals_scheme list" where
  "by_charge name rs = sort_key (\<lambda>r. - f64_value (StChargedUSD r)) (sort_key name rs)"

definition Stats :: "instant \<Rightarrow> int \<Rightarrow> store \<Rightarrow> store \<times> StatsReport" where
  "Stats now days0 s =
     (let days = clampDays days0;
          (l, from, to) = reportRange now days (usage s);
          (l, visits) = visitRange now from to l;
          byDay = accumulate visit_day visits;
          models = by_charge StModelName (map (stats_model (st_prices s)) (accumulate visit_model visits));
          keys = by_charge StKeyID (map (stats_key (st_keys s)) (accumulate visit_key visits));
          (s', unpriced) = unpricedModels now from to (s\<lparr>usage := l\<rparr>)
      in (s', \<lparr>RepTimezone = timezone l, RepFrom = from, RepTo = to,
               RepTotals = statsTotals (fold (\<lambda>v b. bucket_add b (visit_bucket v)) visits zero_bucket),
               RepDays = map (\<lambda>offset. stats_day byDay (shiftDate from offset)) [0..days - 1],
               RepModels = models,
               RepKeys = take statsKeysLimit keys,
               RepKeysTotal = length keys,
               RepKeysTruncated = (statsKeysLimit < length keys),
               RepUnpriced = unpriced\<rparr>))"


subsection \<open>The breakdowns add up\<close>

context accumulator
begin

lemma total_snoc: "total add zero (xs @ [x]) = add (total add zero xs) x"
  by (simp add: total_def)

lemma fold_book:
  assumes "\<forall>v \<in> set xs. ok (val v)"
  shows "amap_ok (fold (\<lambda>v m. book add zero (name v) (val v) m) xs [])" (is "amap_ok (?m xs)")
    and "\<forall>x \<in> snd ` set (fold (\<lambda>v m. book add zero (name v) (val v) m) xs []). ok x"
    and "total add zero (map snd (fold (\<lambda>v m. book add zero (name v) (val v) m) xs [])) = total add zero (map val xs)"
    and "aget (fold (\<lambda>v m. book add zero (name v) (val v) m) xs []) k =
      (if k \<in> name ` set xs then Some (total add zero (map val (filter (\<lambda>v. name v = k) xs))) else None)"
proof -
  have "amap_ok (?m xs) \<and> (\<forall>x \<in> snd ` set (?m xs). ok x) \<and> total add zero (map snd (?m xs)) = total add zero (map val xs) \<and>
    (\<forall>k. aget (?m xs) k = (if k \<in> name ` set xs then Some (total add zero (map val (filter (\<lambda>v. name v = k) xs))) else None))"
    using assms
  proof (induction xs rule: rev_induct)
    case Nil
    show ?case by simp
  next
    case (snoc x xs)
    then have ih: "amap_ok (?m xs)" "\<forall>x \<in> snd ` set (?m xs). ok x" "total add zero (map snd (?m xs)) = total add zero (map val xs)"
      "\<And>k. aget (?m xs) k = (if k \<in> name ` set xs then Some (total add zero (map val (filter (\<lambda>v. name v = k) xs))) else None)"
      and x: "ok (val x)" by simp_all
    have e: "?m (xs @ [x]) = book add zero (name x) (val x) (?m xs)" by simp
    have "total add zero (map snd (?m (xs @ [x]))) = total add zero (map val (xs @ [x]))"
      unfolding e total_book [OF ih(1,2) x] by (simp add: ih(3) total_snoc)
    moreover have "aget (?m (xs @ [x])) k =
        (if k \<in> name ` set (xs @ [x]) then Some (total add zero (map val (filter (\<lambda>v. name v = k) (xs @ [x])))) else None)" for k
    proof -
      have "filter (\<lambda>v. name v = name x) xs = []" if "name x \<notin> name ` set xs"
        using that unfolding filter_empty_conv by (metis imageI)
      then show ?thesis unfolding e book_get ih(4) by (auto simp: total_snoc total_Nil)
    qed
    ultimately show ?case
      unfolding e using book_ok [OF ih(1)] book_values_ok [OF ih(2)] by blast
  qed
  then show "amap_ok (?m xs)" "\<forall>x \<in> snd ` set (?m xs). ok x" "total add zero (map snd (?m xs)) = total add zero (map val xs)"
    "aget (?m xs) k = (if k \<in> name ` set xs then Some (total add zero (map val (filter (\<lambda>v. name v = k) xs))) else None)"
    by blast+
qed

end

text \<open>The counters of a report row.\<close>

definition counters :: "'a StatsTotals_scheme \<Rightarrow> int list" where
  "counters r = [StCalls r, StUnpricedCalls r, StInputTokens r, StCacheReadTokens r, StCacheWriteTokens r, StOutputTokens r]"

lemma less6: "i < 6 \<longleftrightarrow> i \<in> {0, 1, 2, 3, 4, 5 :: nat}"
  by auto

lemma counters_extend [simp]: "counters (StatsTotals.extend t m) = counters t"
  by (simp add: counters_def StatsTotals.defs)

lemma counters_zero [simp]: "i < 6 \<Longrightarrow> counters zero_stats ! i = 0"
  by (auto simp: less6 counters_def zero_stats_def)

lemma counters_add: "i < 6 \<Longrightarrow> counters (statsTotals (bucket_add b c)) ! i =
    wrap64 (counters (statsTotals b) ! i + counters (statsTotals c) ! i)"
  by (auto simp: less6 counters_def statsTotals_def bucket_add_def)

lemma counters_total:
  "i < 6 \<Longrightarrow> counters (statsTotals (total bucket_add zero_bucket bs)) ! i = wrap64 (\<Sum>b\<leftarrow>bs. counters (statsTotals b) ! i)"
proof (induction bs rule: rev_induct)
  case Nil
  then show ?case by (auto simp: less6 total_def zero_bucket_def counters_def statsTotals_def)
next
  case (snoc b bs)
  then show ?case by (simp add: bucket_sum.total_snoc counters_add)
qed

lemma sum_by_charge: "(\<Sum>r\<leftarrow>by_charge name rs. f r) = (\<Sum>r\<leftarrow>rs. f r)" for f :: "_ \<Rightarrow> int"
proof -
  have "mset (map f (by_charge name rs)) = mset (map f rs)" by (simp add: by_charge_def)
  then show ?thesis by (metis sum_mset_sum_list)
qed

lemma length_by_charge [simp]: "length (by_charge name rs) = length rs"
  by (simp add: by_charge_def)

text \<open>Reading a map at every key of a list that has them all reads every value once.\<close>

lemma sum_over_keys:
  fixes f :: "'v \<Rightarrow> int"
  assumes "amap_ok m" "distinct ks" "fst ` set m \<subseteq> set ks"
  shows "(\<Sum>k\<leftarrow>ks. case aget m k of Some v \<Rightarrow> f v | None \<Rightarrow> 0) = (\<Sum>v\<leftarrow>map snd m. f v)"
  using assms(1,3)
proof (induction m)
  case Nil
  show ?case by simp
next
  case (Cons kv m)
  obtain k v where kv: "kv = (k, v)" by (cases kv)
  have m: "aget m k = None" "amap_ok m" "k \<in> set ks" using Cons.prems by (auto simp: kv amap_ok_Cons)
  have step: "(\<Sum>x\<leftarrow>xs. case aget ((k, v) # m) x of Some v \<Rightarrow> f v | None \<Rightarrow> 0) =
      (\<Sum>x\<leftarrow>xs. case aget m x of Some v \<Rightarrow> f v | None \<Rightarrow> 0) + (if k \<in> set xs then f v else 0)" if "distinct xs" for xs
    using that by (induction xs) (auto simp: m(1))
  show ?case using Cons.IH [OF m(2)] Cons.prems(2) step [OF assms(2)] m(3) by (simp add: kv)
qed

lemma total_fold_visits: "fold (\<lambda>v b. bucket_add b (visit_bucket v)) visits zero_bucket =
    total bucket_add zero_bucket (map visit_bucket visits)"
  by (simp add: total_def fold_map comp_def)

lemma accumulate_eq: "accumulate name visits = fold (\<lambda>v m. book bucket_add zero_bucket (name v) (visit_bucket v) m) visits []"
  by (simp add: accumulate_def visit_bucket_def)

lemma counters_accumulate:
  assumes "\<forall>v \<in> set visits. bucket_ok (visit_bucket v)" "i < 6"
  shows "counters (statsTotals (total bucket_add zero_bucket (map visit_bucket visits))) ! i =
    wrap64 (\<Sum>b\<leftarrow>map snd (accumulate name visits). counters (statsTotals b) ! i)"
  unfolding counters_total [OF assms(2), symmetric] accumulate_eq bucket_sum.fold_book(3) [OF assms(1)] ..

lemma visits_in_range:
  assumes "ledger_ok l" "v \<in> set (snd (visitRange now from to l))"
  shows "bucket_ok (visit_bucket v)" "from \<le> visit_day v" "visit_day v \<le> to"
proof -
  obtain kid u d ms m b where v: "v = (kid, d, m, b)" "(kid, u) \<in> set (entries (evict now l))" "(d, ms) \<in> set (Days u)"
      "\<not> (d < from \<or> to < d)" "(m, b) \<in> set ms"
    using assms(2) by (fastforce simp: visitRange_def Let_def)
  have "ledger_ok (evict now l)" by (rule evict_ok [OF assms(1)])
  then have "usage_ok u" using v(2) by (force simp: ledger_ok_def)
  then have "models_ok ms" using v(3) by (force simp: usage_ok_def)
  then show "bucket_ok (visit_bucket v)" using v(1,5) by (force simp: models_ok_def visit_bucket_def)
  show "from \<le> visit_day v" "visit_day v \<le> to" using v by (simp_all add: visit_day_def)
qed

lemma evict_twice [simp]: "evict now (evict now l) = evict now l"
  by (simp add: evict_def evictExpiredLocked_def Let_def dateKey_def)

lemma visitRange_fst [simp]: "fst (visitRange now from to l) = evict now l"
  by (simp add: visitRange_def Let_def)

lemma visitRange_evict [simp]: "visitRange now from to (evict now l) = (evict now l, snd (visitRange now from to l))"
  by (simp add: visitRange_def Let_def)

lemma reportRange_eq: "reportRange now n l =
    (evict now l, shiftDate (reportEndLocked (evict now l) now) (- (n - 1)), reportEndLocked (evict now l) now)"
  by (simp add: reportRange_def Let_def)

text \<open>The report over the list of visits.\<close>

lemma Stats_eq:
  assumes "Stats now days s = (s', r)"
  defines "to \<equiv> reportEndLocked (evict now (usage s)) now"
  defines "from \<equiv> shiftDate to (- (clampDays days - 1))"
  defines "visits \<equiv> snd (visitRange now from to (usage s))"
  shows "usage s' = evict now (usage s)" "RepFrom r = from" "RepTo r = to"
    "RepTotals r = statsTotals (total bucket_add zero_bucket (map visit_bucket visits))"
    "RepDays r = map (\<lambda>offset. stats_day (accumulate visit_day visits) (shiftDate from offset)) [0..clampDays days - 1]"
    "RepModels r = by_charge StModelName (map (stats_model (st_prices s)) (accumulate visit_model visits))"
    "RepKeys r = take statsKeysLimit (by_charge StKeyID (map (stats_key (st_keys s)) (accumulate visit_key visits)))"
    "RepKeysTotal r = length (accumulate visit_key visits)"
    "RepKeysTruncated r \<longleftrightarrow> statsKeysLimit < length (accumulate visit_key visits)"
proof -
  have v: "visitRange now from to (usage s) = (evict now (usage s), visits)"
    by (simp add: visits_def prod_eq_iff)
  have e: "Stats now days s = (s', r)" by (rule assms(1))
  note e = e [unfolded Stats_def Let_def reportRange_eq, folded to_def, folded from_def]
  show "usage s' = evict now (usage s)" "RepFrom r = from" "RepTo r = to"
    "RepTotals r = statsTotals (total bucket_add zero_bucket (map visit_bucket visits))"
    "RepDays r = map (\<lambda>offset. stats_day (accumulate visit_day visits) (shiftDate from offset)) [0..clampDays days - 1]"
    "RepModels r = by_charge StModelName (map (stats_model (st_prices s)) (accumulate visit_model visits))"
    "RepKeys r = take statsKeysLimit (by_charge StKeyID (map (stats_key (st_keys s)) (accumulate visit_key visits)))"
    "RepKeysTotal r = length (accumulate visit_key visits)"
    "RepKeysTruncated r \<longleftrightarrow> statsKeysLimit < length (accumulate visit_key visits)"
    using e by (auto simp: v visits_def [symmetric] total_fold_visits unpricedModels_def)
qed

lemma stats_day_counters: "i < 6 \<Longrightarrow> counters (stats_day byDay d) ! i =
    (case aget byDay d of Some b \<Rightarrow> counters (statsTotals b) ! i | None \<Rightarrow> 0)"
  by (simp add: stats_day_def split: option.splits)

lemma stats_day_date [simp]: "StDate (stats_day byDay d) = d"
  by (simp add: stats_day_def StatsTotals.defs StatsDay.defs)

lemma stats_model_counters [simp]: "counters (stats_model prices mb) = counters (statsTotals (snd mb))"
  by (simp add: stats_model_def split: prod.splits)

lemma stats_key_counters [simp]: "counters (stats_key keys kb) = counters (statsTotals (snd kb))"
  by (simp add: stats_key_def split: prod.splits)

lemma shifted_days: "map (shiftDate from) [0..n - 1] = [from..from + n - 1]"
  by (rule nth_equalityI) (auto simp: shiftDate_def)

lemma stats_sums:
  assumes ok: "ledger_ok (usage s)" and r: "Stats now days s = (s', r)" and i: "i < 6"
  shows "map StDate (RepDays r) = [RepFrom r..RepTo r]"
    "counters (RepTotals r) ! i = wrap64 (\<Sum>d\<leftarrow>RepDays r. counters d ! i)"
    "counters (RepTotals r) ! i = wrap64 (\<Sum>m\<leftarrow>RepModels r. counters m ! i)"
    "\<not> RepKeysTruncated r \<Longrightarrow> counters (RepTotals r) ! i = wrap64 (\<Sum>k\<leftarrow>RepKeys r. counters k ! i)"
proof -
  define visits where "visits = snd (visitRange now (RepFrom r) (RepTo r) (usage s))"
  define n where "n = clampDays days"
  note e = Stats_eq [OF r, folded Stats_eq(2,3) [OF r], folded visits_def n_def]
  have first: "RepFrom r = shiftDate (RepTo r) (- (n - 1))" using Stats_eq(2,3) [OF r] by (simp add: n_def)
  have to: "RepTo r = RepFrom r + n - 1" by (simp add: first shiftDate_def)
  have v: "\<forall>v \<in> set visits. bucket_ok (visit_bucket v)" "\<forall>v \<in> set visits. visit_day v \<in> {RepFrom r..RepTo r}"
    using visits_in_range [OF ok] by (auto simp: visits_def)
  note c = counters_accumulate [OF v(1) i]
  show "map StDate (RepDays r) = [RepFrom r..RepTo r]"
    using shifted_days [of "RepFrom r" n] by (simp add: e(5) to comp_def)
  define byDay where "byDay = accumulate visit_day visits"
  have days: "RepDays r = map (stats_day byDay) [RepFrom r..RepTo r]"
    unfolding e(5) to byDay_def shifted_days [symmetric] map_map comp_def ..
  have m: "amap_ok byDay" "fst ` set byDay \<subseteq> set [RepFrom r..RepTo r]"
  proof -
    note fb = bucket_sum.fold_book [of visits visit_bucket visit_day, OF v(1), folded accumulate_eq byDay_def]
    show "amap_ok byDay" by (rule fb(1))
    have "aget byDay k = None" if "k \<notin> {RepFrom r..RepTo r}" for k using fb(4) that v(2) by auto
    then show "fst ` set byDay \<subseteq> set [RepFrom r..RepTo r]" by (force simp: map_of_eq_None_iff)
  qed
  have "(\<Sum>d\<leftarrow>RepDays r. counters d ! i) =
      (\<Sum>d\<leftarrow>[RepFrom r..RepTo r]. case aget byDay d of Some b \<Rightarrow> counters (statsTotals b) ! i | None \<Rightarrow> 0)"
    by (simp add: days stats_day_counters [OF i] comp_def)
  also have "\<dots> = (\<Sum>b\<leftarrow>map snd byDay. counters (statsTotals b) ! i)"
    by (rule sum_over_keys [OF m(1) _ m(2)]) simp
  finally show "counters (RepTotals r) ! i = wrap64 (\<Sum>d\<leftarrow>RepDays r. counters d ! i)"
    using c [of visit_day] by (simp add: e(4) byDay_def)
  show "counters (RepTotals r) ! i = wrap64 (\<Sum>m\<leftarrow>RepModels r. counters m ! i)"
    using c [of visit_model] by (simp add: e(4,6) sum_by_charge comp_def)
  show "counters (RepTotals r) ! i = wrap64 (\<Sum>k\<leftarrow>RepKeys r. counters k ! i)" if "\<not> RepKeysTruncated r"
  proof -
    have "length (accumulate visit_key visits) \<le> statsKeysLimit" using that e(9) by simp
    then have "RepKeys r = by_charge StKeyID (map (stats_key (st_keys s)) (accumulate visit_key visits))" by (simp add: e(7))
    then show ?thesis using c [of visit_key] by (simp add: e(4) sum_by_charge comp_def)
  qed
qed

text \<open>C20: The dashboard's breakdowns agree with its totals. The report has one row for each day of
  its range, in order, and for every counter (calls, unpriced calls and the four token classes) the
  day rows and the model rows add up, in int64, to the total, as do the key rows unless the list was
  cut at 200; the total is the sum of all the buckets the ledger holds in the range.\<close>

theorem Stats_breakdowns:
  assumes "ledger_ok (usage s)" "Stats now days s = (s', r)" "i < 6"
  shows "map StDate (RepDays r) = [RepFrom r..RepTo r] \<and>
    counters (RepTotals r) ! i = wrap64 (\<Sum>d\<leftarrow>RepDays r. counters d ! i) \<and>
    counters (RepTotals r) ! i = wrap64 (\<Sum>m\<leftarrow>RepModels r. counters m ! i) \<and>
    (RepKeysTruncated r \<or> counters (RepTotals r) ! i = wrap64 (\<Sum>k\<leftarrow>RepKeys r. counters k ! i)) \<and>
    RepTotals r = statsTotals (total bucket_add zero_bucket
      (map visit_bucket (snd (visitRange now (RepFrom r) (RepTo r) (usage s')))))"
proof -
  have "usage s' = evict now (usage s)" by (rule Stats_eq(1) [OF assms(2)])
  with Stats_eq(2,3,4) [OF assms(2)] stats_sums [OF assms] show ?thesis by auto
qed

text \<open>A store with one call on the first day of the epoch.\<close>

definition one_call_store :: store where
  "one_call_store = sample_store\<lparr>usage :=
     spent_ledger\<lparr>entries := [(''k'', empty_usage\<lparr>Days := [(0, [(''m'', zero_bucket\<lparr>Calls := 1\<rparr>)])]\<rparr>)]\<rparr>\<rparr>"

lemma one_call_store_ok: "ledger_ok (usage one_call_store)"
  by (simp add: one_call_store_def ledger_ok_def usage_ok_def models_ok_def empty_usage_def spent_ledger_def newUsageLedger_def
      mark_le_def amap_ok_def bucket_ok_def zero_bucket_def int64_def)

lemma Stats_breakdowns_witness:
  "let (s', r) = Stats 0 2 one_call_store
   in map StDate (RepDays r) = [RepFrom r..RepTo r] \<and> counters (RepTotals r) ! 0 = wrap64 (\<Sum>d\<leftarrow>RepDays r. counters d ! 0)"
proof -
  obtain s' r where r: "Stats 0 2 one_call_store = (s', r)" by (cases "Stats 0 2 one_call_store")
  have "(0 :: nat) < 6" by simp
  note b = Stats_breakdowns [OF one_call_store_ok r this]
  from conjunct1 [OF b] conjunct1 [OF conjunct2 [OF b]]
  show ?thesis using r unfolding Let_def by (simp only: prod.case conj_ac simp_thms)
qed

end
