(* ===== verification/StatsCsv.thy ===== *)
theory StatsCsv
  imports Reports
begin

text \<open>
  The CSV export of internal/policy/stats.go: the date keys as they print and parse
  ("2006-01-02"), the records of package encoding/csv, the neutralized text cells, and
  \<open>StatsCSV\<close> with its two size limits.

  \<open>csv_read\<close> is a reader of RFC 4180 files, independent of the writer. \<open>csv_roundtrip\<close> shows that
  it gives back every record the writer wrote, whatever bytes the cells hold, and
  \<open>parse_date_string\<close> that a printed date parses as the day it was printed for.
\<close>

subsection \<open>Date keys\<close>

text \<open>The day of a civil date, and a decimal zero-padded to a width.\<close>

definition day_of_civil :: "int \<Rightarrow> int \<Rightarrow> int \<Rightarrow> day" where
  "day_of_civil y m k =
     (let y' = (if m \<le> 2 then y - 1 else y); mp = (if m \<le> 2 then m + 9 else m - 3)
      in 365 * y' + y' div 4 - y' div 100 + y' div 400 + (153 * mp + 2) div 5 + (k - 1) - 719468)"

definition pad :: "nat \<Rightarrow> int \<Rightarrow> string" where
  "pad w n = (let s = nat_digits (nat n) in replicate (w - length s) (CHR ''0'') @ s)"

definition date_string :: "day \<Rightarrow> string" where
  "date_string d = (let (y, m, k) = civil_of_day d in pad 4 y @ ''-'' @ pad 2 m @ ''-'' @ pad 2 k)"

definition digit :: "char \<Rightarrow> bool" where
  "digit c \<longleftrightarrow> (48 :: nat) \<le> of_char c \<and> (of_char c :: nat) \<le> 57"

text \<open>\<open>time.Parse\<close> with the layout of a date: four, two and two digits, and a day of that month.\<close>

definition parse_date :: "string \<Rightarrow> day option" where
  "parse_date s =
     (let ys = take 4 s; ms = take 2 (drop 5 s); ks = drop 8 s;
          y = int (digits_value ys); m = int (digits_value ms); k = int (digits_value ks)
      in if length s = 10 \<and> list_all digit (ys @ ms @ ks) \<and> s ! 4 = CHR ''-'' \<and> s ! 7 = CHR ''-'' \<and>
            civil_of_day (day_of_civil y m k) = (y, m, k)
         then Some (day_of_civil y m k) else None)"

lemma day_of_civil: "civil_of_day d = (y, m, k) \<Longrightarrow> day_of_civil y m k = d"
proof -
  assume c: "civil_of_day d = (y, m, k)"
  obtain n400 n100 n4 d4 where p: "cycle_parts d = (n400, n100, n4, d4)" by (metis prod_cases4)
  define yy where "yy = min 3 (d4 div 365)"
  define z where "z = d + 719468"
  define d100 where "d100 = z mod 146097 - 36524 * n100"
  have parts: "n400 = z div 146097" "n100 = min 3 (z mod 146097 div 36524)" "n4 = d100 div 1461" "d4 = d100 mod 1461"
    using p by (auto simp: cycle_parts_def Let_def z_def d100_def)
  have z: "z = 146097 * n400 + 36524 * n100 + 1461 * n4 + d4"
  proof -
    have "z = 146097 * (z div 146097) + z mod 146097" "d100 = 1461 * (d100 div 1461) + d100 mod 1461" by simp_all
    moreover have "z mod 146097 = d100 + 36524 * n100" by (simp add: d100_def)
    ultimately show ?thesis using parts(1,3,4) by linarith
  qed
  have zm: "0 \<le> z mod 146097" "z mod 146097 \<le> 4 * 36524"
    using pos_mod_bound [of 146097 z] by simp_all
  have d100: "0 \<le> d100" "d100 \<le> 36524" "0 \<le> n100"
    using capped_div_bounds(1,2,3) [OF zm] unfolding d100_def parts(2) by simp_all
  have n100: "n100 \<le> 3" unfolding parts(2) by simp
  have n4: "0 \<le> n4" "n4 \<le> 24"
  proof -
    show "0 \<le> n4" using d100(1) by (simp add: parts(3) pos_imp_zdiv_nonneg_iff)
    have "d100 div 1461 \<le> 36524 div 1461" by (rule zdiv_mono1) (use d100(2) in simp_all)
    then show "n4 \<le> 24" by (simp add: parts(3))
  qed
  have d4: "0 \<le> d4" "d4 \<le> 4 * 365" using pos_mod_bound [of 1461 d100] by (simp_all add: parts(4))
  have yy: "0 \<le> yy" "yy \<le> 3" using capped_div_bounds(3) [OF d4] by (simp_all add: yy_def)
  define Y where "Y = march_year d"
  have Y: "Y = 400 * n400 + 100 * n100 + 4 * n4 + yy" by (simp add: Y_def march_year_def p yy_def)
  have doy: "day_of_year d = d4 - 365 * yy" by (simp add: day_of_year_def p yy_def)
  have q: "Y div 4 = 100 * n400 + 25 * n100 + n4" "Y div 100 = 4 * n400 + n100" "Y div 400 = n400"
    using n100 d100(3) n4 yy unfolding Y by simp_all
  define mp where "mp = month_index (day_of_year d)"
  have mp: "0 \<le> mp" "mp \<le> 11"
    using day_of_year_bounds [of d] by (auto simp: mp_def month_index_def)
  have m: "m = (if mp < 10 then mp + 3 else mp - 9)" "y = Y + (if m \<le> 2 then 1 else 0)"
    "k = day_of_year d - (153 * mp + 2) div 5 + 1"
    using c by (auto simp: civil_of_day_def Let_def mp_def Y_def)
  have "(if m \<le> 2 then y - 1 else y) = Y" "(if m \<le> 2 then m + 9 else m - 3) = mp"
    using m mp by (auto split: if_splits)
  then have "day_of_civil y m k = 365 * Y + Y div 4 - Y div 100 + Y div 400 + (153 * mp + 2) div 5 + (k - 1) - 719468"
    by (simp add: day_of_civil_def Let_def)
  also have "\<dots> = d" using m(3) doy z Y unfolding q z_def by linarith
  finally show ?thesis .
qed

lemma digits_value_less: "\<forall>c \<in> set s. digit c \<Longrightarrow> digits_value s < 10 ^ length s"
proof (induction s rule: rev_induct)
  case (snoc c s)
  then have "digit_value c < 10" "digits_value s < 10 ^ length s" by (auto simp: digit_value_def digit_def)
  then show ?case by simp
qed simp

lemma digits_value_Cons: "digits_value (c # s) = digit_value c * 10 ^ length s + digits_value s"
  using digits_value_append [of "[c]" s] digits_value_snoc [of "[]" c] by simp

lemma digit_char_digit: "d < 10 \<Longrightarrow> digit (digit_char d)"
  by (simp add: digit_def of_char_digit_char)

lemma pad_digits:
  assumes "0 \<le> n" "n < 10 ^ w" "0 < w"
  shows "length (pad w n) = w" "digits_value (pad w n) = nat n" "\<forall>c \<in> set (pad w n). digit c"
proof -
  have "nat n < 10 ^ w" using assms by (simp add: nat_less_iff)
  then have "length (nat_digits (nat n)) \<le> w" using nat_digits_length assms(3) by blast
  then show "length (pad w n) = w" by (simp add: pad_def Let_def)
  show "digits_value (pad w n) = nat n" by (simp add: pad_def Let_def digits_value_append)
  show "\<forall>c \<in> set (pad w n). digit c"
    using nat_digits_digits [of _ "nat n"] digit_char_digit by (fastforce simp: pad_def Let_def digit_def)
qed

text \<open>The years whose dates have the fixed width that makes them comparable as strings.\<close>

definition printable :: "day \<Rightarrow> bool" where
  "printable d \<longleftrightarrow> 0 \<le> fst (civil_of_day d) \<and> fst (civil_of_day d) < 10000"

lemma date_parts:
  assumes "printable d"
  obtains ys ms ks y m k where "civil_of_day d = (y, m, k)" "date_string d = ys @ ''-'' @ ms @ ''-'' @ ks"
    "length ys = 4" "length ms = 2" "length ks = 2" "\<forall>c \<in> set (ys @ ms @ ks). digit c"
    "int (digits_value ys) = y" "int (digits_value ms) = m" "int (digits_value ks) = k"
proof -
  obtain y m k where c: "civil_of_day d = (y, m, k)" by (cases "civil_of_day d") auto
  note b = civil_bounds [OF c]
  have y: "0 \<le> y" "y < 10 ^ 4" using assms c by (simp_all add: printable_def)
  have m: "0 \<le> m" "m < 10 ^ 2" "0 \<le> k" "k < 10 ^ 2" using b by simp_all
  show thesis
    by (rule that [OF c, where ys = "pad 4 y" and ms = "pad 2 m" and ks = "pad 2 k"])
      (use pad_digits [OF y] pad_digits [OF m(1,2)] pad_digits [OF m(3,4)] m y in \<open>auto simp: date_string_def c\<close>)
qed

lemma parse_date_string:
  assumes "printable d"
  shows "parse_date (date_string d) = Some d"
proof -
  from date_parts [OF assms] obtain ys ms ks y m k where p: "civil_of_day d = (y, m, k)"
    "date_string d = ys @ ''-'' @ ms @ ''-'' @ ks" "length ys = 4" "length ms = 2" "length ks = 2"
    "\<forall>c \<in> set (ys @ ms @ ks). digit c"
    "int (digits_value ys) = y" "int (digits_value ms) = m" "int (digits_value ks) = k" .
  show ?thesis using p(3-9) day_of_civil [OF p(1)] p(1)
    by (simp add: parse_date_def p(2) Let_def nth_append list_all_iff)
qed

text \<open>The code compares date keys as strings; the model compares the days.\<close>

lemma digits_order:
  "length s = length t \<Longrightarrow> \<forall>c \<in> set s. digit c \<Longrightarrow> \<forall>c \<in> set t. digit c \<Longrightarrow> s < t \<longleftrightarrow> digits_value s < digits_value t"
proof (induction s t rule: list_induct2)
  case (Cons c s d t)
  have l: "digits_value s < 10 ^ length s" "digits_value t < 10 ^ length t" using Cons.prems digits_value_less by simp_all
  have cd: "c < d \<longleftrightarrow> digit_value c < digit_value d" "c = d \<longleftrightarrow> digit_value c = digit_value d"
    using Cons.prems by (auto simp: digit_value_def digit_def less_char_def) (metis char_of_char diff_diff_cancel le_add_diff_inverse2 of_char_eq_iff)
  have "digit_value c * 10 ^ length s + digits_value s < digit_value d * 10 ^ length s + digits_value t \<longleftrightarrow>
      digit_value c < digit_value d \<or> digit_value c = digit_value d \<and> digits_value s < digits_value t"
    (is "?a * ?p + ?x < ?b * ?p + ?y \<longleftrightarrow> _")
  proof (cases "?a = ?b")
    case False
    have step: "u * ?p + x < v * ?p + y" if "u < v" "x < ?p" for u v x y :: nat
    proof -
      have "Suc u * ?p \<le> v * ?p" using that(1) by (intro mult_le_mono1) simp
      then show ?thesis using that(2) by simp
    qed
    from False consider "?a < ?b" | "?b < ?a" by linarith
    then show ?thesis
    proof cases
      case 1 then show ?thesis using step l by (metis Cons.hyps)
    next
      case 2 then show ?thesis using step [of ?b ?a ?y ?x] l Cons.hyps by (metis less_asym not_less_iff_gr_or_eq)
    qed
  qed simp
  then show ?case using Cons cd by (auto simp: digits_value_Cons)
qed simp

lemma append_less: "length a = length b \<Longrightarrow> a @ x < b @ y \<longleftrightarrow> a < b \<or> a = b \<and> x < y" for a b x y :: string
  by (induction a b rule: list_induct2) auto

lemma digits_eq:
  assumes "length s = length t" "\<forall>c \<in> set s. digit c" "\<forall>c \<in> set t. digit c"
  shows "s = t \<longleftrightarrow> digits_value s = digits_value t"
  using digits_order [OF assms] digits_order [OF assms(1)[symmetric] assms(3,2)] by (metis less_irrefl linorder_less_linear)

lemma date_string_less:
  assumes "printable d" "printable e" "d < e"
  shows "date_string d < date_string e"
proof -
  from date_parts [OF assms(1)] obtain ys ms ks y m k where p: "civil_of_day d = (y, m, k)"
    "date_string d = ys @ ''-'' @ ms @ ''-'' @ ks" "length ys = 4" "length ms = 2" "length ks = 2"
    "\<forall>c \<in> set (ys @ ms @ ks). digit c"
    "int (digits_value ys) = y" "int (digits_value ms) = m" "int (digits_value ks) = k" .
  from date_parts [OF assms(2)] obtain ys' ms' ks' y' m' k' where q: "civil_of_day e = (y', m', k')"
    "date_string e = ys' @ ''-'' @ ms' @ ''-'' @ ks'" "length ys' = 4" "length ms' = 2" "length ks' = 2"
    "\<forall>c \<in> set (ys' @ ms' @ ks'). digit c"
    "int (digits_value ys') = y'" "int (digits_value ms') = m'" "int (digits_value ks') = k'" .
  have dg: "\<forall>c \<in> set ys. digit c" "\<forall>c \<in> set ms. digit c" "\<forall>c \<in> set ks. digit c"
    "\<forall>c \<in> set ys'. digit c" "\<forall>c \<in> set ms'. digit c" "\<forall>c \<in> set ks'. digit c"
    using p(6) q(6) by simp_all
  have l: "ys < ys' \<longleftrightarrow> y < y'" "ms < ms' \<longleftrightarrow> m < m'" "ks < ks' \<longleftrightarrow> k < k'"
    using digits_order [of ys ys'] digits_order [of ms ms'] digits_order [of ks ks'] dg p(3,4,5,7,8,9) q(3,4,5,7,8,9) by auto
  have e: "ys = ys' \<longleftrightarrow> y = y'" "ms = ms' \<longleftrightarrow> m = m'"
    using digits_eq [of ys ys'] digits_eq [of ms ms'] dg p(3,4,7,8) q(3,4,7,8) by auto
  have "civil_less (y, m, k) (y', m', k')" using civil_less_mono [OF assms(3)] by (simp add: p(1) q(1))
  then show ?thesis using p(3,4) q(3,4) by (auto simp: p(2) q(2) append_less l e)
qed

text \<open>The date keys compare as strings the way their days do.\<close>

lemma date_string_order:
  assumes "printable d" "printable e"
  shows "date_string d < date_string e \<longleftrightarrow> d < e"
  using date_string_less [OF assms] date_string_less [OF assms(2,1)] by (metis less_asym less_irrefl linorder_less_linear)


subsection \<open>Records of package encoding/csv\<close>

abbreviation quote_char :: char where "quote_char \<equiv> CHR 0x22"
abbreviation comma_char :: char where "comma_char \<equiv> CHR 0x2C"
abbreviation lf_char :: char where "lf_char \<equiv> CHR 0x0A"
abbreviation cr_char :: char where "cr_char \<equiv> CHR 0x0D"

text \<open>\<open>Writer.fieldNeedsQuotes\<close>: a cell that holds a separator, or starts with a space.\<close>

definition fieldNeedsQuotes :: "string \<Rightarrow> bool" where
  "fieldNeedsQuotes f \<longleftrightarrow> f \<noteq> [] \<and>
     (f = [CHR 0x5C, CHR ''.''] \<or> list_ex (\<lambda>c. c \<in> {comma_char, quote_char, cr_char, lf_char}) f \<or> 0 < space_len f)"

definition csv_escape :: "string \<Rightarrow> string" where
  "csv_escape f = concat (map (\<lambda>c. if c = quote_char then [quote_char, quote_char] else [c]) f)"

definition csv_field :: "string \<Rightarrow> string" where
  "csv_field f = (if fieldNeedsQuotes f then quote_char # csv_escape f @ [quote_char] else f)"

fun csv_record :: "string list \<Rightarrow> string" where
  "csv_record [] = [lf_char]"
| "csv_record [f] = csv_field f @ [lf_char]"
| "csv_record (f # fs) = csv_field f @ comma_char # csv_record fs"

definition csv_write :: "string list list \<Rightarrow> string" where
  "csv_write recs = concat (map csv_record recs)"

text \<open>A reader of RFC 4180: \<open>f\<close> is the cell being read, \<open>fs\<close> the cells of the record before it.\<close>

datatype csv_mode = CellStart | Plain | Quoted | Closed

definition cell_ends :: "csv_mode \<Rightarrow> char \<Rightarrow> bool" where
  "cell_ends md c \<longleftrightarrow> md \<noteq> Quoted \<and> (c = comma_char \<or> c = lf_char)"

fun csv_scan :: "csv_mode \<Rightarrow> string \<Rightarrow> string list \<Rightarrow> string \<Rightarrow> string list list option" where
  "csv_scan md f fs [] = (if md = CellStart \<and> fs = [] then Some [] else None)"
| "csv_scan md f fs (c # s) =
     (if cell_ends md c then
        (if c = comma_char then csv_scan CellStart [] (fs @ [f]) s
         else map_option (Cons (fs @ [f])) (csv_scan CellStart [] [] s))
      else case md of
        CellStart \<Rightarrow> if c = quote_char then csv_scan Quoted [] fs s
                     else if c = cr_char then None else csv_scan Plain [c] fs s
      | Plain \<Rightarrow> if c = quote_char \<or> c = cr_char then None else csv_scan Plain (f @ [c]) fs s
      | Quoted \<Rightarrow> if c = quote_char then csv_scan Closed f fs s else csv_scan Quoted (f @ [c]) fs s
      | Closed \<Rightarrow> if c = quote_char then csv_scan Quoted (f @ [c]) fs s else None)"

definition csv_read :: "string \<Rightarrow> string list list option" where
  "csv_read s = csv_scan CellStart [] [] s"

lemma scan_plain:
  "list_all (\<lambda>c. c \<notin> {comma_char, quote_char, cr_char, lf_char}) p \<Longrightarrow> csv_scan Plain f fs (p @ s) = csv_scan Plain (f @ p) fs s"
  by (induction p arbitrary: f) (auto simp: cell_ends_def)

lemma scan_quoted: "csv_scan Quoted f fs (csv_escape p @ quote_char # s) = csv_scan Closed (f @ p) fs s"
  by (induction p arbitrary: f) (auto simp: cell_ends_def csv_escape_def)

text \<open>After a written cell the reader is at the end of that cell.\<close>

lemma scan_field:
  assumes "c = comma_char \<or> c = lf_char"
  shows "csv_scan CellStart [] fs (csv_field f @ c # s) = csv_scan Closed f fs (c # s)"
proof (cases "fieldNeedsQuotes f")
  case True
  then show ?thesis using scan_quoted [of "[]" fs f "c # s"] by (simp add: csv_field_def cell_ends_def)
next
  case False
  show ?thesis
  proof (cases f)
    case Nil
    then show ?thesis using False assms by (auto simp: csv_field_def cell_ends_def)
  next
    case (Cons a p)
    then have "list_all (\<lambda>c. c \<notin> {comma_char, quote_char, cr_char, lf_char}) (a # p)"
      using False by (auto simp: fieldNeedsQuotes_def list_all_iff list_ex_iff)
    then show ?thesis using False assms scan_plain [of p "[a]" fs "c # s"]
      by (auto simp: Cons csv_field_def cell_ends_def)
  qed
qed

lemma scan_record:
  "r \<noteq> [] \<Longrightarrow> csv_scan CellStart [] fs (csv_record r @ s) = map_option (Cons (fs @ r)) (csv_scan CellStart [] [] s)"
proof (induction r arbitrary: fs rule: csv_record.induct)
  case (3 f g gs)
  have "csv_scan CellStart [] fs (csv_record (f # g # gs) @ s) =
      csv_scan Closed f fs (comma_char # csv_record (g # gs) @ s)"
    using scan_field [of comma_char fs f "csv_record (g # gs) @ s"] by simp
  then show ?case using 3 by (simp add: cell_ends_def)
qed (auto simp: scan_field cell_ends_def)

lemma csv_read_write:
  assumes "[] \<notin> set recs"
  shows "csv_read (csv_write recs) = Some recs"
  using assms
proof (induction recs)
  case (Cons r recs)
  then have "r \<noteq> []" "[] \<notin> set recs" by auto
  with Cons.IH scan_record [of r "[]" "csv_write recs"] show ?case by (simp add: csv_read_def csv_write_def)
qed (simp add: csv_read_def csv_write_def)


subsection \<open>The export\<close>

definition statsCSVMaxDays :: int where
  "statsCSVMaxDays = 92"

definition statsCSVMaxRows :: nat where
  "statsCSVMaxRows = 200000"

definition statsCSVColumns :: "string list" where
  "statsCSVColumns = [''date'', ''key_id'', ''key_name'', ''deleted'', ''model'', ''calls'', ''unpriced_calls'',
     ''input_tokens'', ''cache_read_tokens'', ''cache_write_tokens'', ''output_tokens'', ''charged_usd'']"

definition StatsCSVFilename :: "string \<Rightarrow> string \<Rightarrow> string" where
  "StatsCSVFilename start to = ''cpa-key-policy-usage-'' @ start @ ''_'' @ to @ ''.csv''"

definition formula_start :: "char \<Rightarrow> bool" where
  "formula_start c \<longleftrightarrow> c \<in> set ''=+-@''"

definition csvText :: "string \<Rightarrow> string" where
  "csvText v = (if v \<noteq> [] \<and> formula_start (hd v) then CHR 0x27 # v else v)"

definition FormatBool :: "bool \<Rightarrow> string" where
  "FormatBool b = (if b then ''true'' else ''false'')"

datatype stats_error = ErrInvalidDateRange | ErrRangeTooLarge

definition csv_row :: "(string, KeyConfig) amap \<Rightarrow> string \<Rightarrow> day \<Rightarrow> string \<Rightarrow> bucket \<Rightarrow> string list" where
  "csv_row keys kid d model b =
     [date_string d, csvText kid, csvText (case aget keys kid of Some k \<Rightarrow> KeyName k | None \<Rightarrow> []),
      FormatBool (aget keys kid = None), csvText model,
      FormatInt (Calls b), FormatInt (UnpricedCalls b), FormatInt (InputTokens b), FormatInt (CacheReadTokens b),
      FormatInt (CacheWriteTokens b), FormatInt (OutputTokens b), FormatUSD (ChargedNano b)]"

text \<open>The rows of one key: its days in order, and each day's models in order.\<close>

definition csv_key_rows :: "(string, KeyConfig) amap \<Rightarrow> string \<Rightarrow> (day, models) amap \<Rightarrow> string list list" where
  "csv_key_rows keys kid days =
     concat (map (\<lambda>d. let ms = (case aget days d of Some ms \<Rightarrow> ms | None \<Rightarrow> [])
                      in map (\<lambda>m. csv_row keys kid d m (models_bucket (Some ms) m)) (sort (akeys ms)))
       (sort (akeys days)))"

definition csv_rows :: "(string, KeyConfig) amap \<Rightarrow> day \<Rightarrow> day \<Rightarrow> usageLedger \<Rightarrow> string list list" where
  "csv_rows keys start to l = concat (map (\<lambda>kid. csv_key_rows keys kid (copyKeyDays kid start to l)) (keyIDs l))"

definition StatsCSV :: "instant \<Rightarrow> string \<Rightarrow> string \<Rightarrow> store \<Rightarrow> store \<times> (stats_error + string)" where
  "StatsCSV now start to s = (case (parse_date start, parse_date to) of
     (Some startDay, Some toDay) \<Rightarrow>
       (if toDay < startDay then (s, Inl ErrInvalidDateRange)
        else if statsCSVMaxDays * 24 * hour \<le> time_sub (toDay * 24 * hour) (startDay * 24 * hour)
        then (s, Inl ErrRangeTooLarge)
        else let (l, visits) = visitRange now startDay toDay (usage s); s = s\<lparr>usage := l\<rparr>
             in if statsCSVMaxRows < length visits then (s, Inl ErrRangeTooLarge)
                else (s, Inr (csv_write (statsCSVColumns # csv_rows (st_keys s) startDay toDay l))))
   | _ \<Rightarrow> (s, Inl ErrInvalidDateRange))"

lemma mset_concat_sort: "mset (concat (map f (sort xs))) = mset (concat (map f xs))"
proof -
  have "mset (map f (sort xs)) = mset (map f xs)" by (simp only: mset_map mset_sort)
  then show ?thesis unfolding mset_concat mset_map by (metis (no_types, lifting) mset_map sum_mset_sum_list)
qed

text \<open>Reading an ordered map key by key and iterating over its bindings give the same.\<close>

lemma concat_over_keys:
  "amap_ok m \<Longrightarrow> concat (map (\<lambda>k. g k (case aget m k of Some v \<Rightarrow> v | None \<Rightarrow> d)) (akeys m)) = concat (map (\<lambda>(k, v). g k v) m)"
  by (rule arg_cong [where f = concat]) (auto simp: comp_def aget_SomeI intro!: map_cong)

lemma mset_concat_cong: "(\<And>x. x \<in> set xs \<Longrightarrow> mset (f x) = mset (g x)) \<Longrightarrow> mset (concat (map f xs)) = mset (concat (map g xs))"
  by (induction xs) auto

definition visit_row :: "(string, KeyConfig) amap \<Rightarrow> visit \<Rightarrow> string list" where
  "visit_row keys v = csv_row keys (visit_key v) (visit_day v) (visit_model v) (visit_bucket v)"

lemma mset_models:
  assumes "amap_ok ms"
  shows "mset (map (\<lambda>m. csv_row keys kid d m (models_bucket (Some ms) m)) (sort (akeys ms))) =
    mset (map (\<lambda>(m, b). csv_row keys kid d m b) ms)"
proof -
  have "map (\<lambda>m. csv_row keys kid d m (models_bucket (Some ms) m)) (akeys ms) = map (\<lambda>(m, b). csv_row keys kid d m b) ms"
    using assms by (auto simp: models_bucket_def aget_SomeI)
  then show ?thesis by (metis mset_map mset_sort)
qed

lemma mset_key_rows:
  assumes "amap_ok days" "\<forall>ms \<in> snd ` set days. amap_ok ms"
  shows "mset (csv_key_rows keys kid days) =
    mset (concat (map (\<lambda>(d, ms). map (\<lambda>(m, b). csv_row keys kid d m b) ms) days))"
proof -
  have "mset (csv_key_rows keys kid days) = mset (concat (map (\<lambda>d. map (\<lambda>(m, b). csv_row keys kid d m b)
      (case aget days d of Some ms \<Rightarrow> ms | None \<Rightarrow> [])) (akeys days)))"
    unfolding csv_key_rows_def mset_concat_sort Let_def
    by (intro mset_concat_cong mset_models) (use assms(2) in \<open>auto split: option.splits dest!: in_values\<close>)
  then show ?thesis using concat_over_keys [OF assms(1), of "\<lambda>d. map (\<lambda>(m, b). csv_row keys kid d m b)" "[]"] by simp
qed

lemma concat_if: "concat (map (\<lambda>(d, x). if P d then f d x else []) xs) = concat (map (\<lambda>(d, x). f d x) (filter (\<lambda>(d, _). P d) xs))"
  by (induction xs) auto

lemma csv_rows_visits:
  assumes "ledger_ok l"
  shows "mset (csv_rows keys start to (evict now l)) = mset (map (visit_row keys) (snd (visitRange now start to l)))"
proof -
  let ?l = "evict now l"
  have e: "amap_ok (entries ?l)" "\<And>k u. (k, u) \<in> set (entries ?l) \<Longrightarrow> usage_ok u"
    using evict_ok [OF assms] by (force simp: ledger_ok_def)+
  define days where "days = (\<lambda>u :: KeyUsage. filter (\<lambda>(d, _). start \<le> d \<and> d \<le> to) (Days u))"
  have days: "amap_ok (days u)" "\<forall>ms \<in> snd ` set (days u). amap_ok ms" if "usage_ok u" for u
    using that by (auto simp: days_def usage_ok_def models_ok_def)
  have copy: "copyKeyDays kid start to ?l = days (case aget (entries ?l) kid of Some u \<Rightarrow> u | None \<Rightarrow> empty_usage)" for kid
    by (auto simp: copyKeyDays_def days_def empty_usage_def split: option.splits)
  have "mset (csv_rows keys start to ?l) = mset (concat (map (\<lambda>(kid, u). csv_key_rows keys kid (days u)) (entries ?l)))"
    unfolding csv_rows_def keyIDs_def mset_concat_sort copy
    using concat_over_keys [OF e(1), of "\<lambda>kid u. csv_key_rows keys kid (days u)" empty_usage] by simp
  also have "\<dots> = mset (concat (map (\<lambda>(kid, u). concat (map (\<lambda>(d, ms). map (\<lambda>(m, b). csv_row keys kid d m b) ms) (days u)))
      (entries ?l)))"
  proof (rule mset_concat_cong)
    fix x
    assume x: "x \<in> set (entries ?l)"
    obtain kid u where kid: "x = (kid, u)" by (cases x)
    with x e(2) have "usage_ok u" by blast
    from mset_key_rows [OF days [OF this], of keys kid]
    show "mset (case x of (kid, u) \<Rightarrow> csv_key_rows keys kid (days u)) =
        mset (case x of (kid, u) \<Rightarrow> concat (map (\<lambda>(d, ms). map (\<lambda>(m, b). csv_row keys kid d m b) ms) (days u)))"
      by (simp only: kid prod.case)
  qed
  also have "concat (map (\<lambda>(kid, u). concat (map (\<lambda>(d, ms). map (\<lambda>(m, b). csv_row keys kid d m b) ms) (days u))) (entries ?l)) =
      map (visit_row keys) (snd (visitRange now start to l))"
    unfolding visitRange_def Let_def snd_conv days_def concat_if [symmetric] map_concat
    by (auto simp: visit_row_def visit_key_def visit_day_def visit_model_def visit_bucket_def comp_def map_concat not_less
        split: prod.splits intro!: arg_cong [where f = concat] map_cong)
  finally show ?thesis .
qed

lemma csvText_safe: "csvText v = [] \<or> \<not> formula_start (hd (csvText v))"
  by (auto simp: csvText_def formula_start_def)

text \<open>C25: A successful export is a faithful copy of the ledger's range. Both dates parse, in order
  and less than 92 days apart; an RFC 4180 reader of the file gets the header and then, in some
  order, exactly one record for every bucket the ledger holds in the range, of that key, day, model
  and its counts; no text cell begins a spreadsheet formula, and the amount cell denotes the exact
  nanodollars of the bucket.\<close>

theorem StatsCSV_exact:
  assumes "ledger_ok (usage s)" "StatsCSV now start to s = (s', Inr out)"
  shows "\<exists>startDay toDay recs. parse_date start = Some startDay \<and> parse_date to = Some toDay \<and>
      startDay \<le> toDay \<and> toDay - startDay < 92 \<and> csv_read out = Some (statsCSVColumns # recs) \<and>
      mset recs = mset (map (visit_row (st_keys s)) (snd (visitRange now startDay toDay (usage s)))) \<and>
      (\<forall>v \<in> set (snd (visitRange now startDay toDay (usage s))). let r = visit_row (st_keys s) v in
        (\<forall>i \<in> {1, 2, 4}. r ! i = [] \<or> \<not> formula_start (hd (r ! i))) \<and>
        (ChargedNano (visit_bucket v) \<noteq> minInt64 \<longrightarrow>
          decimal_value (r ! 11) = of_int (ChargedNano (visit_bucket v)) / of_int nanoPerUSD))"
proof -
  from assms(2) obtain startDay toDay where p: "parse_date start = Some startDay" "parse_date to = Some toDay"
    by (auto simp: StatsCSV_def split: option.splits)
  have r: "startDay \<le> toDay" "\<not> statsCSVMaxDays * 24 * hour \<le> time_sub (toDay * 24 * hour) (startDay * 24 * hour)"
    "out = csv_write (statsCSVColumns # csv_rows (st_keys s) startDay toDay (evict now (usage s)))"
    using assms(2) by (auto simp: StatsCSV_def p visitRange_def Let_def split: if_splits)
  have days: "toDay - startDay < 92"
    using r(2) by (subst (asm) time_sub_ge) (auto simp: statsCSVMaxDays_def maxInt64_def)
  let ?recs = "csv_rows (st_keys s) startDay toDay (evict now (usage s))"
  have "[] \<notin> set (statsCSVColumns # ?recs)"
    by (auto simp: statsCSVColumns_def csv_rows_def csv_key_rows_def csv_row_def Let_def)
  then have "csv_read out = Some (statsCSVColumns # ?recs)" unfolding r(3) by (rule csv_read_write)
  moreover have "let r = visit_row (st_keys s) v in
        (\<forall>i \<in> {1, 2, 4}. r ! i = [] \<or> \<not> formula_start (hd (r ! i))) \<and>
        (ChargedNano (visit_bucket v) \<noteq> minInt64 \<longrightarrow>
          decimal_value (r ! 11) = of_int (ChargedNano (visit_bucket v)) / of_int nanoPerUSD)"
    if "v \<in> set (snd (visitRange now startDay toDay (usage s)))" for v
  proof -
    have "int64 (ChargedNano (visit_bucket v))"
      using visits_in_range(1) [OF assms(1) that] by (simp add: bucket_ok_def)
    then show ?thesis
      using csvText_safe FormatUSD_value [of "ChargedNano (visit_bucket v)"]
      by (auto simp: Let_def visit_row_def csv_row_def)
  qed
  ultimately show ?thesis using p r(1) days csv_rows_visits [OF assms(1)] by blast
qed

lemma epoch_parses: "parse_date ''1970-01-01'' = Some 0"
  by code_simp

lemma one_call_export: "\<exists>s' out. StatsCSV 0 ''1970-01-01'' ''1970-01-01'' one_call_store = (s', Inr out)"
proof -
  have e: "evict 0 (usage one_call_store) = usage one_call_store"
    by (simp add: evict_def evictExpiredLocked_def one_call_store_def spent_ledger_def dateKey_def newUsageLedger_def)
  obtain l v where v: "visitRange 0 0 0 (usage one_call_store) = (l, v)" by (cases "visitRange 0 0 0 (usage one_call_store)")
  then have "length v = 1"
    unfolding visitRange_def Let_def e by (auto simp: one_call_store_def empty_usage_def)
  then show ?thesis
    by (simp add: StatsCSV_def epoch_parses Let_def v time_sub_def statsCSVMaxDays_def statsCSVMaxRows_def minInt64_def maxInt64_def)
qed

lemma StatsCSV_exact_witness:
  "\<exists>s' out startDay toDay recs. StatsCSV 0 ''1970-01-01'' ''1970-01-01'' one_call_store = (s', Inr out) \<and>
     csv_read out = Some (statsCSVColumns # recs) \<and>
     mset recs = mset (map (visit_row (st_keys one_call_store)) (snd (visitRange 0 startDay toDay (usage one_call_store))))"
proof -
  obtain s' out where o: "StatsCSV 0 ''1970-01-01'' ''1970-01-01'' one_call_store = (s', Inr out)"
    using one_call_export by blast
  with StatsCSV_exact [OF one_call_store_ok o] show ?thesis by blast
qed

end
