(* ===== verification/Handoff.thy ===== *)
theory Handoff
  imports Admin
begin

text \<open>
  The hot replacement of internal/policy/handoff.go and the life of a store in store.go: the
  periodic flusher, \<open>Shutdown\<close> and \<open>Stop\<close>; \<open>Quiesce\<close> and \<open>Resume\<close> of the old instance; the journal
  reader, \<open>AdoptHandoff\<close> and the follower of the new one.

  An instance is its store with whether the flusher runs and the follower it has. The journal
  writer's lines are the file it appends to. The bytes of the journal are read through \<open>decode\<close>,
  the JSON decoder of one line (\<^const>\<open>None\<close> for a line it rejects); a read that fails and the
  failing system calls are arguments, as is what the other process has appended when a read
  happens. Goroutines are the steps they take under the locks.
\<close>

subsection \<open>Reading the journal\<close>

definition maxJournalLine :: nat where
  "maxJournalLine = 2 ^ 20"

abbreviation newline :: char where "newline \<equiv> CHR 0x0A"

fun split_lines :: "string \<Rightarrow> string \<Rightarrow> string list" where
  "split_lines cur [] = []"
| "split_lines cur (c # s) = (if c = newline then cur # split_lines [] s else split_lines (cur @ [c]) s)"

definition drop_cr :: "string \<Rightarrow> string" where
  "drop_cr line = (if line \<noteq> [] \<and> last line = CHR 0x0D then butlast line else line)"

text \<open>The scanner stops with an error at a line that does not fit its buffer; a line that does not
  decode is skipped.\<close>

fun scan_entries :: "(string \<Rightarrow> handoffEntry option) \<Rightarrow> string list \<Rightarrow> handoffEntry list \<times> bool" where
  "scan_entries decode [] = ([], True)"
| "scan_entries decode (line # ls) =
     (if maxJournalLine \<le> length line then ([], False)
      else let (es, ok) = scan_entries decode ls
           in (case decode (drop_cr line) of None \<Rightarrow> es | Some e \<Rightarrow> e # es, ok))"

text \<open>\<open>next\<close>: the kept partial line, the bytes appended since; the new partial line, the entries and
  whether there was no error. \<open>complete\<close> is the length up to and with the last newline.\<close>

definition complete :: "string \<Rightarrow> nat" where
  "complete raw = length raw - length (takeWhile (\<lambda>c. c \<noteq> newline) (rev raw))"

definition reader_next :: "(string \<Rightarrow> handoffEntry option) \<Rightarrow> string \<Rightarrow> string \<Rightarrow> string \<times> handoffEntry list \<times> bool" where
  "reader_next decode partial bytes =
     (let raw = partial @ bytes; cut = complete raw
      in if cut = 0 then (raw, [], True)
         else (drop cut raw, scan_entries decode (split_lines [] (take cut raw))))"


subsection \<open>Replaying\<close>

text \<open>The entries of other modules are handed to the replay function, in order, when there is one.\<close>

definition apply_entry :: "instant \<Rightarrow> bool \<Rightarrow> handoffEntry \<Rightarrow> store \<times> (string \<times> string) list \<Rightarrow> store \<times> (string \<times> string) list" where
  "apply_entry now replay e = (\<lambda>(s, replayed). case e of
     UsageEntry kid model b deduct t \<Rightarrow>
       if kid \<noteq> [] \<and> model \<noteq> [] then (s\<lparr>usage := recordJournaled now kid model b deduct t (usage s)\<rparr>, replayed) else (s, replayed)
   | TraceEntry tid t \<Rightarrow>
       if tid \<noteq> [] then (s\<lparr>mediaTraces := rememberAt now tid t (mediaTraces s)\<rparr>, replayed) else (s, replayed)
   | ModuleEntry modl payload _ \<Rightarrow>
       if modl \<noteq> [] \<and> replay then (s, replayed @ [(modl, payload)]) else (s, replayed))"

definition applyHandoff :: "instant \<Rightarrow> bool \<Rightarrow> handoffEntry list \<Rightarrow> store \<Rightarrow> store \<times> (string \<times> string) list" where
  "applyHandoff now replay got s = fold (apply_entry now replay) got (s, [])"


subsection \<open>The instance\<close>

record follower =
  flw_partial :: string
  flw_closed :: bool

record plugin_instance =
  in_store :: store
  flushing :: bool
  following :: "follower option"

text \<open>The arguments of a flush and of a read: the failing calls, the clocks, the decoder.\<close>

record handoff_env =
  env_decode :: "string \<Rightarrow> handoffEntry option"
  env_replay :: bool
  env_failsH :: "write_call \<Rightarrow> bool"
  env_failsL :: "write_call \<Rightarrow> bool"
  env_now :: instant
  env_wall :: instant

definition env_flush :: "handoff_env \<Rightarrow> store \<Rightarrow> store \<times> flush_error option" where
  "env_flush env s = store_flush (env_failsH env) (env_failsL env) (env_now env) (env_wall env) s"

definition StartUsageFlusher :: "plugin_instance \<Rightarrow> plugin_instance" where
  "StartUsageFlusher p = p\<lparr>flushing := True\<rparr>"

text \<open>One tick of the flusher's loop.\<close>

definition flusher_tick :: "handoff_env \<Rightarrow> plugin_instance \<Rightarrow> plugin_instance" where
  "flusher_tick env p = (if flushing p then p\<lparr>in_store := fst (env_flush env (in_store p))\<rparr> else p)"

definition stopFlusher :: "plugin_instance \<Rightarrow> plugin_instance" where
  "stopFlusher p = p\<lparr>flushing := False\<rparr>"

definition stopUsageFlusher :: "handoff_env \<Rightarrow> plugin_instance \<Rightarrow> plugin_instance \<times> flush_error option" where
  "stopUsageFlusher env p = (let p = stopFlusher p; (s, err) = env_flush env (in_store p) in (p\<lparr>in_store := s\<rparr>, err))"

text \<open>\<open>closeHandoff\<close>: whether the journal was renamed after a cut that holds all that was applied.\<close>

definition closeHandoff :: "handoff_env \<Rightarrow> store \<Rightarrow> store \<times> bool" where
  "closeHandoff env s = (let (s, err) = env_flush env s in (s, err = None))"

text \<open>One turn of the follower's loop: \<open>bytes\<close> is what the old instance has appended since the last
  read (\<^const>\<open>None\<close> when the read fails), \<open>quiet\<close> whether the waiting times are over. The result is the
  store, the replayed entries, and the follower if it goes on.\<close>

definition follow_turn :: "handoff_env \<Rightarrow> bool \<Rightarrow> bool \<Rightarrow> string option \<Rightarrow> follower \<Rightarrow> store \<Rightarrow>
    store \<times> (string \<times> string) list \<times> follower option" where
  "follow_turn env stopping quiet bytes f s = (case bytes of
     None \<Rightarrow> (s, [], None)
   | Some bytes \<Rightarrow> (case reader_next (env_decode env) (flw_partial f) bytes of
       (_, _, False) \<Rightarrow> (s, [], None)
     | (partial, got, True) \<Rightarrow>
         (let (s, replayed) = applyHandoff (env_now env) (env_replay env) got s;
              (s, closed) = (if \<not> flw_closed f then closeHandoff env s
                             else if got \<noteq> [] \<and> \<not> stopping then (fst (env_flush env s), True)
                             else (s, True))
          in (s, replayed, if stopping \<or> closed \<and> quiet then None
                           else Some \<lparr>flw_partial = partial, flw_closed = closed\<rparr>))))"

definition follower_tick :: "handoff_env \<Rightarrow> bool \<Rightarrow> string option \<Rightarrow> plugin_instance \<Rightarrow> plugin_instance \<times> (string \<times> string) list" where
  "follower_tick env quiet bytes p = (case following p of
     None \<Rightarrow> (p, [])
   | Some f \<Rightarrow> (let (s, replayed, f') = follow_turn env False quiet bytes f (in_store p)
                in (p\<lparr>in_store := s, following := f'\<rparr>, replayed)))"

definition stopFollowing :: "handoff_env \<Rightarrow> string option \<Rightarrow> plugin_instance \<Rightarrow> plugin_instance \<times> (string \<times> string) list" where
  "stopFollowing env bytes p = (case following p of
     None \<Rightarrow> (p, [])
   | Some f \<Rightarrow> (let (s, replayed, _) = follow_turn env True False bytes f (in_store p)
                in (p\<lparr>in_store := s, following := None\<rparr>, replayed)))"

text \<open>\<open>Quiesce\<close>; \<open>existing\<close> are the lines of a journal already at the path, which the writer appends
  to, \<open>opens\<close> whether it can be opened.\<close>

datatype quiesce_error = QuiesceError "flush_error option" bool

definition Quiesce :: "handoff_env \<Rightarrow> string option \<Rightarrow> bool \<Rightarrow> handoffEntry list \<Rightarrow> plugin_instance \<Rightarrow> plugin_instance \<times> quiesce_error option" where
  "Quiesce env bytes opens existing p =
     (let p = fst (stopFollowing env bytes p);
          (p, flushErr) = stopUsageFlusher env p; s = in_store p;
          failed = (if flushErr = None then None else Some (QuiesceError flushErr False))
      in if statePath s = [] then (p, failed)
         else if \<not> opens then (p, Some (QuiesceError flushErr True))
         else let (traces, pending) = live (env_now env) (mediaTraces s);
                  writer = append_journal (map (\<lambda>(tid, t). TraceEntry tid t) pending)
                    \<lparr>journal_lines = existing, journal_open = True\<rparr>
              in (p\<lparr>in_store := s\<lparr>mediaTraces := traces, handoff := Some writer\<rparr>\<rparr>, failed))"

text \<open>\<open>Resume\<close>, and whether the journal was removed.\<close>

definition Resume :: "plugin_instance \<Rightarrow> plugin_instance \<times> bool" where
  "Resume p = (StartUsageFlusher (p\<lparr>in_store := (in_store p)\<lparr>handoff := None\<rparr>\<rparr>), handoff (in_store p) \<noteq> None)"

datatype journal_file = NoJournal | JournalUnreadable | Journal "string option"

text \<open>\<open>AdoptHandoff\<close>: the number of replayed entries (\<^const>\<open>None\<close> for an error), the replayed module
  entries.\<close>

definition AdoptHandoff :: "handoff_env \<Rightarrow> journal_file \<Rightarrow> plugin_instance \<Rightarrow> plugin_instance \<times> nat option \<times> (string \<times> string) list" where
  "AdoptHandoff env j p = (case j of
     NoJournal \<Rightarrow> (p, Some 0, [])
   | JournalUnreadable \<Rightarrow> (p, None, [])
   | Journal None \<Rightarrow> (p, None, [])
   | Journal (Some bytes) \<Rightarrow> (case reader_next (env_decode env) [] bytes of
       (_, _, False) \<Rightarrow> (p, None, [])
     | (partial, got, True) \<Rightarrow>
         (let (s, replayed) = applyHandoff (env_now env) (env_replay env) got (in_store p);
              (s, closed) = closeHandoff env s
          in (p\<lparr>in_store := s, following := Some \<lparr>flw_partial = partial, flw_closed = closed\<rparr>\<rparr>,
              Some (length got), replayed))))"

definition close_writer :: "handoffWriter \<Rightarrow> handoffWriter" where
  "close_writer w = w\<lparr>journal_open := False\<rparr>"

definition Shutdown :: "handoff_env \<Rightarrow> string option \<Rightarrow> plugin_instance \<Rightarrow> plugin_instance \<times> flush_error option" where
  "Shutdown env bytes p =
     (let p = fst (stopFollowing env bytes p)
      in if handoff (in_store p) \<noteq> None then (p\<lparr>in_store := (in_store p)\<lparr>handoff := None\<rparr>\<rparr>, None)
         else stopUsageFlusher env p)"

definition Stop :: "handoff_env \<Rightarrow> string option \<Rightarrow> plugin_instance \<Rightarrow> plugin_instance" where
  "Stop env bytes p =
     (let p = fst (stopFollowing env bytes p); s = in_store p
      in stopFlusher (p\<lparr>in_store := s\<lparr>handoff := map_option close_writer (handoff s)\<rparr>\<rparr>))"

definition Loaded :: "plugin_instance \<Rightarrow> bool" where
  "Loaded p \<longleftrightarrow> datasetID (in_store p) \<noteq> []"


subsection \<open>Reading in pieces\<close>

text \<open>The reader over a sequence of reads: the partial line at the end, all entries, and whether no
  read failed. After a failing read the callers read no more.\<close>

fun read_all :: "(string \<Rightarrow> handoffEntry option) \<Rightarrow> string \<Rightarrow> string list \<Rightarrow> string \<times> handoffEntry list \<times> bool" where
  "read_all decode partial [] = (partial, [], True)"
| "read_all decode partial (bytes # rest) = (case reader_next decode partial bytes of
     (partial', es, False) \<Rightarrow> (partial', es, False)
   | (partial', es, True) \<Rightarrow> (case read_all decode partial' rest of (left, es', ok) \<Rightarrow> (left, es @ es', ok)))"

lemma split_lines_prefix: "newline \<notin> set p \<Longrightarrow> split_lines cur (p @ s) = split_lines (cur @ p) s"
  by (induction p arbitrary: cur) auto

lemma split_lines_none: "newline \<notin> set p \<Longrightarrow> split_lines cur p = []"
  by (induction p arbitrary: cur) auto

lemma split_lines_append: "split_lines cur (a @ newline # b) = split_lines cur (a @ [newline]) @ split_lines [] b"
  by (induction a arbitrary: cur) auto

lemma complete_split:
  obtains (none) "complete raw = 0" "newline \<notin> set raw"
    | (some) a b where "raw = a @ newline # b" "newline \<notin> set b" "complete raw = length a + 1"
proof (cases "newline \<in> set raw")
  case True
  then obtain a b where ab: "raw = a @ newline # b" "newline \<notin> set b" by (meson split_list_last)
  have nb: "\<And>x. x \<in> set (rev b) \<Longrightarrow> x \<noteq> newline" using ab(2) by auto
  have "takeWhile (\<lambda>c. c \<noteq> newline) (rev b @ newline # rev a) = rev b"
    by (subst takeWhile_append2) (rule nb, assumption, simp)
  then have "takeWhile (\<lambda>c. c \<noteq> newline) (rev raw) = rev b" by (simp only: ab(1) rev.simps rev_append append_assoc append_Cons append_Nil)
  then show thesis using ab by (intro some) (simp_all add: complete_def)
next
  case False
  then have "takeWhile (\<lambda>c. c \<noteq> newline) (rev raw) = rev raw" unfolding takeWhile_eq_all_conv set_rev by metis
  then have "complete raw = 0" by (simp only: complete_def length_rev diff_self_eq_0)
  then show thesis using False by (rule none)
qed

lemma scan_entries_append:
  "scan_entries decode (xs @ ys) = (case scan_entries decode xs of
     (es, False) \<Rightarrow> (es, False) | (es, True) \<Rightarrow> (case scan_entries decode ys of (es', ok) \<Rightarrow> (es @ es', ok)))"
  by (induction xs) (auto split: prod.splits bool.splits option.splits)

text \<open>What a read leaves and gives, in terms of the whole text.\<close>

lemma reader_next_eq:
  assumes "newline \<notin> set partial"
  obtains don rest where "partial @ bytes = don @ rest" "newline \<notin> set rest"
    "\<And>more. split_lines [] (don @ rest @ more) = split_lines [] don @ split_lines [] (rest @ more)"
    "reader_next decode partial bytes = (rest, scan_entries decode (split_lines [] don))"
    "don = [] \<or> last don = newline"
proof (rule complete_split [of "partial @ bytes"])
  assume c: "complete (partial @ bytes) = 0" "newline \<notin> set (partial @ bytes)"
  show thesis by (rule that [of "[]" "partial @ bytes"]) (use c in \<open>simp_all add: reader_next_def Let_def\<close>)
next
  fix a b
  assume ab: "partial @ bytes = a @ newline # b" "newline \<notin> set b" "complete (partial @ bytes) = length a + 1"
  show thesis
  proof (rule that [of "a @ [newline]" b])
    show "partial @ bytes = (a @ [newline]) @ b" using ab(1) by simp
    show "split_lines [] ((a @ [newline]) @ b @ more) = split_lines [] (a @ [newline]) @ split_lines [] (b @ more)" for more
      using split_lines_append [of "[]" a "b @ more"] by simp
    show "reader_next decode partial bytes = (b, scan_entries decode (split_lines [] (a @ [newline])))"
      unfolding reader_next_def Let_def ab(3) unfolding ab(1) by simp
  qed (use ab(2) in simp_all)
qed

lemma read_all_whole:
  assumes "newline \<notin> set partial" "scan_entries decode (split_lines [] (partial @ concat chunks)) = (es, True)"
  shows "\<exists>rest. read_all decode partial chunks = (rest, es, True) \<and> newline \<notin> set rest \<and>
    (\<exists>don. partial @ concat chunks = don @ rest \<and> (don = [] \<or> last don = newline))"
  using assms
proof (induction chunks arbitrary: partial es)
  case Nil
  then show ?case by (simp add: split_lines_none)
next
  case (Cons bytes chunks)
  obtain don rest where r: "partial @ bytes = don @ rest" "newline \<notin> set rest"
    "\<And>more. split_lines [] (don @ rest @ more) = split_lines [] don @ split_lines [] (rest @ more)"
    "reader_next decode partial bytes = (rest, scan_entries decode (split_lines [] don))"
    "don = [] \<or> last don = newline"
    by (rule reader_next_eq [OF Cons.prems(1), of bytes decode]) (rule that)
  have whole: "partial @ concat (bytes # chunks) = don @ rest @ concat chunks" using r(1) by simp
  have "scan_entries decode (split_lines [] don @ split_lines [] (rest @ concat chunks)) = (es, True)"
    using Cons.prems(2) unfolding whole r(3) .
  then obtain es1 es2 where e: "scan_entries decode (split_lines [] don) = (es1, True)"
      "scan_entries decode (split_lines [] (rest @ concat chunks)) = (es2, True)" "es = es1 @ es2"
    unfolding scan_entries_append by (auto split: prod.splits bool.splits)
  from Cons.IH [OF r(2) e(2)] obtain rest' don' where i: "read_all decode rest chunks = (rest', es2, True)" "newline \<notin> set rest'"
    "rest @ concat chunks = don' @ rest'" "don' = [] \<or> last don' = newline" by blast
  have "don @ don' = [] \<or> last (don @ don') = newline" using i(4) r(5) by (cases "don' = []") auto
  moreover have "partial @ concat (bytes # chunks) = (don @ don') @ rest'" using whole i(3) by simp
  moreover have "read_all decode partial (bytes # chunks) = (rest', es, True)" by (simp add: r(4) e i(1))
  ultimately show ?case using i(2) by blast
qed

text \<open>The bytes of journal lines.\<close>

definition journal_bytes :: "(handoffEntry \<Rightarrow> string) \<Rightarrow> handoffEntry list \<Rightarrow> string" where
  "journal_bytes encode es = concat (map (\<lambda>e. encode e @ [newline]) es)"

lemma split_journal:
  assumes "\<forall>e \<in> set es. newline \<notin> set (encode e)" "newline \<notin> set rest"
  shows "split_lines [] (journal_bytes encode es @ rest) = map encode es"
  using assms(1)
proof (induction es)
  case Nil
  then show ?case using assms(2) by (simp add: journal_bytes_def split_lines_none)
next
  case (Cons e es)
  then have "split_lines [] (encode e @ newline # journal_bytes encode es @ rest) =
      encode e # split_lines [] (journal_bytes encode es @ rest)"
    using split_lines_prefix [of "encode e" "[]" "newline # journal_bytes encode es @ rest"] by simp
  then show ?case using Cons by (simp add: journal_bytes_def)
qed

lemma scan_journal:
  "\<forall>e \<in> set es. length (encode e) < maxJournalLine \<and> decode (drop_cr (encode e)) = Some e \<Longrightarrow>
   scan_entries decode (map encode es) = (es, True)"
  by (induction es) auto

text \<open>C8: A journal is read exactly, however it grows: when the old instance has written the lines of
  some entries and part of one more, the new instance's reads, whatever pieces they get, give those
  entries in order, each once, and keep the unfinished line for the next read. The line format has
  to decode what it encodes, without a newline and below the scanner's limit.\<close>

theorem journal_read_exact:
  assumes "\<forall>e \<in> set es. newline \<notin> set (encode e) \<and> length (encode e) < maxJournalLine \<and> decode (drop_cr (encode e)) = Some e"
    and "concat chunks = journal_bytes encode es @ rest" "newline \<notin> set rest"
  shows "read_all decode [] chunks = (rest, es, True)"
proof -
  have sp: "split_lines [] (journal_bytes encode es @ rest) = map encode es"
    by (rule split_journal) (use assms(1,3) in auto)
  have "scan_entries decode (split_lines [] ([] @ concat chunks)) = (es, True)"
    unfolding append_Nil assms(2) sp by (rule scan_journal) (use assms(1) in auto)
  from read_all_whole [OF _ this] obtain rest' don where r: "read_all decode [] chunks = (rest', es, True)" "newline \<notin> set rest'"
    "concat chunks = don @ rest'" "don = [] \<or> last don = newline" by auto
  have e: "journal_bytes encode es = [] \<or> last (journal_bytes encode es) = newline"
    by (cases es rule: rev_cases) (simp_all add: journal_bytes_def)
  have tail: "b = d" if "a @ b = c @ d" "newline \<notin> set b" "newline \<notin> set d" "a = [] \<or> last a = newline" "c = [] \<or> last c = newline"
    for a b c d :: string
  proof -
    from that(1) consider u where "a = c @ u" "u @ b = d" | u where "a @ u = c" "b = u @ d"
      by (auto simp: append_eq_append_conv2)
    then show ?thesis
    proof cases
      case 1
      then have "u = []" using that(3,4) by (cases u rule: rev_cases) auto
      with 1 show ?thesis by simp
    next
      case 2
      then have "u = []" using that(2,5) by (cases u rule: rev_cases) auto
      with 2 show ?thesis by simp
    qed
  qed
  have "rest' = rest" using tail [of don rest' "journal_bytes encode es" rest] r(2-4) assms(2,3) e by simp
  with r(1) show ?thesis by simp
qed

lemma journal_read_exact_witness:
  "read_all (\<lambda>line. if line = ''ta'' then Some (TraceEntry ''a'' 0) else None) [] [''t'', ''a'' @ newline # ''tb''] =
    (''tb'', [TraceEntry ''a'' 0], True)"
proof -
  define encode where "encode = (\<lambda>e. case e of TraceEntry i _ \<Rightarrow> CHR ''t'' # i | _ \<Rightarrow> [])"
  have "concat [''t'', ''a'' @ newline # ''tb''] = journal_bytes encode [TraceEntry ''a'' 0] @ ''tb''"
    by (simp add: journal_bytes_def encode_def)
  from journal_read_exact [OF _ this, of "\<lambda>line. if line = ''ta'' then Some (TraceEntry ''a'' 0) else None"]
  show ?thesis by (simp add: encode_def maxJournalLine_def drop_cr_def)
qed


subsection \<open>Nothing is lost and nothing billed twice\<close>

lemma rebuild_values:
  assumes "aget (rebuildKeysByHash keys) h = Some k"
  shows "\<exists>i. aget keys i = Some k"
proof -
  have "aget acc h = Some k \<or> (\<exists>i. aget keys i = Some k)"
    if "aget (fold (\<lambda>kid byHash. case aget keys kid of Some key \<Rightarrow> add_hash key byHash | None \<Rightarrow> byHash) ids acc) h = Some k"
    for ids acc
    using that
  proof (induction ids arbitrary: acc)
    case (Cons i ids)
    from Cons.IH [of "case aget keys i of Some key \<Rightarrow> add_hash key acc | None \<Rightarrow> acc"] Cons.prems
    consider "aget (case aget keys i of Some key \<Rightarrow> add_hash key acc | None \<Rightarrow> acc) h = Some k" | "\<exists>i. aget keys i = Some k" by auto
    then show ?case by cases (auto simp: add_hash_def Let_def split: option.splits if_splits)
  qed simp
  from this [of _ "[]"] assms show ?thesis unfolding rebuildKeysByHash_def by fastforce
qed

lemma findByID_stored: "findByID raw s = Some k \<Longrightarrow> \<exists>i. aget (st_keys s) i = Some k"
  by (auto simp: findByID_def Let_def split: if_splits)

lemma findBySecret_stored: "keys_indexed s \<Longrightarrow> findBySecret sha raw s = Some k \<Longrightarrow> \<exists>i. aget (st_keys s) i = Some k"
  by (auto simp: findBySecret_def keys_indexed_def Let_def split: if_splits option.splits intro: rebuild_values)

lemma billed_key_stored: "keys_indexed s \<Longrightarrow> billed_key sha e s = Some k \<Longrightarrow> \<exists>i. aget (st_keys s) i = Some k"
  unfolding billed_key_def by (auto split: option.splits dest: findByID_stored findBySecret_stored)

lemma record_fields [simp]:
  "ledger_location (record_usage now kid m b deduct l) = ledger_location l"
  "closedThrough (record_usage now kid m b deduct l) = closedThrough l"
  "ledger_location (recordJournaled now kid m b deduct t l) = ledger_location l"
  "closedThrough (recordJournaled now kid m b deduct t l) = closedThrough l"
  by (simp_all add: record_usage_def recordJournaled_def Let_def)

lemma record_bucket:
  assumes "ledger_ok l" "oldestKept l now \<le> d"
  shows "ledger_bucket (record_usage now kid m delta deduct l) k d x =
    (if k = kid \<and> d = openDateLocked l now \<and> x = m then bucket_add (ledger_bucket l k d x) delta else ledger_bucket l k d x)"
  using booked_bucket [OF assms refl] unfolding record_usage_def Let_def by auto

lemma journaled_bucket:
  assumes "ledger_ok l" "oldestKept l now \<le> d" "\<not> IsZero t" "t \<le> now"
  shows "ledger_bucket (recordJournaled now kid m delta deduct t l) k d x =
    (if k = kid \<and> d = openDateLocked l t \<and> x = m then bucket_add (ledger_bucket l k d x) delta else ledger_bucket l k d x)"
  using booked_bucket [OF assms(1,2) refl] assms(3,4) unfolding recordJournaled_def Let_def by auto

text \<open>The two ledgers agree on a day: same zone and closed days, and the same buckets.\<close>

definition agree_on :: "day \<Rightarrow> usageLedger \<Rightarrow> usageLedger \<Rightarrow> bool" where
  "agree_on d l l' \<longleftrightarrow> ledger_ok l \<and> ledger_ok l' \<and> ledger_location l' = ledger_location l \<and> closedThrough l' = closedThrough l \<and>
     (\<forall>k x. ledger_bucket l' k d x = ledger_bucket l k d x)"

lemma agree_step:
  assumes "agree_on d l l'" "oldestKept l now \<le> d" "oldestKept l' now' \<le> d" "\<not> IsZero now" "now \<le> now'"
  shows "agree_on d (record_usage now kid m b deduct l) (recordJournaled now' kid m b deduct now l')"
proof -
  note a = assms(1) [unfolded agree_on_def]
  have "openDateLocked l' now = openDateLocked l now" using a
    by (auto simp: openDateLocked_def dateKey_def after_mark_def split: option.splits)
  then show ?thesis using a assms(2-5)
    by (auto simp: agree_on_def record_ok recordJournaled_ok record_bucket journaled_bucket)
qed

definition record_events :: "(string \<Rightarrow> string) \<Rightarrow> (instant \<times> UsageEvent) list \<Rightarrow> store \<Rightarrow> store" where
  "record_events sha es s = fold (\<lambda>(now, e) s. fst (RecordUsage sha now e s)) es s"

lemma ToLower_event: "event_model e \<noteq> [] \<Longrightarrow> ToLower (event_model e) \<noteq> []"
  by simp

text \<open>One record of the old instance and the line it journals, replayed.\<close>

lemma record_replayed:
  assumes idx: "keys_indexed s" "\<forall>(_, k) \<in> set (st_keys s). key_normal k"
    and w: "handoff s = Some w" "journal_open w"
    and t: "agree_on d (usage s) (usage t)" "oldestKept (usage s) now \<le> d" "oldestKept (usage t) now' \<le> d" "\<not> IsZero now" "now \<le> now'"
  obtains lines where "handoff (fst (RecordUsage sha now e s)) = Some (append_journal lines w)"
    "agree_on d (usage (fst (RecordUsage sha now e s))) (usage (fst (fold (apply_entry now' replay) lines (t, rp))))"
    "keys_indexed (fst (RecordUsage sha now e s))" "st_keys (fst (RecordUsage sha now e s)) = st_keys s"
proof (rule RecordUsage_cases [where sha = sha and now = now and e = e and s = s])
  fix key b s1
  assume b: "event_model e \<noteq> []" "billed_key sha e s = Some key" "same_books s s1"
    "RecordUsage sha now e s = (journalUsage now (ID key) (ToLower (event_model e)) b (BalanceMode key)
         (s1\<lparr>usage := record_usage now (ID key) (ToLower (event_model e)) b (BalanceMode key) (usage s1)\<rparr>), UsageRecorded)"
  note f = same_books_fields [OF b(3)]
  obtain i where "aget (st_keys s) i = Some key" using billed_key_stored [OF idx(1) b(2)] by blast
  then have "key_normal key" using idx(2) by (auto dest: map_of_SomeD)
  then have id: "ID key \<noteq> []" by (simp add: key_normal_def key_ok_def)
  show thesis
  proof (rule that [of "[UsageEntry (ID key) (ToLower (event_model e)) b (BalanceMode key) now]"])
    show "handoff (fst (RecordUsage sha now e s)) =
        Some (append_journal [UsageEntry (ID key) (ToLower (event_model e)) b (BalanceMode key) now] w)"
      by (simp add: b(4) journalUsage_def journal_def f w)
    show "agree_on d (usage (fst (RecordUsage sha now e s)))
        (usage (fst (fold (apply_entry now' replay) [UsageEntry (ID key) (ToLower (event_model e)) b (BalanceMode key) now] (t, rp))))"
      using agree_step [OF t, of "ID key" "ToLower (event_model e)" b "BalanceMode key"] id b(1)
      by (simp add: b(4) journalUsage_def journal_def f apply_entry_def)
    show "keys_indexed (fst (RecordUsage sha now e s))" "st_keys (fst (RecordUsage sha now e s)) = st_keys s"
      using idx(1) by (simp_all add: b(4) journalUsage_def journal_def f keys_indexed_def)
  qed
next
  fix s1 r
  assume r: "RecordUsage sha now e s = (s1, r)" "same_books s s1"
  note f = same_books_fields [OF r(2)]
  show thesis
    by (rule that [of "[]"]) (use r(1) t(1) w idx(1) in \<open>simp_all add: f append_journal_def keys_indexed_def\<close>)
qed

lemma oldest_agree: "agree_on d l l' \<Longrightarrow> oldestKept l' now = oldestKept l now"
  by (rule oldestKept_cong) (simp add: agree_on_def)

lemma journal_replayed:
  assumes "keys_indexed s" "\<forall>(_, k) \<in> set (st_keys s). key_normal k" "handoff s = Some w" "journal_open w"
    and "agree_on d (usage s) (usage t)" "oldestKept (usage t) now' \<le> d"
    and "\<forall>(now, e) \<in> set es. \<not> IsZero now \<and> now \<le> now' \<and> oldestKept (usage s) now \<le> d"
  shows "\<exists>lines. handoff (record_events sha es s) = Some (append_journal lines w) \<and>
    agree_on d (usage (record_events sha es s)) (usage (fst (fold (apply_entry now' replay) lines (t, rp))))"
  using assms
proof (induction es arbitrary: s w t rp)
  case Nil
  then show ?case by (intro exI [of _ "[]"]) (simp add: record_events_def append_journal_def)
next
  case (Cons ne es)
  obtain now e where ne: "ne = (now, e)" by (cases ne)
  have n: "\<not> IsZero now" "now \<le> now'" "oldestKept (usage s) now \<le> d" using Cons.prems(7) ne by auto
  let ?s = "fst (RecordUsage sha now e s)"
  obtain lines where l: "handoff ?s = Some (append_journal lines w)"
    "agree_on d (usage ?s) (usage (fst (fold (apply_entry now' replay) lines (t, rp))))" "keys_indexed ?s" "st_keys ?s = st_keys s"
    by (rule record_replayed [OF Cons.prems(1-5) n(3) Cons.prems(6) n(1,2), of sha e replay rp])
  obtain t1 rp1 where t1: "fold (apply_entry now' replay) lines (t, rp) = (t1, rp1)" by fastforce
  have o: "oldestKept (usage ?s) u = oldestKept (usage s) u" "oldestKept (usage t1) u = oldestKept (usage s) u" for u
  proof -
    have "ledger_location (usage ?s) = ledger_location (usage s)"
      by (rule RecordUsage_cases [where sha = sha and now = now and e = e and s = s])
        (auto simp: same_books_fields journalUsage_def journal_def)
    then show "oldestKept (usage ?s) u = oldestKept (usage s) u" by (rule oldestKept_cong)
    with oldest_agree [OF l(2)] show "oldestKept (usage t1) u = oldestKept (usage s) u" by (simp add: t1)
  qed
  have "\<exists>lines'. handoff (record_events sha es ?s) = Some (append_journal lines' (append_journal lines w)) \<and>
      agree_on d (usage (record_events sha es ?s)) (usage (fst (fold (apply_entry now' replay) lines' (t1, rp1))))"
  proof (rule Cons.IH [OF l(3) _ l(1)])
    show "\<forall>(_, k) \<in> set (st_keys ?s). key_normal k" using Cons.prems(2) by (simp add: l(4))
    show "journal_open (append_journal lines w)" using Cons.prems(4) by (simp add: append_journal_def)
    show "agree_on d (usage ?s) (usage t1)" using l(2) by (simp add: t1)
    show "oldestKept (usage t1) now' \<le> d" using Cons.prems(5,6) by (simp add: o oldest_agree)
    show "\<forall>(u, e) \<in> set es. \<not> IsZero u \<and> u \<le> now' \<and> oldestKept (usage ?s) u \<le> d"
      using Cons.prems(7) by (simp add: o)
  qed
  then obtain lines' where l': "handoff (record_events sha es ?s) = Some (append_journal lines' (append_journal lines w))"
      "agree_on d (usage (record_events sha es ?s)) (usage (fst (fold (apply_entry now' replay) lines' (t1, rp1))))" by blast
  have "append_journal lines' (append_journal lines w) = append_journal (lines @ lines') w"
    using Cons.prems(4) by (simp add: append_journal_def)
  then show ?case using l' by (intro exI [of _ "lines @ lines'"]) (simp add: record_events_def ne t1)
qed



end
