(* ===== verification/Startup.thy ===== *)
theory Startup
  imports Handoff
begin

text \<open>
  The start of an instance: the rest of src/internal/policy/config.go (the configuration document,
  \<open>ParseConfig\<close>, \<open>DecodeConfig\<close>, \<open>normalizeConfig\<close>, the zone of the ledger), the paths of
  src/internal/policy/persist/files.go and the sweep of stale temporary files, the sweep of replayed
  journals of src/internal/policy/handoff.go, and \<open>NewStore\<close>, \<open>Configure\<close> and \<open>Reload\<close> of
  src/internal/policy/store.go.

  The YAML decoder is a parameter: what it makes of the bytes over a prefilled document, and what
  follows that document. The zone database is one too. package path/filepath is modelled for Unix on
  the absolute paths the code uses. The files of every dataset live on a disk; the store holds those of
  its own dataset, and they are put back when another one is loaded.
\<close>


subsection \<open>The configuration\<close>

record configKey =
  CkID :: string
  CkName :: string
  CkEnabled :: bool
  CkKeyHash :: string
  CkKeyPreview :: string
  CkRPM :: int
  CkDailyLimitUSD :: f64
  CkWeeklyLimitUSD :: f64
  CkMonthlyLimitUSD :: f64
  CkCreatedAt :: instant
  CkUpdatedAt :: instant

record configModel =
  CmName :: string
  CmProvider :: string
  CmBillingMode :: string
  CmBillingMultiplier :: f64
  CmInputPricePerMillion :: f64
  CmOutputPricePerMillion :: f64
  CmCacheReadPricePerMillion :: f64
  CmCacheWritePricePerMillion :: "f64 option"
  CmPerCallUSD :: f64

record configDocument =
  CdEnabled :: bool
  CdStateFile :: string
  CdUsageTimezone :: string
  CdKeys :: "configKey list"
  CdModels :: "configModel list"

record Config =
  CfEnabled :: bool
  CfStateFile :: string
  CfUsageTimezone :: string
  CfKeys :: "KeyConfig list"
  CfModels :: "ModelPrice list"
  usageLocation :: "location option"

definition DefaultConfig :: Config where
  "DefaultConfig = \<lparr>CfEnabled = True, CfStateFile = ''cpa-key-policy-state.json'', CfUsageTimezone = ''Asia/Shanghai'',
     CfKeys = [], CfModels = [], usageLocation = None\<rparr>"

text \<open>What the decoder makes of the bytes: an error, or the document and what comes after it.\<close>

datatype yaml_rest = YamlEOF | YamlMore | YamlBroken
datatype yaml_result = YamlError | YamlDocument configDocument yaml_rest
datatype config_error = YamlRejected | NotOneDocument | ConfigModels price_error | ConfigKeys key_error

definition config_key :: "configKey \<Rightarrow> KeyConfig" where
  "config_key k = \<lparr>ID = CkID k, KeyName = CkName k, Enabled = CkEnabled k, KeyHash = CkKeyHash k, KeyPreview = CkKeyPreview k,
     RPM = CkRPM k, DailyLimitUSD = CkDailyLimitUSD k, WeeklyLimitUSD = CkWeeklyLimitUSD k, MonthlyLimitUSD = CkMonthlyLimitUSD k,
     QuotaMode = [], CreatedAt = CkCreatedAt k, UpdatedAt = CkUpdatedAt k\<rparr>"

definition config_model :: "configModel \<Rightarrow> ModelPrice" where
  "config_model r = \<lparr>ModelName = CmName r, Provider = CmProvider r, BillingMode = CmBillingMode r,
     BillingMultiplier = CmBillingMultiplier r, InputPricePerMillion = CmInputPricePerMillion r,
     OutputPricePerMillion = CmOutputPricePerMillion r, CacheReadPricePerMillion = CmCacheReadPricePerMillion r,
     CacheWritePricePerMillion = CmCacheWritePricePerMillion r, PerCallUSD = CmPerCallUSD r\<rparr>"

definition ParseConfig :: "(string \<Rightarrow> configDocument \<Rightarrow> yaml_result) \<Rightarrow> string \<Rightarrow> config_error + Config" where
  "ParseConfig yaml raw =
     (let cfg = DefaultConfig
      in if TrimSpace raw = [] then Inr cfg
         else case yaml raw \<lparr>CdEnabled = CfEnabled cfg, CdStateFile = CfStateFile cfg, CdUsageTimezone = CfUsageTimezone cfg,
                CdKeys = [], CdModels = []\<rparr> of
           YamlError \<Rightarrow> Inl YamlRejected
         | YamlDocument _ YamlMore \<Rightarrow> Inl NotOneDocument
         | YamlDocument _ YamlBroken \<Rightarrow> Inl YamlRejected
         | YamlDocument document YamlEOF \<Rightarrow> Inr (cfg\<lparr>CfKeys := map config_key (CdKeys document),
             CfModels := map config_model (CdModels document), CfEnabled := CdEnabled document,
             CfStateFile := (if TrimSpace (CdStateFile document) = [] then CfStateFile DefaultConfig else CdStateFile document),
             CfUsageTimezone := CdUsageTimezone document\<rparr>))"

definition resolveUsageZone :: "(string \<Rightarrow> location option) \<Rightarrow> string \<Rightarrow> string \<times> location" where
  "resolveUsageZone zones configured =
     (let zone = (if TrimSpace configured = [] then CfUsageTimezone DefaultConfig else TrimSpace configured)
      in case zones zone of None \<Rightarrow> (''UTC'', UTC) | Some loc \<Rightarrow> (zone, loc))"

text \<open>\<open>normalizeConfig\<close> sets the zone whatever it finds wrong. After an error the code has normalized
  some of the rows in place; both callers then use only the zone, so the rows are left here.\<close>

definition normalizeConfig :: "(string \<Rightarrow> location option) \<Rightarrow> Config \<Rightarrow> Config \<times> config_error option" where
  "normalizeConfig zones cfg0 =
     (let (zone, loc) = resolveUsageZone zones (CfUsageTimezone cfg0);
          cfg = cfg0\<lparr>CfUsageTimezone := zone, usageLocation := Some loc\<rparr>
      in case normalizeModelPrices (CfModels cfg) of
           Inl e \<Rightarrow> (cfg, Some (ConfigModels e))
         | Inr t \<Rightarrow> (case normalizeKeys (CfKeys cfg) of
             Inl e \<Rightarrow> (cfg, Some (ConfigKeys e))
           | Inr keys \<Rightarrow> (cfg\<lparr>CfModels := rows t, CfKeys := keys\<rparr>, map_option ConfigKeys (uniqueSecrets keys))))"

definition DecodeConfig :: "(string \<Rightarrow> configDocument \<Rightarrow> yaml_result) \<Rightarrow> (string \<Rightarrow> location option) \<Rightarrow> string \<Rightarrow> config_error + Config" where
  "DecodeConfig yaml zones raw = (case ParseConfig yaml raw of Inl e \<Rightarrow> Inl e
     | Inr cfg \<Rightarrow> (case normalizeConfig zones cfg of (_, Some e) \<Rightarrow> Inl e | (cfg, None) \<Rightarrow> Inr cfg))"


subsection \<open>Paths\<close>

text \<open>The elements of a path, and those of its clean form under the root.\<close>

fun path_elems :: "string \<Rightarrow> string list" where
  "path_elems [] = [[]]"
| "path_elems (c # s) = (if c = CHR ''/'' then [] # path_elems s
     else (case path_elems s of e # es \<Rightarrow> (c # e) # es | [] \<Rightarrow> [[c]]))"

fun clean_elems :: "string list \<Rightarrow> string list \<Rightarrow> string list" where
  "clean_elems acc [] = rev acc"
| "clean_elems acc (e # es) = (if e = [] \<or> e = ''.'' then clean_elems acc es
     else if e = ''..'' then clean_elems (tl acc) es else clean_elems (e # acc) es)"

definition root_path :: "string list \<Rightarrow> string" where
  "root_path es = (if es = [] then ''/'' else concat (map ((#) CHR ''/'') es))"

definition Clean :: "string \<Rightarrow> string" where
  "Clean p = root_path (clean_elems [] (path_elems p))"

definition Dir :: "string \<Rightarrow> string" where
  "Dir p = root_path (butlast (clean_elems [] (path_elems p)))"

definition Base :: "string \<Rightarrow> string" where
  "Base p = (let es = clean_elems [] (path_elems p) in if es = [] then ''/'' else List.last es)"

definition Join :: "string \<Rightarrow> string \<Rightarrow> string" where
  "Join dir name = Clean (dir @ ''/'' @ name)"

text \<open>\<open>cwd\<close> is the working directory, if it can be read.\<close>

definition ResolvePath :: "string option \<Rightarrow> string \<Rightarrow> string \<Rightarrow> string option" where
  "ResolvePath cwd path0 defaultPath =
     (let path = (if TrimSpace path0 = [] then defaultPath else TrimSpace path0)
      in if HasPrefix path ''/'' then Some (Clean path) else map_option (\<lambda>d. Join d path) cwd)"

definition UsagePath :: "string \<Rightarrow> string" where
  "UsagePath p = Join (Dir p) ''cpa-key-policy-usage.json''"
definition HistoryPath :: "string \<Rightarrow> string" where
  "HistoryPath p = Join (Dir p) ''cpa-key-policy-history.json''"
definition AuditPath :: "string \<Rightarrow> string" where
  "AuditPath p = Join (Dir p) ''cpa-key-policy-audit.jsonl''"
definition handoffPath :: "string \<Rightarrow> string" where
  "handoffPath p = Join (Dir p) ''cpa-key-policy-handoff.jsonl''"

definition ResolveStatePath :: "string option \<Rightarrow> string \<Rightarrow> string option" where
  "ResolveStatePath cwd path = ResolvePath cwd path (CfStateFile DefaultConfig)"


subsection \<open>The sweeps of a directory\<close>

text \<open>An entry of a directory: its modification time is \<^const>\<open>None\<close> where it cannot be read, and
  \<open>ent_stuck\<close> says that it cannot be removed.\<close>

datatype ent_kind = RegularFile | Directory | OtherFile

record dir_entry =
  ent_name :: string
  ent_kind :: ent_kind
  ent_mod :: "instant option"
  ent_stuck :: bool

datatype directory = DirAbsent | DirUnreadable | DirEntries "dir_entry list"

definition staleTempAge :: duration where
  "staleTempAge = hour"

definition handoffAppliedKeep :: duration where
  "handoffAppliedKeep = 7 * 24 * hour"

definition temp_name :: "string \<Rightarrow> string" where
  "temp_name base = ''.'' @ base @ ''.tmp-''"

fun sweep_temps :: "string \<Rightarrow> instant \<Rightarrow> dir_entry list \<Rightarrow> dir_entry list \<times> bool" where
  "sweep_temps prefix now [] = ([], True)"
| "sweep_temps prefix now (e # es) =
     (let (rest, good) = sweep_temps prefix now es
      in if ent_kind e = Directory \<or> \<not> HasPrefix (ent_name e) prefix then (e # rest, good)
         else case ent_mod e of
           None \<Rightarrow> (e # es, False)
         | Some t \<Rightarrow> if time_sub now t \<le> staleTempAge then (e # rest, good)
                     else if ent_stuck e then (e # es, False) else (rest, good))"

definition CleanupStaleTemps :: "string \<Rightarrow> instant \<Rightarrow> directory \<Rightarrow> directory \<times> bool" where
  "CleanupStaleTemps target now dir = (case dir of
     DirAbsent \<Rightarrow> (dir, True)
   | DirUnreadable \<Rightarrow> (dir, False)
   | DirEntries es \<Rightarrow> (let (es, good) = sweep_temps (temp_name (Base target)) now es in (DirEntries es, good)))"

definition old_applied :: "string \<Rightarrow> instant \<Rightarrow> dir_entry \<Rightarrow> bool" where
  "old_applied prefix now e \<longleftrightarrow> ent_kind e = RegularFile \<and> HasPrefix (ent_name e) prefix \<and> \<not> ent_stuck e \<and>
     (case ent_mod e of None \<Rightarrow> False | Some t \<Rightarrow> handoffAppliedKeep \<le> time_sub now t)"

definition removeOldAppliedHandoffs :: "string \<Rightarrow> instant \<Rightarrow> directory \<Rightarrow> directory" where
  "removeOldAppliedHandoffs path now dir = (case dir of
     DirEntries es \<Rightarrow> DirEntries (filter (\<lambda>e. \<not> old_applied (Base path @ ''.applied-'') now e) es)
   | _ \<Rightarrow> dir)"


subsection \<open>The disk\<close>

record disk =
  dk_state :: "string \<Rightarrow> State raw disk_file"
  dk_live :: "string \<Rightarrow> liveFile raw disk_file"
  dk_history :: "string \<Rightarrow> historyFile raw disk_file"
  dk_dir :: "string \<Rightarrow> directory"

record host =
  inst :: plugin_instance
  host_disk :: disk

definition disk_files :: "string \<Rightarrow> disk \<Rightarrow> files" where
  "disk_files path d = \<lparr>state_file = dk_state d path, live_file = dk_live d (UsagePath path), history_file = dk_history d (HistoryPath path)\<rparr>"

definition put_files :: "string \<Rightarrow> files \<Rightarrow> disk \<Rightarrow> disk" where
  "put_files path fs d = d\<lparr>dk_state := (dk_state d)(path := state_file fs),
     dk_live := (dk_live d)(UsagePath path := live_file fs), dk_history := (dk_history d)(HistoryPath path := history_file fs)\<rparr>"

text \<open>The disk with the files of the loaded dataset in their places.\<close>

definition current_disk :: "store \<Rightarrow> disk \<Rightarrow> disk" where
  "current_disk s d = (if statePath s = [] then d else put_files (statePath s) (st_files s) d)"

fun cleanup_all :: "string list \<Rightarrow> instant \<Rightarrow> disk \<Rightarrow> disk \<times> bool" where
  "cleanup_all [] now d = (d, True)"
| "cleanup_all (p # ps) now d =
     (let (dir, good) = CleanupStaleTemps p now (dk_dir d (Dir p));
          d = d\<lparr>dk_dir := (dk_dir d)(Dir p := dir)\<rparr>
      in if good then cleanup_all ps now d else (d, False))"


subsection \<open>Configuring\<close>

datatype start_error =
    ResolveError
  | TimezoneChanged string
  | FlushBeforeReconfigure flush_error
  | CleanupError
  | LoadStateError persist_error
  | LoadUsageError persist_error
  | DatasetIDMismatch string string
  | HistoryAhead day day
  | UsageWithoutState string
  | InspectError
  | InvalidSeed config_error
  | NoDatasetID
  | InvalidState price_error
  | SeedUsageError
  | SeedStateError persist_error

text \<open>What the start depends on: the flush arguments and clocks, the zones, the working directory, the
  paths whose inspection fails, the failing calls of the seed writes, whether the removal of the live
  file works, the new dataset id, and what the follower still reads.\<close>

record start_env =
  se_env :: handoff_env
  se_zones :: "string \<Rightarrow> location option"
  se_cwd :: "string option"
  se_stat_fails :: "string \<Rightarrow> bool"
  se_failsL :: "write_call \<Rightarrow> bool"
  se_failsS :: "write_call \<Rightarrow> bool"
  se_remove_fails :: bool
  se_dataset_id :: "string option"
  se_following :: "string option"

definition NewStore :: "(string \<Rightarrow> location option) \<Rightarrow> store" where
  "NewStore zones =
     (let loc = (case zones (CfUsageTimezone DefaultConfig) of Some l \<Rightarrow> l | None \<Rightarrow> UTC);
          zone = (case zones (CfUsageTimezone DefaultConfig) of Some _ \<Rightarrow> CfUsageTimezone DefaultConfig | None \<Rightarrow> ''UTC'')
      in \<lparr>st_enabled = CfEnabled DefaultConfig, statePath = [], datasetID = [], st_keys = [], keysByHash = [],
          st_prices = \<lparr>rows = [], row_index = (\<lambda>_. None)\<rparr>, st_limiter = NewRateLimiter, usage = newUsageLedger loc zone,
          mediaTraces = newMediaTraceSet, st_health = zero_health, handoff = None, unsaved = False,
          st_files = \<lparr>state_file = Absent, live_file = Absent, history_file = Absent\<rparr>, audit = [], log_lines = []\<rparr>)"

definition datasetLoaded :: "string \<Rightarrow> store \<Rightarrow> bool \<times> string" where
  "datasetLoaded path s = (datasetID s \<noteq> [] \<and> statePath s = path, timezone (usage s))"

record boot =
  bt_keys :: "KeyConfig list"
  bt_models :: "ModelPrice list"
  bt_dataset_id :: string
  bt_first :: bool
  bt_usage :: "(string, KeyUsage) amap"
  bt_through :: "day option"

text \<open>The paired files, checked against each other, the zone and the clock.\<close>

definition load_boot :: "(string \<Rightarrow> location option) \<Rightarrow> string \<Rightarrow> location \<Rightarrow> instant \<Rightarrow> files \<Rightarrow> start_error + boot" where
  "load_boot zones zone loc now fs = (case LoadState (state_file fs) of
     Inl e \<Rightarrow> Inl (LoadStateError e)
   | Inr state \<Rightarrow> (case LoadUsage zones (live_file fs) (history_file fs) of
       Inl e \<Rightarrow> Inl (LoadUsageError e)
     | Inr ds \<Rightarrow>
         if StDatasetID state \<noteq> DsDatasetID ds then Inl (DatasetIDMismatch (StDatasetID state) (DsDatasetID ds))
         else if DsTimezone ds \<noteq> zone then Inl (TimezoneChanged (DsTimezone ds))
         else case DsThrough ds of
           Some d \<Rightarrow> if local_day loc now < d then Inl (HistoryAhead d (local_day loc now))
             else Inr \<lparr>bt_keys = StKeys state, bt_models = StModels state, bt_dataset_id = StDatasetID state,
                    bt_first = False, bt_usage = DsKeys ds, bt_through = DsThrough ds\<rparr>
         | None \<Rightarrow> Inr \<lparr>bt_keys = StKeys state, bt_models = StModels state, bt_dataset_id = StDatasetID state,
                    bt_first = False, bt_usage = DsKeys ds, bt_through = DsThrough ds\<rparr>))"

text \<open>The seeds of a first boot: no usage file may be there.\<close>

definition stray_usage :: "start_env \<Rightarrow> string \<Rightarrow> files \<Rightarrow> start_error option" where
  "stray_usage env path fs =
     (if se_stat_fails env (UsagePath path) then Some InspectError
      else if live_file fs \<noteq> Absent then Some (UsageWithoutState (UsagePath path))
      else if se_stat_fails env (HistoryPath path) then Some InspectError
      else if history_file fs \<noteq> Absent then Some (UsageWithoutState (HistoryPath path)) else None)"

definition choose_boot :: "start_env \<Rightarrow> Config \<Rightarrow> string \<Rightarrow> files \<Rightarrow> start_error + boot" where
  "choose_boot env cfg path fs =
     (let (effective, seedErr) = normalizeConfig (se_zones env) cfg;
          (zone, loc) = resolveUsageZone (se_zones env) (CfUsageTimezone cfg)
      in if se_stat_fails env path then Inl (LoadStateError StatError)
         else if state_file fs \<noteq> Absent then load_boot (se_zones env) zone loc (env_now (se_env env)) fs
         else case stray_usage env path fs of Some e \<Rightarrow> Inl e
         | None \<Rightarrow> (case seedErr of Some e \<Rightarrow> Inl (InvalidSeed e)
           | None \<Rightarrow> (case se_dataset_id env of None \<Rightarrow> Inl NoDatasetID
             | Some dsid \<Rightarrow> Inr \<lparr>bt_keys = CfKeys effective, bt_models = CfModels effective, bt_dataset_id = dsid,
                 bt_first = True, bt_usage = [], bt_through = None\<rparr>)))"

definition stamp_loaded :: "instant \<Rightarrow> KeyConfig \<Rightarrow> KeyConfig" where
  "stamp_loaded now k =
     (let k = (if IsZero (CreatedAt k) then k\<lparr>CreatedAt := now\<rparr> else k)
      in if IsZero (UpdatedAt k) then k\<lparr>UpdatedAt := CreatedAt k\<rparr> else k)"

definition key_map :: "KeyConfig list \<Rightarrow> (string, KeyConfig) amap" where
  "key_map keys = fold (\<lambda>k. aset (ID k) k) keys []"

text \<open>The files of a first boot: the live file, then the state file; the live file is removed when the
  state file cannot be written.\<close>

definition write_seeds :: "start_env \<Rightarrow> string \<Rightarrow> string \<Rightarrow> KeyConfig list \<Rightarrow> ModelPrice list \<Rightarrow> usageLedger \<Rightarrow> files \<Rightarrow>
    files \<times> start_error option" where
  "write_seeds env dsid zone keys models l fs =
     (let (lf, good) = writeLive (se_failsL env) dsid zone None (liveSnapshotLocked None l) (env_now (se_env env)) (live_file fs);
          fs = fs\<lparr>live_file := lf\<rparr>
      in if \<not> good then (fs, Some SeedUsageError)
         else let (st, e) = SaveState (se_failsS env) (env_wall (se_env env)) dsid keys models (state_file fs);
                  fs = fs\<lparr>state_file := st\<rparr>
              in case e of None \<Rightarrow> (fs, None)
                 | Some e \<Rightarrow> (if se_remove_fails env then fs else fs\<lparr>live_file := Absent\<rparr>, Some (SeedStateError e)))"

text \<open>What is published at the end.\<close>

definition publish_boot :: "start_env \<Rightarrow> bool \<Rightarrow> bool \<Rightarrow> Config \<Rightarrow> string \<Rightarrow> boot \<Rightarrow> KeyConfig list \<Rightarrow> priceTable \<Rightarrow>
    usageLedger \<Rightarrow> files \<Rightarrow> plugin_instance \<Rightarrow> plugin_instance" where
  "publish_boot env reload journaled cfg path b keys t l fs p =
     (let s = in_store p
      in stopFlusher (p\<lparr>in_store := s\<lparr>handoff := (if reload then None else handoff s),
           st_enabled := CfEnabled cfg, statePath := path, datasetID := bt_dataset_id b, st_keys := key_map keys,
           st_prices := t, keysByHash := rebuildKeysByHash (key_map keys), usage := l, st_files := fs,
           mediaTraces := (if reload \<and> journaled then newMediaTraceSet else mediaTraces s)\<rparr>\<rparr>))"

text \<open>From the chosen dataset to the files and what is published. A dataset that was seeded leaves the
  ledger clean.\<close>

definition install_boot :: "start_env \<Rightarrow> bool \<Rightarrow> bool \<Rightarrow> Config \<Rightarrow> string \<Rightarrow> boot \<Rightarrow> files \<Rightarrow> plugin_instance \<Rightarrow>
    plugin_instance \<times> files \<times> start_error option" where
  "install_boot env reload journaled cfg path b fs p =
     (let now = env_now (se_env env);
          (zone, loc) = resolveUsageZone (se_zones env) (CfUsageTimezone cfg);
          keys = map (stamp_loaded now) (bt_keys b)
      in case normalizeModelPrices (bt_models b) of
           Inl e \<Rightarrow> (p, fs, Some (InvalidState e))
         | Inr t \<Rightarrow>
           (let l = syncCycles keys now (ledger_load now (bt_usage b) (bt_through b) (newUsageLedger loc zone));
                (fs, e) = (if bt_first b then write_seeds env (bt_dataset_id b) zone keys (rows t) l fs else (fs, None))
            in case e of Some e \<Rightarrow> (p, fs, Some e)
               | None \<Rightarrow> (publish_boot env reload journaled cfg path b keys t
                   (if bt_first b then l\<lparr>dirty := False\<rparr> else l) fs p, fs, None)))"

text \<open>The store's view of its files after the disk has changed.\<close>

definition sync_files :: "disk \<Rightarrow> plugin_instance \<Rightarrow> plugin_instance" where
  "sync_files d p = (let s = in_store p in if statePath s = [] then p else p\<lparr>in_store := s\<lparr>st_files := disk_files (statePath s) d\<rparr>\<rparr>)"

text \<open>\<open>configure\<close>.\<close>

definition configure :: "start_env \<Rightarrow> bool \<Rightarrow> bool \<Rightarrow> Config \<Rightarrow> host \<Rightarrow> host \<times> start_error option" where
  "configure env reload journaled cfg h =
     (case ResolveStatePath (se_cwd env) (CfStateFile cfg) of
        None \<Rightarrow> (h, Some ResolveError)
      | Some path \<Rightarrow>
        (let p = inst h; (loaded, current) = datasetLoaded path (in_store p)
         in if loaded \<and> \<not> reload then
              (if fst (resolveUsageZone (se_zones env) (CfUsageTimezone cfg)) \<noteq> current then (h, Some (TimezoneChanged current))
               else (h\<lparr>inst := p\<lparr>in_store := (in_store p)\<lparr>st_enabled := CfEnabled cfg\<rparr>\<rparr>\<rparr>, None))
            else
              let wasFlushing = flushing p;
                  restart = (\<lambda>q. if wasFlushing \<and> \<not> reload then StartUsageFlusher q else q);
                  p = fst (stopFollowing (se_env env) (se_following env) p);
                  (p, flushErr) = (if reload then (stopFlusher p, None) else stopUsageFlusher (se_env env) p);
                  d = current_disk (in_store p) (host_disk h)
              in case flushErr of
                 Some e \<Rightarrow> (\<lparr>inst = restart p, host_disk = d\<rparr>, Some (FlushBeforeReconfigure e))
               | None \<Rightarrow>
                 (let (d, good) = cleanup_all [path, UsagePath path, HistoryPath path] (env_wall (se_env env)) d
                  in if \<not> good then (\<lparr>inst = restart p, host_disk = d\<rparr>, Some CleanupError)
                     else case choose_boot env cfg path (disk_files path d) of
                       Inl e \<Rightarrow> (\<lparr>inst = restart p, host_disk = d\<rparr>, Some e)
                     | Inr b \<Rightarrow>
                       (let (p, fs, e) = install_boot env reload journaled cfg path b (disk_files path d) p;
                            d = put_files path fs d
                        in (\<lparr>inst = (if e = None then p else restart (sync_files d p)), host_disk = d\<rparr>, e)))))"

definition Configure :: "start_env \<Rightarrow> Config \<Rightarrow> host \<Rightarrow> host \<times> start_error option" where
  "Configure env cfg h = configure env False False cfg h"

definition Reload :: "start_env \<Rightarrow> bool \<Rightarrow> Config \<Rightarrow> host \<Rightarrow> host \<times> start_error option" where
  "Reload env journaled cfg h = configure env True journaled cfg h"


subsection \<open>The keys of a loaded ledger\<close>

lemma openCycles_other: "kid \<noteq> ID k \<Longrightarrow> usage_of (openCyclesLocked k now l) kid = usage_of l kid"
  by (simp add: openCyclesLocked_def Let_def split: prod.splits)

lemma open_all:
  assumes "ledger_ok l"
  shows "ledger_ok (fold (\<lambda>k l. openCyclesLocked k now l) keys l)"
    "Cycles (usage_of l kid) \<noteq> None \<or> kid \<in> ID ` set keys \<Longrightarrow> Cycles (usage_of (fold (\<lambda>k l. openCyclesLocked k now l) keys l) kid) \<noteq> None"
  using assms
proof (induction keys arbitrary: l)
  case (Cons k keys)
  { case 1 then show ?case using Cons.IH(1) openCycles_ok by simp }
  { case 2
    have "Cycles (usage_of (openCyclesLocked k now l) kid) \<noteq> None \<or> kid \<in> ID ` set keys"
    proof (cases "kid = ID k")
      case True
      then show ?thesis using openCycles_open by simp
    next
      case False
      then show ?thesis using 2 openCycles_other by auto
    qed
    then show ?case using Cons.IH(2) openCycles_ok [OF 2(2)] by simp }
qed simp_all

definition stranger :: "string set \<Rightarrow> string \<times> KeyUsage \<Rightarrow> bool" where
  "stranger ids = (\<lambda>(kid, u). kid \<notin> ids \<and> \<not> (Cycles u = None \<and> UsageBalance u = None))"

lemma usage_of_forget: "usage_of (forget_entry kid u l) x = (if x = kid then u\<lparr>Cycles := None, UsageBalance := None\<rparr> else usage_of l x)"
  by (cases u) (auto simp: forget_entry_def Let_def usage_of_def markDirtyLocked_def empty_usage_def)

lemma usage_forgotten: "usage_ok u \<Longrightarrow> usage_ok (u\<lparr>Cycles := None, UsageBalance := None\<rparr>)"
  by (simp add: usage_ok_def)

lemma forget_entry_ok:
  assumes "ledger_ok l" "usage_ok u"
  shows "ledger_ok (forget_entry kid u l)"
proof (cases "Days u = []")
  case True
  have "set (adel kid (entries l)) \<subseteq> set (entries l)" by (auto simp: AList.delete_eq)
  then show ?thesis using True assms by (auto simp: forget_entry_def Let_def ledger_ok_def)
next
  case False
  have "usage_ok (u\<lparr>Cycles := None, UsageBalance := None\<rparr>)" using assms(2) by (rule usage_forgotten)
  then show ?thesis using False ledger_ok_aset [OF assms(1)] by (simp add: forget_entry_def Let_def)
qed

lemma forget_strangers:
  fixes ids :: "string set"
  defines "go \<equiv> \<lambda>(kid, u) l. if kid \<in> ids \<or> Cycles u = None \<and> UsageBalance u = None then l else forget_entry kid u l"
  assumes "amap_ok xs" "ledger_ok l" "\<forall>(kid, u) \<in> set xs. usage_ok u"
  shows "ledger_ok (fold go xs l) \<and> usage_of (fold go xs l) kid = (case aget xs kid of
       Some u \<Rightarrow> if stranger ids (kid, u) then u\<lparr>Cycles := None, UsageBalance := None\<rparr> else usage_of l kid
     | None \<Rightarrow> usage_of l kid)"
  using assms(2) assms(3) assms(4)
proof (induction xs arbitrary: l)
  case (Cons x xs)
  obtain i u where x: "x = (i, u)" by force
  have rest: "amap_ok xs" "aget xs i = None" "\<forall>(kid, u) \<in> set xs. usage_ok u" using Cons.prems by (simp_all add: x amap_ok_Cons)
  have ok: "ledger_ok (go x l)" using Cons.prems forget_entry_ok by (simp add: x go_def)
  have one: "usage_of (go x l) y = (if y = i \<and> stranger ids (i, u) then u\<lparr>Cycles := None, UsageBalance := None\<rparr> else usage_of l y)" for y
    by (auto simp: x go_def usage_of_forget stranger_def)
  note IH = Cons.IH [OF rest(1) ok rest(3)]
  show ?case
  proof (cases "kid = i")
    case True
    then show ?thesis using IH rest(2) by (simp add: x one [unfolded x])
  next
    case False
    then show ?thesis using IH by (auto simp: x one [unfolded x] split: option.splits)
  qed
qed simp

text \<open>After a sync every key has periods and nobody else has periods or a balance.\<close>

lemma syncCycles_exact:
  assumes "ledger_ok l"
  shows "ledger_ok (syncCycles keys now l)"
    "kid \<in> ID ` set keys \<Longrightarrow> Cycles (usage_of (syncCycles keys now l) kid) \<noteq> None"
    "kid \<notin> ID ` set keys \<Longrightarrow> ledger_meta (syncCycles keys now l) kid = (None, None)"
proof -
  define l1 where "l1 = fold (\<lambda>k l. openCyclesLocked k now l) keys l"
  have o: "ledger_ok l1" "kid \<in> ID ` set keys \<Longrightarrow> Cycles (usage_of l1 kid) \<noteq> None" for kid
    using open_all(1) [OF assms] open_all(2) [OF assms, of kid keys now] by (auto simp: l1_def)
  have e: "amap_ok (entries l1)" "\<forall>(kid, u) \<in> set (entries l1). usage_ok u" using o(1) by (auto simp: ledger_ok_def)
  have s: "syncCycles keys now l = fold (\<lambda>(kid, u) l. if kid \<in> ID ` set keys \<or> Cycles u = None \<and> UsageBalance u = None then l
      else forget_entry kid u l) (entries l1) l1" by (simp add: syncCycles_def l1_def Let_def)
  have f: "ledger_ok (syncCycles keys now l)" "usage_of (syncCycles keys now l) kid = (case aget (entries l1) kid of
       Some u \<Rightarrow> if stranger (ID ` set keys) (kid, u) then u\<lparr>Cycles := None, UsageBalance := None\<rparr> else usage_of l1 kid
     | None \<Rightarrow> usage_of l1 kid)" for kid
    using forget_strangers [OF e(1) o(1) e(2), of "ID ` set keys" kid] unfolding s by simp_all
  have g: "usage_of l1 kid = (case aget (entries l1) kid of None \<Rightarrow> empty_usage | Some u \<Rightarrow> u)" for kid
    by (simp add: usage_of_def split: option.splits)
  show "ledger_ok (syncCycles keys now l)" by (rule f(1))
  show "kid \<in> ID ` set keys \<Longrightarrow> Cycles (usage_of (syncCycles keys now l) kid) \<noteq> None"
    using o(2) by (auto simp: f(2) stranger_def split: option.splits)
  show "kid \<notin> ID ` set keys \<Longrightarrow> ledger_meta (syncCycles keys now l) kid = (None, None)"
    by (auto simp: ledger_meta_def f(2) g stranger_def empty_usage_def split: option.splits)
qed


subsection \<open>What a configuration that fails leaves\<close>

text \<open>The settings and the loaded data, beside the ledger the flush works on.\<close>

definition same_data :: "store \<Rightarrow> store \<Rightarrow> bool" where
  "same_data s t \<longleftrightarrow> st_enabled t = st_enabled s \<and> statePath t = statePath s \<and> datasetID t = datasetID s \<and>
     st_keys t = st_keys s \<and> keysByHash t = keysByHash s \<and> st_prices t = st_prices s \<and> st_limiter t = st_limiter s \<and>
     handoff t = handoff s \<and> audit t = audit s"

lemma same_data_refl [simp]: "same_data s s"
  by (simp add: same_data_def)

lemma same_data_trans: "same_data s t \<Longrightarrow> same_data t u \<Longrightarrow> same_data s u"
  by (simp add: same_data_def)

lemma same_data_entry: "same_data s t \<Longrightarrow> same_data s (fst (apply_entry now replay e (t, rp)))"
  by (auto simp: apply_entry_def same_data_def split: handoffEntry.splits)

lemma same_data_entries: "same_data s t \<Longrightarrow> same_data s (fst (fold (apply_entry now replay) es (t, rp)))"
proof (induction es arbitrary: t rp)
  case (Cons e es)
  have "same_data s (fst (apply_entry now replay e (t, rp)))" by (rule same_data_entry [OF Cons.prems])
  then show ?case using Cons.IH [of "fst (apply_entry now replay e (t, rp))" "snd (apply_entry now replay e (t, rp))"] by simp
qed simp

lemma same_data_applied: "same_data s (fst (applyHandoff now replay es s))"
  by (simp add: applyHandoff_def same_data_entries)

lemma same_data_flush: "same_data s (fst (env_flush env s))"
  by (simp add: env_flush_def store_flush_def same_data_def noteFlush_def count_health_def Let_def split: prod.split option.split)

lemma same_data_turn: "same_data s (fst (follow_turn env stopping quiet bytes f s))"
proof -
  have "same_data s (fst (env_flush env (fst (applyHandoff now replay es s))))" for now replay es
    by (rule same_data_trans [OF same_data_applied same_data_flush])
  then show ?thesis
    by (simp add: follow_turn_def closeHandoff_def Let_def case_prod_unfold same_data_applied split: option.split bool.split)
qed

lemma same_data_stop: "same_data (in_store p) (in_store (fst (stopFollowing env bytes p)))" "flushing (fst (stopFollowing env bytes p)) = flushing p"
  by (simp_all add: stopFollowing_def Let_def case_prod_unfold same_data_turn split: option.split)

lemma same_data_stop_flusher: "same_data (in_store p) (in_store (fst (stopUsageFlusher env p)))"
  by (simp add: stopUsageFlusher_def stopFlusher_def Let_def case_prod_unfold same_data_flush)

lemma same_data_sync: "same_data s (in_store p) \<Longrightarrow> same_data s (in_store (sync_files d p))" "flushing (sync_files d p) = flushing p"
  by (simp_all add: sync_files_def same_data_def Let_def)

lemma install_failed:
  assumes "install_boot env reload journaled cfg path b fs p = (p', fs', Some e)"
  shows "p' = p"
  using assms by (auto simp: install_boot_def Let_def case_prod_unfold split: sum.splits option.splits)

text \<open>The stages of a configuration that goes past the loaded data: what runs before the files are read,
  and the rest.\<close>

definition configure_enter :: "start_env \<Rightarrow> bool \<Rightarrow> plugin_instance \<Rightarrow> plugin_instance" where
  "configure_enter env reload p = (let p = fst (stopFollowing (se_env env) (se_following env) p)
     in if reload then stopFlusher p else fst (stopUsageFlusher (se_env env) p))"

lemma enter_same: "same_data (in_store p) (in_store (configure_enter env reload p))"
proof -
  have "same_data (in_store p) (in_store (fst (stopUsageFlusher e (fst (stopFollowing e bytes p)))))" for e bytes
    by (rule same_data_trans [OF same_data_stop(1) same_data_stop_flusher])
  then show ?thesis using same_data_stop(1) by (simp add: configure_enter_def Let_def stopFlusher_def)
qed

lemma configure_cases:
  assumes "configure env reload journaled cfg h = (h', e)" "ResolveStatePath (se_cwd env) (CfStateFile cfg) = Some path"
    "\<not> (fst (datasetLoaded path (in_store (inst h))) \<and> \<not> reload)"
  obtains d where "e \<noteq> None" "inst h' = (if flushing (inst h) \<and> \<not> reload then StartUsageFlusher (configure_enter env reload (inst h))
      else configure_enter env reload (inst h))"
  | d b fs where "e \<noteq> None" "choose_boot env cfg path (disk_files path d) = Inr b"
      "install_boot env reload journaled cfg path b (disk_files path d) (configure_enter env reload (inst h)) = (configure_enter env reload (inst h), fs, e)"
      "inst h' = (if flushing (inst h) \<and> \<not> reload then StartUsageFlusher (sync_files (host_disk h') (configure_enter env reload (inst h)))
      else sync_files (host_disk h') (configure_enter env reload (inst h)))"
  | d b fs where "e = None" "choose_boot env cfg path (disk_files path d) = Inr b"
      "install_boot env reload journaled cfg path b (disk_files path d) (configure_enter env reload (inst h)) = (inst h', fs, None)"
      "host_disk h' = put_files path fs d"
proof -
  let ?p = "configure_enter env reload (inst h)"
  let ?restart = "\<lambda>q. if flushing (inst h) \<and> \<not> reload then StartUsageFlusher q else q"
  define fe where "fe = (if reload then None else snd (stopUsageFlusher (se_env env) (fst (stopFollowing (se_env env) (se_following env) (inst h)))))"
  define d where "d = current_disk (in_store ?p) (host_disk h)"
  define dg where "dg = cleanup_all [path, UsagePath path, HistoryPath path] (env_wall (se_env env)) d"
  have r: "(h', e) = (case fe of Some x \<Rightarrow> (\<lparr>inst = ?restart ?p, host_disk = d\<rparr>, Some (FlushBeforeReconfigure x))
     | None \<Rightarrow> if \<not> snd dg then (\<lparr>inst = ?restart ?p, host_disk = fst dg\<rparr>, Some CleanupError)
       else case choose_boot env cfg path (disk_files path (fst dg)) of
         Inl x \<Rightarrow> (\<lparr>inst = ?restart ?p, host_disk = fst dg\<rparr>, Some x)
       | Inr b \<Rightarrow> (let r = install_boot env reload journaled cfg path b (disk_files path (fst dg)) ?p; d' = put_files path (fst (snd r)) (fst dg)
           in (\<lparr>inst = (if snd (snd r) = None then fst r else ?restart (sync_files d' (fst r))), host_disk = d'\<rparr>, snd (snd r))))"
    unfolding assms(1) [symmetric] configure_def assms(2)
    using assms(3) by (cases reload) (simp_all add: configure_enter_def fe_def d_def dg_def Let_def case_prod_unfold del: cleanup_all.simps split: sum.split option.split)
  show thesis
  proof (cases fe)
    case (Some x)
    with r show thesis by (intro that(1)) simp_all
  next
    case None
    show thesis
    proof (cases "snd dg")
      case False
      with r None show thesis by (intro that(1)) simp_all
    next
      case True
      show thesis
      proof (cases "choose_boot env cfg path (disk_files path (fst dg))")
        case (Inl x)
        with r None True show thesis by (intro that(1)) simp_all
      next
        case (Inr b)
        obtain q fs x where i: "install_boot env reload journaled cfg path b (disk_files path (fst dg)) ?p = (q, fs, x)" by (metis prod_cases3)
        show thesis
        proof (cases x)
          case x: None
          with r i None True Inr show thesis by (intro that(3) [OF _ Inr]) (simp_all add: Let_def)
        next
          case (Some y)
          then have "q = ?p" using i install_failed by blast
          with Some r i None True Inr show thesis by (intro that(2) [OF _ Inr]) (simp_all add: Let_def)
        qed
      qed
    qed
  qed
qed





subsection \<open>What a configuration that succeeds loads\<close>

definition filed :: "(KeyConfig \<Rightarrow> bool) \<Rightarrow> (string, KeyConfig) amap \<Rightarrow> bool" where
  "filed P m \<longleftrightarrow> amap_ok m \<and> (\<forall>i \<in> set (akeys m). \<exists>k. aget m i = Some k \<and> ID k = i \<and> P k)"

lemma filed_aset: "filed P m \<Longrightarrow> P k \<Longrightarrow> filed P (aset (ID k) k m)"
  by (auto simp: filed_def dom_update)

lemma key_map_fold: "filed P m \<Longrightarrow> \<forall>k \<in> set ks. P k \<Longrightarrow> filed P (fold (\<lambda>k. aset (ID k) k) ks m) \<and>
    set (akeys (fold (\<lambda>k. aset (ID k) k) ks m)) = set (akeys m) \<union> ID ` set ks"
proof (induction ks arbitrary: m)
  case (Cons x ks)
  have "filed P (aset (ID x) x m)" using Cons.prems filed_aset by simp
  from Cons.IH [OF this] Cons.prems(2) show ?case by (auto simp: dom_update)
qed simp

lemma key_map_ok:
  assumes "\<forall>k \<in> set ks. P k"
  shows "amap_ok (key_map ks)" "\<forall>(i, k) \<in> set (key_map ks). ID k = i \<and> P k" "set (akeys (key_map ks)) = ID ` set ks"
proof -
  have "filed P []" by (simp add: filed_def amap_ok_def)
  from key_map_fold [OF this assms] have m: "filed P (key_map ks)" "set (akeys (key_map ks)) = ID ` set ks"
    by (simp_all add: key_map_def)
  from m(1) show ok: "amap_ok (key_map ks)" by (simp add: filed_def)
  show "set (akeys (key_map ks)) = ID ` set ks" by (rule m(2))
  have "ID k = i \<and> P k" if e: "(i, k) \<in> set (key_map ks)" for i k
  proof -
    have "i \<in> set (akeys (key_map ks))" using e by force
    then obtain k' where "aget (key_map ks) i = Some k'" "ID k' = i" "P k'" using m(1) by (auto simp: filed_def)
    with aget_SomeI [OF ok e] show ?thesis by simp
  qed
  then show "\<forall>(i, k) \<in> set (key_map ks). ID k = i \<and> P k" by blast
qed

lemma stamp_loaded_key [simp]: "ID (stamp_loaded now k) = ID k" "key_normal (stamp_loaded now k) = key_normal k"
  by (simp_all add: stamp_loaded_def Let_def key_normal_def key_ok_def BalanceMode_def)

lemma normalized_keys_normal: "normalizeKeys ks = Inr ks' \<Longrightarrow> \<forall>k \<in> set ks'. key_normal k"
  using normalize_keys_normal [of "[]" ks ks'] by (simp add: normalizeKeys_def)

lemma choose_boot_keys:
  assumes "choose_boot env cfg path fs = Inr b"
  shows "\<forall>k \<in> set (bt_keys b). key_normal k"
    "\<not> bt_first b \<Longrightarrow> \<exists>ds. LoadUsage (se_zones env) (live_file fs) (history_file fs) = Inr ds \<and> bt_usage b = DsKeys ds"
    "bt_first b \<Longrightarrow> bt_usage b = []"
proof -
  have d: "decodeState raw = Inr st \<Longrightarrow> \<forall>k \<in> set (StKeys st). key_normal k" for raw st
    using normalized_keys_normal by (auto simp: decodeState_def split: sum.splits)
  have n: "normalizeConfig zones cfg = (cf, None) \<Longrightarrow> \<forall>k \<in> set (CfKeys cf). key_normal k" for zones cf
    using normalized_keys_normal by (auto simp: normalizeConfig_def Let_def split: prod.splits sum.splits)
  obtain cf ce where cf: "normalizeConfig (se_zones env) cfg = (cf, ce)" by fastforce
  show "\<forall>k \<in> set (bt_keys b). key_normal k"
    using assms d n [of "se_zones env"] cf
    by (auto simp: choose_boot_def load_boot_def LoadState_def Let_def case_prod_unfold split: if_splits option.splits sum.splits disk_file.splits)
  show "\<not> bt_first b \<Longrightarrow> \<exists>ds. LoadUsage (se_zones env) (live_file fs) (history_file fs) = Inr ds \<and> bt_usage b = DsKeys ds"
    "bt_first b \<Longrightarrow> bt_usage b = []"
    using assms by (auto simp: choose_boot_def load_boot_def Let_def case_prod_unfold split: if_splits option.splits sum.splits)
qed

text \<open>The usage files hold maps and 64-bit numbers, as their decoders make them.\<close>

definition files_typed :: "(string \<Rightarrow> location option) \<Rightarrow> files \<Rightarrow> bool" where
  "files_typed zones fs = (case LoadUsage zones (live_file fs) (history_file fs) of Inl _ \<Rightarrow> True | Inr ds \<Rightarrow> loaded_entries (DsKeys ds))"

lemma loaded_ledger_ok: "loaded_entries keys \<Longrightarrow> ledger_ok (ledger_load now keys through (newUsageLedger loc zone))"
  unfolding ledger_load_def by (rule evict_ok) (simp add: ledger_ok_def loaded_entries_def mark_le_def)

lemma install_ready:
  assumes "choose_boot env cfg path (disk_files path d) = Inr b"
    "install_boot env reload journaled cfg path b (disk_files path d) p = (p', fs, None)" "files_typed (se_zones env) (st_files (in_store p'))"
  defines "s \<equiv> in_store p'"
  shows "keys_indexed s \<and> (\<forall>(_, k) \<in> set (st_keys s). key_normal k) \<and> table_ok (st_prices s) \<and> ledger_ok (usage s) \<and> statePath s = path \<and>
    (\<forall>kid. if kid \<in> set (akeys (st_keys s)) then Cycles (usage_of (usage s) kid) \<noteq> None else ledger_meta (usage s) kid = (None, None))"
proof -
  define now where "now = env_now (se_env env)"
  define zl where "zl = resolveUsageZone (se_zones env) (CfUsageTimezone cfg)"
  define keys where "keys = map (stamp_loaded now) (bt_keys b)"
  define l0 where "l0 = ledger_load now (bt_usage b) (bt_through b) (newUsageLedger (snd zl) (fst zl))"
  define l where "l = syncCycles keys now l0"
  obtain t where t: "normalizeModelPrices (bt_models b) = Inr t"
    using assms(2) by (auto simp: install_boot_def Let_def case_prod_unfold split: sum.splits)
  have i: "p' = publish_boot env reload journaled cfg path b keys t (if bt_first b then l\<lparr>dirty := False\<rparr> else l) fs p"
    "\<not> bt_first b \<Longrightarrow> fs = disk_files path d"
    using assms(2) t by (auto simp: install_boot_def Let_def case_prod_unfold keys_def l_def l0_def zl_def now_def split: option.splits if_splits)
  have s: "st_keys s = key_map keys" "keysByHash s = rebuildKeysByHash (key_map keys)" "st_prices s = t" "statePath s = path"
    "usage s = (if bt_first b then l\<lparr>dirty := False\<rparr> else l)" "st_files s = fs"
    by (simp_all add: s_def i(1) publish_boot_def stopFlusher_def Let_def)
  note c = choose_boot_keys [OF assms(1)]
  have kn: "\<forall>k \<in> set keys. key_normal k" using c(1) by (simp add: keys_def)
  note km = key_map_ok [OF kn]
  have "loaded_entries (bt_usage b)"
  proof (cases "bt_first b")
    case True
    then show ?thesis using c(3) by (simp add: loaded_entries_def amap_ok_def)
  next
    case False
    with c(2) i(2) assms(3) s(6) show ?thesis by (auto simp: files_typed_def s_def)
  qed
  then have "ledger_ok l0" unfolding l0_def by (rule loaded_ledger_ok)
  from syncCycles_exact [OF this, where keys = keys and now = now] have sy: "ledger_ok l"
    "kid \<in> ID ` set keys \<Longrightarrow> Cycles (usage_of l kid) \<noteq> None" "kid \<notin> ID ` set keys \<Longrightarrow> ledger_meta l kid = (None, None)" for kid
    by (simp_all add: l_def)
  have u: "usage_of (usage s) kid = usage_of l kid" "ledger_meta (usage s) kid = ledger_meta l kid" "ledger_ok (usage s) = ledger_ok l" for kid
    by (simp_all add: s(5) usage_of_def ledger_meta_def ledger_ok_def)
  have "keys_indexed s" using km(1,2) by (auto simp: keys_indexed_def s)
  moreover have "\<forall>(_, k) \<in> set (st_keys s). key_normal k" using km(2) by (auto simp: s)
  moreover have "table_ok (st_prices s)" using normalizeModelPrices_ok(1) [OF t] by (simp add: s)
  moreover have "if kid \<in> set (akeys (st_keys s)) then Cycles (usage_of (usage s) kid) \<noteq> None else ledger_meta (usage s) kid = (None, None)" for kid
    using sy(2,3) km(3) by (simp add: s(1) u(1,2))
  ultimately show ?thesis using sy(1) by (simp add: s(4) u(3))
qed

text \<open>C21: A configuration or a reload that loads a dataset leaves a well-formed store on it: the keys
  normalized and indexed by id and secret, the price table valid, the ledger well formed; every key has
  quota periods, and nobody else in the ledger has periods or a balance. What the files hold of a map
  or a number is a map with distinct keys and a 64-bit number.\<close>

theorem configure_ready:
  assumes "configure env reload journaled cfg h = (h', None)" "ResolveStatePath (se_cwd env) (CfStateFile cfg) = Some path"
    "\<not> (fst (datasetLoaded path (in_store (inst h))) \<and> \<not> reload)" "files_typed (se_zones env) (st_files (in_store (inst h')))"
  defines "s \<equiv> in_store (inst h')"
  shows "keys_indexed s \<and> (\<forall>(_, k) \<in> set (st_keys s). key_normal k) \<and> table_ok (st_prices s) \<and> ledger_ok (usage s) \<and> statePath s = path \<and>
    (\<forall>kid. if kid \<in> set (akeys (st_keys s)) then Cycles (usage_of (usage s) kid) \<noteq> None else ledger_meta (usage s) kid = (None, None))"
  using assms(1-3)
proof (rule configure_cases)
  fix d b fs
  assume b: "choose_boot env cfg path (disk_files path d) = Inr b"
    "install_boot env reload journaled cfg path b (disk_files path d) (configure_enter env reload (inst h)) = (inst h', fs, None)"
  from install_ready [OF b assms(4)] show ?thesis by (simp add: s_def)
qed auto

definition fresh_env :: start_env where
  "fresh_env = \<lparr>se_env = \<lparr>env_decode = (\<lambda>_. None), env_replay = False, env_failsH = (\<lambda>_. False), env_failsL = (\<lambda>_. False), env_now = 0, env_wall = 0\<rparr>,
       se_zones = (\<lambda>_. Some UTC), se_cwd = Some ''/data'', se_stat_fails = (\<lambda>_. False), se_failsL = (\<lambda>_. False), se_failsS = (\<lambda>_. False),
       se_remove_fails = False, se_dataset_id = Some ''d'', se_following = None\<rparr>"

definition fresh_host :: host where
  "fresh_host = \<lparr>inst = \<lparr>in_store = NewStore (\<lambda>_. Some UTC), flushing = False, following = None\<rparr>,
       host_disk = \<lparr>dk_state = (\<lambda>_. Absent), dk_live = (\<lambda>_. Absent), dk_history = (\<lambda>_. Absent), dk_dir = (\<lambda>_. DirAbsent)\<rparr>\<rparr>"

lemma mark_le_code [code]: "mark_le a b = (case a of None \<Rightarrow> True | Some c \<Rightarrow> (case b of None \<Rightarrow> False | Some d \<Rightarrow> c \<le> d))"
proof (cases a; cases b)
  fix c assume "a = Some c" "b = None"
  moreover have "\<not> c < c" by simp
  ultimately show ?thesis by (auto simp: mark_le_def after_mark_def)
qed simp_all

definition fresh_config :: Config where
  "fresh_config = DefaultConfig\<lparr>CfKeys := [sample_key]\<rparr>"

text \<open>Nothing is booked in the entries of a first boot.\<close>

definition unused :: "KeyUsage \<Rightarrow> bool" where
  "unused u \<longleftrightarrow> Days u = [] \<and> (case Cycles u of None \<Rightarrow> True | Some cs \<Rightarrow> list_all (\<lambda>w. ByModel (cycle_of cs w) = []) quotaWindows)"

lemma unused_ok: "unused u \<Longrightarrow> usage_ok u"
  by (auto simp: unused_def usage_ok_def models_ok_def amap_ok_def list_all_iff)

definition fresh_result :: host where
  "fresh_result = fst (configure fresh_env False False fresh_config fresh_host)"

lemma fresh_boots: "snd (configure fresh_env False False fresh_config fresh_host) = None"
  by code_simp

lemma fresh_keys: "st_keys (in_store (inst fresh_result)) = [(''k'', sample_key)]"
  by code_simp

lemma fresh_path: "ResolveStatePath (se_cwd fresh_env) (CfStateFile fresh_config) = Some ''/data/cpa-key-policy-state.json''"
    "\<not> (fst (datasetLoaded ''/data/cpa-key-policy-state.json'' (in_store (inst fresh_host))) \<and> \<not> False)"
  by code_simp+

lemma fresh_load:
    "let fs = st_files (in_store (inst fresh_result))
     in case LoadUsage (se_zones fresh_env) (live_file fs) (history_file fs) of Inl _ \<Rightarrow> False
        | Inr ds \<Rightarrow> amap_ok (DsKeys ds) \<and> list_all (\<lambda>x. unused (snd x)) (DsKeys ds)"
  by code_simp

lemma fresh_typed: "files_typed (se_zones fresh_env) (st_files (in_store (inst fresh_result)))"
  using fresh_load by (auto simp: files_typed_def Let_def loaded_entries_def list_all_iff intro: unused_ok split: sum.splits)

lemma configure_ready_witness:
  "\<exists>h'. configure fresh_env False False fresh_config fresh_host = (h', None) \<and>
     aget (st_keys (in_store (inst h'))) ''k'' = Some sample_key \<and>
     Cycles (usage_of (usage (in_store (inst h'))) ''k'') \<noteq> None \<and> ledger_meta (usage (in_store (inst h'))) ''j'' = (None, None)"
proof -
  obtain h' where r: "configure fresh_env False False fresh_config fresh_host = (h', None)" using fresh_boots by (metis prod.collapse)
  have k: "st_keys (in_store (inst h')) = [(''k'', sample_key)]" and f: "files_typed (se_zones fresh_env) (st_files (in_store (inst h')))"
    using fresh_keys fresh_typed by (simp_all add: r fresh_result_def)
  have "\<forall>kid. if kid \<in> set (akeys (st_keys (in_store (inst h')))) then Cycles (usage_of (usage (in_store (inst h'))) kid) \<noteq> None
      else ledger_meta (usage (in_store (inst h'))) kid = (None, None)"
    using configure_ready [OF r fresh_path f] by blast
  from this [rule_format, of "''k''"] this [rule_format, of "''j''"] show ?thesis using r by (simp add: k)
qed

end
