(* ===== verification/AuditLog.thy ===== *)
theory AuditLog
  imports Store
begin

text \<open>
  The audit log of src/internal/policy/audit/log.go: events appended as JSON lines to a file that is
  rotated by size, and the query for the newest events, which keeps the last matching lines of each file
  in a ring buffer.

  JSON encoding and decoding are parameters. The file system is a map from the number of a file (0 the
  current one, i the i-th backup) to its bytes; each call on it may fail, and a failing write leaves a
  prefix of what it was given.
\<close>


subsection \<open>State\<close>

record LogEvent =
  TS :: instant
  LogBody :: Event

record audit_log =
  al_path :: string
  al_maxBytes :: int
  al_backups :: nat
  al_warned :: bool
  al_files :: "nat \<Rightarrow> string option"

definition DefaultMaxBytes :: int where "DefaultMaxBytes = 10 * 2 ^ 20"
definition DefaultBackups :: int where "DefaultBackups = 3"
definition spareLines :: nat where "spareLines = 8"

definition New :: "string \<Rightarrow> int \<Rightarrow> int \<Rightarrow> (nat \<Rightarrow> string option) \<Rightarrow> audit_log" where
  "New path maxBytes backups fs = \<lparr>al_path = path, al_maxBytes = (if maxBytes \<le> 0 then DefaultMaxBytes else maxBytes),
     al_backups = nat (if backups < 1 then DefaultBackups else backups), al_warned = False, al_files = fs\<rparr>"

text \<open>A store without a log has the nil log.\<close>

definition Path :: "audit_log option \<Rightarrow> string" where
  "Path l = (case l of None \<Rightarrow> [] | Some l \<Rightarrow> al_path l)"

datatype audit_call = AuditMkdir | AuditStat | AuditRemove | AuditRename nat | AuditOpen | AuditFileStat | AuditReadAt | AuditWrite | AuditClose

text \<open>The encoder, the failing calls, how much a failing write leaves, and the clock.\<close>

record audit_io =
  io_enc :: "LogEvent \<Rightarrow> string option"
  io_fails :: "audit_call \<Rightarrow> bool"
  io_cut :: nat
  io_now :: instant


subsection \<open>Appending\<close>

definition stamp_event :: "instant \<Rightarrow> LogEvent \<Rightarrow> LogEvent" where
  "stamp_event now e =
     (let e = (if IsZero (TS e) then e\<lparr>TS := now\<rparr> else e)
      in if TrimSpace (Actor (LogBody e)) = [] then e\<lparr>LogBody := (LogBody e)\<lparr>Actor := ''management-api''\<rparr>\<rparr> else e)"

text \<open>The loop of \<open>rotateLocked\<close>, from the oldest backup down to the current file.\<close>

fun rotate_files :: "(audit_call \<Rightarrow> bool) \<Rightarrow> nat \<Rightarrow> nat \<Rightarrow> (nat \<Rightarrow> string option) \<Rightarrow> (nat \<Rightarrow> string option) \<times> bool" where
  "rotate_files fails backups 0 fs = (fs, True)"
| "rotate_files fails backups (Suc i) fs =
     (if Suc i = backups \<and> fs backups \<noteq> None \<and> fails AuditRemove then (fs, False)
      else let fs = (if Suc i = backups then fs(backups := None) else fs)
           in case fs i of
                None \<Rightarrow> rotate_files fails backups i fs
              | Some c \<Rightarrow> if fails (AuditRename (Suc i)) then (fs, False)
                          else rotate_files fails backups i (fs(i := None, Suc i := Some c)))"

definition rotateLocked :: "(audit_call \<Rightarrow> bool) \<Rightarrow> audit_log \<Rightarrow> audit_log \<times> bool" where
  "rotateLocked fails l = (let (fs, good) = rotate_files fails (al_backups l) (al_backups l) (al_files l) in (l\<lparr>al_files := fs\<rparr>, good))"

abbreviation lf :: char where "lf \<equiv> CHR 0x0A"

text \<open>The last byte of an unfinished line is ended before the event.\<close>

definition repair_line :: "(audit_call \<Rightarrow> bool) \<Rightarrow> string \<Rightarrow> string \<Rightarrow> string" where
  "repair_line fails old raw =
     (if \<not> fails AuditFileStat \<and> old \<noteq> [] \<and> \<not> fails AuditReadAt \<and> List.last old \<noteq> lf then lf # raw else raw)"

definition write_line :: "audit_io \<Rightarrow> string \<Rightarrow> audit_log \<Rightarrow> audit_log \<times> bool" where
  "write_line io raw0 l =
     (if io_fails io AuditOpen then (l, False)
      else let old = (case al_files l 0 of None \<Rightarrow> [] | Some c \<Rightarrow> c); raw = repair_line (io_fails io) old raw0
           in if io_fails io AuditWrite then (l\<lparr>al_files := (al_files l)(0 := Some (old @ take (io_cut io) raw))\<rparr>, False)
              else (l\<lparr>al_files := (al_files l)(0 := Some (old @ raw))\<rparr>, \<not> io_fails io AuditClose))"

definition Append :: "audit_io \<Rightarrow> LogEvent \<Rightarrow> audit_log \<Rightarrow> audit_log \<times> bool" where
  "Append io e l =
     (if TrimSpace (al_path l) = [] then (l, False)
      else case io_enc io (stamp_event (io_now io) e) of
        None \<Rightarrow> (l, False)
      | Some line \<Rightarrow>
        (let raw = line @ [lf]
         in if io_fails io AuditMkdir \<or> io_fails io AuditStat then (l, False)
            else case al_files l 0 of
              None \<Rightarrow> write_line io raw l
            | Some c \<Rightarrow> if al_maxBytes l < int (length c) + int (length raw)
                then (case rotateLocked (io_fails io) l of (l, good) \<Rightarrow> if \<not> good then (l, False) else write_line io raw l)
                else write_line io raw l))"


subsection \<open>Querying\<close>

text \<open>The pieces \<open>ReadBytes\<close> returns, without their newlines; the last one may be unfinished.\<close>

fun read_lines :: "string \<Rightarrow> string \<Rightarrow> string list" where
  "read_lines cur [] = [cur]"
| "read_lines cur (c # s) = (if c = lf then cur # read_lines [] s else read_lines (cur @ [c]) s)"

definition fieldNeedle :: "(string \<Rightarrow> string) \<Rightarrow> string \<Rightarrow> string \<Rightarrow> string" where
  "fieldNeedle marshal name value = ''\"'' @ name @ ''\":'' @ marshal value"

definition query_needles :: "(string \<Rightarrow> string) \<Rightarrow> string \<Rightarrow> string \<Rightarrow> string list" where
  "query_needles marshal keyID action = (if keyID \<noteq> [] then [fieldNeedle marshal ''key_id'' keyID] else []) @
     (if action \<noteq> [] then [fieldNeedle marshal ''action'' action] else [])"

text \<open>Whether a line matches, and whether it was found malformed; \<open>head\<close> decodes its two filtered
  fields.\<close>

definition matchesLocked :: "(string \<Rightarrow> (string \<times> string) option) \<Rightarrow> string list \<Rightarrow> string \<Rightarrow> string \<Rightarrow> string \<Rightarrow> bool \<times> bool" where
  "matchesLocked head needles keyID action line =
     (if needles = [] then (True, False)
      else if list_ex (\<lambda>needle. \<not> str_contains line needle) needles then (False, False)
      else case head line of None \<Rightarrow> (False, True)
      | Some (k, a) \<Rightarrow> ((keyID = [] \<or> k = keyID) \<and> (action = [] \<or> a = action), False))"

text \<open>The ring: its lines and the position of the oldest one once it is full.\<close>

definition ring_add :: "nat \<Rightarrow> 'a \<Rightarrow> 'a list \<times> nat \<Rightarrow> 'a list \<times> nat" where
  "ring_add limit line r = (case r of (ring, next) \<Rightarrow>
     if length ring < limit then (ring @ [line], next) else (ring[next := line], (next + 1) mod limit))"

definition ring_view :: "'a list \<times> nat \<Rightarrow> 'a list" where
  "ring_view r = (case r of (ring, next) \<Rightarrow> drop next ring @ take next ring)"

definition newestMatchesLocked :: "(string \<Rightarrow> bool \<times> bool) \<Rightarrow> nat \<Rightarrow> string option \<Rightarrow> string list \<times> bool" where
  "newestMatchesLocked matches limit f = (case f of
     None \<Rightarrow> ([], False)
   | Some bytes \<Rightarrow> (let lines = filter (\<lambda>line. line \<noteq> []) (map TrimSpace (read_lines [] bytes))
       in (ring_view (fold (\<lambda>line r. if fst (matches line) then ring_add limit line r else r) lines ([], 0)),
           list_ex (\<lambda>line. snd (matches line)) lines)))"

text \<open>The loop over the files: the events so far and whether a malformed line was met; \<^const>\<open>None\<close> for a
  file that cannot be read.\<close>

fun query_files :: "(string \<Rightarrow> LogEvent option) \<Rightarrow> (string \<Rightarrow> bool \<times> bool) \<Rightarrow> (nat \<Rightarrow> bool) \<Rightarrow> (nat \<Rightarrow> string option) \<Rightarrow> nat \<Rightarrow>
    nat list \<Rightarrow> LogEvent list \<times> bool \<Rightarrow> LogEvent list option \<times> bool" where
  "query_files dec matches unreadable fs limit [] (evs, warned) = (Some evs, warned)"
| "query_files dec matches unreadable fs limit (i # is) (evs, warned) =
     (if limit \<le> length evs then (Some evs, warned)
      else if unreadable i then (None, warned)
      else let (lines, malformed) = newestMatchesLocked matches (limit - length evs + spareLines) (fs i)
           in query_files dec matches unreadable fs limit is
                (evs @ List.map_filter dec lines, warned \<or> malformed \<or> list_ex (\<lambda>line. dec line = None) lines))"

definition query_limit :: "int \<Rightarrow> nat" where
  "query_limit limit = nat (let limit = (if limit \<le> 0 then 100 else limit) in if 1000 < limit then 1000 else limit)"

definition Query :: "(string \<Rightarrow> LogEvent option) \<Rightarrow> (string \<Rightarrow> (string \<times> string) option) \<Rightarrow> (string \<Rightarrow> string) \<Rightarrow> (nat \<Rightarrow> bool) \<Rightarrow>
    string \<Rightarrow> string \<Rightarrow> int \<Rightarrow> audit_log \<Rightarrow> audit_log \<times> LogEvent list option" where
  "Query dec head marshal unreadable keyID action limit l =
     (let n = query_limit limit;
          (evs, warned) = query_files dec (matchesLocked head (query_needles marshal keyID action) keyID action) unreadable (al_files l) n
             [0..<Suc (al_backups l)] ([], al_warned l)
      in (l\<lparr>al_warned := warned\<rparr>, map_option (\<lambda>evs. take n (sort_key (\<lambda>e. - TS e) evs)) evs))"

text \<open>\<open>AuditEvents\<close> of the store.\<close>

definition AuditEvents :: "(string \<Rightarrow> LogEvent option) \<Rightarrow> (string \<Rightarrow> (string \<times> string) option) \<Rightarrow> (string \<Rightarrow> string) \<Rightarrow> (nat \<Rightarrow> bool) \<Rightarrow>
    string \<Rightarrow> string \<Rightarrow> int \<Rightarrow> audit_log option \<Rightarrow> audit_log option \<times> LogEvent list option" where
  "AuditEvents dec head marshal unreadable keyID action limit l = (case l of
     None \<Rightarrow> (None, Some [])
   | Some l \<Rightarrow> (let (l, evs) = Query dec head marshal unreadable (TrimSpace keyID) (TrimSpace action) limit l in (Some l, evs)))"


subsection \<open>The window of the newest lines\<close>

text \<open>What the query asks of the ring: a bounded window that forgets its oldest element.\<close>

definition newest :: "nat \<Rightarrow> 'a list \<Rightarrow> 'a list" where
  "newest n xs = drop (length xs - n) xs"

lemma newest_newest [simp]: "newest n (newest n xs @ [x]) = newest n (xs @ [x])"
proof (cases "length xs \<le> n")
  case False
  then have "Suc (length xs) - n = Suc (length xs - n)" by simp
  then show ?thesis using False by (simp add: newest_def)
qed (simp add: newest_def)

lemma newest_short [simp]: "length xs \<le> n \<Longrightarrow> newest n xs = xs"
  by (simp add: newest_def)

lemma length_newest [simp]: "length (newest n xs) = min n (length xs)"
  by (simp add: newest_def)

locale bounded_window =
  fixes fresh :: 'r and add :: "'a \<Rightarrow> 'r \<Rightarrow> 'r" and view :: "'r \<Rightarrow> 'a list" and inv :: "'r \<Rightarrow> bool" and size :: nat
  assumes inv_fresh: "inv fresh" and view_fresh: "view fresh = []"
    and inv_add: "inv r \<Longrightarrow> inv (add x r)" and view_add: "inv r \<Longrightarrow> view (add x r) = newest size (view r @ [x])"
begin

lemma view_fold: "inv r \<Longrightarrow> view r = newest size ys \<Longrightarrow>
    view (fold (\<lambda>x r. if P x then add x r else r) xs r) = newest size (ys @ filter P xs)"
proof (induction xs arbitrary: r ys)
  case (Cons x xs)
  have "view (add x r) = newest size (ys @ [x])" using view_add [OF Cons.prems(1)] Cons.prems(2) by simp
  then show ?case using Cons.IH [OF inv_add [OF Cons.prems(1)], of x "ys @ [x]"] Cons.IH [OF Cons.prems] by simp
qed simp

lemma view_window: "view (fold (\<lambda>x r. if P x then add x r else r) xs fresh) = newest size (filter P xs)"
  using view_fold [OF inv_fresh, of "[]" P xs] by (simp add: view_fresh)

end

definition ring_inv :: "nat \<Rightarrow> 'a list \<times> nat \<Rightarrow> bool" where
  "ring_inv limit r = (case r of (ring, next) \<Rightarrow> length ring \<le> limit \<and> next < limit \<and> (length ring < limit \<longrightarrow> next = 0))"

lemma ring_view_add:
  assumes "ring_inv limit r" "0 < limit"
  shows "ring_view (ring_add limit x r) = newest limit (ring_view r @ [x])"
proof -
  obtain ring n where r: "r = (ring, n)" by force
  show ?thesis
  proof (cases "length ring < limit")
    case True
    then show ?thesis using assms by (simp add: r ring_view_def ring_add_def ring_inv_def)
  next
    case False
    with assms have n: "length ring = limit" "n < limit" by (simp_all add: r ring_inv_def)
    obtain y ys where y: "drop n ring = y # ys" using n by (metis Cons_nth_drop_Suc)
    have l: "length ys + n + 1 = limit" using arg_cong [OF y, of length] n by simp
    have v: "newest limit (ring_view r @ [x]) = ys @ take n ring @ [x]"
      using n l by (simp add: r ring_view_def newest_def y)
    have u: "ring[n := x] = take n ring @ x # ys"
      using n y by (simp add: upd_conv_take_nth_drop) (metis drop_Suc list.sel(3) tl_drop)
    show ?thesis
    proof (cases "n + 1 = limit")
      case True
      then have "length ys = 0" using l by linarith
      then have "ys = []" by simp
      then show ?thesis unfolding v using True n u by (simp add: r ring_view_def ring_add_def)
    next
      case False
      then have "(n + 1) mod limit = n + 1" using n by simp
      then show ?thesis unfolding v using n by (simp add: r ring_view_def ring_add_def u)
    qed
  qed
qed

interpretation ring: bounded_window "([], 0)" "ring_add (Suc n)" ring_view "ring_inv (Suc n)" "Suc n" for n
proof
  show "ring_inv (Suc n) ([], 0)" "ring_view ([], 0) = []" by (simp_all add: ring_inv_def ring_view_def)
  show "ring_inv (Suc n) (ring_add (Suc n) x r)" if "ring_inv (Suc n) r" for x :: 'b and r
    using that by (auto simp: ring_inv_def ring_add_def split: prod.splits)
  show "ring_view (ring_add (Suc n) x r) = newest (Suc n) (ring_view r @ [x])" if "ring_inv (Suc n) r" for x :: 'b and r
    by (rule ring_view_add [OF that]) simp
qed



subsection \<open>What a query returns\<close>

definition file_lines :: "string option \<Rightarrow> string list" where
  "file_lines f = (case f of None \<Rightarrow> [] | Some bytes \<Rightarrow> filter (\<lambda>line. line \<noteq> []) (map TrimSpace (read_lines [] bytes)))"

lemma newestMatches_window:
  assumes "0 < limit"
  shows "fst (newestMatchesLocked matches limit f) = newest limit (filter (\<lambda>line. fst (matches line)) (file_lines f))"
proof -
  obtain n where n: "limit = Suc n" using assms by (cases limit) auto
  show ?thesis
    by (cases f) (simp_all add: n newestMatchesLocked_def file_lines_def Let_def ring.view_window newest_def)
qed

definition event_matches :: "string \<Rightarrow> string \<Rightarrow> LogEvent \<Rightarrow> bool" where
  "event_matches keyID action e \<longleftrightarrow> (keyID = [] \<or> EventKeyID (LogBody e) = keyID) \<and> (action = [] \<or> Action (LogBody e) = action)"

text \<open>A file every line of which decodes, and is found by the filters exactly when its event matches.\<close>

definition readable :: "(string \<Rightarrow> LogEvent option) \<Rightarrow> (string \<Rightarrow> bool \<times> bool) \<Rightarrow> (LogEvent \<Rightarrow> bool) \<Rightarrow> string option \<Rightarrow> bool" where
  "readable dec matches wanted f \<longleftrightarrow> list_all (\<lambda>line. case dec line of None \<Rightarrow> False | Some e \<Rightarrow> fst (matches line) = wanted e) (file_lines f)"

definition file_events :: "(string \<Rightarrow> LogEvent option) \<Rightarrow> string option \<Rightarrow> LogEvent list" where
  "file_events dec f = List.map_filter dec (file_lines f)"

lemma newest_map: "newest k (map f xs) = map f (newest k xs)"
  by (simp add: newest_def drop_map)

lemma rev_newest: "rev (newest k xs) = take k (rev xs)"
  by (cases "k \<le> length xs") (simp_all add: newest_def rev_drop)

lemma set_newest: "set (newest k xs) \<subseteq> set xs"
  by (simp add: newest_def set_drop_subset)

lemma readable_window:
  assumes "readable dec matches wanted f"
  shows "List.map_filter dec (newest k (filter (\<lambda>line. fst (matches line)) (file_lines f))) = newest k (filter wanted (file_events dec f))"
proof -
  have all: "\<exists>e. dec line = Some e \<and> fst (matches line) = wanted e" if "line \<in> set (file_lines f)" for line
    using assms that by (auto simp: readable_def list_all_iff split: option.splits)
  have mf: "List.map_filter dec ls = map (\<lambda>l. the (dec l)) ls" if "set ls \<subseteq> set (file_lines f)" for ls
    using that
  proof (induction ls)
    case (Cons x ls)
    then obtain e where "dec x = Some e" using all [of x] by auto
    then show ?case using Cons by simp
  qed simp
  have "filter wanted (map (\<lambda>l. the (dec l)) ls) = map (\<lambda>l. the (dec l)) (filter (\<lambda>line. fst (matches line)) ls)" if "set ls \<subseteq> set (file_lines f)" for ls
    using that
  proof (induction ls)
    case (Cons x ls)
    then obtain e where "dec x = Some e" "fst (matches x) = wanted e" using all [of x] by auto
    then show ?case using Cons by simp
  qed simp
  then have "filter wanted (file_events dec f) = map (\<lambda>l. the (dec l)) (filter (\<lambda>line. fst (matches line)) (file_lines f))"
    unfolding file_events_def mf [OF order_refl] by simp
  moreover have "set (newest k (filter (\<lambda>line. fst (matches line)) (file_lines f))) \<subseteq> set (file_lines f)"
    using set_newest [of k "filter (\<lambda>line. fst (matches line)) (file_lines f)"] by auto
  ultimately show ?thesis by (simp add: mf newest_map)
qed

text \<open>What the loop collects: the newest matching events, as a multiset a prefix of all of them from the
  newest down, long enough.\<close>

lemma query_files_exact:
  assumes "\<forall>i \<in> set is. readable dec matches wanted (fs i) \<and> \<not> unreadable i"
  shows "\<exists>U w Tr rest. query_files dec matches unreadable fs limit is (evs, w0) = (Some (evs @ U), w) \<and> mset U = mset Tr \<and>
    Tr @ rest = concat (map (\<lambda>i. rev (filter wanted (file_events dec (fs i)))) is) \<and> (limit \<le> length (evs @ U) \<or> rest = [])"
  using assms
proof (induction "is" arbitrary: evs w0)
  case (Cons i "is")
  let ?G = "filter wanted (file_events dec (fs i))"
  show ?case
  proof (cases "limit \<le> length evs")
    case True
    then show ?thesis by (intro exI [of _ "[]"]) auto
  next
    case False
    define k where "k = limit - length evs + spareLines"
    have "0 < k" by (simp add: k_def spareLines_def)
    obtain lines mal where lm: "newestMatchesLocked matches k (fs i) = (lines, mal)" by fastforce
    then have V: "List.map_filter dec lines = newest k ?G"
      using newestMatches_window [OF \<open>0 < k\<close>, of matches "fs i"] readable_window [of dec matches wanted "fs i" k] Cons.prems by simp
    define w1 where "w1 = (w0 \<or> mal \<or> list_ex (\<lambda>line. dec line = None) lines)"
    have step: "query_files dec matches unreadable fs limit (i # is) (evs, w0) =
        query_files dec matches unreadable fs limit is (evs @ newest k ?G, w1)"
      using False Cons.prems V lm by (simp add: k_def w1_def)
    show ?thesis
    proof (cases "length ?G \<le> k")
      case True
      obtain U w Tr rest where u: "query_files dec matches unreadable fs limit is (evs @ ?G, w1) = (Some ((evs @ ?G) @ U), w)"
        "mset U = mset Tr" "Tr @ rest = concat (map (\<lambda>i. rev (filter wanted (file_events dec (fs i)))) is)"
        "limit \<le> length ((evs @ ?G) @ U) \<or> rest = []"
        using Cons.IH [of "evs @ ?G" w1] Cons.prems by auto
      then show ?thesis unfolding step using True
        by (intro exI [of _ "?G @ U"] exI [of _ w] exI [of _ "rev ?G @ Tr"] exI [of _ rest]) simp
    next
      case False
      have len: "limit \<le> length (evs @ newest k ?G)" using False \<open>\<not> limit \<le> length evs\<close> by (simp add: k_def)
      then have "query_files dec matches unreadable fs limit is (evs @ newest k ?G, w1) = (Some (evs @ newest k ?G), w1)"
        by (cases "is") simp_all
      moreover have "rev ?G = rev (newest k ?G) @ drop k (rev ?G)" by (simp add: rev_newest)
      ultimately show ?thesis unfolding step using len
        by (intro exI [of _ "newest k ?G"] exI [of _ w1] exI [of _ "rev (newest k ?G)"]
            exI [of _ "drop k (rev ?G) @ concat (map (\<lambda>i. rev (filter wanted (file_events dec (fs i)))) is)"]) simp
    qed
  qed
qed simp

lemma sort_distinct_keys:
  fixes f :: "'a \<Rightarrow> int"
  assumes "mset xs = mset ys" "sorted_wrt (\<lambda>a b. f a < f b) ys"
  shows "sort_key f xs = ys"
proof (rule properties_for_sort_key)
  show "mset ys = mset xs" using assms(1) by simp
  show "sorted (map f ys)" unfolding sorted_map using assms(2) by (rule sorted_wrt_mono_rel [rotated]) simp
  show "filter (\<lambda>x. f k = f x) ys = filter (\<lambda>x. f k = f x) xs" if k: "k \<in> set ys" for k
  proof -
    have inj: "a = b" if "a \<in> set ys" "b \<in> set ys" "f a = f b" for a b
      using that assms(2) by (metis in_set_conv_nth less_irrefl linorder_neqE_nat sorted_wrt_nth_less)
    have "distinct ys" using assms(2) by (metis distinct_conv_nth less_irrefl linorder_neqE_nat sorted_wrt_nth_less)
    have "filter (\<lambda>x. f k = f x) ys = filter (\<lambda>x. k = x) ys" by (rule filter_cong) (use inj k in auto)
    also have "\<dots> = [k]" using k \<open>distinct ys\<close> by (induction ys) (auto simp: filter_empty_conv)
    finally have y: "filter (\<lambda>x. f k = f x) ys = [k]" .
    have "mset (filter (\<lambda>x. f k = f x) xs) = mset (filter (\<lambda>x. f k = f x) ys)" using assms(1) by simp
    then have "mset (filter (\<lambda>x. f k = f x) xs) = {#k#}" unfolding y by simp
    then have "filter (\<lambda>x. f k = f x) xs = [k]" by (simp only: mset_single_iff)
    then show ?thesis unfolding y by simp
  qed
qed

definition stored_events :: "(string \<Rightarrow> LogEvent option) \<Rightarrow> audit_log \<Rightarrow> LogEvent list" where
  "stored_events dec l = concat (map (\<lambda>i. file_events dec (al_files l i)) (rev [0..<Suc (al_backups l)]))"

lemma newest_first: "concat (map (\<lambda>i. rev (filter wanted (file_events dec (al_files l i)))) [0..<Suc (al_backups l)]) =
    rev (filter wanted (stored_events dec l))"
  by (simp only: stored_events_def rev_concat rev_map [symmetric] map_map comp_def filter_concat rev_filter [symmetric] rev_rev_ident)




subsection \<open>An appended event is found\<close>

lemma read_lines_append: "read_lines cur (a @ lf # b) = read_lines cur a @ read_lines [] b"
  by (induction cur a rule: read_lines.induct) auto

lemma read_lines_whole: "lf \<notin> set line \<Longrightarrow> read_lines cur line = [cur @ line]"
  by (induction cur line rule: read_lines.induct) auto

lemma trim_nothing [simp]: "TrimSpace [] = []"
  by code_simp

text \<open>An event starts a line of its own, whatever the file ended with.\<close>

lemma appended_lines:
  assumes "lf \<notin> set line" "TrimSpace line = line" "line \<noteq> []" "\<not> fails AuditFileStat" "\<not> fails AuditReadAt"
  shows "file_lines (Some (old @ repair_line fails old (line @ [lf]))) = file_lines (Some old) @ [line]"
proof -
  have r: "read_lines [] (line @ [lf]) = [line, []]"
    by (simp add: read_lines_append read_lines_whole [OF assms(1)])
  consider "old = []" | a where "old = a @ [lf]" | "old \<noteq> []" "List.last old \<noteq> lf"
    by (metis append_butlast_last_id)
  then show ?thesis
  proof cases
    case 1
    then show ?thesis using assms r by (simp add: repair_line_def file_lines_def)
  next
    case 2
    have "read_lines [] (a @ lf # line @ [lf]) = read_lines [] a @ [line, []]" unfolding read_lines_append [of "[]" a] r ..
    moreover have "read_lines [] (a @ [lf]) = read_lines [] a @ [[]]" by (simp add: read_lines_append)
    ultimately show ?thesis using assms 2 by (simp add: repair_line_def file_lines_def)
  next
    case 3
    have "read_lines [] (old @ lf # line @ [lf]) = read_lines [] old @ [line, []]" unfolding read_lines_append [of "[]" old] r ..
    then show ?thesis using assms 3 by (simp add: repair_line_def file_lines_def)
  qed
qed

lemma rotate_contents: "fst (rotate_files fails b i fs) j = None \<or> (\<exists>k. fst (rotate_files fails b i fs) j = fs k)"
proof (induction fails b i fs rule: rotate_files.induct)
  case (2 fails b i fs)
  define fs' where "fs' = (if Suc i = b then fs(b := None) else fs)"
  have f: "fs' k = None \<or> (\<exists>k'. fs' k = fs k')" for k by (auto simp: fs'_def)
  show ?case
  proof (cases "Suc i = b \<and> fs b \<noteq> None \<and> fails AuditRemove")
    case True
    then show ?thesis by auto
  next
    case False
    have step: "rotate_files fails b (Suc i) fs = (case fs' i of None \<Rightarrow> rotate_files fails b i fs'
        | Some c \<Rightarrow> if fails (AuditRename (Suc i)) then (fs', False) else rotate_files fails b i (fs'(i := None, Suc i := Some c)))"
      unfolding rotate_files.simps if_not_P [OF False] fs'_def [symmetric] Let_def ..
    show ?thesis
    proof (cases "fs' i")
      case None
      have "fst (rotate_files fails b i fs') j = None \<or> (\<exists>k. fst (rotate_files fails b i fs') j = fs' k)"
        by (rule "2.IH"(1) [OF False fs'_def None])
      then have "fst (rotate_files fails b i fs') j = None \<or> (\<exists>k. fst (rotate_files fails b i fs') j = fs k)" using f by metis
      then show ?thesis unfolding step None option.case .
    next
      case (Some c)
      let ?g = "fs'(i := None, Suc i := Some c)"
      have g: "?g k = None \<or> (\<exists>k'. ?g k = fs k')" for k using f [of k] f [of i] Some by auto
      show ?thesis
      proof (cases "fails (AuditRename (Suc i))")
        case True
        then show ?thesis using f [of j] unfolding step Some option.case by simp
      next
        case ok: False
        have "fst (rotate_files fails b i ?g) j = None \<or> (\<exists>k. fst (rotate_files fails b i ?g) j = ?g k)"
          by (rule "2.IH"(2) [OF False fs'_def Some ok])
        then have "fst (rotate_files fails b i ?g) j = None \<or> (\<exists>k. fst (rotate_files fails b i ?g) j = fs k)"
          using g by metis
        then show ?thesis unfolding step Some option.case if_not_P [OF ok] .
      qed
    qed
  qed
qed auto

lemma append_files:
  assumes "Append io e l = (l', True)" "\<not> io_fails io AuditFileStat" "\<not> io_fails io AuditReadAt"
    "io_enc io (stamp_event (io_now io) e) = Some line"
  shows "\<exists>fs old. (\<forall>i. fs i = None \<or> (\<exists>k. fs i = al_files l k)) \<and> old = (case fs 0 of None \<Rightarrow> [] | Some c \<Rightarrow> c) \<and>
    al_files l' = fs(0 := Some (old @ repair_line (io_fails io) old (line @ [lf]))) \<and> al_backups l' = al_backups l"
proof -
  have w: "write_line io (line @ [lf]) m = (l', True) \<Longrightarrow> al_files l' = (al_files m)(0 := Some ((case al_files m 0 of None \<Rightarrow> [] | Some c \<Rightarrow> c) @
      repair_line (io_fails io) (case al_files m 0 of None \<Rightarrow> [] | Some c \<Rightarrow> c) (line @ [lf]))) \<and> al_backups l' = al_backups m" for m
    by (auto simp: write_line_def Let_def split: if_splits)
  have rot: "al_files (fst (rotateLocked f l)) i = None \<or> (\<exists>k. al_files (fst (rotateLocked f l)) i = al_files l k)"
    "al_backups (fst (rotateLocked f l)) = al_backups l" for f i
    using rotate_contents [of f "al_backups l" "al_backups l" "al_files l" i] by (auto simp: rotateLocked_def case_prod_unfold Let_def)
  have "write_line io (line @ [lf]) l = (l', True) \<or> write_line io (line @ [lf]) (fst (rotateLocked (io_fails io) l)) = (l', True)"
    using assms(1,4) by (auto simp: Append_def Let_def split: if_splits option.splits prod.splits)
  then show ?thesis
  proof
    assume "write_line io (line @ [lf]) l = (l', True)"
    from w [OF this] show ?thesis by (intro exI [of _ "al_files l"]) auto
  next
    assume "write_line io (line @ [lf]) (fst (rotateLocked (io_fails io) l)) = (l', True)"
    from w [OF this] rot show ?thesis by (intro exI [of _ "al_files (fst (rotateLocked (io_fails io) l))"]) auto
  qed
qed

lemma in_map_filter: "x \<in> set (List.map_filter f xs) \<longleftrightarrow> (\<exists>y \<in> set xs. f y = Some x)"
  by (induction xs) (auto split: option.splits)

lemma query_files_from:
  assumes "\<forall>i \<in> set is. \<not> unreadable i"
  shows "\<exists>out w. query_files dec matches unreadable fs limit is (evs, w0) = (Some out, w) \<and> set evs \<subseteq> set out \<and>
    (\<forall>x \<in> set out. x \<in> set evs \<or> (\<exists>i. \<exists>line \<in> set (file_lines (fs i)). dec line = Some x))"
  using assms
proof (induction "is" arbitrary: evs w0)
  case (Cons i "is")
  show ?case
  proof (cases "limit \<le> length evs")
    case False
    define k where "k = limit - length evs + spareLines"
    have "0 < k" by (simp add: k_def spareLines_def)
    obtain lines mal where lm: "newestMatchesLocked matches k (fs i) = (lines, mal)" by fastforce
    then have "lines = newest k (filter (\<lambda>line. fst (matches line)) (file_lines (fs i)))"
      using newestMatches_window [OF \<open>0 < k\<close>, of matches "fs i"] by simp
    then have sub: "set lines \<subseteq> set (file_lines (fs i))" using set_newest by fastforce
    let ?w = "w0 \<or> mal \<or> list_ex (\<lambda>line. dec line = None) lines"
    have step: "query_files dec matches unreadable fs limit (i # is) (evs, w0) =
        query_files dec matches unreadable fs limit is (evs @ List.map_filter dec lines, ?w)"
      using False Cons.prems lm by (simp add: k_def)
    obtain out w where o: "query_files dec matches unreadable fs limit is (evs @ List.map_filter dec lines, ?w) = (Some out, w)"
      "set (evs @ List.map_filter dec lines) \<subseteq> set out"
      "\<forall>x \<in> set out. x \<in> set (evs @ List.map_filter dec lines) \<or> (\<exists>i. \<exists>line \<in> set (file_lines (fs i)). dec line = Some x)"
      using Cons.IH [of "evs @ List.map_filter dec lines" ?w] Cons.prems by auto
    have "x \<in> set evs \<or> (\<exists>i. \<exists>line \<in> set (file_lines (fs i)). dec line = Some x)" if "x \<in> set out" for x
      using bspec [OF o(3) that] sub unfolding in_map_filter set_append Un_iff by blast
    then show ?thesis unfolding step using o(1,2) by auto
  qed auto
qed auto

lemma sort_key_least:
  fixes f :: "'a \<Rightarrow> int"
  assumes "e \<in> set xs" "\<forall>x \<in> set xs. x = e \<or> f e < f x"
  shows "\<exists>ys. sort_key f xs = e # ys"
proof -
  obtain y ys where y: "sort_key f xs = y # ys" using assms(1) by (cases "sort_key f xs") (metis empty_iff set_empty set_sort, blast)
  have "sorted (map f (y # ys))" using sorted_sort_key [of f xs] unfolding y .
  moreover have "set (y # ys) = set xs" using set_sort [of f xs] unfolding y .
  ultimately have "f y \<le> f e" "y \<in> set xs" using assms(1) by auto
  with assms(2) have "y = e" by force
  with y show ?thesis by simp
qed

text \<open>C23: An event whose append reported success is the first that a query finds: with no filter or with
  filters that fit it, whether or not the append rotated the files, and whatever else they hold, lines
  cut short by a failed write or malformed ones included. Every event stored before carries an earlier
  stamp.\<close>

theorem append_query_first:
  assumes "Append io e l = (l', True)" "\<not> io_fails io AuditFileStat" "\<not> io_fails io AuditReadAt"
    "io_enc io (stamp_event (io_now io) e) = Some line" "lf \<notin> set line" "TrimSpace line = line" "line \<noteq> []"
    "dec line = Some (stamp_event (io_now io) e)" "fst (matchesLocked head (query_needles marshal keyID action) keyID action line)"
    "\<forall>i. \<forall>old \<in> set (file_lines (al_files l i)). \<forall>x. dec old = Some x \<longrightarrow> TS x < TS (stamp_event (io_now io) e)"
    "\<forall>i \<le> al_backups l. \<not> unreadable i"
  shows "\<exists>evs. snd (Query dec head marshal unreadable keyID action limit l') = Some (stamp_event (io_now io) e # evs)"
proof -
  let ?e = "stamp_event (io_now io) e"
  let ?m = "matchesLocked head (query_needles marshal keyID action) keyID action"
  obtain fs old where f: "\<And>i. fs i = None \<or> (\<exists>k. fs i = al_files l k)" "old = (case fs 0 of None \<Rightarrow> [] | Some c \<Rightarrow> c)"
    "al_files l' = fs(0 := Some (old @ repair_line (io_fails io) old (line @ [lf])))" "al_backups l' = al_backups l"
    using append_files [OF assms(1-4)] by blast
  have l0: "file_lines (al_files l' 0) = file_lines (Some old) @ [line]"
    using appended_lines [OF assms(5-7) assms(2,3)] by (simp add: f(3))
  have old: "x = ?e \<or> TS x < TS ?e" if x: "y \<in> set (file_lines (al_files l' i))" "dec y = Some x" for x y i
  proof -
    have none: "file_lines (Some []) = []" by (simp add: file_lines_def)
    have "y = line \<or> (\<exists>k. y \<in> set (file_lines (al_files l k)))"
    proof (cases i)
      case 0
      then have "y = line \<or> y \<in> set (file_lines (Some old))" using x(1) l0 by auto
      moreover have "\<exists>k. y \<in> set (file_lines (al_files l k))" if y: "y \<in> set (file_lines (Some old))"
      proof -
        have "fs 0 = Some old" using y none by (cases "fs 0") (auto simp: f(2))
        then show ?thesis using y f(1) [of 0] by auto
      qed
      ultimately show ?thesis by blast
    next
      case (Suc j)
      then have y: "y \<in> set (file_lines (fs i))" using x(1) by (simp add: f(3))
      have "file_lines None = []" by (simp add: file_lines_def)
      with y obtain k where "fs i = al_files l k" using f(1) [of i] by (metis empty_iff set_empty)
      with y show ?thesis by auto
    qed
    then show ?thesis using x(2) assms(8,10) by auto
  qed
  define n where "n = query_limit limit"
  have n: "0 < n" by (simp add: n_def query_limit_def)
  define k where "k = n + spareLines"
  then have "0 < k" by (simp add: spareLines_def)
  obtain lines mal where lm: "newestMatchesLocked ?m k (al_files l' 0) = (lines, mal)" by fastforce
  have "lines = newest k (filter (\<lambda>line. fst (?m line)) (file_lines (Some old)) @ [line])"
    using newestMatches_window [OF \<open>0 < k\<close>, of ?m "al_files l' 0"] lm assms(9) by (simp add: l0)
  then have in0: "line \<in> set lines" and sub: "set lines \<subseteq> set (file_lines (al_files l' 0))"
    using \<open>0 < k\<close> set_newest [of k "filter (\<lambda>line. fst (?m line)) (file_lines (Some old)) @ [line]"] l0 by (auto simp: newest_def)
  let ?w = "al_warned l' \<or> mal \<or> list_ex (\<lambda>line. dec line = None) lines"
  have ups: "[0..<Suc (al_backups l')] = 0 # [1..<Suc (al_backups l)]" by (simp add: f(4) upt_rec)
  have "\<forall>i \<in> set [1..<Suc (al_backups l)]. \<not> unreadable i" using assms(11) by auto
  from query_files_from [OF this, where dec = dec and matches = ?m and fs = "al_files l'" and limit = n and evs = "List.map_filter dec lines" and ?w0.0 = ?w]
  obtain out w where o: "query_files dec ?m unreadable (al_files l') n [1..<Suc (al_backups l)] (List.map_filter dec lines, ?w) = (Some out, w)"
    "set (List.map_filter dec lines) \<subseteq> set out"
    "\<forall>x \<in> set out. x \<in> set (List.map_filter dec lines) \<or> (\<exists>i. \<exists>line \<in> set (file_lines (al_files l' i)). dec line = Some x)" by blast
  have q: "query_files dec ?m unreadable (al_files l') n [0..<Suc (al_backups l')] ([], al_warned l') = (Some out, w)"
    unfolding ups using n assms(11) lm o(1) by (simp add: k_def)
  have "?e \<in> set out" using o(2) in0 assms(8) in_map_filter [of ?e dec lines] by blast
  moreover have "x = ?e \<or> - TS ?e < - TS x" if xo: "x \<in> set out" for x
  proof -
    obtain i y where "y \<in> set (file_lines (al_files l' i))" "dec y = Some x"
      using bspec [OF o(3) xo] sub unfolding in_map_filter by blast
    from old [OF this] show ?thesis by simp
  qed
  ultimately obtain ys where "sort_key (\<lambda>e. - TS e) out = ?e # ys" using sort_key_least [of ?e out "\<lambda>e. - TS e"] by blast
  moreover obtain j where "n = Suc j" using n by (cases n) auto
  ultimately have "take n (sort_key (\<lambda>e. - TS e) out) = ?e # take j ys" by simp
  moreover have "snd (Query dec head marshal unreadable keyID action limit l') = Some (take n (sort_key (\<lambda>e. - TS e) out))"
    unfolding Query_def n_def [symmetric] Let_def q by simp
  ultimately show ?thesis by simp
qed


subsection \<open>A concrete log\<close>

text \<open>A stand-in for the encoder: the action in quotes, and its decoding at stamp 9.\<close>

definition sample_logged :: LogEvent where
  "sample_logged = \<lparr>TS = 9, LogBody = \<lparr>Actor = ''a'', Action = ''x'', EventKeyID = [], Target = [], Changes = []\<rparr>\<rparr>"

definition sample_line :: string where
  "sample_line = ''{\"action\":\"x\"}''"

definition sample_dec :: "string \<Rightarrow> LogEvent option" where
  "sample_dec line = (if line = sample_line then Some sample_logged else None)"

definition sample_head :: "string \<Rightarrow> (string \<times> string) option" where
  "sample_head line = (if line = sample_line then Some ([], ''x'') else None)"

definition sample_marshal :: "string \<Rightarrow> string" where
  "sample_marshal s = ''\"'' @ s @ ''\"''"

definition sample_io :: audit_io where
  "sample_io = \<lparr>io_enc = (\<lambda>e. if LogBody e = LogBody sample_logged then Some sample_line else None), io_fails = (\<lambda>_. False), io_cut = 0, io_now = 5\<rparr>"

text \<open>The current file ends in a line a failed write cut short.\<close>

definition torn_log :: audit_log where
  "torn_log = New ''/a'' 0 0 ((\<lambda>_. None)(0 := Some ''{\"act''))"

definition whole_log :: audit_log where
  "whole_log = New ''/a'' 0 0 ((\<lambda>_. None)(0 := Some (sample_line @ [lf])))"

lemma sample_codec: "stamp_event 5 sample_logged = sample_logged" "lf \<notin> set sample_line" "TrimSpace sample_line = sample_line" "sample_line \<noteq> []"
  "sample_dec sample_line = Some sample_logged" "fst (matchesLocked sample_head (query_needles sample_marshal [] ''x'') [] ''x'' sample_line)"
  "file_lines (Some ''{\"act'') = [''{\"act'']" "file_lines (Some (sample_line @ [lf])) = [sample_line]" "sample_dec ''{\"act'' = None"
  by code_simp+

lemma append_query_first_witness:
  "\<exists>l' evs. Append sample_io sample_logged torn_log = (l', True) \<and>
     snd (Query sample_dec sample_head sample_marshal (\<lambda>_. False) [] ''x'' 1 l') = Some (sample_logged # evs)"
proof -
  have "snd (Append sample_io sample_logged torn_log) = True" by code_simp
  then obtain l' where r: "Append sample_io sample_logged torn_log = (l', True)" by (metis prod.collapse)
  have io: "io_now sample_io = 5" "\<not> io_fails sample_io c" "io_enc sample_io sample_logged = Some sample_line" for c
    by (simp_all add: sample_io_def)
  have "file_lines (al_files torn_log i) = (if i = 0 then [''{\"act''] else [])" for i
    using sample_codec(7) by (simp add: torn_log_def New_def file_lines_def)
  then have old: "\<forall>i. \<forall>old \<in> set (file_lines (al_files torn_log i)). \<forall>x. sample_dec old = Some x \<longrightarrow> TS x < TS (stamp_event (io_now sample_io) sample_logged)"
    using sample_codec(9) by auto
  have e: "io_enc sample_io (stamp_event (io_now sample_io) sample_logged) = Some sample_line"
    "sample_dec sample_line = Some (stamp_event (io_now sample_io) sample_logged)" by (simp_all add: io sample_codec)
  from append_query_first [OF r io(2) io(2) e(1) sample_codec(2-4) e(2) sample_codec(6) old, of "\<lambda>_. False" 1] r
  show ?thesis by (simp add: io(1) sample_codec(1))
qed


end
