(* ===== verification/JsonScan.thy ===== *)
theory JsonScan
  imports Prelude
begin

text \<open>
  internal/jsonscan/jsonscan.go: crossing JSON values by index, without decoding them. The request
  adapter uses it on megabyte bodies, so a string is crossed from quote to quote.

  An index is a \<^typ>\<open>nat\<close>, \<open>ErrMalformed\<close> is \<^const>\<open>None\<close> (or False where a state is threaded through), a callback takes and returns
  its state. \<open>SkipString_equiv\<close> shows that the quote-to-quote search is the byte-by-byte scan of a
  string literal, on any input; \<open>SkipValue_crosses\<close> and \<open>Members_exact\<close> that every JSON value is
  crossed exactly and every member of an object is visited once, in order, with its span.
\<close>

subsection \<open>The scanner\<close>

abbreviation dquote :: char where "dquote \<equiv> CHR 0x22"
abbreviation backslash :: char where "backslash \<equiv> CHR 0x5C"

definition json_space :: "char \<Rightarrow> bool" where
  "json_space c \<longleftrightarrow> c \<in> {CHR 0x20, CHR 0x09, CHR 0x0D, CHR 0x0A}"

definition json_open :: "char \<Rightarrow> bool" where
  "json_open c \<longleftrightarrow> c \<in> {CHR ''{'', CHR ''[''}"

definition json_close :: "char \<Rightarrow> bool" where
  "json_close c \<longleftrightarrow> c \<in> {CHR ''}'', CHR '']''}"

text \<open>\<open>bytes.IndexByte\<close>.\<close>

definition IndexByte :: "string \<Rightarrow> char \<Rightarrow> nat option" where
  "IndexByte s c = (let n = length (takeWhile (\<lambda>d. d \<noteq> c) s) in if n < length s then Some n else None)"

lemma IndexByte_simps [simp]:
  "IndexByte [] c = None"
  "IndexByte (d # s) c = (if d = c then Some 0 else map_option Suc (IndexByte s c))"
  by (simp_all add: IndexByte_def Let_def)

lemma IndexByte_Some: "IndexByte s c = Some n \<longleftrightarrow> n < length s \<and> s ! n = c \<and> c \<notin> set (take n s)"
proof (induction s arbitrary: n)
  case (Cons d s)
  show ?case by (cases n) (auto simp: Cons)
qed simp

lemma IndexByte_None: "IndexByte s c = None \<longleftrightarrow> c \<notin> set s"
  by (induction s) auto

function SkipSpace :: "string \<Rightarrow> nat \<Rightarrow> nat" where
  "SkipSpace raw i = (if i < length raw \<and> json_space (raw ! i) then SkipSpace raw (i + 1) else i)"
  by pat_completeness auto
termination by (relation "measure (\<lambda>(raw, i). length raw - i)") auto

declare SkipSpace.simps [simp del]

text \<open>The inner loop of \<open>SkipString\<close>: the escapes before the quote at \<open>q\<close>. \<open>None\<close> when that quote ends the
  string; otherwise the index the search goes on from, past the escaped quote.\<close>

function skip_escapes :: "string \<Rightarrow> nat \<Rightarrow> nat \<Rightarrow> nat option" where
  "skip_escapes raw j q = (case IndexByte (take (q - j) (drop j raw)) backslash of
     None \<Rightarrow> None
   | Some b \<Rightarrow> if q < j + b + 2 then Some (j + b + 2) else skip_escapes raw (j + b + 2) q)"
  by pat_completeness auto
termination by (relation "measure (\<lambda>(raw, j, q). q - j)") (auto simp: IndexByte_Some)

declare skip_escapes.simps [simp del]

lemma skip_escapes_later: "skip_escapes raw j q = Some j' \<Longrightarrow> q < j' \<and> j < j'"
proof (induction raw j q rule: skip_escapes.induct)
  case (1 raw j q)
  then show ?case by (subst (asm) (2) skip_escapes.simps) (fastforce split: option.splits if_splits)
qed

function skip_string_from :: "string \<Rightarrow> nat \<Rightarrow> nat option" where
  "skip_string_from raw j = (case IndexByte (drop j raw) dquote of
     None \<Rightarrow> None
   | Some quote \<Rightarrow> (case skip_escapes raw j (j + quote) of
         None \<Rightarrow> Some (j + quote + 1)
       | Some j' \<Rightarrow> skip_string_from raw j'))"
  by pat_completeness auto
termination
proof (relation "measure (\<lambda>(raw, j). length raw - j)", goal_cases)
  case (2 raw j quote j')
  then have "quote < length raw - j" by (simp add: IndexByte_Some)
  moreover have "j < j'" using skip_escapes_later [OF 2(2)] by simp
  ultimately show ?case by simp
qed simp

declare skip_string_from.simps [simp del]

definition SkipString :: "string \<Rightarrow> nat \<Rightarrow> nat option" where
  "SkipString raw i = (if length raw \<le> i \<or> raw ! i \<noteq> dquote then None else skip_string_from raw (i + 1))"


subsection \<open>String literals byte by byte\<close>

text \<open>The length of the rest of a string literal, its closing quote included.\<close>

fun string_end :: "string \<Rightarrow> nat option" where
  "string_end [] = None"
| "string_end (c # s) = (if c = dquote then Some 1
     else if c = backslash then (case s of [] \<Rightarrow> None | _ # s' \<Rightarrow> map_option (\<lambda>n. n + 2) (string_end s'))
     else map_option (\<lambda>n. n + 1) (string_end s))"

lemma string_end_plain:
  "dquote \<notin> set a \<Longrightarrow> backslash \<notin> set a \<Longrightarrow> string_end (a @ s) = map_option (\<lambda>n. n + length a) (string_end s)"
  by (induction a) (auto simp: option.map_comp comp_def option.map_ident)

lemma string_end_pos: "string_end s = Some n \<Longrightarrow> 0 < n"
  by (cases s) (auto split: if_splits list.splits)

lemma string_end_none: "dquote \<notin> set s \<Longrightarrow> string_end s = None"
  by (induction s rule: string_end.induct) (auto split: list.splits)

lemma skip_escapes_string_end:
  assumes "j \<le> q" "q < length raw" "raw ! q = dquote" "dquote \<notin> set (take (q - j) (drop j raw))"
  shows "(case skip_escapes raw j q of
     None \<Rightarrow> string_end (drop j raw) = Some (q + 1 - j)
   | Some j' \<Rightarrow> j' = q + 1 \<and> string_end (drop j raw) = map_option (\<lambda>n. n + (j' - j)) (string_end (drop j' raw)))"
  using assms
proof (induction raw j q rule: skip_escapes.induct)
  case (1 raw j q)
  let ?seg = "take (q - j) (drop j raw)"
  have split: "drop j raw = ?seg @ dquote # drop (q + 1) raw"
    using "1.prems" by (metis Cons_nth_drop_Suc Suc_eq_plus1 append_take_drop_id drop_drop le_add_diff_inverse2)
  show ?case
  proof (cases "IndexByte ?seg backslash")
    case None
    then have "backslash \<notin> set ?seg" by (simp add: IndexByte_None)
    with string_end_plain [OF "1.prems"(4) this, of "dquote # drop (q + 1) raw"] split "1.prems"
    have "string_end (drop j raw) = Some (q + 1 - j)" by simp
    moreover have "skip_escapes raw j q = None" using None by (subst skip_escapes.simps) simp
    ultimately show ?thesis by simp
  next
    case (Some b)
    then have b: "b < q - j" "raw ! (j + b) = backslash" "backslash \<notin> set (take b (drop j raw))"
    proof -
      have i: "b < length ?seg" "?seg ! b = backslash" "backslash \<notin> set (take b ?seg)"
        using Some unfolding IndexByte_Some by blast+
      then show "b < q - j" by simp
      then have "take b ?seg = take b (drop j raw)" by (simp add: min_absorb1)
      with i show "raw ! (j + b) = backslash" "backslash \<notin> set (take b (drop j raw))" using "1.prems"(1,2) by simp_all
    qed
    have pre: "dquote \<notin> set (take b (drop j raw))" using b(1) "1.prems"(4)
      by (metis in_set_takeD min.absorb3 take_take)
    have "drop j raw = take b (drop j raw) @ backslash # raw ! (j + b + 1) # drop (j + b + 2) raw"
    proof -
      have "drop (j + b) raw = backslash # raw ! (j + b + 1) # drop (j + b + 2) raw"
        using b "1.prems"(1,2) by (simp add: Cons_nth_drop_Suc flip: b(2))
      then show ?thesis by (metis add.commute append_take_drop_id drop_drop)
    qed
    then have e: "string_end (drop j raw) = map_option (\<lambda>n. n + (b + 2)) (string_end (drop (j + b + 2) raw))"
      using string_end_plain [OF pre b(3), of "backslash # raw ! (j + b + 1) # drop (j + b + 2) raw"] b(1) "1.prems"(2)
      by (simp add: option.map_comp comp_def)
    show ?thesis
    proof (cases "q < j + b + 2")
      case True
      then have "skip_escapes raw j q = Some (j + b + 2)" using Some by (subst skip_escapes.simps) simp
      moreover have "j + b + 2 = q + 1" using True b(1) by simp
      moreover have "j + b + 2 - j = b + 2" by simp
      ultimately show ?thesis using e by (simp only: option.case)
    next
      case False
      have step: "skip_escapes raw j q = skip_escapes raw (j + b + 2) q"
        using Some False by (subst skip_escapes.simps) simp
      have seg: "dquote \<notin> set (take (q - (j + b + 2)) (drop (j + b + 2) raw))"
      proof -
        have "take (q - (j + b + 2)) (drop (j + b + 2) raw) = drop (b + 2) ?seg"
          using False b(1) by (simp add: drop_take add.commute add.left_commute)
        then show ?thesis using "1.prems"(4) by (metis in_set_dropD)
      qed
      note ih = "1.IH" [OF Some False _ "1.prems"(2,3) seg]
      have arith: "n + (q + 1 - (j + b + 2)) + (b + 2) = n + (q + 1 - j)" for n using False by simp
      show ?thesis
      proof (cases "skip_escapes raw (j + b + 2) q")
        case None
        with ih False arith [of 0] show ?thesis unfolding step e by simp
      next
        case (Some j')
        with ih False have "j' = q + 1"
          "string_end (drop (j + b + 2) raw) = map_option (\<lambda>n. n + (q + 1 - (j + b + 2))) (string_end (drop (q + 1) raw))"
          by simp_all
        then show ?thesis unfolding step e Some
          by (simp only: option.case option.map_comp comp_def arith simp_thms)
      qed
    qed
  qed
qed

lemma skip_string_from_eq:
  "j \<le> length raw \<Longrightarrow> skip_string_from raw j = map_option (\<lambda>n. n + j) (string_end (drop j raw))"
proof (induction raw j rule: skip_string_from.induct)
  case (1 raw j)
  show ?case
  proof (cases "IndexByte (drop j raw) dquote")
    case None
    then have "skip_string_from raw j = None" by (subst skip_string_from.simps) simp
    moreover have "string_end (drop j raw) = None" using None string_end_none unfolding IndexByte_None by blast
    ultimately show ?thesis by simp
  next
    case (Some n)
    then have n: "n < length raw - j" "drop j raw ! n = dquote" "dquote \<notin> set (take n (drop j raw))"
      unfolding IndexByte_Some by simp_all
    have q: "j \<le> j + n" "j + n < length raw" "raw ! (j + n) = dquote" "dquote \<notin> set (take (j + n - j) (drop j raw))"
      using n "1.prems" by simp_all
    note e = skip_escapes_string_end [OF q]
    show ?thesis
    proof (cases "skip_escapes raw j (j + n)")
      case None
      with Some e show ?thesis by (subst skip_string_from.simps) simp
    next
      case (Some j')
      with e have j': "j' = j + n + 1"
        "string_end (drop j raw) = map_option (\<lambda>m. m + (j' - j)) (string_end (drop j' raw))" by simp_all
      have "skip_string_from raw j = skip_string_from raw j'"
        using \<open>IndexByte (drop j raw) dquote = Some n\<close> Some by (subst skip_string_from.simps) simp
      also have "\<dots> = map_option (\<lambda>n. n + j') (string_end (drop j' raw))"
        by (rule "1.IH" [OF \<open>IndexByte (drop j raw) dquote = Some n\<close> Some]) (use j'(1) q(2) in simp)
      finally show ?thesis unfolding j'(2) using j'(1) by (simp add: option.map_comp comp_def add.commute add.left_commute)
    qed
  qed
qed

lemma SkipString_eq: "SkipString raw i =
    (if i < length raw \<and> raw ! i = dquote then map_option (\<lambda>n. n + (i + 1)) (string_end (drop (i + 1) raw)) else None)"
  by (simp add: SkipString_def skip_string_from_eq not_le [symmetric])

text \<open>The quote-to-quote search of SkipString is the byte-by-byte reading of a string literal, on
  every input and from every index: it finds the same closing quote, escaped quotes and escaped
  backslashes included, and fails exactly where the literal is not closed or does not start there.\<close>

theorem SkipString_equiv: "SkipString raw i =
    (if i < length raw \<and> raw ! i = dquote then map_option (\<lambda>n. n + (i + 1)) (string_end (drop (i + 1) raw)) else None)"
  by (rule SkipString_eq)

lemma string_end_bound: "string_end s = Some n \<Longrightarrow> n \<le> length s"
  by (induction s arbitrary: n rule: string_end.induct) (fastforce split: if_splits list.splits)+

lemma SkipString_bounds: "SkipString raw i = Some e \<Longrightarrow> i + 1 < e \<and> e \<le> length raw"
  using string_end_pos string_end_bound by (fastforce simp: SkipString_eq split: if_splits)


subsection \<open>Values\<close>

text \<open>The loop over a bracketed value.\<close>

function skip_nested :: "string \<Rightarrow> nat \<Rightarrow> int \<Rightarrow> nat option" where
  "skip_nested raw j depth =
     (if length raw \<le> j then None
      else if raw ! j = dquote then (case SkipString raw j of None \<Rightarrow> None | Some e \<Rightarrow> skip_nested raw e depth)
      else if json_open (raw ! j) then skip_nested raw (j + 1) (depth + 1)
      else if json_close (raw ! j) then (if depth - 1 = 0 then Some (j + 1) else skip_nested raw (j + 1) (depth - 1))
      else skip_nested raw (j + 1) depth)"
  by pat_completeness auto
termination by (relation "measure (\<lambda>(raw, j, d). length raw - j)") (auto dest: SkipString_bounds)

declare skip_nested.simps [simp del]

definition scalar_end :: "char \<Rightarrow> bool" where
  "scalar_end c \<longleftrightarrow> c = CHR '','' \<or> json_close c \<or> json_space c"

function skip_scalar :: "string \<Rightarrow> nat \<Rightarrow> nat option" where
  "skip_scalar raw j = (if length raw \<le> j then None else if scalar_end (raw ! j) then Some j else skip_scalar raw (j + 1))"
  by pat_completeness auto
termination by (relation "measure (\<lambda>(raw, j). length raw - j)") auto

declare skip_scalar.simps [simp del]

definition SkipValue :: "string \<Rightarrow> nat \<Rightarrow> nat option" where
  "SkipValue raw i =
     (if length raw \<le> i then None
      else if raw ! i = dquote then SkipString raw i
      else if json_open (raw ! i) then skip_nested raw i 0
      else case skip_scalar raw i of Some j \<Rightarrow> if j = i then None else Some j | None \<Rightarrow> None)"

lemma skip_nested_bounds: "skip_nested raw j d = Some e \<Longrightarrow> j < e \<and> e \<le> length raw"
proof (induction raw j d rule: skip_nested.induct)
  case (1 raw j d)
  show ?case using "1.prems" "1.IH" SkipString_bounds [of raw j]
    unfolding skip_nested.simps [of raw j d] by (fastforce split: if_splits option.splits)
qed

lemma skip_scalar_bounds: "skip_scalar raw j = Some e \<Longrightarrow> j \<le> e \<and> e < length raw"
proof (induction raw j rule: skip_scalar.induct)
  case (1 raw j)
  then show ?case by (subst (asm) (2) skip_scalar.simps) (fastforce split: if_splits)
qed

lemma SkipValue_bounds: "SkipValue raw i = Some e \<Longrightarrow> i < e \<and> e \<le> length raw"
  using SkipString_bounds [of raw i e] skip_nested_bounds [of raw i 0 e] skip_scalar_bounds [of raw i e]
  by (auto simp: SkipValue_def split: if_splits option.splits)

lemma SkipSpace_ge: "i \<le> SkipSpace raw i"
proof (induction raw i rule: SkipSpace.induct)
  case (1 raw i)
  then show ?case by (subst SkipSpace.simps) auto
qed

text \<open>The callbacks get a key and the span of its value, or the span of an element, and the state
  they keep; they return it with whether to go on. The result is the state and whether no error
  occurred.\<close>

function members_loop :: "string \<Rightarrow> (string \<Rightarrow> nat \<Rightarrow> nat \<Rightarrow> 's \<Rightarrow> 's \<times> bool) \<Rightarrow> nat \<Rightarrow> 's \<Rightarrow> 's \<times> bool" where
  "members_loop raw visit i s = (case SkipString raw i of
     None \<Rightarrow> (s, False)
   | Some keyEnd \<Rightarrow>
       let key = drop (i + 1) (take (keyEnd - 1) raw); colon = SkipSpace raw keyEnd
       in if length raw \<le> colon \<or> raw ! colon \<noteq> CHR '':'' then (s, False)
          else let start = SkipSpace raw (colon + 1)
               in (case SkipValue raw start of
                     None \<Rightarrow> (s, False)
                   | Some e \<Rightarrow> (case visit key start e s of (s, goes_on) \<Rightarrow>
                       if \<not> goes_on then (s, True)
                       else let j = SkipSpace raw e
                            in if length raw \<le> j then (s, False)
                               else if raw ! j = CHR '','' then members_loop raw visit (SkipSpace raw (j + 1)) s
                               else (s, raw ! j = CHR ''}''))))"
  by pat_completeness auto
termination
proof (relation "measure (\<lambda>(raw, visit, i, s). length raw - i)", goal_cases)
  case (2 raw visit i s keyEnd key colon start e s' goes_on j)
  have "i < keyEnd" "keyEnd \<le> length raw" using SkipString_bounds [OF 2(1)] by simp_all
  moreover have "keyEnd \<le> colon" using 2 SkipSpace_ge by metis
  moreover have "colon + 1 \<le> start" using 2 SkipSpace_ge by metis
  moreover have "start < e" using 2 SkipValue_bounds by metis
  moreover have "e \<le> j" using 2 SkipSpace_ge by metis
  moreover have "j + 1 \<le> SkipSpace raw (j + 1)" by (rule SkipSpace_ge)
  moreover have "j < length raw" using 2 by simp
  ultimately show ?case by simp
qed simp

declare members_loop.simps [simp del]

definition Members :: "string \<Rightarrow> (string \<Rightarrow> nat \<Rightarrow> nat \<Rightarrow> 's \<Rightarrow> 's \<times> bool) \<Rightarrow> 's \<Rightarrow> 's \<times> bool" where
  "Members raw visit s =
     (let i = SkipSpace raw 0
      in if length raw \<le> i \<or> raw ! i \<noteq> CHR ''{'' then (s, False)
         else let i = SkipSpace raw (i + 1)
              in if i < length raw \<and> raw ! i = CHR ''}'' then (s, True) else members_loop raw visit i s)"

function elements_loop :: "string \<Rightarrow> (nat \<Rightarrow> nat \<Rightarrow> 's \<Rightarrow> 's \<times> bool) \<Rightarrow> nat \<Rightarrow> 's \<Rightarrow> 's \<times> bool" where
  "elements_loop raw visit i s = (case SkipValue raw i of
     None \<Rightarrow> (s, False)
   | Some e \<Rightarrow> (case visit i e s of (s, goes_on) \<Rightarrow>
       if \<not> goes_on then (s, True)
       else let j = SkipSpace raw e
            in if length raw \<le> j then (s, False)
               else if raw ! j = CHR '','' then elements_loop raw visit (SkipSpace raw (j + 1)) s
               else (s, raw ! j = CHR '']'')))"
  by pat_completeness auto
termination
proof (relation "measure (\<lambda>(raw, visit, i, s). length raw - i)", goal_cases)
  case (2 raw visit i s e s' goes_on j)
  have "i < e" "e \<le> length raw" using SkipValue_bounds [OF 2(1)] by simp_all
  moreover have "e \<le> j" using 2 SkipSpace_ge by metis
  moreover have "j + 1 \<le> SkipSpace raw (j + 1)" by (rule SkipSpace_ge)
  moreover have "j < length raw" using 2 by simp
  ultimately show ?case by simp
qed simp

declare elements_loop.simps [simp del]

definition Elements :: "string \<Rightarrow> (nat \<Rightarrow> nat \<Rightarrow> 's \<Rightarrow> 's \<times> bool) \<Rightarrow> 's \<Rightarrow> 's \<times> bool" where
  "Elements raw visit s =
     (let i = SkipSpace raw 0
      in if length raw \<le> i \<or> raw ! i \<noteq> CHR ''['' then (s, False)
         else let i = SkipSpace raw (i + 1)
              in if i < length raw \<and> raw ! i = CHR '']'' then (s, True) else elements_loop raw visit i s)"


subsection \<open>JSON texts\<close>

definition json_ws :: "string \<Rightarrow> bool" where
  "json_ws a \<longleftrightarrow> list_all json_space a"

fun string_body :: "string \<Rightarrow> bool" where
  "string_body [] = True"
| "string_body (c # s) = (c \<noteq> dquote \<and>
     (if c = backslash then (case s of [] \<Rightarrow> False | _ # s' \<Rightarrow> string_body s') else string_body s))"

definition json_quoted :: "string \<Rightarrow> string" where
  "json_quoted b = dquote # b @ [dquote]"

text \<open>A number, true, false or null is a run of these characters.\<close>

definition scalar_char :: "char \<Rightarrow> bool" where
  "scalar_char c \<longleftrightarrow> \<not> scalar_end c \<and> c \<noteq> dquote \<and> \<not> json_open c"

fun join_comma :: "string list \<Rightarrow> string" where
  "join_comma [] = []"
| "join_comma [x] = x"
| "join_comma (x # xs) = x @ CHR '','' # join_comma xs"

type_synonym element = "string \<times> string \<times> string"  \<comment> \<open>space, value, space\<close>
type_synonym member = "string \<times> string \<times> string \<times> string \<times> string \<times> string"  \<comment> \<open>space, key, space, space, value, space\<close>

fun element_text :: "element \<Rightarrow> string" where
  "element_text (a, v, b) = a @ v @ b"

fun member_text :: "member \<Rightarrow> string" where
  "member_text (a, k, b, c, v, d) = a @ json_quoted k @ b @ CHR '':'' # c @ v @ d"

inductive json :: "string \<Rightarrow> bool" where
  json_string: "string_body b \<Longrightarrow> json (json_quoted b)"
| json_scalar: "v \<noteq> [] \<Longrightarrow> list_all scalar_char v \<Longrightarrow> json v"
| json_empty_array: "json_ws a \<Longrightarrow> json (CHR ''['' # a @ '']'')"
| json_array: "es \<noteq> [] \<Longrightarrow> (\<And>a v b. (a, v, b) \<in> set es \<Longrightarrow> json_ws a \<and> json v \<and> json_ws b) \<Longrightarrow>
    json (CHR ''['' # join_comma (map element_text es) @ '']'')"
| json_empty_object: "json_ws a \<Longrightarrow> json (CHR ''{'' # a @ ''}'')"
| json_object: "ms \<noteq> [] \<Longrightarrow> (\<And>a k b c v d. (a, k, b, c, v, d) \<in> set ms \<Longrightarrow>
      json_ws a \<and> string_body k \<and> json_ws b \<and> json_ws c \<and> json v \<and> json_ws d) \<Longrightarrow>
    json (CHR ''{'' # join_comma (map member_text ms) @ ''}'')"

lemma string_end_body: "string_body b \<Longrightarrow> string_end (b @ dquote # r) = Some (length b + 1)"
  by (induction b rule: string_body.induct) (auto split: list.splits if_splits)

lemma SkipString_quoted: "string_body b \<Longrightarrow> SkipString (p @ json_quoted b @ r) (length p) = Some (length p + length b + 2)"
  using string_end_body [of b r] by (simp add: SkipString_eq json_quoted_def nth_append)

lemma SkipSpace_ws: "json_ws a \<Longrightarrow> \<not> json_space c \<Longrightarrow> SkipSpace (p @ a @ c # r) (length p) = length p + length a"
proof (induction a arbitrary: p)
  case Nil
  then show ?case by (subst SkipSpace.simps) simp
next
  case (Cons x a)
  then have "SkipSpace ((p @ [x]) @ a @ c # r) (length (p @ [x])) = length (p @ [x]) + length a"
    by (intro Cons.IH) (simp_all add: json_ws_def)
  moreover have "json_space x" using Cons.prems by (simp add: json_ws_def)
  ultimately show ?case by (subst SkipSpace.simps) (simp add: nth_append)
qed

text \<open>A neutral text leaves the bracket loop where it was, at the depth it had.\<close>

definition neutral :: "string \<Rightarrow> bool" where
  "neutral t \<longleftrightarrow> (\<forall>p r d. 1 \<le> d \<longrightarrow> skip_nested (p @ t @ r) (length p) d = skip_nested (p @ t @ r) (length p + length t) d)"

lemma neutralD: "neutral t \<Longrightarrow> 1 \<le> d \<Longrightarrow> skip_nested (p @ t @ r) (length p) d = skip_nested (p @ t @ r) (length p + length t) d"
  by (simp add: neutral_def)

lemma neutral_Nil [simp]: "neutral []"
  by (simp add: neutral_def)

lemma neutral_append: "neutral t \<Longrightarrow> neutral u \<Longrightarrow> neutral (t @ u)"
proof (unfold neutral_def [of "t @ u"], intro allI impI)
  fix p r and d :: int
  assume t: "neutral t" and u: "neutral u" and d: "1 \<le> d"
  from neutralD [OF t d, of p "u @ r"] neutralD [OF u d, of "p @ t" r]
  show "skip_nested (p @ (t @ u) @ r) (length p) d = skip_nested (p @ (t @ u) @ r) (length p + length (t @ u)) d"
    by (simp add: add.assoc)
qed

lemma skip_nested_at:
  "skip_nested (p @ c # r) (length p) depth =
     (if c = dquote then (case SkipString (p @ c # r) (length p) of None \<Rightarrow> None | Some e \<Rightarrow> skip_nested (p @ c # r) e depth)
      else if json_open c then skip_nested (p @ c # r) (length p + 1) (depth + 1)
      else if json_close c then (if depth - 1 = 0 then Some (length p + 1) else skip_nested (p @ c # r) (length p + 1) (depth - 1))
      else skip_nested (p @ c # r) (length p + 1) depth)"
  by (subst skip_nested.simps) simp

lemma neutral_char: "c \<noteq> dquote \<Longrightarrow> \<not> json_open c \<Longrightarrow> \<not> json_close c \<Longrightarrow> neutral [c]"
  by (simp add: neutral_def skip_nested_at)

lemma neutral_chars: "list_all (\<lambda>c. c \<noteq> dquote \<and> \<not> json_open c \<and> \<not> json_close c) t \<Longrightarrow> neutral t"
proof (induction t)
  case (Cons c t)
  then have "neutral [c]" "neutral t" by (auto intro: neutral_char)
  from neutral_append [OF this] show ?case by simp
qed simp

lemma space_plain: "json_space c \<Longrightarrow> c \<noteq> dquote \<and> \<not> json_open c \<and> \<not> json_close c"
  unfolding json_space_def json_open_def json_close_def by (elim insertE emptyE) simp_all

lemma scalar_plain: "scalar_char c \<Longrightarrow> c \<noteq> dquote \<and> \<not> json_open c \<and> \<not> json_close c"
  unfolding scalar_char_def scalar_end_def by blast

lemma neutral_ws: "json_ws a \<Longrightarrow> neutral a"
  unfolding json_ws_def by (rule neutral_chars, erule list.pred_mono_strong, rule space_plain)

lemma neutral_scalar: "list_all scalar_char v \<Longrightarrow> neutral v"
  by (rule neutral_chars, erule list.pred_mono_strong, rule scalar_plain)

lemma neutral_quoted: "string_body b \<Longrightarrow> neutral (json_quoted b)"
proof (unfold neutral_def, intro allI impI)
  fix p r and d :: int
  assume "string_body b"
  from SkipString_quoted [OF this, of p r] skip_nested_at [of p dquote "b @ dquote # r" d]
  show "skip_nested (p @ json_quoted b @ r) (length p) d = skip_nested (p @ json_quoted b @ r) (length p + length (json_quoted b)) d"
    by (simp add: json_quoted_def)
qed

text \<open>Crossing a bracketed text: the loop, entered at its bracket, is past its end.\<close>

lemma skip_bracketed:
  assumes "json_open a" "json_close z" "neutral t" "0 \<le> d"
  shows "skip_nested (p @ (a # t @ [z]) @ r) (length p) d =
    (if d = 0 then Some (length p + length t + 2) else skip_nested (p @ (a # t @ [z]) @ r) (length p + length t + 2) d)"
proof -
  let ?raw = "p @ (a # t @ [z]) @ r"
  have a: "a \<noteq> dquote" "z \<noteq> dquote" "\<not> json_open z" using assms(1,2) by (auto simp: json_open_def json_close_def)
  have "skip_nested ?raw (length p) d = skip_nested ?raw (length p + 1) (d + 1)"
    using skip_nested_at [of p a "t @ z # r" d] a assms(1) by simp
  also have "\<dots> = skip_nested ?raw (length p + 1 + length t) (d + 1)"
    using neutralD [OF assms(3), of "d + 1" "p @ [a]" "z # r"] assms(4) by simp
  also have "\<dots> = (if d = 0 then Some (length p + length t + 2) else skip_nested ?raw (length p + length t + 2) d)"
    using skip_nested_at [of "p @ a # t" z r "d + 1"] a assms(2) by simp
  finally show ?thesis .
qed

lemma neutral_bracketed: "json_open a \<Longrightarrow> json_close z \<Longrightarrow> neutral t \<Longrightarrow> neutral (a # t @ [z])"
proof (unfold neutral_def [of "a # t @ [z]"], intro allI impI)
  fix p r and d :: int
  assume "json_open a" "json_close z" "neutral t" "1 \<le> d"
  with skip_bracketed [of a z t d p r]
  show "skip_nested (p @ (a # t @ [z]) @ r) (length p) d = skip_nested (p @ (a # t @ [z]) @ r) (length p + length (a # t @ [z])) d"
    by simp
qed

lemma neutral_join: "(\<And>x. x \<in> set xs \<Longrightarrow> neutral x) \<Longrightarrow> neutral (join_comma xs)"
proof (induction xs rule: join_comma.induct)
  case (3 x y xs)
  have "neutral [CHR '','']" by (rule neutral_char) (simp_all add: json_open_def json_close_def)
  then have "neutral (x @ [CHR '',''] @ join_comma (y # xs))" using 3 by (intro neutral_append) auto
  then show ?case by simp
qed auto

lemma json_brackets [simp]: "json_open (CHR ''['')" "json_open (CHR ''{'')" "json_close (CHR '']'')" "json_close (CHR ''}'')"
  by (simp_all add: json_open_def json_close_def)

lemma neutral_element: "json_ws a \<Longrightarrow> neutral v \<Longrightarrow> json_ws b \<Longrightarrow> neutral (element_text (a, v, b))"
  by (simp only: element_text.simps) (blast intro: neutral_append neutral_ws)

lemma neutral_member:
  assumes "json_ws a" "string_body k" "json_ws b" "json_ws c" "neutral v" "json_ws d"
  shows "neutral (member_text (a, k, b, c, v, d))"
proof -
  have "neutral [CHR '':'']" by (rule neutral_char) (simp_all add: json_open_def json_close_def)
  then have "neutral (a @ json_quoted k @ b @ [CHR '':''] @ c @ v @ d)"
    using assms by (blast intro: neutral_append neutral_ws neutral_quoted)
  then show ?thesis by simp
qed

text \<open>A value is a string, a scalar, or a bracketed neutral text.\<close>

definition value_shape :: "string \<Rightarrow> bool" where
  "value_shape v \<longleftrightarrow> (\<exists>b. v = json_quoted b \<and> string_body b) \<or> v \<noteq> [] \<and> list_all scalar_char v \<or>
     (\<exists>a t z. v = a # t @ [z] \<and> json_open a \<and> json_close z \<and> neutral t)"

lemma value_shape_neutral: "value_shape v \<Longrightarrow> neutral v"
  unfolding value_shape_def using neutral_quoted neutral_scalar neutral_bracketed by blast

lemma bracketed_shape: "json_open a \<Longrightarrow> json_close z \<Longrightarrow> neutral t \<Longrightarrow> value_shape (a # t @ [z])"
  unfolding value_shape_def by blast

lemma json_shape: "json v \<Longrightarrow> value_shape v"
proof (induction rule: json.induct)
  case (json_array es)
  have "neutral (element_text e)" if "e \<in> set es" for e
  proof (cases e)
    case (fields a v b)
    with that json_array(2) [of a v b] show ?thesis by (blast intro: neutral_element value_shape_neutral)
  qed
  then have "neutral (join_comma (map element_text es))" by (intro neutral_join) auto
  then show ?case by (auto intro: bracketed_shape)
next
  case (json_object ms)
  have "neutral (member_text m)" if "m \<in> set ms" for m
  proof (cases m)
    case (fields a k b c v d)
    with that json_object(2) [of a k b c v d] show ?thesis by (blast intro: neutral_member value_shape_neutral)
  qed
  then have "neutral (join_comma (map member_text ms))" by (intro neutral_join) auto
  then show ?case by (auto intro: bracketed_shape)
next
  case (json_empty_array a)
  then show ?case by (auto intro: bracketed_shape neutral_ws)
next
  case (json_empty_object a)
  then show ?case by (auto intro: bracketed_shape neutral_ws)
qed (auto simp: value_shape_def)

lemma skip_scalar_run:
  "list_all (\<lambda>c. \<not> scalar_end c) v \<Longrightarrow> scalar_end c \<Longrightarrow> skip_scalar (p @ v @ c # r) (length p) = Some (length p + length v)"
proof (induction v arbitrary: p)
  case Nil
  then show ?case by (subst skip_scalar.simps) simp
next
  case (Cons x v)
  then have "skip_scalar ((p @ [x]) @ v @ c # r) (length (p @ [x])) = Some (length (p @ [x]) + length v)"
    by (intro Cons.IH) simp_all
  then show ?case using Cons.prems by (subst skip_scalar.simps) (simp add: nth_append)
qed

text \<open>A scalar ends where the next token begins; the other values end by themselves.\<close>

definition self_ended :: "string \<Rightarrow> bool" where
  "self_ended v \<longleftrightarrow> v \<noteq> [] \<and> (hd v = dquote \<or> json_open (hd v))"

lemma SkipValue_at:
  assumes "json v" "self_ended v \<or> r \<noteq> [] \<and> scalar_end (hd r)"
  shows "SkipValue (p @ v @ r) (length p) = Some (length p + length v)"
  using json_shape [OF assms(1)] unfolding value_shape_def
proof (elim disjE exE conjE)
  fix b
  assume b: "v = json_quoted b" "string_body b"
  with SkipString_quoted [OF b(2), of p r] show ?thesis by (simp add: SkipValue_def json_quoted_def)
next
  assume v: "v \<noteq> []" "list_all scalar_char v"
  then obtain c u where c: "v = c # u" "\<not> scalar_end c" "c \<noteq> dquote" "\<not> json_open c" by (cases v) (auto simp: scalar_char_def)
  with assms(2) obtain e r' where r: "r = e # r'" "scalar_end e" by (cases r) (auto simp: self_ended_def)
  have "list_all (\<lambda>c. \<not> scalar_end c) v" using v(2) by (auto simp: list_all_iff scalar_char_def)
  from skip_scalar_run [OF this r(2), of p r'] show ?thesis using c r by (simp add: SkipValue_def)
next
  fix a t z
  assume v: "v = a # t @ [z]" "json_open a" "json_close z" "neutral t"
  then have "a \<noteq> dquote" by (auto simp: json_open_def)
  with skip_bracketed [OF v(2,3,4), of 0 p r] v show ?thesis by (simp add: SkipValue_def)
qed

text \<open>SkipValue crosses every JSON value exactly: from the first byte of a value, in any text
  before and after it, it returns the index just past it. A number or a name needs the token that
  follows it to know where it ends; at the end of the input the code reports it as malformed.\<close>

theorem SkipValue_crosses:
  assumes "json v" "self_ended v \<or> r \<noteq> [] \<and> scalar_end (hd r)"
  shows "SkipValue (p @ v @ r) (length p) = Some (length p + length v)"
  by (rule SkipValue_at [OF assms])

lemma SkipValue_crosses_witness:
  "SkipValue ''x:{} ,'' 2 = Some 4"
proof -
  have "json (CHR ''{'' # [] @ ''}'')" by (rule json_empty_object) (simp add: json_ws_def)
  then have "json ''{}''" by simp
  moreover have "self_ended ''{}''" by (simp add: self_ended_def)
  ultimately show ?thesis using SkipValue_crosses [of "''{}''" "'' ,''" "''x:''"] by (simp add: eval_nat_numeral)
qed


subsection \<open>Members and elements\<close>

fun visit_all :: "('x \<Rightarrow> 's \<Rightarrow> 's \<times> bool) \<Rightarrow> 'x list \<Rightarrow> 's \<Rightarrow> 's" where
  "visit_all visit [] s = s"
| "visit_all visit (x # xs) s = (case visit x s of (s, goes_on) \<Rightarrow> if goes_on then visit_all visit xs s else s)"

fun member_ok :: "member \<Rightarrow> bool" where
  "member_ok (a, k, b, c, v, d) \<longleftrightarrow> json_ws a \<and> string_body k \<and> json_ws b \<and> json_ws c \<and> json v \<and> json_ws d"

fun element_ok :: "element \<Rightarrow> bool" where
  "element_ok (a, v, b) \<longleftrightarrow> json_ws a \<and> json v \<and> json_ws b"

text \<open>The keys and spans of members, the first of which starts at an index.\<close>

fun member_spans :: "nat \<Rightarrow> member list \<Rightarrow> (string \<times> nat \<times> nat) list" where
  "member_spans n [] = []"
| "member_spans n ((a, k, b, c, v, d) # ms) =
     (let st = n + length a + length k + length b + length c + 3
      in (k, st, st + length v) # member_spans (st + length v + length d + 1) ms)"

lemma json_first: "json v \<Longrightarrow> \<exists>x u. v = x # u \<and> \<not> json_space x"
proof -
  assume "json v"
  from json_shape [OF this] consider b where "v = json_quoted b" | "v \<noteq> []" "list_all scalar_char v"
    | a t z where "v = a # t @ [z]" "json_open a" unfolding value_shape_def by blast
  then show ?thesis
  proof cases
    case 1
    moreover have "\<not> json_space dquote" by (simp add: json_space_def)
    ultimately show ?thesis by (simp add: json_quoted_def)
  next
    case 2
    then show ?thesis by (cases v) (simp_all add: scalar_char_def scalar_end_def)
  next
    case 3
    then show ?thesis using space_plain by blast
  qed
qed

lemma SkipSpace_json: "json_ws a \<Longrightarrow> json v \<Longrightarrow> SkipSpace (p @ a @ v @ r) (length p) = length p + length a"
  using json_first [of v] SkipSpace_ws by fastforce

lemma not_space [simp]: "\<not> json_space dquote" "\<not> json_space (CHR '':'')" "\<not> json_space (CHR '','')" "\<not> json_space (CHR ''}'')"
    "\<not> json_space (CHR '']'')" "\<not> json_space (CHR ''{'')" "\<not> json_space (CHR ''['')"
  by (simp_all add: json_space_def)

lemma after_value: "json_ws d \<Longrightarrow> scalar_end x \<Longrightarrow> d @ x # r \<noteq> [] \<and> scalar_end (hd (d @ x # r))"
  by (cases d) (simp_all add: json_ws_def scalar_end_def)

text \<open>One turn of the loop, at the key of a member that is followed by a comma or the brace.\<close>

lemma members_loop_step:
  assumes ok: "member_ok (a, k, b, c, v, d)" and x: "x = CHR '','' \<or> x = CHR ''}''"
    and raw: "raw = p @ json_quoted k @ b @ CHR '':'' # c @ v @ d @ x # r"
    and st: "st = length p + length k + length b + length c + 3"
  shows "members_loop raw visit (length p) s = (case visit k st (st + length v) s of (s, goes_on) \<Rightarrow>
     if \<not> goes_on then (s, True)
     else if x = CHR '','' then members_loop raw visit (SkipSpace raw (st + length v + length d + 1)) s
     else (s, True))"
proof -
  note ok = ok [unfolded member_ok.simps]
  have key: "SkipString raw (length p) = Some (length p + length k + 2)"
    unfolding raw by (rule SkipString_quoted) (use ok in simp)
  have k: "drop (length p + 1) (take (length p + length k + 2 - 1) raw) = k"
    by (simp add: raw json_quoted_def)
  have colon: "SkipSpace raw (length p + length k + 2) = length p + length k + 2 + length b"
    using SkipSpace_ws [of b "CHR '':''" "p @ json_quoted k"] ok by (simp add: raw json_quoted_def)
  have at_colon: "length p + length k + 2 + length b < length raw" "raw ! (length p + length k + 2 + length b) = CHR '':''"
    using nth_append_length [of "p @ json_quoted k @ b"] by (simp_all add: raw json_quoted_def add.assoc)
  have start: "SkipSpace raw (length p + length k + 2 + length b + 1) = st"
    using SkipSpace_json [of c v "p @ json_quoted k @ b @ [CHR '':'']" "d @ x # r"] ok
    by (simp add: raw json_quoted_def st add.assoc eval_nat_numeral)
  have "SkipValue ((p @ json_quoted k @ b @ CHR '':'' # c) @ v @ d @ x # r) (length (p @ json_quoted k @ b @ CHR '':'' # c)) =
      Some (length (p @ json_quoted k @ b @ CHR '':'' # c) + length v)"
    by (rule SkipValue_at) (use ok x after_value [of d x r] in \<open>auto simp: scalar_end_def\<close>)
  then have val: "SkipValue raw st = Some (st + length v)" by (simp add: raw json_quoted_def st add.assoc eval_nat_numeral)
  have after: "SkipSpace raw (st + length v) = st + length v + length d"
    using SkipSpace_ws [of d x "p @ json_quoted k @ b @ CHR '':'' # c @ v" r] ok x
    by (auto simp: raw json_quoted_def st add.assoc eval_nat_numeral)
  have at_after: "st + length v + length d < length raw" "raw ! (st + length v + length d) = x"
  proof -
    let ?pre = "p @ json_quoted k @ b @ CHR '':'' # c @ v @ d"
    have "raw = ?pre @ x # r" by (simp add: raw)
    moreover have "length ?pre = st + length v + length d" by (simp add: json_quoted_def st)
    ultimately show "st + length v + length d < length raw" "raw ! (st + length v + length d) = x"
      by (metis length_append length_Cons less_add_same_cancel1 zero_less_Suc, metis nth_append_length)
  qed
  have le: "\<not> length raw \<le> length p + length k + 2 + length b" "\<not> length raw \<le> st + length v + length d"
    using at_colon(1) at_after(1) by simp_all
  show ?thesis
    unfolding members_loop.simps [of raw visit "length p" s] key option.case Let_def k colon start val after at_colon(2) at_after(2)
    using x le by (auto split: prod.splits)
qed

lemma members_loop_all:
  assumes "ms \<noteq> []" "list_all member_ok ms" "n = length q"
  shows "members_loop (q @ join_comma (map member_text ms) @ CHR ''}'' # r) visit (n + length (fst (hd ms))) s =
    (visit_all (\<lambda>(k, st, e). visit k st e) (member_spans n ms) s, True)"
  using assms
proof (induction ms arbitrary: q n s)
  case (Cons m ms)
  obtain a k b c v d where m: "m = (a, k, b, c, v, d)" by (cases m)
  have ok: "member_ok (a, k, b, c, v, d)" "list_all member_ok ms" using Cons.prems(2) by (simp_all add: m)
  define raw where "raw = q @ join_comma (map member_text (m # ms)) @ CHR ''}'' # r"
  define st where "st = n + length a + length k + length b + length c + 3"
  show ?case
  proof (cases ms)
    case Nil
    then have raw: "raw = (q @ a) @ json_quoted k @ b @ CHR '':'' # c @ v @ d @ CHR ''}'' # r" by (simp add: raw_def m)
    from members_loop_step [OF ok(1) _ raw, of st visit s] Cons.prems(3)
    have "members_loop raw visit (length (q @ a)) s = (case visit k st (st + length v) s of (s, goes_on) \<Rightarrow> (s, True))"
      by (auto simp: st_def split: prod.splits)
    then show ?thesis using Cons.prems(3) unfolding raw_def by (auto simp: m Nil st_def Let_def split: prod.splits)
  next
    case (Cons m' ms')
    obtain a' k' b' c' v' d' where m': "m' = (a', k', b', c', v', d')" by (cases m')
    have ok': "json_ws a'" using ok(2) by (simp add: Cons m')
    let ?rest = "join_comma (map member_text ms) @ CHR ''}'' # r"
    let ?q = "q @ member_text m @ '',''"
    have raw': "raw = ?q @ ?rest" by (simp add: raw_def Cons)
    have raw: "raw = (q @ a) @ json_quoted k @ b @ CHR '':'' # c @ v @ d @ CHR '','' # ?rest" by (simp add: raw' m)
    have n: "length ?q = st + length v + length d + 1" by (simp add: m st_def json_quoted_def Cons.prems(3))
    obtain u where u: "?rest = a' @ dquote # u"
      by (cases ms') (simp_all add: Cons m' json_quoted_def)
    have sk: "SkipSpace raw (length ?q) = length ?q + length a'"
      unfolding raw' u by (rule SkipSpace_ws [OF ok']) simp
    have skip: "SkipSpace raw (st + length v + length d + 1) = length ?q + length (fst (hd ms))"
      unfolding n [symmetric] sk by (simp add: Cons m')
    have ih: "members_loop raw visit (length ?q + length (fst (hd ms))) s' =
        (visit_all (\<lambda>(k, st, e). visit k st e) (member_spans (length ?q) ms) s', True)" for s'
      unfolding raw' by (rule Cons.IH) (use ok(2) Cons in simp_all)
    from members_loop_step [OF ok(1) _ raw, of st visit s] Cons.prems(3)
    have "members_loop raw visit (length (q @ a)) s = (case visit k st (st + length v) s of (s', goes_on) \<Rightarrow>
        if \<not> goes_on then (s', True) else (visit_all (\<lambda>(k, st, e). visit k st e) (member_spans (length ?q) ms) s', True))"
      unfolding skip ih by (auto simp: st_def split: prod.splits)
    then show ?thesis using Cons.prems(3) unfolding raw_def n
      by (auto simp: m st_def Let_def add.assoc split: prod.splits)
  qed
qed simp

definition object_text :: "string \<Rightarrow> member list \<Rightarrow> string" where
  "object_text a ms = CHR ''{'' # (if ms = [] then a else join_comma (map member_text ms)) @ ''}''"

lemma Members_eq:
  assumes "json_ws a0" "json_ws a" "list_all member_ok ms"
  shows "Members (a0 @ object_text a ms @ r) visit s =
    (visit_all (\<lambda>(k, st, e). visit k st e) (member_spans (length a0 + 1) ms) s, True)"
proof -
  let ?raw = "a0 @ object_text a ms @ r"
  have first: "SkipSpace ?raw 0 = length a0"
    using SkipSpace_ws [OF assms(1), of "CHR ''{''" "[]"] by (simp add: object_text_def)
  have brace: "?raw ! length a0 = CHR ''{''" "length a0 < length ?raw" "object_text a ms \<noteq> []" by (simp_all add: object_text_def)
  show ?thesis
  proof (cases ms)
    case Nil
    have "SkipSpace ?raw (length a0 + 1) = length a0 + 1 + length a"
      using SkipSpace_ws [OF assms(2), of "CHR ''}''" "a0 @ ''{''" r] by (simp add: object_text_def Nil)
    moreover have "?raw ! (length a0 + 1 + length a) = CHR ''}''" "length a0 + 1 + length a < length ?raw"
      using nth_append_length [of "a0 @ ''{'' @ a" "CHR ''}''" r] by (simp_all add: object_text_def Nil)
    ultimately show ?thesis using brace first by (simp add: Members_def Let_def Nil)
  next
    case (Cons m ms')
    obtain a' k b c v d where m: "m = (a', k, b, c, v, d)" by (cases m)
    obtain u where u: "?raw = (a0 @ ''{'') @ a' @ dquote # u"
      by (cases ms') (simp_all add: Cons m object_text_def json_quoted_def)
    have i: "SkipSpace ?raw (length a0 + 1) = length a0 + 1 + length a'"
      using SkipSpace_ws [of a' dquote "a0 @ ''{''" u] assms(3) unfolding u by (simp add: Cons m)
    have "?raw ! (length a0 + 1 + length a') = dquote"
      unfolding u using nth_append_length [of "a0 @ ''{'' @ a'" dquote u] by simp
    then have "Members ?raw visit s = members_loop ?raw visit (length a0 + 1 + length (fst (hd ms))) s"
      using brace first i by (simp add: Members_def Let_def Cons m)
    also have "\<dots> = (visit_all (\<lambda>(k, st, e). visit k st e) (member_spans (length a0 + 1) ms) s, True)"
      using members_loop_all [of ms "length a0 + 1" "a0 @ ''{''" r visit s] assms(3)
      by (simp add: object_text_def Cons)
    finally show ?thesis .
  qed
qed

lemma spans_texts:
  assumes "n = length q"
  shows "map (\<lambda>(k, st, e). (k, take (e - st) (drop st (q @ join_comma (map member_text ms) @ t)))) (member_spans n ms) =
    map (\<lambda>(a, k, b, c, v, d). (k, v)) ms"
  using assms
proof (induction ms arbitrary: q n)
  case (Cons m ms)
  obtain a k b c v d where m: "m = (a, k, b, c, v, d)" by (cases m)
  let ?st = "n + length a + length k + length b + length c + 3"
  define sep where "sep = (if ms = [] then [] else '','')"
  have joined: "join_comma (map member_text (m # ms)) = member_text m @ sep @ join_comma (map member_text ms)"
    by (cases ms) (simp_all add: sep_def)
  define W where "W = q @ join_comma (map member_text (m # ms)) @ t"
  have W: "W = (q @ member_text m @ sep) @ join_comma (map member_text ms) @ t" unfolding W_def joined by simp
  have first: "take (?st + length v - ?st) (drop ?st W) = v"
  proof -
    have "W = (q @ a @ json_quoted k @ b @ CHR '':'' # c) @ v @ d @ sep @ join_comma (map member_text ms) @ t"
      by (simp add: W m)
    moreover have "length (q @ a @ json_quoted k @ b @ CHR '':'' # c) = ?st" by (simp add: json_quoted_def Cons.prems)
    ultimately show ?thesis by (metis add_diff_cancel_left' append_eq_conv_conj append_take_drop_id)
  qed
  have rest: "map (\<lambda>(k, st, e). (k, take (e - st) (drop st W))) (member_spans (?st + length v + length d + 1) ms) =
      map (\<lambda>(a, k, b, c, v, d). (k, v)) ms"
  proof (cases "ms = []")
    case False
    then have "length (q @ member_text m @ sep) = ?st + length v + length d + 1"
      by (simp add: m json_quoted_def sep_def Cons.prems)
    from Cons.IH [OF this [symmetric]] show ?thesis by (simp only: W)
  qed simp
  show ?case
    unfolding W_def [symmetric] unfolding m member_spans.simps Let_def list.map prod.case first rest by simp
qed simp

lemma Members_texts:
  "map (\<lambda>(k, st, e). (k, take (e - st) (drop st (a0 @ object_text a ms @ r)))) (member_spans (length a0 + 1) ms) =
    map (\<lambda>(_, k, _, _, v, _). (k, v)) ms"
  using spans_texts [of "length a0 + 1" "a0 @ ''{''" ms "CHR ''}'' # r"]
  by (cases "ms = []") (simp_all add: object_text_def)

text \<open>C26: Members visits exactly the members of an object, in order: each call gets the key as written
  and the span of the value, which cuts the value's own text out of the input; after a call that
  says stop no other follows, the calls' state is threaded through, and no error is reported.\<close>

theorem Members_exact:
  assumes "json_ws a0" "json_ws a" "list_all member_ok ms"
  shows "Members (a0 @ object_text a ms @ r) visit s =
      (visit_all (\<lambda>(k, st, e). visit k st e) (member_spans (length a0 + 1) ms) s, True) \<and>
    map (\<lambda>(k, st, e). (k, take (e - st) (drop st (a0 @ object_text a ms @ r)))) (member_spans (length a0 + 1) ms) =
      map (\<lambda>(_, k, _, _, v, _). (k, v)) ms"
proof
  show "Members (a0 @ object_text a ms @ r) visit s =
      (visit_all (\<lambda>(k, st, e). visit k st e) (member_spans (length a0 + 1) ms) s, True)"
    by (rule Members_eq [OF assms])
  show "map (\<lambda>(k, st, e). (k, take (e - st) (drop st (a0 @ object_text a ms @ r)))) (member_spans (length a0 + 1) ms) =
      map (\<lambda>(_, k, _, _, v, _). (k, v)) ms"
    by (rule Members_texts)
qed

lemma Members_exact_witness:
  "Members (object_text [] [([], ''k'', [], [], ''1'', [])]) (\<lambda>k st e ks. (ks @ [(k, st, e)], True)) [] = ([(''k'', 5, 6)], True)"
proof -
  have "json ''1''" by (rule json_scalar)
    (simp_all add: scalar_char_def scalar_end_def json_open_def json_close_def json_space_def)
  then have "list_all member_ok [([], ''k'', [], [], ''1'', [])]" by (simp add: json_ws_def)
  from Members_exact [OF _ _ this, of "[]" "[]" "[]" "\<lambda>k st e ks. (ks @ [(k, st, e)], True)" "[]"]
  show ?thesis by (simp add: json_ws_def)
qed



subsection \<open>Elements\<close>

fun element_spans :: "nat \<Rightarrow> element list \<Rightarrow> (nat \<times> nat) list" where
  "element_spans n [] = []"
| "element_spans n ((a, v, b) # es) =
     (let st = n + length a in (st, st + length v) # element_spans (st + length v + length b + 1) es)"

definition array_text :: "string \<Rightarrow> element list \<Rightarrow> string" where
  "array_text a es = CHR ''['' # (if es = [] then a else join_comma (map element_text es)) @ '']''"

lemma json_not_close: "json v \<Longrightarrow> \<exists>x u. v = x # u \<and> \<not> json_space x \<and> \<not> json_close x"
proof -
  assume v: "json v"
  obtain x u where x: "v = x # u" "\<not> json_space x" using json_first [OF v] by blast
  from json_shape [OF v] have "\<not> json_close x" unfolding value_shape_def
    by (auto simp: x(1) json_quoted_def scalar_char_def scalar_end_def json_close_def json_open_def)
  with x show ?thesis by blast
qed

lemma elements_loop_step:
  assumes ok: "json v" "json_ws b" and x: "x = CHR '','' \<or> x = CHR '']''" and raw: "raw = p @ v @ b @ x # r"
  shows "elements_loop raw visit (length p) s = (case visit (length p) (length p + length v) s of (s, goes_on) \<Rightarrow>
     if \<not> goes_on then (s, True)
     else if x = CHR '','' then elements_loop raw visit (SkipSpace raw (length p + length v + length b + 1)) s
     else (s, True))"
proof -
  have val: "SkipValue raw (length p) = Some (length p + length v)"
    unfolding raw by (rule SkipValue_at) (use ok x after_value [of b x r] in \<open>auto simp: scalar_end_def\<close>)
  have after: "SkipSpace raw (length p + length v) = length p + length v + length b"
    using SkipSpace_ws [of b x "p @ v" r] ok x by (auto simp: raw)
  have at_after: "length p + length v + length b < length raw" "raw ! (length p + length v + length b) = x"
    using nth_append_length [of "p @ v @ b" x r] by (simp_all add: raw add.assoc)
  have le: "\<not> length raw \<le> length p + length v + length b" using at_after(1) by simp
  show ?thesis
    unfolding elements_loop.simps [of raw visit "length p" s] val option.case Let_def after at_after(2)
    using x le by (auto split: prod.splits)
qed

lemma elements_loop_all:
  assumes "es \<noteq> []" "list_all element_ok es" "n = length q"
  shows "elements_loop (q @ join_comma (map element_text es) @ CHR '']'' # r) visit (n + length (fst (hd es))) s =
    (visit_all (\<lambda>(st, e). visit st e) (element_spans n es) s, True)"
  using assms
proof (induction es arbitrary: q n s)
  case (Cons el es)
  obtain a v b where el: "el = (a, v, b)" by (cases el)
  have ok: "json_ws a" "json v" "json_ws b" "list_all element_ok es" using Cons.prems(2) by (simp_all add: el)
  define raw where "raw = q @ join_comma (map element_text (el # es)) @ CHR '']'' # r"
  show ?case
  proof (cases es)
    case Nil
    then have raw: "raw = (q @ a) @ v @ b @ CHR '']'' # r" by (simp add: raw_def el)
    from elements_loop_step [OF ok(2,3) _ raw, of visit s] Cons.prems(3)
    have "elements_loop raw visit (length (q @ a)) s = (case visit (n + length a) (n + length a + length v) s of (s, goes_on) \<Rightarrow> (s, True))"
      by (auto split: prod.splits)
    then show ?thesis using Cons.prems(3) unfolding raw_def by (auto simp: el Nil Let_def split: prod.splits)
  next
    case (Cons el' es')
    obtain a' v' b' where el': "el' = (a', v', b')" by (cases el')
    have ok': "json_ws a'" "json v'" using ok(4) by (simp_all add: Cons el')
    let ?rest = "join_comma (map element_text es) @ CHR '']'' # r"
    let ?q = "q @ element_text el @ '',''"
    have raw': "raw = ?q @ ?rest" by (simp add: raw_def Cons)
    have raw: "raw = (q @ a) @ v @ b @ CHR '','' # ?rest" by (simp add: raw' el)
    have n: "length ?q = n + length a + length v + length b + 1" by (simp add: el Cons.prems(3))
    obtain w where u: "?rest = a' @ v' @ w" by (cases es') (simp_all add: Cons el')
    have skip: "SkipSpace raw (n + length a + length v + length b + 1) = length ?q + length (fst (hd es))"
      unfolding n [symmetric] raw' u using SkipSpace_json [OF ok', of ?q w] by (simp add: Cons el')
    have ih: "elements_loop raw visit (length ?q + length (fst (hd es))) s' =
        (visit_all (\<lambda>(st, e). visit st e) (element_spans (length ?q) es) s', True)" for s'
      unfolding raw' by (rule Cons.IH) (use ok(4) Cons in simp_all)
    have pos: "length (q @ a) = n + length a" by (simp add: Cons.prems(3))
    from elements_loop_step [OF ok(2,3) _ raw, of visit s]
    have "elements_loop raw visit (n + length a) s = (case visit (n + length a) (n + length a + length v) s of (s', goes_on) \<Rightarrow>
        if \<not> goes_on then (s', True) else (visit_all (\<lambda>(st, e). visit st e) (element_spans (length ?q) es) s', True))"
      unfolding pos skip ih by (auto split: prod.splits)
    then show ?thesis using Cons.prems(3) unfolding raw_def n
      by (auto simp: el Let_def add.assoc split: prod.splits)
  qed
qed simp

lemma Elements_eq:
  assumes "json_ws a0" "json_ws a" "list_all element_ok es"
  shows "Elements (a0 @ array_text a es @ r) visit s =
    (visit_all (\<lambda>(st, e). visit st e) (element_spans (length a0 + 1) es) s, True)"
proof -
  let ?raw = "a0 @ array_text a es @ r"
  have first: "SkipSpace ?raw 0 = length a0"
    using SkipSpace_ws [OF assms(1), of "CHR ''[''" "[]"] by (simp add: array_text_def)
  have bracket: "?raw ! length a0 = CHR ''[''" "length a0 < length ?raw" "array_text a es \<noteq> []" by (simp_all add: array_text_def)
  show ?thesis
  proof (cases es)
    case Nil
    have "SkipSpace ?raw (length a0 + 1) = length a0 + 1 + length a"
      using SkipSpace_ws [OF assms(2), of "CHR '']''" "a0 @ ''[''" r] by (simp add: array_text_def Nil)
    moreover have "?raw ! (length a0 + 1 + length a) = CHR '']''" "length a0 + 1 + length a < length ?raw"
      using nth_append_length [of "a0 @ ''['' @ a" "CHR '']''" r] by (simp_all add: array_text_def Nil)
    ultimately show ?thesis using bracket first by (simp add: Elements_def Let_def Nil)
  next
    case (Cons el es')
    obtain a' v b where el: "el = (a', v, b)" by (cases el)
    have ok: "json_ws a'" "json v" using assms(3) by (simp_all add: Cons el)
    obtain x u where x: "v = x # u" "\<not> json_space x" "\<not> json_close x" using json_not_close [OF ok(2)] by blast
    obtain w where w: "?raw = (a0 @ ''['') @ a' @ v @ w" by (cases es') (simp_all add: Cons el array_text_def)
    have i: "SkipSpace ?raw (length a0 + 1) = length a0 + 1 + length a'"
      using SkipSpace_json [OF ok, of "a0 @ ''[''" w] unfolding w by simp
    have "?raw ! (length a0 + 1 + length a') = x" unfolding w x(1) using nth_append_length [of "a0 @ ''['' @ a'" x "u @ w"] by simp
    then have "Elements ?raw visit s = elements_loop ?raw visit (length a0 + 1 + length (fst (hd es))) s"
      using bracket first i x(3) by (auto simp: Elements_def Let_def Cons el json_close_def)
    also have "\<dots> = (visit_all (\<lambda>(st, e). visit st e) (element_spans (length a0 + 1) es) s, True)"
      using elements_loop_all [of es "length a0 + 1" "a0 @ ''[''" r visit s] assms(3)
      by (simp add: array_text_def Cons)
    finally show ?thesis .
  qed
qed

lemma element_texts:
  assumes "n = length q"
  shows "map (\<lambda>(st, e). take (e - st) (drop st (q @ join_comma (map element_text es) @ t))) (element_spans n es) = map (\<lambda>(_, v, _). v) es"
  using assms
proof (induction es arbitrary: q n)
  case (Cons el es)
  obtain a v b where el: "el = (a, v, b)" by (cases el)
  define sep where "sep = (if es = [] then [] else '','')"
  have joined: "join_comma (map element_text (el # es)) = element_text el @ sep @ join_comma (map element_text es)"
    by (cases es) (simp_all add: sep_def)
  define W where "W = q @ join_comma (map element_text (el # es)) @ t"
  have W: "W = (q @ element_text el @ sep) @ join_comma (map element_text es) @ t" unfolding W_def joined by simp
  have first: "take (length v) (drop (n + length a) W) = v" by (simp add: W el Cons.prems)
  have rest: "map (\<lambda>(st, e). take (e - st) (drop st W)) (element_spans (n + length a + length v + length b + 1) es) = map (\<lambda>(_, v, _). v) es"
  proof (cases "es = []")
    case False
    then have "length (q @ element_text el @ sep) = n + length a + length v + length b + 1" by (simp add: el sep_def Cons.prems)
    from Cons.IH [OF this [symmetric]] show ?thesis by (simp only: W)
  qed simp
  show ?case unfolding W_def [symmetric] using first rest by (simp add: el Let_def)
qed simp

lemma Elements_texts:
  "map (\<lambda>(st, e). take (e - st) (drop st (a0 @ array_text a es @ r))) (element_spans (length a0 + 1) es) = map (\<lambda>(_, v, _). v) es"
  using element_texts [of "length a0 + 1" "a0 @ ''[''" es "CHR '']'' # r"] by (cases "es = []") (simp_all add: array_text_def)

end
