(* ===== verification/AdaptBody.thy ===== *)
theory AdaptBody
  imports JsonScan
begin

text \<open>
  The rewriting half of src/internal/adapt/adapt.go: decoding the members of a request body, the three
  actions, the index of the rules by channel, and writing the body back.

  A document is the map of the code, from a key to the raw bytes of its value; nil bytes and absent ones
  are both the empty string, as \<open>len\<close> sees them. The decoding of a key with escapes is encoding/json's,
  a parameter: what it makes of a quoted string. The validation of rules and the rule file are in
  AdaptRules.
\<close>


subsection \<open>Rules\<close>

definition TypeEditsImageField :: string where "TypeEditsImageField = ''edits_image_field''"
definition TypeSetField :: string where "TypeSetField = ''set_field''"
definition TypeDeleteField :: string where "TypeDeleteField = ''delete_field''"

text \<open>An absent value is the empty string: \<open>newAction\<close> leaves no empty value otherwise.\<close>

record rule =
  RuleID :: string
  Channel :: string
  RuleKind :: string
  Paths :: "string list"
  Field :: string
  RuleValue :: string
  Overwrite :: bool
  RuleEnabled :: bool
  Note :: string
  RuleUpdatedAt :: instant

record action =
  act_kind :: string
  act_field :: string
  act_value :: string
  act_overwrite :: bool

type_synonym document = "(string, string) amap"


subsection \<open>Reading an object\<close>

text \<open>\<open>unquoteKey\<close>; \<open>unmarshal\<close> decodes a quoted string.\<close>

definition unquoteKey :: "(string \<Rightarrow> string option) \<Rightarrow> string \<Rightarrow> string option" where
  "unquoteKey unmarshal raw =
     (if IndexByte raw backslash = None then (if list_ex (\<lambda>c. of_char c < (0x20 :: nat)) raw then None else Some raw)
      else unmarshal (dquote # raw @ [dquote]))"

definition slice :: "string \<Rightarrow> nat \<Rightarrow> nat \<Rightarrow> string" where
  "slice raw first past = take (past - first) (drop first raw)"

definition eachMember :: "(string \<Rightarrow> string option) \<Rightarrow> string \<Rightarrow> (string \<Rightarrow> string \<Rightarrow> 's \<Rightarrow> 's) \<Rightarrow> 's \<Rightarrow> 's \<times> bool" where
  "eachMember unmarshal obj fn s =
     (let ((s, readable), scanned) = Members obj (\<lambda>raw first past (s, _). case unquoteKey unmarshal raw of
            None \<Rightarrow> ((s, False), False)
          | Some key \<Rightarrow> ((fn key (slice obj first past) s, True), True)) (s, True)
      in (s, scanned \<and> readable))"

definition decodeObject :: "(string \<Rightarrow> string option) \<Rightarrow> string \<Rightarrow> document option" where
  "decodeObject unmarshal body =
     (let start = SkipSpace body 0
      in case SkipValue body start of
           None \<Rightarrow> None
         | Some past \<Rightarrow> if body ! start \<noteq> CHR ''{'' \<or> SkipSpace body past \<noteq> length body then None
             else (case eachMember unmarshal body (\<lambda>key value doc. aset key value doc) [] of
                 (doc, True) \<Rightarrow> Some doc | (_, False) \<Rightarrow> None))"


subsection \<open>Writing an object\<close>

definition hexDigit :: "nat \<Rightarrow> char" where
  "hexDigit n = ''0123456789abcdef'' ! n"

definition escape_char :: "char \<Rightarrow> string" where
  "escape_char c = (if c = dquote \<or> c = backslash then [backslash, c]
     else if of_char c < (0x20 :: nat) then [backslash, CHR ''u'', CHR ''0'', CHR ''0'', hexDigit (of_char c div 16), hexDigit (of_char c mod 16)]
     else [c])"

definition appendString :: "string \<Rightarrow> string" where
  "appendString s = json_quoted (concat (map escape_char s))"

definition doc_get :: "document \<Rightarrow> string \<Rightarrow> string" where
  "doc_get doc key = (case aget doc key of None \<Rightarrow> [] | Some v \<Rightarrow> v)"

definition encodeObject :: "document \<Rightarrow> string" where
  "encodeObject doc = CHR ''{'' # join_comma (map (\<lambda>key. appendString key @ CHR '':'' # doc_get doc key) (sort (akeys doc))) @ ''}''"

definition joinArray :: "string list \<Rightarrow> string" where
  "joinArray values = CHR ''['' # join_comma values @ '']''"


subsection \<open>The images of an edit\<close>

definition isString :: "string \<Rightarrow> bool" where
  "isString raw \<longleftrightarrow> raw \<noteq> [] \<and> hd raw = dquote"

definition isObject :: "string \<Rightarrow> bool" where
  "isObject raw \<longleftrightarrow> raw \<noteq> [] \<and> hd raw = CHR ''{''"

definition nonEmptyString :: "string \<Rightarrow> string option" where
  "nonEmptyString raw = (if 2 < length raw \<and> hd raw = dquote then Some raw else None)"

text \<open>\<open>imageURL\<close>: the URL of an element, if it has one; \<^const>\<open>None\<close> when an object cannot be read. The
  inner state is the values under \<open>image_url\<close> and \<open>url\<close>.\<close>

definition imageURL :: "(string \<Rightarrow> string option) \<Rightarrow> string \<Rightarrow> string option option" where
  "imageURL unmarshal element =
     (if isString element then Some (nonEmptyString element)
      else if \<not> isObject element then Some None
      else case eachMember unmarshal element (\<lambda>key value (primary, fallback).
               if key = ''image_url'' then (value, fallback) else if key = ''url'' then (primary, value) else (primary, fallback)) ([], []) of
        (_, False) \<Rightarrow> None
      | ((primary, fallback), True) \<Rightarrow>
          (case (if isObject primary then eachMember unmarshal primary (\<lambda>key value found. if key = ''url'' then value else found) []
                 else (primary, True)) of
             (_, False) \<Rightarrow> None
           | (primary, True) \<Rightarrow> (case nonEmptyString primary of Some u \<Rightarrow> Some (Some u) | None \<Rightarrow> Some (nonEmptyString fallback))))"

definition moveEditImages :: "(string \<Rightarrow> string option) \<Rightarrow> document \<Rightarrow> document \<times> bool" where
  "moveEditImages unmarshal doc =
     (if aget doc ''image'' \<noteq> None then (doc, False)
      else let images = doc_get doc ''images''
      in if images = [] \<or> hd images \<noteq> CHR ''['' then (doc, False)
      else case Elements images (\<lambda>first past (urls, readable). case imageURL unmarshal (slice images first past) of
             None \<Rightarrow> ((urls, False), False)
           | Some None \<Rightarrow> ((urls, True), True)
           | Some (Some url) \<Rightarrow> ((urls @ [url], True), True)) ([], True) of
        ((urls, readable), scanned) \<Rightarrow>
          if \<not> scanned \<or> \<not> readable then (doc, False)
          else (case urls of [] \<Rightarrow> (doc, False)
             | [url] \<Rightarrow> (adel ''images'' (aset ''image'' url doc), True)
             | _ \<Rightarrow> (adel ''images'' (aset ''image'' (joinArray urls) doc), True)))"


subsection \<open>Applying rules\<close>

text \<open>\<open>action.apply\<close>: the document and whether it changed.\<close>

definition apply_action :: "(string \<Rightarrow> string option) \<Rightarrow> action \<Rightarrow> document \<Rightarrow> document \<times> bool" where
  "apply_action unmarshal a doc =
     (if act_kind a = TypeEditsImageField then moveEditImages unmarshal doc
      else if act_kind a = TypeSetField then
        (case aget doc (act_field a) of
           Some current \<Rightarrow> if \<not> act_overwrite a \<or> current = act_value a then (doc, False) else (aset (act_field a) (act_value a) doc, True)
         | None \<Rightarrow> (aset (act_field a) (act_value a) doc, True))
      else if act_kind a = TypeDeleteField then
        (if aget doc (act_field a) = None then (doc, False) else (adel (act_field a) doc, True))
      else (doc, False))"

record bookRule =
  br_id :: string
  br_paths :: "string list"
  br_act :: action

text \<open>The index by channel, absent channels without rules; the nil book has none.\<close>

type_synonym book = "string \<Rightarrow> bookRule list"

definition rule_action :: "rule \<Rightarrow> action" where
  "rule_action r = \<lparr>act_kind = RuleKind r, act_field = Field r, act_value = RuleValue r, act_overwrite = Overwrite r\<rparr>"

definition newBook :: "rule list \<Rightarrow> book" where
  "newBook rs = fold (\<lambda>r b. if \<not> RuleEnabled r then b
     else b(Channel r := b (Channel r) @ [\<lparr>br_id = RuleID r, br_paths = Paths r, br_act = rule_action r\<rparr>])) rs (\<lambda>_. [])"

definition Match :: "book option \<Rightarrow> string \<Rightarrow> string \<Rightarrow> bool" where
  "Match b channel path = (case b of None \<Rightarrow> False | Some b \<Rightarrow> list_ex (\<lambda>r. path \<in> set (br_paths r)) (b channel))"

text \<open>The loop of \<open>Apply\<close> over the rules of the channel.\<close>

definition apply_rule :: "(string \<Rightarrow> string option) \<Rightarrow> string \<Rightarrow> bookRule \<Rightarrow> document \<times> string list \<Rightarrow> document \<times> string list" where
  "apply_rule unmarshal path r = (\<lambda>(doc, applied).
     if path \<in> set (br_paths r) then (case apply_action unmarshal (br_act r) doc of
         (doc, changed) \<Rightarrow> (doc, if changed then applied @ [br_id r] else applied))
     else (doc, applied))"

definition Apply :: "(string \<Rightarrow> string option) \<Rightarrow> book option \<Rightarrow> string \<Rightarrow> string \<Rightarrow> string \<Rightarrow> string option \<times> string list" where
  "Apply unmarshal b channel path body =
     (if \<not> Match b channel path then (None, [])
      else case decodeObject unmarshal body of
        None \<Rightarrow> (None, [])
      | Some doc \<Rightarrow>
        (let (doc, applied) = fold (apply_rule unmarshal path) (case b of None \<Rightarrow> [] | Some b \<Rightarrow> b channel) (doc, [])
         in if applied = [] then (None, []) else (Some (encodeObject doc), applied)))"


subsection \<open>Members by their texts\<close>

text \<open>What \<open>eachMember\<close> makes of an object whose keys it can read: a fold over the keys and the texts of
  the values; and what it keeps of any object.\<close>

lemma visit_readable:
  assumes "\<forall>(k, first, past) \<in> set sp. unquoteKey unmarshal k \<noteq> None"
  shows "visit_all (\<lambda>(k, first, past) (s, _). case unquoteKey unmarshal k of
      None \<Rightarrow> ((s, False), False) | Some key \<Rightarrow> ((fn key (slice obj first past) s, True), True)) sp (s, True) =
    (fold (\<lambda>(k, v). fn (the (unquoteKey unmarshal k)) v) (map (\<lambda>(k, first, past). (k, slice obj first past)) sp) s, True)"
  using assms by (induction sp arbitrary: s) auto

lemma spans_keys: "map fst (member_spans n ms) = map (\<lambda>(_, k, _). k) ms"
proof (induction n ms rule: member_spans.induct)
  case (2 n a k b c v d ms)
  then show ?case by (simp add: Let_def)
qed simp

lemma slice_texts: "map (\<lambda>(k, first, past). (k, slice (a0 @ object_text a ms @ r) first past)) (member_spans (length a0 + 1) ms) =
    map (\<lambda>(_, k, _, _, v, _). (k, v)) ms"
  unfolding slice_def by (rule Members_texts)

definition keys_readable :: "(string \<Rightarrow> string option) \<Rightarrow> member list \<Rightarrow> bool" where
  "keys_readable unmarshal ms \<longleftrightarrow> list_all (\<lambda>(_, k, _). unquoteKey unmarshal k \<noteq> None) ms"

lemma eachMember_eq:
  assumes "json_ws a0" "json_ws a" "list_all member_ok ms" "keys_readable unmarshal ms"
  shows "eachMember unmarshal (a0 @ object_text a ms @ r) fn s =
    (fold (\<lambda>(k, v). fn (the (unquoteKey unmarshal k)) v) (map (\<lambda>(_, k, _, _, v, _). (k, v)) ms) s, True)"
proof -
  let ?obj = "a0 @ object_text a ms @ r"
  have "set (map fst (member_spans (length a0 + 1) ms)) = set (map (\<lambda>(_, k, _). k) ms)" by (simp only: spans_keys)
  moreover have "\<forall>k \<in> set (map (\<lambda>(_, k, _). k) ms). unquoteKey unmarshal k \<noteq> None"
    using assms(4) by (auto simp: keys_readable_def list_all_iff)
  ultimately have "\<forall>k \<in> set (map fst (member_spans (length a0 + 1) ms)). unquoteKey unmarshal k \<noteq> None" by simp
  then have "\<forall>(k, first, past) \<in> set (member_spans (length a0 + 1) ms). unquoteKey unmarshal k \<noteq> None" by auto
  from visit_readable [OF this, of fn ?obj s] show ?thesis
    unfolding eachMember_def Members_eq [OF assms(1-3)] slice_texts by simp
qed

lemma visit_keeps:
  assumes "P (fst s)" "\<forall>(k, first, past) \<in> set sp. \<forall>key s. P s \<longrightarrow> P (fn key (slice obj first past) s)"
  shows "P (fst (visit_all (\<lambda>(k, first, past) (s, _). case unquoteKey unmarshal k of
      None \<Rightarrow> ((s, False), False) | Some key \<Rightarrow> ((fn key (slice obj first past) s, True), True)) sp s))"
  using assms
proof (induction sp arbitrary: s)
  case (Cons x sp)
  obtain k first past where x: "x = (k, first, past)" by (cases x)
  obtain t u where s: "s = (t, u)" by force
  show ?case
  proof (cases "unquoteKey unmarshal k")
    case None
    then show ?thesis using Cons.prems by (simp add: x s)
  next
    case (Some key)
    have "P (fst (fn key (slice obj first past) t, True))" using Cons.prems by (simp add: x s)
    from Cons.IH [OF this] Cons.prems(2) show ?thesis by (simp add: x s Some)
  qed
qed simp

lemma eachMember_keeps:
  assumes "json_ws a0" "json_ws a" "list_all member_ok ms" "P s" "\<And>key v s. json v \<Longrightarrow> P s \<Longrightarrow> P (fn key v s)"
  shows "P (fst (eachMember unmarshal (a0 @ object_text a ms @ r) fn s))"
proof -
  let ?obj = "a0 @ object_text a ms @ r"
  have "json (slice ?obj first past)" if "(k, first, past) \<in> set (member_spans (length a0 + 1) ms)" for k first past
  proof -
    have "(k, slice ?obj first past) \<in> set (map (\<lambda>(_, k, _, _, v, _). (k, v)) ms)"
      unfolding slice_texts [of a0 a ms r, symmetric] using that by force
    then show ?thesis using assms(3) by (auto simp: list_all_iff)
  qed
  then have "P (fst (visit_all (\<lambda>(k, first, past) (s, _). case unquoteKey unmarshal k of
      None \<Rightarrow> ((s, False), False) | Some key \<Rightarrow> ((fn key (slice ?obj first past) s, True), True)) (member_spans (length a0 + 1) ms) (s, True)))"
    using assms(4,5) by (intro visit_keeps [where P = P]) (simp, blast)
  then show ?thesis unfolding eachMember_def Members_eq [OF assms(1-3)] by (simp add: Let_def case_prod_unfold)
qed


subsection \<open>Reading back what is written\<close>

lemma SkipSpace_rest: "json_ws r \<Longrightarrow> SkipSpace (p @ r) (length p) = length (p @ r)"
proof (induction r arbitrary: p)
  case Nil
  then show ?case by (subst SkipSpace.simps) simp
next
  case (Cons c r)
  have "SkipSpace (p @ c # r) (length p) = SkipSpace (p @ c # r) (length p + 1)"
    using Cons.prems by (subst SkipSpace.simps) (simp add: json_ws_def)
  also have "\<dots> = SkipSpace ((p @ [c]) @ r) (length (p @ [c]))" by simp
  also have "\<dots> = length ((p @ [c]) @ r)" by (rule Cons.IH) (use Cons.prems in \<open>simp add: json_ws_def\<close>)
  finally show ?case by simp
qed

lemma object_json: "json_ws a \<Longrightarrow> list_all member_ok ms \<Longrightarrow> json (object_text a ms)"
proof (cases "ms = []")
  case False
  assume ok: "list_all member_ok ms"
  have "json (CHR ''{'' # join_comma (map member_text ms) @ ''}'')"
    by (rule json_object [OF False]) (use ok in \<open>auto simp: list_all_iff\<close>)
  then show ?thesis using False by (simp add: object_text_def)
qed (simp add: object_text_def json_empty_object)

lemma array_json: "json_ws a \<Longrightarrow> list_all element_ok es \<Longrightarrow> json (array_text a es)"
proof (cases "es = []")
  case False
  assume ok: "list_all element_ok es"
  have "json (CHR ''['' # join_comma (map element_text es) @ '']'')"
    by (rule json_array [OF False]) (use ok in \<open>auto simp: list_all_iff\<close>)
  then show ?thesis using False by (simp add: array_text_def)
qed (simp add: array_text_def json_empty_array)

definition members_doc :: "(string \<Rightarrow> string option) \<Rightarrow> member list \<Rightarrow> document" where
  "members_doc unmarshal ms = fold (\<lambda>(k, v). aset (the (unquoteKey unmarshal k)) v) (map (\<lambda>(_, k, _, _, v, _). (k, v)) ms) []"

lemma decodeObject_eq:
  assumes "json_ws a0" "json_ws a" "list_all member_ok ms" "json_ws r" "keys_readable unmarshal ms"
  shows "decodeObject unmarshal (a0 @ object_text a ms @ r) = Some (members_doc unmarshal ms)"
proof -
  let ?body = "a0 @ object_text a ms @ r"
  have first: "SkipSpace ?body 0 = length a0"
    using SkipSpace_ws [OF assms(1), of "CHR ''{''" "[]"] by (simp add: object_text_def)
  have past: "SkipValue ?body (length a0) = Some (length a0 + length (object_text a ms))"
    by (rule SkipValue_at [OF object_json [OF assms(2,3)]]) (simp add: self_ended_def object_text_def json_open_def)
  have last: "SkipSpace ?body (length a0 + length (object_text a ms)) = length ?body"
    using SkipSpace_rest [OF assms(4), of "a0 @ object_text a ms"] by simp
  have brace: "?body ! length a0 = CHR ''{''" by (simp add: object_text_def)
  show ?thesis
    unfolding decodeObject_def Let_def first past option.case brace last eachMember_eq [OF assms(1-3,5)]
    by (simp add: members_doc_def)
qed

text \<open>The keys that are written as they are; the others go through the decoder of encoding/json.\<close>

definition plain_char :: "char \<Rightarrow> bool" where
  "plain_char c \<longleftrightarrow> c \<noteq> dquote \<and> c \<noteq> backslash \<and> (0x20 :: nat) \<le> of_char c"

definition key_safe :: "(string \<Rightarrow> string option) \<Rightarrow> string \<Rightarrow> bool" where
  "key_safe unmarshal key \<longleftrightarrow> list_all plain_char key \<or> unmarshal (appendString key) = Some key"

lemma escape_plain: "list_all plain_char key \<Longrightarrow> concat (map escape_char key) = key"
  by (induction key) (auto simp: plain_char_def escape_char_def)

lemma hex_plain: "n < 16 \<Longrightarrow> hexDigit n \<noteq> dquote \<and> hexDigit n \<noteq> backslash"
  by (simp add: hexDigit_def less_Suc_eq eval_nat_numeral) (elim disjE; simp)

lemma escaped_body: "string_body (concat (map escape_char s))"
proof (induction s)
  case (Cons c s)
  have "of_char c div 16 < (16 :: nat)" "of_char c mod 16 < (16 :: nat)" if "of_char c < (0x20 :: nat)" using that by simp_all
  then show ?case using Cons hex_plain by (auto simp: escape_char_def)
qed simp

lemma plain_unquoted: "list_all plain_char key \<Longrightarrow> unquoteKey unmarshal key = Some key"
proof -
  assume k: "list_all plain_char key"
  then have "backslash \<notin> set key" by (induction key) (auto simp: plain_char_def)
  moreover have "\<not> list_ex (\<lambda>c. of_char c < (0x20 :: nat)) key" using k by (induction key) (auto simp: plain_char_def)
  ultimately show ?thesis unfolding unquoteKey_def IndexByte_None [symmetric] by simp
qed

lemma escape_char_backslash: "\<not> plain_char c \<Longrightarrow> backslash \<in> set (escape_char c)"
  unfolding plain_char_def escape_char_def not_le by (cases "c = dquote \<or> c = backslash") simp_all

lemma escaped_backslash: "\<not> list_all plain_char s \<Longrightarrow> backslash \<in> set (concat (map escape_char s))"
proof (induction s)
  case (Cons c s)
  show ?case
  proof (cases "plain_char c")
    case True
    then have "\<not> list_all plain_char s" using Cons.prems by simp
    from Cons.IH [OF this] show ?thesis by simp
  next
    case False
    from escape_char_backslash [OF this] show ?thesis by simp
  qed
qed simp

lemma key_unquoted: "key_safe unmarshal key \<Longrightarrow> unquoteKey unmarshal (concat (map escape_char key)) = Some key"
proof (cases "list_all plain_char key")
  case True
  then show ?thesis by (simp add: escape_plain plain_unquoted)
next
  case False
  assume "key_safe unmarshal key"
  moreover have "IndexByte (concat (map escape_char key)) backslash \<noteq> None" using escaped_backslash [OF False] by (simp only: IndexByte_None) simp
  ultimately show ?thesis using False unfolding unquoteKey_def key_safe_def appendString_def json_quoted_def by (simp only: if_False simp_thms)
qed

lemma encodeObject_text: "encodeObject doc = object_text [] (map (\<lambda>key. ([], concat (map escape_char key), [], [], doc_get doc key, [])) (sort (akeys doc)))"
  by (simp add: encodeObject_def object_text_def appendString_def comp_def)

lemma aget_fold_aset: "aget (fold (\<lambda>k. aset k (f k)) ks m) x = (if x \<in> set ks then Some (f x) else aget m x)"
  by (induction ks arbitrary: m) auto

definition doc_ok :: "(string \<Rightarrow> string option) \<Rightarrow> document \<Rightarrow> bool" where
  "doc_ok unmarshal doc \<longleftrightarrow> list_all (\<lambda>(key, v). key_safe unmarshal key \<and> json v) doc"

lemma doc_get_json: "doc_ok unmarshal doc \<Longrightarrow> key \<in> set (akeys doc) \<Longrightarrow> json (doc_get doc key) \<and> key_safe unmarshal key"
proof -
  assume "doc_ok unmarshal doc" "key \<in> set (akeys doc)"
  moreover from this(2) obtain v where v: "aget doc key = Some v" by (metis map_of_eq_None_iff not_None_eq set_map)
  moreover from v have "(key, v) \<in> set doc" by (rule map_of_SomeD)
  ultimately show ?thesis by (auto simp: doc_ok_def doc_get_def list_all_iff)
qed

text \<open>Writing a document and reading it back gives the same members.\<close>

lemma encode_decode:
  assumes "doc_ok unmarshal doc"
  shows "\<exists>doc'. decodeObject unmarshal (encodeObject doc) = Some doc' \<and> aget doc' = aget doc"
proof -
  let ?ms = "map (\<lambda>key. ([], concat (map escape_char key), [], [], doc_get doc key, [])) (sort (akeys doc)) :: member list"
  have ok: "list_all member_ok ?ms" using doc_get_json [OF assms] escaped_body by (auto simp: list_all_iff json_ws_def)
  have rd: "keys_readable unmarshal ?ms" using doc_get_json [OF assms] key_unquoted by (auto simp: keys_readable_def list_all_iff)
  have d: "decodeObject unmarshal (encodeObject doc) = Some (members_doc unmarshal ?ms)"
    using decodeObject_eq [of "[]" "[]" ?ms "[]", OF _ _ ok _ rd] by (simp add: encodeObject_text json_ws_def)
  have m: "members_doc unmarshal ?ms = fold (\<lambda>key. aset key (doc_get doc key)) (sort (akeys doc)) []"
  proof -
    have "members_doc unmarshal ?ms = fold (\<lambda>key. aset (the (unquoteKey unmarshal (concat (map escape_char key)))) (doc_get doc key)) (sort (akeys doc)) []"
      by (simp add: members_doc_def fold_map comp_def)
    also have "\<dots> = fold (\<lambda>key. aset key (doc_get doc key)) (sort (akeys doc)) []"
      by (rule fold_cong) (use doc_get_json [OF assms] key_unquoted in auto)
    finally show ?thesis .
  qed
  have "aget (members_doc unmarshal ?ms) x = aget doc x" for x
  proof -
    have "x \<in> set (sort (akeys doc)) \<longleftrightarrow> aget doc x \<noteq> None" by (simp add: map_of_eq_None_iff)
    then show ?thesis unfolding m aget_fold_aset by (auto simp del: set_sort simp: doc_get_def)
  qed
  with d show ?thesis by blast
qed



subsection \<open>Documents stay documents\<close>

lemma json_object_inv:
  assumes "json v" "isObject v"
  obtains a ms where "v = object_text a ms" "json_ws a" "list_all member_ok ms"
  using assms
proof (cases rule: json.cases)
  case (json_scalar)
  then show thesis using assms(2) by (cases v) (auto simp: isObject_def scalar_char_def json_open_def)
next
  case (json_empty_object a)
  then show thesis using that [of a "[]"] by (simp add: object_text_def)
next
  case (json_object ms)
  then have "member_ok x" if "x \<in> set ms" for x using that by (cases x) auto
  then have "list_all member_ok ms" by (simp add: list_all_iff)
  then show thesis using that [of "[]" ms] json_object by (simp add: object_text_def json_ws_def)
qed (use assms(2) in \<open>simp_all add: isObject_def json_quoted_def\<close>)

lemma json_array_inv:
  assumes "json v" "v \<noteq> []" "hd v = CHR ''[''"
  obtains a es where "v = array_text a es" "json_ws a" "list_all element_ok es"
  using assms(1)
proof (cases rule: json.cases)
  case (json_scalar)
  then show thesis using assms(2,3) by (cases v) (auto simp: scalar_char_def json_open_def)
next
  case (json_empty_array a)
  then show thesis using that [of a "[]"] by (simp add: array_text_def)
next
  case (json_array es)
  then have "element_ok x" if "x \<in> set es" for x using that by (cases x) auto
  then have "list_all element_ok es" by (simp add: list_all_iff)
  then show thesis using that [of "[]" es] json_array by (simp add: array_text_def json_ws_def)
qed (use assms(2,3) in \<open>simp_all add: json_quoted_def\<close>)

definition blank_or_json :: "string \<Rightarrow> bool" where
  "blank_or_json v \<longleftrightarrow> v = [] \<or> json v"

lemma eachMember_keeps_object:
  assumes "json v" "isObject v" "P s" "\<And>key v s. json v \<Longrightarrow> P s \<Longrightarrow> P (fn key v s)"
  shows "P (fst (eachMember unmarshal v fn s))"
proof -
  obtain a ms where "v = object_text a ms" "json_ws a" "list_all member_ok ms" by (rule json_object_inv [OF assms(1,2)])
  with eachMember_keeps [of "[]" a ms P s fn unmarshal "[]"] assms(3,4) show ?thesis by (simp add: json_ws_def)
qed

lemma nonEmptyString_blank: "blank_or_json v \<Longrightarrow> nonEmptyString v = Some u \<Longrightarrow> json u"
  by (auto simp: nonEmptyString_def blank_or_json_def split: if_splits)

lemma imageURL_json:
  assumes "json v" "imageURL unmarshal v = Some (Some u)"
  shows "json u"
proof (cases "isString v")
  case True
  then show ?thesis using assms by (auto simp: imageURL_def nonEmptyString_def split: if_splits)
next
  case False
  with assms(2) have obj: "isObject v" by (auto simp: imageURL_def split: if_splits)
  define pf where "pf = eachMember unmarshal v (\<lambda>key value (primary, fallback).
     if key = ''image_url'' then (value, fallback) else if key = ''url'' then (primary, value) else (primary, fallback)) ([], [])"
  have "(\<lambda>(p, f). blank_or_json p \<and> blank_or_json f) (fst pf)" unfolding pf_def
    by (rule eachMember_keeps_object [OF assms(1) obj]) (auto simp: blank_or_json_def split: if_splits)
  then have b: "blank_or_json (fst (fst pf))" "blank_or_json (snd (fst pf))" by (auto simp: case_prod_unfold)
  define p where "p = (if isObject (fst (fst pf)) then eachMember unmarshal (fst (fst pf)) (\<lambda>key value found. if key = ''url'' then value else found) []
     else (fst (fst pf), True))"
  have "blank_or_json (fst p)"
  proof (cases "isObject (fst (fst pf))")
    case True
    then have "json (fst (fst pf))" using b(1) by (auto simp: blank_or_json_def isObject_def)
    from eachMember_keeps_object [OF this True, of blank_or_json "[]"] show ?thesis using True by (auto simp: p_def blank_or_json_def)
  next
    case False
    then show ?thesis using b(1) by (simp add: p_def)
  qed
  moreover have "nonEmptyString (fst p) = Some u \<or> nonEmptyString (snd (fst pf)) = Some u"
    using assms(2) False obj unfolding imageURL_def pf_def [symmetric] by (auto simp: case_prod_unfold p_def split: if_splits bool.splits option.splits)
  ultimately show ?thesis using b(2) nonEmptyString_blank by blast
qed

lemma visit_elements_keep:
  assumes "P (fst s)" "\<forall>(first, past) \<in> set sp. \<forall>s. P (fst s) \<longrightarrow> P (fst (fst (visit first past s)))"
  shows "P (fst (visit_all (\<lambda>(first, past). visit first past) sp s))"
  using assms
proof (induction sp arbitrary: s)
  case (Cons x sp)
  obtain first past where x: "x = (first, past)" by force
  obtain t g where v: "visit first past s = (t, g)" by (cases "visit first past s")
  have "\<forall>s. P (fst s) \<longrightarrow> P (fst (fst (visit first past s)))" using bspec [OF Cons.prems(2), of x] by (simp add: x)
  from this [rule_format, OF Cons.prems(1)] have "P (fst t)" by (simp add: v)
  then show ?case using Cons.IH [of t] Cons.prems(2) by (simp add: x v)
qed simp

lemma aset_members: "x \<in> set (aset k v m) \<Longrightarrow> x = (k, v) \<or> x \<in> set m"
  by (induction m) (auto split: if_splits)

lemma adel_members: "x \<in> set (adel k m) \<Longrightarrow> x \<in> set m"
  by (auto simp: AList.delete_eq)

lemma doc_ok_aset: "doc_ok unmarshal doc \<Longrightarrow> key_safe unmarshal k \<Longrightarrow> json v \<Longrightarrow> doc_ok unmarshal (aset k v doc)"
  unfolding doc_ok_def list_all_iff by (intro ballI) (drule aset_members, auto)

lemma doc_ok_adel: "doc_ok unmarshal doc \<Longrightarrow> doc_ok unmarshal (adel k doc)"
  unfolding doc_ok_def list_all_iff by (intro ballI) (drule adel_members, auto)

lemma image_safe: "key_safe unmarshal ''image''"
proof -
  have "list_all plain_char ''image''" by code_simp
  then show ?thesis by (simp add: key_safe_def)
qed

definition images_visit :: "(string \<Rightarrow> string option) \<Rightarrow> string \<Rightarrow> nat \<Rightarrow> nat \<Rightarrow> string list \<times> bool \<Rightarrow> (string list \<times> bool) \<times> bool" where
  "images_visit unmarshal images first past = (\<lambda>(urls, readable). case imageURL unmarshal (slice images first past) of
     None \<Rightarrow> ((urls, False), False)
   | Some None \<Rightarrow> ((urls, True), True)
   | Some (Some url) \<Rightarrow> ((urls @ [url], True), True))"

lemma images_collected:
  assumes "json images" "images \<noteq> []" "hd images = CHR ''[''"
  shows "list_all json (fst (fst (Elements images (images_visit unmarshal images) ([], True))))"
proof -
  obtain a es where es: "images = array_text a es" "json_ws a" "list_all element_ok es" by (rule json_array_inv [OF assms])
  have "json (slice images first past)" if "(first, past) \<in> set (element_spans 1 es)" for first past
  proof -
    have "slice images first past \<in> set (map (\<lambda>(_, v, _). v) es)"
      unfolding Elements_texts [of "[]" a es "[]", symmetric] using that by (force simp: slice_def es(1))
    then show ?thesis using es(3) by (auto simp: list_all_iff)
  qed
  then have sl: "json (slice images first past)" if "(first, past) \<in> set (element_spans 1 es)" for first past using that by blast
  have step: "list_all json (fst (fst (images_visit unmarshal images first past t)))"
    if "(first, past) \<in> set (element_spans 1 es)" "list_all json (fst t)" for first past t
    using imageURL_json [OF sl [OF that(1)], of unmarshal] that(2)
    by (auto simp: images_visit_def case_prod_unfold split: option.split)
  have "list_all json (fst (visit_all (\<lambda>(first, past). images_visit unmarshal images first past) (element_spans 1 es) ([], True)))"
    by (rule visit_elements_keep [where P = "list_all json"]) (simp, use step in blast)
  moreover have "Elements images v t = (visit_all (\<lambda>(first, past). v first past) (element_spans 1 es) t, True)" for v :: "nat \<Rightarrow> nat \<Rightarrow> string list \<times> bool \<Rightarrow> (string list \<times> bool) \<times> bool" and t
    using Elements_eq [of "[]" a es "[]" v t] es by (simp add: json_ws_def)
  ultimately show ?thesis by simp
qed

lemma joinArray_json: "urls \<noteq> [] \<Longrightarrow> list_all json urls \<Longrightarrow> json (joinArray urls)"
proof -
  assume u: "urls \<noteq> []" "list_all json urls"
  let ?es = "map (\<lambda>u. ([], u, [])) urls :: element list"
  have "json (array_text [] ?es)" by (rule array_json) (use u(2) in \<open>auto simp: json_ws_def list_all_iff\<close>)
  then show ?thesis using u(1) by (simp add: array_text_def joinArray_def comp_def)
qed

lemma images_moved:
  assumes "doc_ok unmarshal doc"
  shows "doc_ok unmarshal (fst (moveEditImages unmarshal doc))"
    "k \<noteq> ''image'' \<Longrightarrow> k \<noteq> ''images'' \<Longrightarrow> aget (fst (moveEditImages unmarshal doc)) k = aget doc k"
    "\<not> snd (moveEditImages unmarshal doc) \<Longrightarrow> fst (moveEditImages unmarshal doc) = doc"
proof -
  define images where "images = doc_get doc ''images''"
  define c where "c = Elements images (images_visit unmarshal images) ([], True)"
  define skip where "skip \<longleftrightarrow> aget doc ''image'' \<noteq> None \<or> images = [] \<or> hd images \<noteq> CHR ''['' \<or> \<not> snd c \<or> \<not> snd (fst c) \<or> fst (fst c) = []"
  have m: "moveEditImages unmarshal doc =
     (if skip then (doc, False)
      else (adel ''images'' (aset ''image'' (if length (fst (fst c)) = 1 then hd (fst (fst c)) else joinArray (fst (fst c))) doc), True))"
    unfolding moveEditImages_def images_def [symmetric] Let_def images_visit_def [symmetric] c_def [symmetric] skip_def
    by (cases c; cases "fst (fst c)") (auto split: list.splits)
  show "k \<noteq> ''image'' \<Longrightarrow> k \<noteq> ''images'' \<Longrightarrow> aget (fst (moveEditImages unmarshal doc)) k = aget doc k"
    "\<not> snd (moveEditImages unmarshal doc) \<Longrightarrow> fst (moveEditImages unmarshal doc) = doc"
    unfolding m by (cases skip; simp)+
  show "doc_ok unmarshal (fst (moveEditImages unmarshal doc))"
  proof (cases skip)
    case True
    then show ?thesis using assms unfolding m by simp
  next
    case False
    note c = False [unfolded skip_def]
    then have "aget doc ''images'' \<noteq> None" by (auto simp: images_def doc_get_def split: option.splits)
    then have "''images'' \<in> set (akeys doc)" by (simp add: map_of_eq_None_iff)
    then have "json images" using doc_get_json [OF assms] by (simp add: images_def)
    then have "list_all json (fst (fst c))" unfolding c_def by (rule images_collected) (use c in auto)
    then have "json (if length (fst (fst c)) = 1 then hd (fst (fst c)) else joinArray (fst (fst c)))"
      using c joinArray_json by (cases "fst (fst c)") auto
    then show ?thesis using False unfolding m by (simp add: doc_ok_adel doc_ok_aset [OF assms image_safe])
  qed
qed



subsection \<open>What an adapted body holds\<close>

text \<open>The keys an action may change, and what the validation of rules gives of one.\<close>

definition act_targets :: "action \<Rightarrow> string set" where
  "act_targets a = (if act_kind a = TypeEditsImageField then {''image'', ''images''} else {act_field a})"

definition act_ok :: "(string \<Rightarrow> string option) \<Rightarrow> action \<Rightarrow> bool" where
  "act_ok unmarshal a \<longleftrightarrow> act_kind a = TypeSetField \<longrightarrow> key_safe unmarshal (act_field a) \<and> json (act_value a)"

lemma kinds_distinct [simp]: "TypeEditsImageField \<noteq> TypeSetField" "TypeSetField \<noteq> TypeDeleteField" "TypeEditsImageField \<noteq> TypeDeleteField"
  by (simp_all add: TypeEditsImageField_def TypeSetField_def TypeDeleteField_def)

lemma action_applied:
  assumes "doc_ok unmarshal doc" "act_ok unmarshal a"
  shows "doc_ok unmarshal (fst (apply_action unmarshal a doc))"
    "k \<notin> act_targets a \<Longrightarrow> aget (fst (apply_action unmarshal a doc)) k = aget doc k"
    "\<not> snd (apply_action unmarshal a doc) \<Longrightarrow> fst (apply_action unmarshal a doc) = doc"
proof -
  show "doc_ok unmarshal (fst (apply_action unmarshal a doc))"
    using images_moved(1) [OF assms(1)] assms doc_ok_aset [OF assms(1)] doc_ok_adel [OF assms(1)]
    by (simp add: apply_action_def act_ok_def split: option.split)
  show "k \<notin> act_targets a \<Longrightarrow> aget (fst (apply_action unmarshal a doc)) k = aget doc k"
    using images_moved(2) [OF assms(1), of k]
    by (cases "act_kind a = TypeEditsImageField") (auto simp: apply_action_def act_targets_def split: option.split)
  show "\<not> snd (apply_action unmarshal a doc) \<Longrightarrow> fst (apply_action unmarshal a doc) = doc"
    using images_moved(3) [OF assms(1)]
    by (cases "act_kind a = TypeEditsImageField") (auto simp: apply_action_def split: option.splits if_splits)
qed

text \<open>The key is a target of a rule that was applied.\<close>

definition touched :: "string \<Rightarrow> bookRule list \<Rightarrow> string list \<Rightarrow> string \<Rightarrow> bool" where
  "touched path rs applied k \<longleftrightarrow> list_ex (\<lambda>r. path \<in> set (br_paths r) \<and> br_id r \<in> set applied \<and> k \<in> act_targets (br_act r)) rs"

lemma rules_applied:
  assumes "doc_ok unmarshal doc" "\<forall>r \<in> set rs. act_ok unmarshal (br_act r)" "fold (apply_rule unmarshal path) rs (doc, ids) = (doc', applied)"
  shows "doc_ok unmarshal doc' \<and> set ids \<subseteq> set applied \<and> (\<forall>k. \<not> touched path rs applied k \<longrightarrow> aget doc' k = aget doc k)"
  using assms
proof (induction rs arbitrary: doc ids)
  case (Cons r rs)
  obtain doc1 ids1 where r: "apply_rule unmarshal path r (doc, ids) = (doc1, ids1)" by force
  have ok: "act_ok unmarshal (br_act r)" using Cons.prems(2) by simp
  note a = action_applied [OF Cons.prems(1) ok]
  have one: "doc_ok unmarshal doc1" "set ids \<subseteq> set ids1"
    "\<And>k. \<not> (path \<in> set (br_paths r) \<and> br_id r \<in> set ids1 \<and> k \<in> act_targets (br_act r)) \<Longrightarrow> aget doc1 k = aget doc k"
    using r a Cons.prems(1) by (auto simp: apply_rule_def case_prod_unfold split: if_splits)
  have "doc_ok unmarshal doc' \<and> set ids1 \<subseteq> set applied \<and> (\<forall>k. \<not> touched path rs applied k \<longrightarrow> aget doc' k = aget doc1 k)"
    using Cons.IH [OF one(1), of ids1] Cons.prems(2,3) r by simp
  then show ?case using one by (auto simp: touched_def)
qed simp

lemma members_doc_ok:
  assumes "list_all member_ok ms" "\<forall>k \<in> set (akeys (members_doc unmarshal ms)). key_safe unmarshal k"
  shows "doc_ok unmarshal (members_doc unmarshal ms)"
proof -
  have "\<forall>x \<in> set (fold (\<lambda>(k, v). aset (the (unquoteKey unmarshal k)) v) kvs m). json (snd x)"
    if "\<forall>x \<in> set kvs. json (snd x)" "\<forall>x \<in> set m. json (snd x)" for kvs m
    using that
  proof (induction kvs arbitrary: m)
    case (Cons kv kvs)
    have "\<forall>x \<in> set (aset (the (unquoteKey unmarshal (fst kv))) (snd kv) m). json (snd x)" using Cons.prems aset_members by fastforce
    then show ?case using Cons.IH Cons.prems(1) by (simp add: case_prod_unfold)
  qed simp
  moreover have "\<forall>x \<in> set (map (\<lambda>(_, k, _, _, v, _). (k, v)) ms). json (snd x)" using assms(1) by (auto simp: list_all_iff)
  ultimately have "\<forall>x \<in> set (members_doc unmarshal ms). json (snd x)" unfolding members_doc_def by (metis empty_iff empty_set)
  then show ?thesis using assms(2) by (fastforce simp: doc_ok_def list_all_iff)
qed

text \<open>The body an upstream gets is the client's, as the rules of its channel and path rewrite its
  members, and still one JSON object; every member no applied rule names is there with the exact bytes of
  its value.\<close>

lemma adapted_body:
  assumes "json_ws a0" "json_ws a" "list_all member_ok ms" "json_ws r" "keys_readable unmarshal ms"
    "\<forall>k \<in> set (akeys (members_doc unmarshal ms)). key_safe unmarshal k" "\<forall>ru \<in> set (b channel). act_ok unmarshal (br_act ru)"
    "Apply unmarshal (Some b) channel path (a0 @ object_text a ms @ r) = (Some out, applied)"
  shows "\<exists>doc. decodeObject unmarshal out = Some doc \<and>
    aget doc = aget (fst (fold (apply_rule unmarshal path) (b channel) (members_doc unmarshal ms, []))) \<and>
    (\<forall>k. \<not> touched path (b channel) applied k \<longrightarrow> aget doc k = aget (members_doc unmarshal ms) k)"
proof -
  let ?doc = "members_doc unmarshal ms"
  note d = decodeObject_eq [OF assms(1-5)]
  obtain doc1 ids where f: "fold (apply_rule unmarshal path) (b channel) (?doc, []) = (doc1, ids)" by force
  have o: "out = encodeObject doc1" "applied = ids"
    using assms(8) by (auto simp: Apply_def d f split: if_splits)
  have ok: "doc_ok unmarshal ?doc" by (rule members_doc_ok [OF assms(3,6)])
  note ru = rules_applied [OF ok assms(7) f]
  then have "\<exists>doc'. decodeObject unmarshal out = Some doc' \<and> aget doc' = aget doc1" unfolding o(1) by (intro encode_decode) blast
  then show ?thesis using ru unfolding o(2) f fst_conv by metis
qed

end
