(* ===== verification/AdaptRules.thy ===== *)
theory AdaptRules
  imports AdaptBody Admin
begin

text \<open>
  The rule half of src/internal/adapt/adapt.go: validation, the rule file and the manager.

  encoding/json is a parameter: \<open>compacted\<close> is json.Compact (\<^const>\<open>None\<close> its error), \<open>encode\<close> writes the
  version-1 document of a rule list and \<open>decode\<close> is the strict decoding of a file, to its version and
  rules. A save writes every value indented, so what a start reads back differs from what was saved in
  the white space of the values. A clock reading and the random bytes of an id are arguments. The
  manager carries its file, so that what a restart finds is part of its state.
\<close>


subsection \<open>Rule types and limits\<close>

definition maxRules :: nat where "maxRules = 200"
definition maxPaths :: nat where "maxPaths = 8"
definition maxPathChars :: nat where "maxPathChars = 128"
definition maxFieldChars :: nat where "maxFieldChars = 64"
definition maxValueBytes :: nat where "maxValueBytes = 4096"
definition maxNoteChars :: nat where "maxNoteChars = 200"
definition ruleFileVersion :: int where "ruleFileVersion = 1"

record RuleType =
  TypeName :: string
  DefaultPaths :: "string list"
  NeedsField :: bool
  NeedsValue :: bool

definition ruleTypes :: "RuleType list" where
  "ruleTypes =
     [\<lparr>TypeName = TypeEditsImageField, DefaultPaths = [''/v1/images/edits''], NeedsField = False, NeedsValue = False\<rparr>,
      \<lparr>TypeName = TypeSetField, DefaultPaths = [], NeedsField = True, NeedsValue = True\<rparr>,
      \<lparr>TypeName = TypeDeleteField, DefaultPaths = [], NeedsField = True, NeedsValue = False\<rparr>]"

definition lookupType :: "string \<Rightarrow> RuleType option" where
  "lookupType name = find (\<lambda>t. TypeName t = name) ruleTypes"

text \<open>The errors; \<open>invalid\<close> are those that wrap \<open>ErrInvalidRule\<close>.\<close>

datatype rule_error =
    BadChannel | UnknownType | BadField | TakesNoField | ValueMissing | ValueNotUTF8 | ValueNotJSON | ValueTooLong | TakesNoValue
  | RuleNoteTooLong | PathNoSlash nat | PathWithSpaces nat | PathTooLong nat | TooManyPaths | NoPath
  | TooManyRules | BadRuleID | DuplicateRuleID string
  | RuleNotFound string | RulesReadOnly | NoRandomness | RulesNotEncoded | RulesNotSaved
  | RulesPathMissing | RulesUnreadable | RulesMalformed | RulesVersion int | RuleOfFile nat rule_error


subsection \<open>Validating a rule\<close>

definition isLowerHex :: "string \<Rightarrow> nat \<Rightarrow> bool" where
  "isLowerHex s n \<longleftrightarrow> length s = n \<and>
     list_all (\<lambda>c. let k = of_char c :: nat in (48 \<le> k \<and> k \<le> 57) \<or> (97 \<le> k \<and> k \<le> 102)) s"

definition field_char :: "char \<Rightarrow> bool" where
  "field_char c \<longleftrightarrow> (let k = of_char c :: nat in
     (97 \<le> k \<and> k \<le> 122) \<or> (65 \<le> k \<and> k \<le> 90) \<or> (48 \<le> k \<and> k \<le> 57) \<or> k = 95 \<or> k = 46 \<or> k = 45)"

definition isField :: "string \<Rightarrow> bool" where
  "isField s \<longleftrightarrow> s \<noteq> [] \<and> length s \<le> maxFieldChars \<and> list_all field_char s"

text \<open>\<open>utf8.Valid\<close>: no byte outside ASCII is a rune of its own. And the runes \<open>normalizePaths\<close> refuses:
  spaces, and the control characters below U+0020 and from U+007F to U+009F.\<close>

function utf8_valid :: "string \<Rightarrow> bool" where
  "utf8_valid s = (if s = [] then True else if rune_len s = 1 \<and> 128 \<le> (of_char (hd s) :: nat) then False else utf8_valid (drop (max 1 (rune_len s)) s))"
  by pat_completeness auto
termination
  by (relation "measure length") auto

declare utf8_valid.simps [simp del]

definition control_rune :: "string \<Rightarrow> bool" where
  "control_rune s \<longleftrightarrow> (case s of [] \<Rightarrow> False
   | a # r \<Rightarrow> of_char a < (32 :: nat) \<or> of_char a = (127 :: nat)
       \<or> of_char a = (194 :: nat) \<and> (case r of [] \<Rightarrow> False | b # _ \<Rightarrow> 128 \<le> (of_char b :: nat) \<and> of_char b \<le> (159 :: nat)))"

function spaced :: "string \<Rightarrow> bool" where
  "spaced s = (if s = [] then False else if 0 < space_len s \<or> control_rune s then True else spaced (drop (max 1 (rune_len s)) s))"
  by pat_completeness auto
termination
  by (relation "measure length") auto

declare spaced.simps [simp del]

definition newAction :: "(string \<Rightarrow> string option) \<Rightarrow> rule \<Rightarrow> rule_error + action" where
  "newAction compacted ru =
     (let kind = TrimSpace (RuleKind ru)
      in case lookupType kind of
           None \<Rightarrow> Inl UnknownType
         | Some spec \<Rightarrow>
           (let field = TrimSpace (Field ru)
            in if NeedsField spec \<and> \<not> isField field then Inl BadField
            else if \<not> NeedsField spec \<and> field \<noteq> [] then Inl TakesNoField
            else let v = TrimSpace (RuleValue ru); v = (if v = ''null'' then [] else v);
                     act = \<lparr>act_kind = kind, act_field = field, act_value = [], act_overwrite = Overwrite ru \<and> kind = TypeSetField\<rparr>
            in if NeedsValue spec \<and> v = [] then Inl ValueMissing
            else if NeedsValue spec then
              (if \<not> utf8_valid v then Inl ValueNotUTF8
               else case compacted v of
                 None \<Rightarrow> Inl ValueNotJSON
               | Some c \<Rightarrow> if maxValueBytes < length c then Inl ValueTooLong else Inr (act\<lparr>act_value := c\<rparr>))
            else if v \<noteq> [] then Inl TakesNoValue
            else Inr act))"

fun normalize_paths_from :: "nat \<Rightarrow> string list \<Rightarrow> string list \<Rightarrow> rule_error + string list" where
  "normalize_paths_from i [] out = Inr out"
| "normalize_paths_from i (p # ps) out =
     (let path = TrimSpace p
      in if \<not> HasPrefix path ''/'' then Inl (PathNoSlash i)
         else if spaced path then Inl (PathWithSpaces i)
         else if maxPathChars < RuneCount path then Inl (PathTooLong i)
         else if path \<in> set out then normalize_paths_from (i + 1) ps out
         else if length out = maxPaths then Inl TooManyPaths
         else normalize_paths_from (i + 1) ps (out @ [path]))"

definition normalizePaths :: "string list \<Rightarrow> RuleType \<Rightarrow> rule_error + string list" where
  "normalizePaths paths spec = (case normalize_paths_from 0 paths [] of
     Inl e \<Rightarrow> Inl e
   | Inr out \<Rightarrow> if out \<noteq> [] then Inr out else if DefaultPaths spec = [] then Inl NoPath else Inr (DefaultPaths spec))"

definition normalizeRule :: "(string \<Rightarrow> string option) \<Rightarrow> rule \<Rightarrow> rule_error + rule" where
  "normalizeRule compacted ru =
     (let channel = ToLower (TrimSpace (Channel ru))
      in if \<not> isLowerHex channel 16 then Inl BadChannel
         else case newAction compacted ru of
           Inl e \<Rightarrow> Inl e
         | Inr act \<Rightarrow> (case normalizePaths (Paths ru) (case lookupType (act_kind act) of Some spec \<Rightarrow> spec | None \<Rightarrow> hd ruleTypes) of
             Inl e \<Rightarrow> Inl e
           | Inr paths \<Rightarrow>
             (let note = TrimSpace (Note ru)
              in if maxNoteChars < RuneCount note then Inl RuleNoteTooLong
                 else Inr \<lparr>RuleID = TrimSpace (RuleID ru), Channel = channel, RuleKind = act_kind act, Paths = paths, Field = act_field act,
                   RuleValue = act_value act, Overwrite = act_overwrite act, RuleEnabled = RuleEnabled ru, Note = note,
                   RuleUpdatedAt = RuleUpdatedAt ru\<rparr>)))"

text \<open>\<open>Preview\<close>: the body and whether it changed, or the error.\<close>

definition Preview :: "(string \<Rightarrow> string option) \<Rightarrow> (string \<Rightarrow> string option) \<Rightarrow> rule \<Rightarrow> string \<Rightarrow> rule_error + string \<times> bool" where
  "Preview unmarshal compacted ru body = (case newAction compacted ru of
     Inl e \<Rightarrow> Inl e
   | Inr act \<Rightarrow> (case decodeObject unmarshal body of
       None \<Rightarrow> Inr (body, False)
     | Some doc \<Rightarrow> (case apply_action unmarshal act doc of
         (doc, changed) \<Rightarrow> Inr (if changed then (encodeObject doc, True) else (body, False)))))"


subsection \<open>Rule ids\<close>

definition idPrefix :: string where "idPrefix = ''r_''"

definition isRuleID :: "string \<Rightarrow> bool" where
  "isRuleID rid \<longleftrightarrow> HasPrefix rid idPrefix \<and> isLowerHex (drop (length idPrefix) rid) 16"

definition indexOf :: "rule list \<Rightarrow> string \<Rightarrow> nat option" where
  "indexOf rs rid = find (\<lambda>i. RuleID (rs ! i) = rid) [0..<length rs]"

text \<open>\<open>newRuleID\<close>: the eight bytes of each draw, \<^const>\<open>None\<close> when the reader fails. The result is absent
  when every draw names a rule.\<close>

partial_function (option) newRuleID :: "rule list \<Rightarrow> (nat \<Rightarrow> string option) \<Rightarrow> nat \<Rightarrow> (rule_error + string) option" where
  "newRuleID rs rand i = (case rand i of
     None \<Rightarrow> Some (Inl NoRandomness)
   | Some bytes \<Rightarrow> (let rid = idPrefix @ hex_encode bytes in if indexOf rs rid = None then Some (Inr rid) else newRuleID rs rand (i + 1)))"


subsection \<open>The manager\<close>

record hit =
  HitCount :: int
  LastAt :: instant

definition no_hit :: hit where "no_hit = \<lparr>HitCount = 0, LastAt = zero_time\<rparr>"

record 'f manager =
  m_rules :: "rule list"
  m_hits :: "(string, hit) amap"
  m_book :: book
  m_file :: "'f disk_file"

fun load_rules_from :: "(string \<Rightarrow> string option) \<Rightarrow> nat \<Rightarrow> rule list \<Rightarrow> rule list \<Rightarrow> rule_error + rule list" where
  "load_rules_from compacted i [] rs = Inr rs"
| "load_rules_from compacted i (stored # later) rs = (case normalizeRule compacted stored of
     Inl e \<Rightarrow> Inl (RuleOfFile i e)
   | Inr ru \<Rightarrow> if \<not> isRuleID (RuleID ru) then Inl (RuleOfFile i BadRuleID)
       else if indexOf rs (RuleID ru) \<noteq> None then Inl (RuleOfFile i (DuplicateRuleID (RuleID ru)))
       else load_rules_from compacted (i + 1) later (rs @ [ru]))"

definition loadRules :: "(string \<Rightarrow> string option) \<Rightarrow> ('f \<Rightarrow> (int \<times> rule list) option) \<Rightarrow> 'f disk_file \<Rightarrow> rule_error + rule list" where
  "loadRules compacted decode f = (case f of
     Absent \<Rightarrow> Inr []
   | Unreadable \<Rightarrow> Inl RulesUnreadable
   | Content c \<Rightarrow> (case decode c of
       None \<Rightarrow> Inl RulesMalformed
     | Some (version, rs) \<Rightarrow> if version \<noteq> ruleFileVersion then Inl (RulesVersion version)
         else if maxRules < length rs then Inl TooManyRules
         else load_rules_from compacted 0 rs []))"

definition NewManager :: "(string \<Rightarrow> string option) \<Rightarrow> ('f \<Rightarrow> (int \<times> rule list) option) \<Rightarrow> string \<Rightarrow> 'f disk_file \<Rightarrow> rule_error + 'f manager" where
  "NewManager compacted decode path f =
     (if TrimSpace path = [] then Inl RulesPathMissing
      else case loadRules compacted decode f of
        Inl e \<Rightarrow> Inl e
      | Inr rs \<Rightarrow> Inr \<lparr>m_rules = rs, m_hits = fold (\<lambda>ru. aset (RuleID ru) no_hit) rs [], m_book = newBook rs, m_file = f\<rparr>)"

definition save_rules :: "(rule list \<Rightarrow> 'f option) \<Rightarrow> (write_call \<Rightarrow> bool) \<Rightarrow> rule list \<Rightarrow> 'f disk_file \<Rightarrow> 'f disk_file \<times> rule_error option" where
  "save_rules encode fails rs f = (case encode rs of
     None \<Rightarrow> (f, Some RulesNotEncoded)
   | Some c \<Rightarrow> (case AtomicWrite fails c f of (f, ok) \<Rightarrow> (f, if ok then None else Some RulesNotSaved)))"

text \<open>\<open>Rules\<close> is the list itself; its copies are equal to it.\<close>

definition Rules :: "'f manager \<Rightarrow> rule list" where "Rules m = m_rules m"
definition Book :: "'f manager \<Rightarrow> book" where "Book m = m_book m"

text \<open>The part of \<open>Upsert\<close> after the id is known: save, then publish.\<close>

definition publish_rules :: "(rule list \<Rightarrow> 'f option) \<Rightarrow> (write_call \<Rightarrow> bool) \<Rightarrow> rule list \<Rightarrow> (string, hit) amap \<Rightarrow> 'f manager \<Rightarrow>
    'f manager \<times> rule_error option" where
  "publish_rules encode fails rs hits m = (case save_rules encode fails rs (m_file m) of
     (f, Some e) \<Rightarrow> (m\<lparr>m_file := f\<rparr>, Some e)
   | (f, None) \<Rightarrow> (m\<lparr>m_file := f, m_hits := hits, m_rules := rs, m_book := newBook rs\<rparr>, None))"

definition Upsert :: "(string \<Rightarrow> string option) \<Rightarrow> (rule list \<Rightarrow> 'f option) \<Rightarrow> (write_call \<Rightarrow> bool) \<Rightarrow> (nat \<Rightarrow> string option) \<Rightarrow> bool \<Rightarrow> instant \<Rightarrow>
    rule \<Rightarrow> 'f manager \<Rightarrow> ('f manager \<times> (rule_error + rule)) option" where
  "Upsert compacted encode fails rand canWrite now ru m = (case normalizeRule compacted ru of
     Inl e \<Rightarrow> Some (m, Inl e)
   | Inr ru \<Rightarrow>
     (if \<not> canWrite then Some (m, Inl RulesReadOnly)
      else let ru = ru\<lparr>RuleUpdatedAt := now\<rparr>;
               publish = (\<lambda>ru rs hits. case publish_rules encode fails rs hits m of
                 (m, Some e) \<Rightarrow> Some (m, Inl e) | (m, None) \<Rightarrow> Some (m, Inr ru))
      in if RuleID ru = [] then
        (if maxRules \<le> length (m_rules m) then Some (m, Inl TooManyRules)
         else case newRuleID (m_rules m) rand 0 of
           None \<Rightarrow> None
         | Some (Inl e) \<Rightarrow> Some (m, Inl e)
         | Some (Inr rid) \<Rightarrow> (let ru = ru\<lparr>RuleID := rid\<rparr> in publish ru (m_rules m @ [ru]) (aset rid no_hit (m_hits m))))
      else case indexOf (m_rules m) (RuleID ru) of
        None \<Rightarrow> Some (m, Inl (RuleNotFound (RuleID ru)))
      | Some i \<Rightarrow> publish ru ((m_rules m)[i := ru]) (m_hits m)))"

definition Delete_rule :: "(rule list \<Rightarrow> 'f option) \<Rightarrow> (write_call \<Rightarrow> bool) \<Rightarrow> bool \<Rightarrow> string \<Rightarrow> 'f manager \<Rightarrow> 'f manager \<times> rule_error option" where
  "Delete_rule encode fails canWrite id0 m =
     (let rid = TrimSpace id0
      in if \<not> canWrite then (m, Some RulesReadOnly)
         else case indexOf (m_rules m) rid of
           None \<Rightarrow> (m, Some (RuleNotFound rid))
         | Some i \<Rightarrow> publish_rules encode fails (take i (m_rules m) @ drop (i + 1) (m_rules m)) (adel rid (m_hits m)) m)"

definition record_hit :: "instant \<Rightarrow> string \<Rightarrow> (string, hit) amap \<Rightarrow> (string, hit) amap" where
  "record_hit now rid hits = (case aget hits rid of
     None \<Rightarrow> hits
   | Some h \<Rightarrow> aset rid \<lparr>HitCount = wrap64 (HitCount h + 1), LastAt = now\<rparr> hits)"

definition RecordHits :: "instant \<Rightarrow> string list \<Rightarrow> 'f manager \<Rightarrow> 'f manager" where
  "RecordHits now applied m = (if applied = [] then m else m\<lparr>m_hits := fold (record_hit now) applied (m_hits m)\<rparr>)"

definition Hits :: "'f manager \<Rightarrow> (string, hit) amap" where
  "Hits m = filter (\<lambda>(rid, h). 0 < HitCount h) (m_hits m)"


subsection \<open>Validation is idempotent\<close>

text \<open>What json.Compact and the indentation of a save promise: a compacted value is JSON without space
  around it, is valid UTF-8 when its source was, compacts to itself, and is what its indentation compacts
  to; only null compacts to null.\<close>

definition json_laws :: "(string \<Rightarrow> string option) \<Rightarrow> (string \<Rightarrow> string) \<Rightarrow> bool" where
  "json_laws compacted indent \<longleftrightarrow> compacted [] = None \<and> compacted ''null'' = Some ''null'' \<and>
     (\<forall>v w. compacted v = Some w \<longrightarrow> json w \<and> compacted (indent w) = Some w \<and> TrimSpace (indent w) = indent w \<and>
       (utf8_valid v \<longrightarrow> utf8_valid (indent w)) \<and> (w = ''null'' \<longrightarrow> TrimSpace v = ''null''))"

text \<open>A rule as a file holds it.\<close>

definition stored_rule :: "(string \<Rightarrow> string) \<Rightarrow> rule \<Rightarrow> rule" where
  "stored_rule indent ru = ru\<lparr>RuleValue := if RuleValue ru = [] then [] else indent (RuleValue ru)\<rparr>"

lemma plain_trim:
  assumes "list_all (\<lambda>c. 32 < (of_char c :: nat) \<and> (of_char c :: nat) < 127) s"
  shows "TrimSpace s = s"
proof -
  have sp: "space_len t = 0 \<and> space_len_rev t = 0" if "list_all (\<lambda>c. 32 < (of_char c :: nat) \<and> (of_char c :: nat) < 127) t" for t
    using that by (cases t; cases "tl t"; cases "tl (tl t)") (auto simp: ascii_space_def space2_def space3_def)
  have "strip_spaces space_len s = s" by (rule strip_spaces_fixed) (use sp [OF assms] in simp)
  moreover have "strip_spaces space_len_rev (rev s) = rev s" by (rule strip_spaces_fixed) (use sp [of "rev s"] assms in \<open>simp add: list_all_rev\<close>)
  ultimately show ?thesis by (simp add: TrimSpace_def)
qed

lemma hex_trim: "isLowerHex s n \<Longrightarrow> TrimSpace s = s"
  by (rule plain_trim) (auto simp: isLowerHex_def Let_def elim!: list.pred_mono_strong)

lemma hex_lower: "isLowerHex s n \<Longrightarrow> ToLower s = s"
  unfolding isLowerHex_def ToLower_def by (intro map_idI) (auto simp: list_all_iff char_lower_def Let_def)

lemma field_trim: "list_all field_char s \<Longrightarrow> TrimSpace s = s"
  by (rule plain_trim) (auto simp: field_char_def Let_def elim!: list.pred_mono_strong)

lemma type_names: "TrimSpace TypeEditsImageField = TypeEditsImageField" "TrimSpace TypeSetField = TypeSetField" "TrimSpace TypeDeleteField = TypeDeleteField"
  by code_simp+

lemma lookupType_cases:
  assumes "lookupType k = Some spec"
  shows "k = TypeEditsImageField \<and> spec = ruleTypes ! 0 \<or> k = TypeSetField \<and> spec = ruleTypes ! 1 \<or> k = TypeDeleteField \<and> spec = ruleTypes ! 2"
  using assms by (auto simp: lookupType_def ruleTypes_def split: if_splits)

lemma lookupType_trim: "lookupType k = Some spec \<Longrightarrow> TrimSpace k = k"
  using lookupType_cases type_names by metis

text \<open>What a valid action looks like.\<close>

definition act_valid :: "(string \<Rightarrow> string option) \<Rightarrow> action \<Rightarrow> bool" where
  "act_valid compacted act \<longleftrightarrow> (case lookupType (act_kind act) of None \<Rightarrow> False
   | Some spec \<Rightarrow> (if NeedsField spec then isField (act_field act) else act_field act = []) \<and>
       (act_overwrite act \<longrightarrow> act_kind act = TypeSetField) \<and>
       (if NeedsValue spec then length (act_value act) \<le> maxValueBytes \<and> act_value act \<noteq> [] \<and>
          (\<exists>v. utf8_valid v \<and> TrimSpace v = v \<and> v \<noteq> ''null'' \<and> compacted v = Some (act_value act)) else act_value act = []))"

lemma json_nonempty: "json v \<Longrightarrow> v \<noteq> []"
  by (erule json.cases) (simp_all only: json_quoted_def list.distinct not_False_eq_True append_is_Nil_conv)

lemma newAction_valid:
  assumes "json_laws compacted indent" "newAction compacted ru = Inr act"
  shows "act_valid compacted act"
proof -
  obtain spec where k: "lookupType (TrimSpace (RuleKind ru)) = Some spec" using assms(2) by (cases "lookupType (TrimSpace (RuleKind ru))") (auto simp: newAction_def)
  have ne: "compacted v = Some w \<Longrightarrow> w \<noteq> []" for v w using assms(1) json_nonempty unfolding json_laws_def by blast
  show ?thesis
  proof (cases "NeedsValue spec")
    case True
    then show ?thesis using assms(2) k ne unfolding newAction_def act_valid_def Let_def
      by (auto split: if_splits option.splits)
  next
    case False
    then show ?thesis using assms(2) k unfolding newAction_def act_valid_def Let_def
      by (auto split: if_splits)
  qed
qed


lemma newAction_again:
  assumes "json_laws compacted indent" "act_valid compacted act" "RuleKind ru = act_kind act" "Field ru = act_field act"
    "RuleValue ru = (if act_value act = [] then [] else indent (act_value act))" "Overwrite ru = act_overwrite act"
  shows "newAction compacted ru = Inr act"
proof -
  obtain spec where k: "lookupType (act_kind act) = Some spec" using assms(2) by (auto simp: act_valid_def split: option.splits)
  note tk = lookupType_trim [OF k]
  have tf: "TrimSpace (act_field act) = act_field act" using assms(2) k field_trim by (auto simp: act_valid_def isField_def split: if_splits)
  have ow: "(act_overwrite act \<and> act_kind act = TypeSetField) = act_overwrite act" using assms(2) k by (auto simp: act_valid_def)
  show ?thesis
  proof (cases "NeedsValue spec")
    case True
    then obtain v where v: "utf8_valid v" "TrimSpace v = v" "v \<noteq> ''null''" "compacted v = Some (act_value act)" "act_value act \<noteq> []"
      "length (act_value act) \<le> maxValueBytes" using assms(2) k by (auto simp: act_valid_def)
    let ?w = "act_value act"
    have w: "compacted (indent ?w) = Some ?w" "TrimSpace (indent ?w) = indent ?w" "utf8_valid (indent ?w)" "?w \<noteq> ''null''"
      using assms(1) v unfolding json_laws_def by metis+
    have "indent ?w \<noteq> []" "indent ?w \<noteq> ''null''" using assms(1) w unfolding json_laws_def by auto
    then show ?thesis using True k tk tf v w assms ow by (simp add: newAction_def act_valid_def Let_def split: if_splits)
  next
    case False
    then show ?thesis using k tk tf assms ow by (simp add: newAction_def act_valid_def Let_def split: if_splits)
  qed
qed

text \<open>The paths of a valid rule.\<close>

definition path_ok :: "string \<Rightarrow> bool" where
  "path_ok p \<longleftrightarrow> TrimSpace p = p \<and> HasPrefix p ''/'' \<and> \<not> spaced p \<and> RuneCount p \<le> maxPathChars"

lemma normalize_paths_ok:
  "normalize_paths_from i ps out = Inr out' \<Longrightarrow> list_all path_ok out \<Longrightarrow> distinct out \<Longrightarrow> length out \<le> maxPaths \<Longrightarrow>
    list_all path_ok out' \<and> distinct out' \<and> length out' \<le> maxPaths"
proof (induction ps arbitrary: i out)
  case (Cons p ps)
  have "path_ok (TrimSpace p)" using Cons.prems(1) by (auto simp: path_ok_def Let_def split: if_splits)
  moreover have "normalize_paths_from (i + 1) ps out = Inr out' \<or>
      normalize_paths_from (i + 1) ps (out @ [TrimSpace p]) = Inr out' \<and> TrimSpace p \<notin> set out \<and> length out \<noteq> maxPaths"
    using Cons.prems(1) by (auto simp: Let_def split: if_splits)
  ultimately show ?case using Cons.IH [of "i + 1" out] Cons.IH [of "i + 1" "out @ [TrimSpace p]"] Cons.prems(2-4) by auto
qed simp

lemma normalize_paths_again:
  "list_all path_ok ps \<Longrightarrow> distinct (out @ ps) \<Longrightarrow> length (out @ ps) \<le> maxPaths \<Longrightarrow> normalize_paths_from i ps out = Inr (out @ ps)"
  by (induction ps arbitrary: i out) (simp_all add: path_ok_def Let_def)

lemma lookupType_normal: "lookupType k = Some spec \<Longrightarrow> list_all path_ok (DefaultPaths spec) \<and> distinct (DefaultPaths spec) \<and> length (DefaultPaths spec) \<le> maxPaths"
proof -
  assume "lookupType k = Some spec"
  from lookupType_cases [OF this] have "DefaultPaths spec = [''/v1/images/edits''] \<or> DefaultPaths spec = []" by (auto simp: ruleTypes_def)
  moreover have "path_ok ''/v1/images/edits''" by code_simp
  ultimately show ?thesis by (auto simp: maxPaths_def)
qed

lemma normalizePaths_again:
  assumes "lookupType k = Some spec" "normalizePaths ps spec = Inr qs"
  shows "normalizePaths qs spec' = Inr qs \<and> list_all path_ok qs \<and> qs \<noteq> []"
proof -
  obtain out where out: "normalize_paths_from 0 ps [] = Inr out" using assms(2) by (auto simp: normalizePaths_def split: sum.splits)
  then have "list_all path_ok out \<and> distinct out \<and> length out \<le> maxPaths" using normalize_paths_ok [OF out] by simp
  then have qs: "list_all path_ok qs \<and> distinct qs \<and> length qs \<le> maxPaths" "qs \<noteq> []"
    using assms(2) out lookupType_normal [OF assms(1)] by (auto simp: normalizePaths_def split: if_splits)
  then have "normalize_paths_from 0 qs [] = Inr qs" using normalize_paths_again [of qs "[]"] by simp
  then show ?thesis using qs by (simp add: normalizePaths_def)
qed

text \<open>A validated rule, as a save stores it, is validated to itself.\<close>

lemma normalizeRule_parts:
  assumes "normalizeRule compacted ru = Inr ru'"
  obtains act spec where "isLowerHex (Channel ru') 16" "newAction compacted ru = Inr act" "rule_action ru' = act" "lookupType (act_kind act) = Some spec"
    "normalizePaths (Paths ru) spec = Inr (Paths ru')" "TrimSpace (Note ru') = Note ru'" "RuneCount (Note ru') \<le> maxNoteChars"
    "TrimSpace (RuleID ru') = RuleID ru'"
proof -
  obtain act where act: "newAction compacted ru = Inr act" using assms by (auto simp: normalizeRule_def Let_def split: if_splits sum.splits)
  then obtain spec where spec: "lookupType (act_kind act) = Some spec"
    by (cases "lookupType (TrimSpace (RuleKind ru))") (auto simp: newAction_def Let_def split: if_splits option.splits)
  show thesis
    by (rule that [OF _ act _ spec]) (use assms act spec in \<open>auto simp: normalizeRule_def Let_def rule_action_def split: if_splits sum.splits\<close>)
qed

lemma normalizeRule_again:
  assumes "json_laws compacted indent" "normalizeRule compacted ru = Inr ru'"
  shows "normalizeRule compacted (stored_rule indent (ru'\<lparr>RuleUpdatedAt := t\<rparr>)) = Inr (ru'\<lparr>RuleUpdatedAt := t\<rparr>)"
proof -
  obtain act spec where p: "isLowerHex (Channel ru') 16" "newAction compacted ru = Inr act" "rule_action ru' = act" "lookupType (act_kind act) = Some spec"
    "normalizePaths (Paths ru) spec = Inr (Paths ru')" "TrimSpace (Note ru') = Note ru'" "RuneCount (Note ru') \<le> maxNoteChars"
    "TrimSpace (RuleID ru') = RuleID ru'" by (rule normalizeRule_parts [OF assms(2)])
  have a: "newAction compacted (stored_rule indent (ru'\<lparr>RuleUpdatedAt := t\<rparr>)) = Inr act"
    by (rule newAction_again [OF assms(1) newAction_valid [OF assms(1) p(2)]]) (simp_all add: stored_rule_def p(3) [symmetric] rule_action_def)
  have "act_kind act = RuleKind ru'" "act_field act = Field ru'" "act_value act = RuleValue ru'" "act_overwrite act = Overwrite ru'"
    using p(3) by (auto simp: rule_action_def)
  with a normalizePaths_again [OF p(4,5)] p(4) p(6,7,8) hex_trim [OF p(1)] hex_lower [OF p(1)] p(1) show ?thesis
    by (cases ru') (simp add: normalizeRule_def stored_rule_def Let_def)
qed


subsection \<open>The invariant of the manager\<close>

lemma indexOf_None: "indexOf rs rid = None \<longleftrightarrow> rid \<notin> RuleID ` set rs"
  by (force simp: indexOf_def find_None_iff set_conv_nth)

lemma indexOf_Some: "indexOf rs rid = Some i \<Longrightarrow> i < length rs \<and> RuleID (rs ! i) = rid"
  by (auto simp: indexOf_def find_Some_iff)

lemma hex_digit_low: "n < 16 \<Longrightarrow> (of_char (hex_digit n) :: nat) = (if n < 10 then 48 + n else 87 + n)"
  by (simp add: hex_digit_def)

lemma hex_encoded: "isLowerHex (hex_encode b) (2 * length b)"
proof (induction b)
  case (Cons c b)
  have "of_char c div 16 < (16 :: nat)" "of_char c mod 16 < (16 :: nat)"
    using nat_of_char_less_256 [of c] by (simp_all add: div_less_iff_less_mult)
  then have "isLowerHex [hex_digit (of_char c div 16), hex_digit (of_char c mod 16)] 2" by (simp add: isLowerHex_def Let_def hex_digit_low) linarith
  with Cons show ?case by (simp add: isLowerHex_def hex_encode_def)
qed (simp add: isLowerHex_def hex_encode_def)

definition draws_ok :: "(nat \<Rightarrow> string option) \<Rightarrow> bool" where
  "draws_ok rand \<longleftrightarrow> (\<forall>i b. rand i = Some b \<longrightarrow> length b = 8)"

definition fresh_id :: "rule list \<Rightarrow> (nat \<Rightarrow> string option) \<Rightarrow> rule_error + string \<Rightarrow> bool" where
  "fresh_id rs rand r \<longleftrightarrow> draws_ok rand \<longrightarrow> (\<forall>rid. r = Inr rid \<longrightarrow> isRuleID rid \<and> rid \<notin> RuleID ` set rs)"

lemma newRuleID_fresh:
  assumes "newRuleID rs rand i = Some r"
  shows "fresh_id rs rand r"
proof (rule newRuleID.raw_induct [where P = "\<lambda>rs rand i. fresh_id rs rand", OF _ assms])
  fix rec rs i r and rand :: "nat \<Rightarrow> string option"
  assume IH: "\<And>rs rand i r. rec rs rand i = Some r \<Longrightarrow> fresh_id rs rand r"
    and eq: "(case rand i of None \<Rightarrow> Some (Inl NoRandomness)
      | Some bytes \<Rightarrow> let rid = idPrefix @ hex_encode bytes in if indexOf rs rid = None then Some (Inr rid) else rec rs rand (i + 1)) = Some r"
  show "fresh_id rs rand r"
  proof (cases "rand i")
    case (Some b)
    show ?thesis
    proof (cases "indexOf rs (idPrefix @ hex_encode b) = None")
      case True
      then have "r = Inr (idPrefix @ hex_encode b)" using eq Some by (simp add: Let_def)
      moreover have "isLowerHex (hex_encode b) 16" if "draws_ok rand" using hex_encoded [of b] that Some unfolding draws_ok_def by force
      ultimately show ?thesis using True by (auto simp: fresh_id_def isRuleID_def idPrefix_def indexOf_None)
    next
      case False
      then have "rec rs rand (i + 1) = Some r" using eq Some by (simp add: Let_def del: not_None_eq)
      then show ?thesis by (rule IH)
    qed
  qed (use eq in \<open>auto simp: fresh_id_def\<close>)
qed

text \<open>A draw that names no rule ends the search, and among as many distinct draws as there are rules and
  one more there is such a draw.\<close>

lemma newRuleID_returns:
  assumes "\<forall>j \<in> {i..i + n}. \<exists>b. rand j = Some b" "idPrefix @ hex_encode (the (rand (i + n))) \<notin> RuleID ` set rs"
  shows "\<exists>rid. newRuleID rs rand i = Some (Inr rid)"
  using assms
proof (induction n arbitrary: i)
  case 0
  then show ?case by (subst newRuleID.simps) (auto simp: Let_def indexOf_None)
next
  case (Suc n)
  have "\<exists>b. rand i = Some b" by (rule bspec [OF Suc.prems(1)]) simp
  then obtain b where "rand i = Some b" ..
  with Suc.IH [of "i + 1"] Suc.prems show ?case by (subst newRuleID.simps) (auto simp: Let_def)
qed

lemma hex_digit_inj: "m < 16 \<Longrightarrow> n < 16 \<Longrightarrow> hex_digit m = hex_digit n \<Longrightarrow> m = n"
  by (drule arg_cong [where f = "of_char :: char \<Rightarrow> nat"]) (auto simp: hex_digit_low split: if_splits)

lemma hex_encode_inj: "hex_encode a = hex_encode b \<Longrightarrow> a = b"
proof (induction a arbitrary: b)
  case (Cons c a)
  then obtain d b' where b: "b = d # b'" by (cases b) (simp_all add: hex_encode_def)
  have lt: "of_char x div 16 < (16 :: nat)" "of_char x mod 16 < (16 :: nat)" for x :: char
    using nat_of_char_less_256 [of x] by (simp_all add: div_less_iff_less_mult)
  have "hex_digit (of_char c div 16) = hex_digit (of_char d div 16)" "hex_digit (of_char c mod 16) = hex_digit (of_char d mod 16)" "hex_encode a = hex_encode b'"
    using Cons.prems by (simp_all add: b hex_encode_def)
  then have "of_char c div 16 = (of_char d div 16 :: nat)" "of_char c mod 16 = (of_char d mod 16 :: nat)" "a = b'"
    using hex_digit_inj lt Cons.IH by blast+
  then have "(of_char c :: nat) = of_char d" by (metis div_mult_mod_eq)
  then show ?case using \<open>a = b'\<close> by (simp add: b)
qed (cases b, simp_all add: hex_encode_def)

text \<open>C29: Looking for a new rule id ends: as many different draws as there are rules, and one more, always
  contain a free id.\<close>

theorem newRuleID_ends:
  assumes "\<forall>j \<in> {..length rs}. \<exists>b. rand j = Some b" "inj_on rand {..length rs}"
  shows "\<exists>rid. newRuleID rs rand 0 = Some (Inr rid)"
proof -
  let ?f = "\<lambda>j. idPrefix @ hex_encode (the (rand j))"
  have "inj_on ?f {..length rs}"
  proof (rule inj_onI)
    fix i j assume ij: "i \<in> {..length rs}" "j \<in> {..length rs}" "?f i = ?f j"
    have "hex_encode (the (rand i)) = hex_encode (the (rand j))" using ij(3) by simp
    then have "the (rand i) = the (rand j)" by (rule hex_encode_inj)
    moreover obtain a b where "rand i = Some a" "rand j = Some b" using ij(1,2) assms(1) by blast
    ultimately have "rand i = rand j" by simp
    then show "i = j" by (rule inj_onD [OF assms(2)]) (use ij in simp_all)
  qed
  then have "card (?f ` {..length rs}) = Suc (length rs)" by (simp add: card_image)
  moreover have "card (RuleID ` set rs) \<le> length rs" using card_image_le [of "set rs" RuleID] card_length [of rs] by simp
  ultimately have "card (RuleID ` set rs) < card (?f ` {..length rs})" by linarith
  then have "\<not> ?f ` {..length rs} \<subseteq> RuleID ` set rs" using card_mono [of "RuleID ` set rs" "?f ` {..length rs}"] by (meson finite_imageI finite_set not_le)
  then obtain n where "n \<le> length rs" "?f n \<notin> RuleID ` set rs" by auto
  with newRuleID_returns [of 0 n rand rs] assms(1) show ?thesis by simp
qed

lemma newRuleID_ends_witness:
  "\<exists>rid. newRuleID [] (\<lambda>_. Some ''abcdefgh'') 0 = Some (Inr rid)"
  using newRuleID_ends [of "[]" "\<lambda>_. Some ''abcdefgh''"] by (simp add: inj_on_def)

subsubsection \<open>Rules, book and counters\<close>

definition rules_ok :: "(string \<Rightarrow> string option) \<Rightarrow> (string \<Rightarrow> string) \<Rightarrow> rule list \<Rightarrow> bool" where
  "rules_ok compacted indent rs \<longleftrightarrow> length rs \<le> maxRules \<and> distinct (map RuleID rs) \<and>
     list_all (\<lambda>ru. isRuleID (RuleID ru) \<and> normalizeRule compacted (stored_rule indent ru) = Inr ru) rs"

definition manager_ok :: "(string \<Rightarrow> string option) \<Rightarrow> (string \<Rightarrow> string) \<Rightarrow> 'f manager \<Rightarrow> bool" where
  "manager_ok compacted indent m \<longleftrightarrow> rules_ok compacted indent (m_rules m) \<and> m_book m = newBook (m_rules m) \<and>
     amap_ok (m_hits m) \<and> set (akeys (m_hits m)) = RuleID ` set (m_rules m)"

lemma load_rules_ok:
  assumes "json_laws compacted indent"
  shows "load_rules_from compacted i stored rs = Inr rs' \<Longrightarrow> rules_ok compacted indent rs \<Longrightarrow> length rs + length stored \<le> maxRules \<Longrightarrow>
    rules_ok compacted indent rs'"
proof (induction stored arbitrary: i rs)
  case (Cons ru stored)
  obtain ru' where ru': "normalizeRule compacted ru = Inr ru'" "isRuleID (RuleID ru')" "indexOf rs (RuleID ru') = None"
    "load_rules_from compacted (i + 1) stored (rs @ [ru']) = Inr rs'"
    using Cons.prems(1) by (auto split: sum.splits if_splits)
  have "normalizeRule compacted (stored_rule indent ru') = Inr ru'"
    using normalizeRule_again [OF assms ru'(1), of "RuleUpdatedAt ru'"] by simp
  then have "rules_ok compacted indent (rs @ [ru'])" using Cons.prems(2,3) ru' by (auto simp: rules_ok_def indexOf_None)
  from Cons.IH [OF ru'(4) this] Cons.prems(3) show ?case by simp
qed simp

lemma load_again:
  "list_all (\<lambda>ru. isRuleID (RuleID ru) \<and> normalizeRule compacted (stored_rule indent ru) = Inr ru) rs \<Longrightarrow> distinct (map RuleID (rs0 @ rs)) \<Longrightarrow>
    load_rules_from compacted i (map (stored_rule indent) rs) rs0 = Inr (rs0 @ rs)"
proof (induction rs arbitrary: i rs0)
  case (Cons ru rs)
  then have "indexOf rs0 (RuleID ru) = None" by (auto simp: indexOf_None)
  then show ?case using Cons.prems Cons.IH [of "rs0 @ [ru]" "i + 1"] by simp
qed simp

lemma zero_hits_ok: "amap_ok h \<Longrightarrow> amap_ok (fold (\<lambda>ru. aset (RuleID ru) no_hit) rs h) \<and>
    set (akeys (fold (\<lambda>ru. aset (RuleID ru) no_hit) rs h)) = set (akeys h) \<union> RuleID ` set rs"
proof (induction rs arbitrary: h)
  case (Cons ru rs)
  from Cons.IH [of "aset (RuleID ru) no_hit h"] Cons.prems show ?case by (auto simp: dom_update)
qed simp

lemma NewManager_ok:
  assumes "json_laws compacted indent" "NewManager compacted decode path f = Inr m"
  shows "manager_ok compacted indent m \<and> m_file m = f"
proof -
  obtain rs where rs: "loadRules compacted decode f = Inr rs" "m = \<lparr>m_rules = rs, m_hits = fold (\<lambda>ru. aset (RuleID ru) no_hit) rs [], m_book = newBook rs, m_file = f\<rparr>"
    using assms(2) by (auto simp: NewManager_def split: sum.splits if_splits)
  have "rules_ok compacted indent rs"
  proof (cases f)
    case (Content c)
    then obtain st where "load_rules_from compacted 0 st [] = Inr rs" "length st \<le> maxRules"
      using rs(1) by (auto simp: loadRules_def split: option.splits if_splits)
    with load_rules_ok [OF assms(1)] show ?thesis by (simp add: rules_ok_def)
  qed (use rs(1) in \<open>auto simp: loadRules_def rules_ok_def\<close>)
  then show ?thesis using zero_hits_ok [of "[]" rs] by (simp add: rs(2) manager_ok_def)
qed

lemma publish_ok:
  assumes "manager_ok compacted indent m" "publish_rules encode fails rs hits m = (m', e)"
    "rules_ok compacted indent rs" "amap_ok hits" "set (akeys hits) = RuleID ` set rs"
  shows "manager_ok compacted indent m'"
proof -
  obtain f e' where "save_rules encode fails rs (m_file m) = (f, e')" by force
  then show ?thesis using assms by (cases e') (simp_all add: publish_rules_def manager_ok_def, force+)
qed


lemma ruleID_trim: "isRuleID rid \<Longrightarrow> TrimSpace rid = rid \<and> rid \<noteq> []"
proof -
  assume r: "isRuleID rid"
  then obtain h where h: "rid = idPrefix @ h" by (auto simp: isRuleID_def HasPrefix_iff)
  with r have "isLowerHex h 16" by (simp add: isRuleID_def)
  then have "list_all (\<lambda>c. 32 < (of_char c :: nat) \<and> (of_char c :: nat) < 127) h" by (auto simp: isLowerHex_def Let_def elim!: list.pred_mono_strong)
  then have "list_all (\<lambda>c. 32 < (of_char c :: nat) \<and> (of_char c :: nat) < 127) rid" by (simp add: h idPrefix_def)
  from plain_trim [OF this] show ?thesis by (simp add: h idPrefix_def)
qed

lemma normalizeRule_id:
  assumes "normalizeRule compacted (stored_rule indent ru) = Inr ru" "TrimSpace rid = rid"
  shows "normalizeRule compacted (stored_rule indent (ru\<lparr>RuleID := rid\<rparr>)) = Inr (ru\<lparr>RuleID := rid\<rparr>)"
proof -
  have n: "newAction compacted (r\<lparr>RuleID := rid\<rparr>) = newAction compacted r" for r
    by (cases r) (simp only: newAction_def rule.select_convs rule.update_convs)
  have s: "stored_rule indent (ru\<lparr>RuleID := rid\<rparr>) = (stored_rule indent ru)\<lparr>RuleID := rid\<rparr>" by (simp add: stored_rule_def)
  have "normalizeRule compacted (r\<lparr>RuleID := rid\<rparr>) = (case normalizeRule compacted r of Inl e \<Rightarrow> Inl e | Inr r' \<Rightarrow> Inr (r'\<lparr>RuleID := rid\<rparr>))" for r
    using assms(2) by (auto simp: normalizeRule_def n Let_def split: sum.splits)
  with assms(1) show ?thesis unfolding s by simp
qed

lemma rules_ok_append: "rules_ok compacted indent rs \<Longrightarrow> length rs < maxRules \<Longrightarrow> isRuleID (RuleID ru) \<Longrightarrow> RuleID ru \<notin> RuleID ` set rs \<Longrightarrow>
    normalizeRule compacted (stored_rule indent ru) = Inr ru \<Longrightarrow> rules_ok compacted indent (rs @ [ru])"
  by (auto simp: rules_ok_def)

lemma rules_ok_update:
  assumes "rules_ok compacted indent rs" "i < length rs" "RuleID ru = RuleID (rs ! i)" "normalizeRule compacted (stored_rule indent ru) = Inr ru"
  shows "rules_ok compacted indent (rs[i := ru])" "RuleID ` set (rs[i := ru]) = RuleID ` set rs"
proof -
  have m: "map RuleID (rs[i := ru]) = map RuleID rs" using assms(2,3) by (simp add: map_update list_update_same_conv)
  have "isRuleID (RuleID ru)" using assms(1-3) by (auto simp: rules_ok_def list_all_iff)
  then show "rules_ok compacted indent (rs[i := ru])" using assms m unfolding rules_ok_def list_all_iff
    by (auto dest!: set_update_subset_insert [THEN subsetD])
  show "RuleID ` set (rs[i := ru]) = RuleID ` set rs" using m by (metis list.set_map)
qed

lemma rules_ok_delete:
  assumes "rules_ok compacted indent rs" "i < length rs"
  shows "rules_ok compacted indent (take i rs @ drop (i + 1) rs)" "RuleID ` set (take i rs @ drop (i + 1) rs) = RuleID ` set rs - {RuleID (rs ! i)}"
proof -
  have rs: "rs = take i rs @ rs ! i # drop (i + 1) rs" using assms(2) by (simp add: id_take_nth_drop)
  define a b where "a = take i rs" and "b = drop (i + 1) rs"
  have rs': "rs = a @ rs ! i # b" using rs by (simp add: a_def b_def)
  have d: "distinct (map RuleID (a @ rs ! i # b))" "list_all (\<lambda>ru. isRuleID (RuleID ru) \<and> normalizeRule compacted (stored_rule indent ru) = Inr ru) (a @ rs ! i # b)"
    "length (a @ rs ! i # b) \<le> maxRules" using assms(1) unfolding rules_ok_def rs' [symmetric] by blast+
  then show "rules_ok compacted indent (take i rs @ drop (i + 1) rs)" unfolding a_def [symmetric] b_def [symmetric] rules_ok_def by simp
  have s: "RuleID ` set rs = insert (RuleID (rs ! i)) (RuleID ` set (a @ b))" using arg_cong [OF rs', of "\<lambda>l. RuleID ` set l"] by simp
  have "RuleID (rs ! i) \<notin> RuleID ` set (a @ b)" using d(1) by auto
  then show "RuleID ` set (take i rs @ drop (i + 1) rs) = RuleID ` set rs - {RuleID (rs ! i)}"
    unfolding a_def [symmetric] b_def [symmetric] s by simp
qed

lemma Upsert_parts:
  assumes "Upsert compacted encode fails rand canWrite now ru m = Some (m', r)"
  obtains (refused) e where "m' = m" "r = Inl e"
  | (created) n rid e where "normalizeRule compacted ru = Inr n" "canWrite" "RuleID n = []" "length (m_rules m) < maxRules" "newRuleID (m_rules m) rand 0 = Some (Inr rid)"
      "publish_rules encode fails (m_rules m @ [n\<lparr>RuleUpdatedAt := now, RuleID := rid\<rparr>]) (aset rid no_hit (m_hits m)) m = (m', e)"
      "r = (case e of None \<Rightarrow> Inr (n\<lparr>RuleUpdatedAt := now, RuleID := rid\<rparr>) | Some e \<Rightarrow> Inl e)"
  | (changed) n i e where "normalizeRule compacted ru = Inr n" "canWrite" "indexOf (m_rules m) (RuleID n) = Some i"
      "publish_rules encode fails ((m_rules m)[i := n\<lparr>RuleUpdatedAt := now\<rparr>]) (m_hits m) m = (m', e)"
      "r = (case e of None \<Rightarrow> Inr (n\<lparr>RuleUpdatedAt := now\<rparr>) | Some e \<Rightarrow> Inl e)"
proof (cases "normalizeRule compacted ru")
  case (Inl e)
  show thesis by (rule refused [of e]) (use assms Inl in \<open>simp_all add: Upsert_def\<close>)
next
  case (Inr n)
  show thesis
  proof (cases "canWrite")
    case False
    show thesis by (rule refused [of RulesReadOnly]) (use assms Inr False in \<open>simp_all add: Upsert_def\<close>)
  next
    case True
    show thesis
    proof (cases "RuleID n = []")
      case True
      show thesis
      proof (cases "length (m_rules m) < maxRules")
        case small: True
        show thesis
        proof (cases "newRuleID (m_rules m) rand 0")
          case None
          then show thesis using assms Inr \<open>canWrite\<close> True small by (simp add: Upsert_def Let_def)
        next
          case (Some s)
          show thesis
          proof (cases s)
            case (Inl e)
            show thesis by (rule refused [of e]) (use assms Inl Inr \<open>canWrite\<close> True small Some in \<open>simp_all add: Upsert_def Let_def\<close>)
          next
            case s: (Inr rid)
            obtain m1 e where p: "publish_rules encode fails (m_rules m @ [n\<lparr>RuleUpdatedAt := now, RuleID := rid\<rparr>]) (aset rid no_hit (m_hits m)) m = (m1, e)" by force
            show thesis
              by (rule created [OF Inr \<open>canWrite\<close> True small Some [unfolded s], of e])
                (use assms Inr \<open>canWrite\<close> True small Some s p in \<open>auto simp: Upsert_def Let_def split: option.splits\<close>)
          qed
        qed
      next
        case False
        show thesis by (rule refused [of TooManyRules]) (use assms Inr \<open>canWrite\<close> True False in \<open>simp_all add: Upsert_def Let_def\<close>)
      qed
    next
      case False
      show thesis
      proof (cases "indexOf (m_rules m) (RuleID n)")
        case None
        show thesis by (rule refused [of "RuleNotFound (RuleID n)"]) (use assms Inr None \<open>canWrite\<close> False in \<open>simp_all add: Upsert_def Let_def\<close>)
      next
        case (Some i)
        obtain m1 e where p: "publish_rules encode fails ((m_rules m)[i := n\<lparr>RuleUpdatedAt := now\<rparr>]) (m_hits m) m = (m1, e)" by force
        show thesis
          by (rule changed [OF Inr \<open>canWrite\<close> Some, of e]) (use assms Inr \<open>canWrite\<close> False Some p in \<open>auto simp: Upsert_def Let_def split: option.splits\<close>)
      qed
    qed
  qed
qed

lemma Upsert_ok:
  assumes "json_laws compacted indent" "draws_ok rand" "manager_ok compacted indent m" "Upsert compacted encode fails rand canWrite now ru m = Some (m', r)"
  shows "manager_ok compacted indent m'"
  using assms(4)
proof (cases rule: Upsert_parts)
  case refused
  then show ?thesis using assms(3) by simp
next
  case (created n rid e)
  let ?ru = "n\<lparr>RuleUpdatedAt := now, RuleID := rid\<rparr>"
  have rid: "isRuleID rid" "rid \<notin> RuleID ` set (m_rules m)" using newRuleID_fresh [OF created(5)] assms(2) by (simp_all add: fresh_id_def)
  have n: "normalizeRule compacted (stored_rule indent ?ru) = Inr ?ru"
    using normalizeRule_id [OF normalizeRule_again [OF assms(1) created(1)]] ruleID_trim [OF rid(1)] by simp
  have "rules_ok compacted indent (m_rules m @ [?ru])"
    by (rule rules_ok_append) (use assms(3) created(4) rid n in \<open>simp_all add: manager_ok_def\<close>)
  then show ?thesis using assms(3) by (intro publish_ok [OF assms(3) created(6)]) (auto simp: manager_ok_def dom_update)
next
  case (changed n i e)
  note i = indexOf_Some [OF changed(3)]
  let ?ru = "n\<lparr>RuleUpdatedAt := now\<rparr>"
  note u = rules_ok_update [of compacted indent "m_rules m" i ?ru, OF _ _ _ normalizeRule_again [OF assms(1) changed(1)]]
  show ?thesis using assms(3) i by (intro publish_ok [OF assms(3) changed(4)] u) (simp_all add: manager_ok_def u(2))
qed

lemma Delete_ok:
  assumes "manager_ok compacted indent m" "Delete_rule encode fails canWrite rid m = (m', e)"
  shows "manager_ok compacted indent m'"
proof (cases "canWrite \<and> indexOf (m_rules m) (TrimSpace rid) \<noteq> None")
  case True
  then obtain i where i: "indexOf (m_rules m) (TrimSpace rid) = Some i" by blast
  note j = indexOf_Some [OF i]
  have p: "publish_rules encode fails (take i (m_rules m) @ drop (i + 1) (m_rules m)) (adel (TrimSpace rid) (m_hits m)) m = (m', e)"
    using assms(2) True i by (simp add: Delete_rule_def Let_def)
  show ?thesis using assms(1) j rules_ok_delete [of compacted indent "m_rules m" i]
    by (intro publish_ok [OF assms(1) p]) (simp_all add: manager_ok_def delete_keys)
next
  case False
  then show ?thesis using assms by (auto simp: Delete_rule_def Let_def split: option.splits if_splits)
qed

lemma record_hit_keys: "amap_ok h \<Longrightarrow> amap_ok (fold (record_hit now) ids h) \<and> set (akeys (fold (record_hit now) ids h)) = set (akeys h)"
proof (induction ids arbitrary: h)
  case (Cons rid ids)
  have "amap_ok (record_hit now rid h) \<and> set (akeys (record_hit now rid h)) = set (akeys h)"
  proof (cases "aget h rid")
    case (Some x)
    then have "rid \<in> set (akeys h)" by (metis map_of_eq_None_iff option.distinct(1) set_map)
    then show ?thesis using Cons.prems Some by (auto simp: record_hit_def dom_update)
  qed (use Cons.prems in \<open>simp add: record_hit_def\<close>)
  with Cons.IH [of "record_hit now rid h"] show ?case by simp
qed simp

lemma RecordHits_ok: "manager_ok compacted indent m \<Longrightarrow> manager_ok compacted indent (RecordHits now ids m)"
  using record_hit_keys by (auto simp: manager_ok_def RecordHits_def)


subsection \<open>Managers the plugin can be in\<close>

inductive mgr_reach :: "(string \<Rightarrow> string option) \<Rightarrow> (rule list \<Rightarrow> 'f option) \<Rightarrow> ('f \<Rightarrow> (int \<times> rule list) option) \<Rightarrow> 'f manager \<Rightarrow> bool"
  for compacted encode decode where
  started: "NewManager compacted decode path f = Inr m \<Longrightarrow> mgr_reach compacted encode decode m"
| upserted: "mgr_reach compacted encode decode m \<Longrightarrow> draws_ok rand \<Longrightarrow> Upsert compacted encode fails rand canWrite now ru m = Some (m', r) \<Longrightarrow>
    mgr_reach compacted encode decode m'"
| deleted: "mgr_reach compacted encode decode m \<Longrightarrow> Delete_rule encode fails canWrite rid m = (m', e) \<Longrightarrow> mgr_reach compacted encode decode m'"
| hit_recorded: "mgr_reach compacted encode decode m \<Longrightarrow> mgr_reach compacted encode decode (RecordHits now ids m)"

lemma reach_ok: "mgr_reach compacted encode decode m \<Longrightarrow> json_laws compacted indent \<Longrightarrow> manager_ok compacted indent m"
proof (induction rule: mgr_reach.induct)
  case started
  then show ?case using NewManager_ok by blast
next
  case upserted
  then show ?case using Upsert_ok by blast
next
  case deleted
  then show ?case using Delete_ok by blast
qed (rule RecordHits_ok)

text \<open>The book of a channel: its enabled rules, in order.\<close>

definition book_rule :: "rule \<Rightarrow> bookRule" where
  "book_rule ru = \<lparr>br_id = RuleID ru, br_paths = Paths ru, br_act = rule_action ru\<rparr>"

lemma newBook_eq: "newBook rs channel = map book_rule (filter (\<lambda>ru. RuleEnabled ru \<and> Channel ru = channel) rs)"
proof -
  have "fold (\<lambda>r b. if \<not> RuleEnabled r then b
     else b(Channel r := b (Channel r) @ [\<lparr>br_id = RuleID r, br_paths = Paths r, br_act = rule_action r\<rparr>])) rs b channel =
     b channel @ map book_rule (filter (\<lambda>ru. RuleEnabled ru \<and> Channel ru = channel) rs)" for b
    by (induction rs arbitrary: b) (auto simp: book_rule_def)
  from this [of "\<lambda>_. []"] show ?thesis by (simp add: newBook_def)
qed

lemma field_plain: "list_all field_char s \<Longrightarrow> list_all plain_char s"
  by (induction s) (auto simp: field_char_def plain_char_def Let_def)

lemma rule_act_ok:
  assumes "json_laws compacted indent" "normalizeRule compacted ru = Inr ru'"
  shows "act_ok unmarshal (rule_action ru')"
proof -
  obtain act where act: "newAction compacted ru = Inr act" "rule_action ru' = act" using normalizeRule_parts [OF assms(2)] by metis
  have v: "act_valid compacted act" by (rule newAction_valid [OF assms(1) act(1)])
  show ?thesis
  proof (cases "act_kind act = TypeSetField")
    case True
    have "lookupType TypeSetField = Some (ruleTypes ! 1)" by code_simp
    then have "isField (act_field act)" "\<exists>v. compacted v = Some (act_value act)" using v True by (auto simp: act_valid_def ruleTypes_def)
    then show ?thesis using assms(1) field_plain unfolding act(2) act_ok_def isField_def key_safe_def json_laws_def by blast
  qed (simp add: act(2) act_ok_def)
qed

text \<open>C27: Whatever changes the rules of a running plugin have gone through, the body an upstream gets is one
  JSON object, with the client's members as the enabled rules of its channel and path rewrite them; every
  member no applied rule names keeps the exact bytes of its value.\<close>

theorem attempt_adapted:
  assumes "mgr_reach compacted encode decode m" "json_laws compacted indent"
    "json_ws a0" "json_ws a" "list_all member_ok ms" "json_ws r" "keys_readable unmarshal ms"
    "\<forall>k \<in> set (akeys (members_doc unmarshal ms)). key_safe unmarshal k"
    "Apply unmarshal (Some (Book m)) channel path (a0 @ object_text a ms @ r) = (Some out, applied)"
  shows "\<exists>doc. decodeObject unmarshal out = Some doc \<and>
    aget doc = aget (fst (fold (\<lambda>ru. apply_rule unmarshal path (book_rule ru))
      (filter (\<lambda>ru. RuleEnabled ru \<and> Channel ru = channel) (Rules m)) (members_doc unmarshal ms, []))) \<and>
    (\<forall>k. \<not> touched path (Book m channel) applied k \<longrightarrow> aget doc k = aget (members_doc unmarshal ms) k)"
proof -
  have ok: "manager_ok compacted indent m" by (rule reach_ok [OF assms(1,2)])
  then have b: "Book m channel = map book_rule (filter (\<lambda>ru. RuleEnabled ru \<and> Channel ru = channel) (Rules m))"
    by (simp add: Book_def Rules_def manager_ok_def newBook_eq)
  have "act_ok unmarshal (rule_action ru)" if "ru \<in> set (Rules m)" for ru
    using ok that rule_act_ok [OF assms(2)] by (auto simp: manager_ok_def rules_ok_def Rules_def list_all_iff)
  then have acts: "\<forall>ru \<in> set (Book m channel). act_ok unmarshal (br_act ru)" by (auto simp: b book_rule_def)
  show ?thesis using adapted_body [where b = "Book m", OF assms(3-8) acts assms(9)] unfolding b by (simp add: fold_map comp_def)
qed

text \<open>A save that succeeds is read back: to the rules themselves, when the text of their notes and paths is UTF-8.\<close>

definition rule_utf8 :: "rule \<Rightarrow> bool" where
  "rule_utf8 ru \<longleftrightarrow> utf8_valid (Note ru) \<and> list_all utf8_valid (Paths ru)"

definition rules_codec :: "(string \<Rightarrow> string) \<Rightarrow> (rule list \<Rightarrow> 'f option) \<Rightarrow> ('f \<Rightarrow> (int \<times> rule list) option) \<Rightarrow> bool" where
  "rules_codec indent encode decode \<longleftrightarrow> (\<forall>rs c. list_all rule_utf8 rs \<longrightarrow> encode rs = Some c \<longrightarrow>
     decode c = Some (ruleFileVersion, map (stored_rule indent) rs))"

lemma saved_loads:
  assumes "rules_codec indent encode decode" "rules_ok compacted indent rs" "list_all rule_utf8 rs"
    "publish_rules encode fails rs hits m = (m', None)" "TrimSpace path \<noteq> []"
  shows "NewManager compacted decode path (m_file m') =
    Inr (m'\<lparr>m_hits := fold (\<lambda>ru. aset (RuleID ru) no_hit) rs []\<rparr>)"
proof -
  obtain c where c: "encode rs = Some c" "save_rules encode fails rs (m_file m) = (m_file m', None)" "m' = m\<lparr>m_file := m_file m', m_hits := hits, m_rules := rs, m_book := newBook rs\<rparr>"
    using assms(4) by (cases "encode rs") (auto simp: publish_rules_def save_rules_def split: prod.splits option.splits if_splits)
  have "fst (AtomicWrite fails c f) = Content c" if "snd (AtomicWrite fails c f)" for f
    using that by (auto simp: AtomicWrite_def write_calls_def split: if_splits)
  with c have f: "m_file m' = Content c" by (auto simp: save_rules_def split: prod.splits if_splits) (metis fst_conv snd_conv)
  have "load_rules_from compacted 0 (map (stored_rule indent) rs) [] = Inr rs"
    using load_again [of compacted indent rs "[]"] assms(2) by (simp add: rules_ok_def)
  then have "loadRules compacted decode (m_file m') = Inr rs"
    using assms(1-3) c(1) f by (simp add: loadRules_def rules_codec_def rules_ok_def)
  then show ?thesis using assms(5) c(3) by (cases m') (simp add: NewManager_def)
qed


text \<open>C28: A refused change of a rule leaves rules, index and counters as they were; an answered one is
  listed in its normal form, and a restart finds exactly the rules and the index of the running plugin,
  although the file holds the values re-indented.\<close>

theorem upsert_restart:
  assumes "mgr_reach compacted encode decode m" "json_laws compacted indent" "rules_codec indent encode decode" "draws_ok rand"
    "Upsert compacted encode fails rand canWrite now ru m = Some (m', r)" "list_all rule_utf8 (Rules m')" "TrimSpace path \<noteq> []"
  shows "case r of Inl e \<Rightarrow> m' = m\<lparr>m_file := m_file m'\<rparr>
    | Inr ru' \<Rightarrow> ru' \<in> set (Rules m') \<and> normalizeRule compacted (stored_rule indent ru') = Inr ru' \<and>
        NewManager compacted decode path (m_file m') = Inr (m'\<lparr>m_hits := fold (\<lambda>ru. aset (RuleID ru) no_hit) (Rules m') []\<rparr>)"
proof -
  have ok: "manager_ok compacted indent m'" by (rule Upsert_ok [OF assms(2,4) reach_ok [OF assms(1,2)] assms(5)])
  then have rs: "rules_ok compacted indent (m_rules m')" by (simp add: manager_ok_def)
  have pub: "case e of Some _ \<Rightarrow> m' = m\<lparr>m_file := m_file m'\<rparr>
    | None \<Rightarrow> m_rules m' = rs' \<and> NewManager compacted decode path (m_file m') = Inr (m'\<lparr>m_hits := fold (\<lambda>ru. aset (RuleID ru) no_hit) (m_rules m') []\<rparr>)"
    if "publish_rules encode fails rs' hits m = (m', e)" for rs' hits e
  proof (cases e)
    case None
    then have m: "m_rules m' = rs'" using that by (auto simp: publish_rules_def split: prod.splits option.splits)
    show ?thesis using saved_loads [OF assms(3) _ _ that [unfolded None] assms(7)] rs assms(6) None by (simp add: m Rules_def)
  qed (use that in \<open>auto simp: publish_rules_def split: prod.splits option.splits\<close>)
  have norm: "normalizeRule compacted (stored_rule indent x) = Inr x" if "x \<in> set (m_rules m')" for x
    using rs that by (simp add: rules_ok_def list_all_iff)
  show ?thesis
    using assms(5)
  proof (cases rule: Upsert_parts)
    case refused
    then show ?thesis by simp
  next
    case (created n rid e)
    then show ?thesis using pub [OF created(6)] norm by (cases e) (auto simp: Rules_def)
  next
    case (changed n i e)
    from indexOf_Some [OF changed(3)] have "n\<lparr>RuleUpdatedAt := now\<rparr> \<in> set ((m_rules m)[i := n\<lparr>RuleUpdatedAt := now\<rparr>])"
      by (intro set_update_memI) simp
    then show ?thesis using pub [OF changed(4)] norm changed(5) by (cases e) (auto simp: Rules_def)
  qed
qed

definition sample_rule :: rule where
  "sample_rule = \<lparr>RuleID = ''r_0123456789abcdef'', Channel = ''00000000000000ff'', RuleKind = ''delete_field'', Paths = [''/v1''],
     Field = ''x'', RuleValue = [], Overwrite = False, RuleEnabled = True, Note = [], RuleUpdatedAt = 0\<rparr>"

definition sample_compact :: "string \<Rightarrow> string option" where
  "sample_compact v = (if v = ''null'' then Some v else None)"

definition sample_decode :: "rule list \<Rightarrow> (int \<times> rule list) option" where
  "sample_decode rs = Some (1, rs)"

definition sample_manager :: "rule list manager" where
  "sample_manager = \<lparr>m_rules = [sample_rule], m_hits = [(''r_0123456789abcdef'', no_hit)], m_book = newBook [sample_rule], m_file = Content [sample_rule]\<rparr>"

lemma sample_laws: "json_laws sample_compact (\<lambda>v. v)" "rules_codec (\<lambda>v. v) Some sample_decode"
proof -
  have "json ''null''" by (rule json_scalar) (simp_all add: scalar_char_def scalar_end_def json_open_def json_close_def json_space_def)
  moreover have "TrimSpace ''null'' = ''null''" by code_simp
  ultimately show "json_laws sample_compact (\<lambda>v. v)" by (simp add: json_laws_def sample_compact_def)
  have "stored_rule (\<lambda>v. v) = (\<lambda>ru. ru)" by (auto simp: stored_rule_def)
  then show "rules_codec (\<lambda>v. v) Some sample_decode" by (simp add: rules_codec_def sample_decode_def ruleFileVersion_def)
qed

lemma sample_reach: "mgr_reach sample_compact Some sample_decode sample_manager"
proof (rule started)
  have "load_rules_from sample_compact 0 [sample_rule] [] = Inr [sample_rule]" by code_simp
  moreover have "TrimSpace ''f'' \<noteq> []" by code_simp
  ultimately show "NewManager sample_compact sample_decode ''f'' (Content [sample_rule]) = Inr sample_manager"
    by (simp add: NewManager_def loadRules_def sample_decode_def ruleFileVersion_def maxRules_def sample_manager_def del: load_rules_from.simps)
      (simp add: sample_rule_def)
qed

lemma upsert_restart_witness:
  "NewManager sample_compact sample_decode ''f'' (Content [sample_rule\<lparr>RuleUpdatedAt := 7\<rparr>]) =
    Inr (sample_manager\<lparr>m_rules := [sample_rule\<lparr>RuleUpdatedAt := 7\<rparr>], m_book := newBook [sample_rule\<lparr>RuleUpdatedAt := 7\<rparr>], m_file := Content [sample_rule\<lparr>RuleUpdatedAt := 7\<rparr>]\<rparr>)"
proof -
  have n: "normalizeRule sample_compact sample_rule = Inr sample_rule" by code_simp
  have u: "Upsert sample_compact Some (\<lambda>_. False) (\<lambda>_. None) True 7 sample_rule sample_manager =
     Some (sample_manager\<lparr>m_rules := [sample_rule\<lparr>RuleUpdatedAt := 7\<rparr>], m_book := newBook [sample_rule\<lparr>RuleUpdatedAt := 7\<rparr>], m_file := Content [sample_rule\<lparr>RuleUpdatedAt := 7\<rparr>]\<rparr>,
       Inr (sample_rule\<lparr>RuleUpdatedAt := 7\<rparr>))"
    by (simp add: Upsert_def n Let_def)
      (simp add: sample_manager_def sample_rule_def indexOf_def publish_rules_def save_rules_def AtomicWrite_def write_calls_def)
  have t: "TrimSpace ''f'' \<noteq> []" "list_all rule_utf8 [sample_rule\<lparr>RuleUpdatedAt := 7\<rparr>]" by code_simp+
  from upsert_restart [OF sample_reach sample_laws _ u _ t(1)] t(2) show ?thesis
    by (simp add: draws_ok_def Rules_def) (simp add: sample_manager_def sample_rule_def)
qed

lemma attempt_adapted_witness:
  "\<exists>doc. decodeObject (\<lambda>_. None) (object_text [] [([], ''k'', [], [], ''1'', [])]) = Some doc \<and> aget doc ''k'' = Some ''1''"
proof -
  have j: "json ''1''" by (rule json_scalar; simp add: scalar_char_def scalar_end_def json_open_def json_close_def json_space_def)
  let ?ms = "[([], ''k'', [], [], ''1'', []), ([], ''x'', [], [], ''1'', [])] :: member list"
  have ms: "list_all member_ok ?ms" using j by (simp add: json_ws_def)
  have k: "keys_readable (\<lambda>_. None) ?ms" by code_simp
  have d: "members_doc (\<lambda>_. None) ?ms = [(''k'', ''1''), (''x'', ''1'')]" by code_simp
  have s: "list_all plain_char ''k''" "list_all plain_char ''x''" by code_simp+
  have ap: "Apply (\<lambda>_. None) (Some (Book sample_manager)) ''00000000000000ff'' ''/v1'' ([] @ object_text [] ?ms @ []) =
     (Some (object_text [] [([], ''k'', [], [], ''1'', [])]), [''r_0123456789abcdef''])" by code_simp
  have t: "\<not> touched ''/v1'' (Book sample_manager ''00000000000000ff'') [''r_0123456789abcdef''] ''k''" by code_simp
  from attempt_adapted [OF sample_reach sample_laws(1) _ _ ms _ k _ ap] t show ?thesis using s unfolding d by (auto simp: json_ws_def key_safe_def)
qed

end
