(* ===== verification/NativeEvidence.thy ===== *)
theory NativeEvidence
  imports AdaptRules
begin

text \<open>
  The evidence of native search and what is decided from it: src/internal/search/native/settings.go,
  decide.go and the records of native.go.

  A channel is a credential of the proxy, named by its auth_index; the evidence about it is a record with
  its latest probes and, for each model, a pair record. A map the code only looks keys up in, or whose
  iteration order does not matter, is an association list; a map to true is a set. The nil record is
  \<^const>\<open>None\<close>.
\<close>


subsection \<open>Settings\<close>

definition defaultIntervalHours :: int where "defaultIntervalHours = 12"
definition maxIntervalHours :: int where "maxIntervalHours = 168"
definition maxListEntries :: nat where "maxListEntries = 200"
definition maxNameLength :: nat where "maxNameLength = 200"

record NativeSettings =
  Enabled :: bool
  RequireAll :: bool
  AutoExclude :: bool
  ExcludedModels :: "string list"
  DisabledChannels :: "string list"
  IntervalHours :: int

definition DefaultSettings :: NativeSettings where
  "DefaultSettings = \<lparr>Enabled = True, RequireAll = False, AutoExclude = True, ExcludedModels = [], DisabledChannels = [], IntervalHours = defaultIntervalHours\<rparr>"

datatype settings_error = BadInterval | BadEntry string | TooManyEntries string

function has_control :: "string \<Rightarrow> bool" where
  "has_control s = (if s = [] then False else if control_rune s then True else has_control (drop (max 1 (rune_len s)) s))"
  by pat_completeness auto
termination
  by (relation "measure length") auto

declare has_control.simps [simp del]

fun clean_entries :: "string \<Rightarrow> string list \<Rightarrow> string list \<Rightarrow> settings_error + string list" where
  "clean_entries field [] out = Inr out"
| "clean_entries field (v # vs) out =
     (let v = TrimSpace v
      in if v = [] \<or> list_ex (\<lambda>u. EqualFold u v) out then clean_entries field vs out
         else if maxNameLength < length v \<or> has_control v then Inl (BadEntry field)
         else clean_entries field vs (out @ [v]))"

definition cleanList :: "string list \<Rightarrow> string \<Rightarrow> settings_error + string list" where
  "cleanList values field = (case clean_entries field values [] of
     Inl e \<Rightarrow> Inl e
   | Inr out \<Rightarrow> if maxListEntries < length out then Inl (TooManyEntries field) else Inr out)"

definition Normalize :: "NativeSettings \<Rightarrow> settings_error + NativeSettings" where
  "Normalize s =
     (let hours = (if IntervalHours s = 0 then defaultIntervalHours else IntervalHours s)
      in if hours < 1 \<or> maxIntervalHours < hours then Inl BadInterval
         else case cleanList (ExcludedModels s) ''excluded_models'' of
           Inl e \<Rightarrow> Inl e
         | Inr models \<Rightarrow> (case cleanList (DisabledChannels s) ''disabled_channels'' of
             Inl e \<Rightarrow> Inl e
           | Inr channels \<Rightarrow> Inr (s\<lparr>IntervalHours := hours, ExcludedModels := models, DisabledChannels := map ToLower channels\<rparr>)))"


subsection \<open>Evidence\<close>

datatype search_state = StateUnknown | StateSupported | StateUnstable | StateNoSearch | StateFailing | StateStale | StateRejected | StateDisabled

datatype search_mode = ModeNative | ModeFallback | ModeExcluded | ModeOff

datatype probe_result = ResultSearch | ResultNoSearch | ResultError

record Probe =
  ProbeAt :: instant
  ProbeModel :: string
  ProbeResult :: probe_result
  ProbeStatus :: int
  ProbeError :: string
  LatencyMS :: int
  Searches :: int
  ProbeInput :: int
  ProbeOutput :: int

record Rejection =
  RejAt :: instant
  RejCount :: int
  RejModel :: string
  RejStatus :: int
  RejError :: string
  RecheckAt :: instant

text \<open>The result of a pair never probed is absent.\<close>

record pairRecord =
  NoSearch :: int
  LastProbe :: instant
  LastResult :: "probe_result option"
  PairRejection :: "Rejection option"

record channelRecord =
  CrAuthIndex :: string
  Probes :: "Probe list"
  Pairs :: "(string, pairRecord) amap option"
  LegacyRejection :: "Rejection option"
  NotServing :: "string list"
  Served :: "string list"
  Rotation :: int

record Credential =
  CredAuthIndex :: string
  CredID :: string
  CredProvider :: string
  CredName :: string
  CredGroup :: string
  CredModels :: "string list option"
  CredDisabled :: bool
  Unavailable :: bool
  InConfig :: bool
  CredExcluded :: "string list"

definition historyLimit :: nat where "historyLimit = 6"

definition failingRecheck :: duration where "failingRecheck = hour"

definition confirmed :: "pairRecord option \<Rightarrow> bool" where
  "confirmed p = (case p of None \<Rightarrow> False | Some p \<Rightarrow> 2 \<le> NoSearch p \<or> 1 \<le> NoSearch p \<and> PairRejection p \<noteq> None)"

definition observe :: "Probe \<Rightarrow> instant \<Rightarrow> pairRecord \<Rightarrow> pairRecord" where
  "observe probe now p =
     p\<lparr>LastProbe := ProbeAt probe, LastResult := Some (ProbeResult probe),
       NoSearch := (case ProbeResult probe of ResultSearch \<Rightarrow> 0 | ResultNoSearch \<Rightarrow> wrap64 (NoSearch p + 1) | ResultError \<Rightarrow> NoSearch p),
       PairRejection := (case PairRejection p of None \<Rightarrow> None
         | Some r \<Rightarrow> if ProbeResult probe = ResultSearch \<and> RejAt r < ProbeAt probe then None
             else Some (r\<lparr>RecheckAt := now + failingRecheck\<rparr>))\<rparr>"

definition rec_pairs :: "channelRecord option \<Rightarrow> (string, pairRecord) amap" where
  "rec_pairs rec = (case rec of None \<Rightarrow> [] | Some rec \<Rightarrow> (case Pairs rec of None \<Rightarrow> [] | Some ps \<Rightarrow> ps))"

definition rec_pair :: "channelRecord option \<Rightarrow> string \<Rightarrow> pairRecord option" where
  "rec_pair rec model = aget (rec_pairs rec) model"

definition empty_pair :: pairRecord where
  "empty_pair = \<lparr>NoSearch = 0, LastProbe = zero_time, LastResult = None, PairRejection = None\<rparr>"

text \<open>\<open>pairFor\<close> and what its callers do with the pair.\<close>

definition pairFor :: "string \<Rightarrow> (pairRecord \<Rightarrow> pairRecord) \<Rightarrow> channelRecord \<Rightarrow> channelRecord" where
  "pairFor model f rec =
     (let ps = (case Pairs rec of None \<Rightarrow> [] | Some ps \<Rightarrow> ps)
      in rec\<lparr>Pairs := Some (aset model (f (case aget ps model of None \<Rightarrow> empty_pair | Some p \<Rightarrow> p)) ps)\<rparr>)"

definition latestRejection :: "channelRecord option \<Rightarrow> Rejection option" where
  "latestRejection rec = fold (\<lambda>(_, p) latest. case PairRejection p of None \<Rightarrow> latest
     | Some r \<Rightarrow> (case latest of None \<Rightarrow> Some r | Some l \<Rightarrow> if RejAt l < RejAt r then Some r else latest)) (rec_pairs rec) None"

definition refusing :: "channelRecord option \<Rightarrow> bool" where
  "refusing rec \<longleftrightarrow> latestRejection rec \<noteq> None"

definition anyConfirmed :: "channelRecord option \<Rightarrow> bool" where
  "anyConfirmed rec \<longleftrightarrow> list_ex (\<lambda>(_, p). confirmed (Some p)) (rec_pairs rec)"

definition migrate :: "channelRecord \<Rightarrow> channelRecord" where
  "migrate rec =
     (if Pairs rec \<noteq> None \<and> LegacyRejection rec = None then rec
      else let rec = (if Pairs rec = None then fold (\<lambda>probe. pairFor (ProbeModel probe) (observe probe (ProbeAt probe))) (Probes rec) rec else rec);
               rec = (case LegacyRejection rec of None \<Rightarrow> rec | Some r \<Rightarrow> pairFor (RejModel r) (\<lambda>p. p\<lparr>PairRejection := Some r\<rparr>) rec)
           in rec\<lparr>LegacyRejection := None\<rparr>)"


subsection \<open>The state of a channel\<close>

definition staleAfter :: "int \<Rightarrow> duration" where
  "staleAfter hours = wrap64 (wrap64 (wrap64 (2 * hours) + 1) * hour)"

text \<open>The loop of \<open>fromProbes\<close>: searched, ignored, ownSearched, ownIgnored, lastSearch.\<close>

definition probe_step :: "string \<Rightarrow> Probe \<Rightarrow> bool \<times> bool \<times> bool \<times> bool \<times> instant \<Rightarrow> bool \<times> bool \<times> bool \<times> bool \<times> instant" where
  "probe_step model p = (\<lambda>(searched, ignored, ownS, ownI, lastSearch). case ProbeResult p of
     ResultSearch \<Rightarrow> (True, ignored, ownS \<or> ProbeModel p = model, ownI, ProbeAt p)
   | ResultNoSearch \<Rightarrow> (searched, True, ownS, ownI \<or> ProbeModel p = model, lastSearch)
   | ResultError \<Rightarrow> (searched, ignored, ownS, ownI, lastSearch))"

definition fromProbes :: "Probe list \<Rightarrow> string \<Rightarrow> int \<Rightarrow> instant \<Rightarrow> search_state" where
  "fromProbes probes model hours now =
     (if probes = [] then StateUnknown
      else if ProbeResult (last probes) = ResultError \<and> (length probes = 1 \<or> ProbeResult (probes ! (length probes - 2)) = ResultError) then StateFailing
      else let (searched, ignored, ownS, ownI, lastSearch) = fold (probe_step model) probes (False, False, False, False, zero_time);
               (searched, ignored) = (if ownS \<or> ownI then (ownS, ownI) else (searched, ignored))
           in if searched \<and> ignored then StateUnstable
              else if ignored then StateNoSearch
              else if \<not> searched then StateFailing
              else if staleAfter hours < time_sub now lastSearch then StateStale
              else StateSupported)"

definition classify :: "channelRecord option \<Rightarrow> bool \<Rightarrow> int \<Rightarrow> instant \<Rightarrow> search_state" where
  "classify rec disabled hours now =
     (if disabled then StateDisabled else if refusing rec then StateRejected
      else case rec of None \<Rightarrow> StateUnknown | Some r \<Rightarrow> fromProbes (Probes r) [] hours now)"

definition classifyFor :: "channelRecord option \<Rightarrow> string \<Rightarrow> bool \<Rightarrow> int \<Rightarrow> instant \<Rightarrow> search_state" where
  "classifyFor rec model disabled hours now =
     (let p = rec_pair rec model
      in if disabled then StateDisabled
         else if (case p of Some p \<Rightarrow> PairRejection p \<noteq> None | None \<Rightarrow> False) then StateRejected
         else if confirmed p then StateNoSearch
         else case rec of None \<Rightarrow> StateUnknown
           | Some r \<Rightarrow>
             (let probes = (if anyConfirmed rec then filter (\<lambda>p. \<not> confirmed (rec_pair rec (ProbeModel p))) (Probes r) else Probes r)
              in fromProbes probes model hours now))"


subsection \<open>Decisions\<close>

record Gap =
  GapIndex :: string
  GapState :: search_state

record ModelDecision =
  DecModel :: string
  DecMode :: search_mode
  Usable :: "string list"
  Gaps :: "Gap list"
  DecReason :: string

type_synonym pair = "string \<times> string"

record decisions =
  d_enabled :: bool
  d_native :: "string set"
  d_candidates :: "string set"
  d_strip :: "string set"
  d_refused :: "pair set"
  d_models :: "ModelDecision list"
  d_states :: "(string, search_state) amap"
  d_modelStates :: "(pair, search_state) amap"

definition serves :: "Credential \<Rightarrow> channelRecord option \<Rightarrow> string \<Rightarrow> bool" where
  "serves c rec model = (case CredModels c of Some ms \<Rightarrow> model \<in> set ms
   | None \<Rightarrow> (case rec of None \<Rightarrow> True | Some r \<Rightarrow> model \<notin> set (NotServing r)))"

definition servesKnown :: "Credential \<Rightarrow> channelRecord option \<Rightarrow> string \<Rightarrow> bool" where
  "servesKnown c rec model = (case CredModels c of Some ms \<Rightarrow> model \<in> set ms
   | None \<Rightarrow> (case rec of None \<Rightarrow> False | Some r \<Rightarrow> model \<in> set (Served r)))"

text \<open>The first loop of \<open>decide\<close>, over the credentials.\<close>

definition decide_channel :: "NativeSettings \<Rightarrow> (string, channelRecord) amap \<Rightarrow> instant \<Rightarrow> Credential \<Rightarrow> decisions \<Rightarrow> decisions" where
  "decide_channel s records now c d =
     (let i = CredAuthIndex c; rec = aget records i; disabled = i \<in> set (DisabledChannels s);
          d = d\<lparr>d_states := aset i (classify rec disabled (IntervalHours s) now) (d_states d)\<rparr>;
          d = (if Enabled s \<and> disabled then d\<lparr>d_strip := insert i (d_strip d)\<rparr> else d)
      in if rec = None \<or> \<not> Enabled s then d
         else d\<lparr>d_refused := fold (\<lambda>(model, p) acc. if PairRejection p \<noteq> None then insert (i, model) acc else acc) (rec_pairs rec) (d_refused d)\<rparr>)"

text \<open>The inner loop: what one credential adds to the decision of a model; the state is the decision,
  whether all are supported, and the states of the pairs.\<close>

definition decide_gap :: "NativeSettings \<Rightarrow> (string, channelRecord) amap \<Rightarrow> (string \<Rightarrow> string \<Rightarrow> bool) \<Rightarrow> instant \<Rightarrow> string \<Rightarrow> Credential \<Rightarrow>
    ModelDecision \<times> bool \<times> (pair, search_state) amap \<Rightarrow> ModelDecision \<times> bool \<times> (pair, search_state) amap" where
  "decide_gap s records excludable now model c = (\<lambda>(dec, allSupported, states).
     (let i = CredAuthIndex c; rec = aget records i
      in if CredDisabled c \<or> \<not> serves c rec model then (dec, allSupported, states)
         else let state = classifyFor rec model (i \<in> set (DisabledChannels s)) (IntervalHours s) now;
                  states = aset (i, model) state states
         in if state = StateSupported \<and> servesKnown c rec model then (dec\<lparr>Usable := Usable dec @ [i]\<rparr>, allSupported, states)
            else let state = (if state = StateSupported then StateUnknown else state)
            in (dec\<lparr>Gaps := Gaps dec @ [\<lparr>GapIndex = i, GapState = state\<rparr>]\<rparr>,
                if state \<noteq> StateDisabled \<and> \<not> (confirmed (rec_pair rec model) \<and> excludable i model) then False else allSupported,
                states)))"

definition decide_mode :: "NativeSettings \<Rightarrow> string \<Rightarrow> bool \<Rightarrow> ModelDecision \<Rightarrow> ModelDecision" where
  "decide_mode s model allSupported dec =
     (if \<not> Enabled s then dec\<lparr>DecMode := ModeOff\<rparr>
      else if list_ex (\<lambda>m. EqualFold m model) (ExcludedModels s) then dec\<lparr>DecMode := ModeExcluded\<rparr>
      else if Usable dec = [] \<and> Gaps dec = [] then dec\<lparr>DecMode := ModeFallback, DecReason := ''no_channel''\<rparr>
      else if Usable dec = [] then dec\<lparr>DecMode := ModeFallback, DecReason := ''no_usable''\<rparr>
      else if RequireAll s \<and> \<not> allSupported then dec\<lparr>DecMode := ModeFallback, DecReason := ''incomplete''\<rparr>
      else dec\<lparr>DecMode := ModeNative\<rparr>)"

definition decide_model :: "NativeSettings \<Rightarrow> Credential list \<Rightarrow> (string, channelRecord) amap \<Rightarrow> (string \<Rightarrow> string \<Rightarrow> bool) \<Rightarrow> instant \<Rightarrow> string \<Rightarrow> decisions \<Rightarrow> decisions" where
  "decide_model s credentials records excludable now model d =
     (let (dec, allSupported, states) = fold (decide_gap s records excludable now model) credentials
            (\<lparr>DecModel = model, DecMode = ModeOff, Usable = [], Gaps = [], DecReason = []\<rparr>, True, d_modelStates d);
          dec = decide_mode s model allSupported dec
      in d\<lparr>d_candidates := insert model (d_candidates d), d_modelStates := states, d_models := d_models d @ [dec],
           d_native := (if DecMode dec = ModeNative then insert model (d_native d) else d_native d)\<rparr>)"

definition decide :: "NativeSettings \<Rightarrow> string list \<Rightarrow> Credential list \<Rightarrow> (string, channelRecord) amap \<Rightarrow> (string \<Rightarrow> string \<Rightarrow> bool) \<Rightarrow> instant \<Rightarrow> decisions" where
  "decide s candidates credentials records excludable now =
     fold (decide_model s credentials records excludable now) candidates (fold (decide_channel s records now) credentials
       \<lparr>d_enabled = Enabled s, d_native = {}, d_candidates = {}, d_strip = {}, d_refused = {}, d_models = [], d_states = [], d_modelStates = []\<rparr>)"


subsection \<open>Settings stay normalized\<close>

lemma lower_char:
  "ascii_space (char_lower c) = ascii_space c"
  "128 \<le> (of_char (char_lower c) :: nat) \<longleftrightarrow> 128 \<le> (of_char c :: nat)"
  "128 \<le> (of_char c :: nat) \<Longrightarrow> char_lower c = c"
  "(of_char (char_lower c) < (32 :: nat)) = (of_char c < (32 :: nat))" "(of_char (char_lower c) = (127 :: nat)) = (of_char c = (127 :: nat))"
  by (auto simp: char_lower_def Let_def ascii_space_def)

lemma lower_high: "128 \<le> n \<Longrightarrow> (of_char (char_lower c) = (n :: nat)) = (of_char c = n)"
  using lower_char(2,3) [of c] by (cases "128 \<le> (of_char c :: nat)") auto

lemma lower_range: "128 \<le> lo \<Longrightarrow> (lo \<le> (of_char (char_lower c) :: nat) \<and> of_char (char_lower c) \<le> hi) = (lo \<le> (of_char c :: nat) \<and> of_char c \<le> hi)"
  using lower_char(2,3) [of c] by (cases "128 \<le> (of_char c :: nat)") auto

lemma lower_cont: "128 \<le> lo \<Longrightarrow> cont_byte lo hi (char_lower c) = cont_byte lo hi c"
  by (simp add: cont_byte_def lower_range)

lemma lower_space2: "space2 (of_char (char_lower a)) (of_char (char_lower b)) = space2 (of_char a) (of_char b)"
  by (simp add: space2_def lower_high)

lemma lower_space3: "space3 (of_char (char_lower a)) (of_char (char_lower b)) (of_char (char_lower c)) = space3 (of_char a) (of_char b) (of_char c)"
  by (simp add: space3_def lower_high lower_range)

lemma lower_space_len: "space_len (ToLower s) = space_len s" "space_len_rev (ToLower s) = space_len_rev s"
  by (cases s; cases "tl s"; cases "tl (tl s)"; simp add: ToLower_def lower_char(1) lower_space2 lower_space3)+

lemma lower_strip: "strip_spaces space_len (ToLower s) = ToLower (strip_spaces space_len s)" "strip_spaces space_len_rev (ToLower s) = ToLower (strip_spaces space_len_rev s)"
proof -
  have d: "drop n (ToLower s) = ToLower (drop n s)" for n s by (simp add: ToLower_def drop_map)
  show "strip_spaces space_len (ToLower s) = ToLower (strip_spaces space_len s)"
    by (induction "length s" arbitrary: s rule: less_induct) (subst (1 2) strip_spaces.simps, simp add: lower_space_len d)
  show "strip_spaces space_len_rev (ToLower s) = ToLower (strip_spaces space_len_rev s)"
    by (induction "length s" arbitrary: s rule: less_induct) (subst (1 2) strip_spaces.simps, simp add: lower_space_len d)
qed

lemma lower_trim: "TrimSpace (ToLower s) = ToLower (TrimSpace s)"
proof -
  have "rev (ToLower s) = ToLower (rev s)" for s by (simp add: ToLower_def rev_map)
  then show ?thesis by (simp add: TrimSpace_def lower_strip)
qed

lemma lower_rune_len: "rune_len (ToLower s) = rune_len s"
proof (cases s)
  case (Cons c r)
  define k where "k = (of_char c :: nat)"
  show ?thesis
  proof (cases "128 \<le> k")
    case True
    then have c: "char_lower c = c" by (simp add: k_def lower_char(3))
    have h: "r \<noteq> [] \<Longrightarrow> hd (map char_lower r) = char_lower (hd r)" by (simp add: hd_map)
    have t: "list_all (cont_byte 128 191) (take n (tl (map char_lower r))) = list_all (cont_byte 128 191) (take n (tl r))" for n
      by (simp add: map_tl [symmetric] take_map list_all_length lower_cont)
    show ?thesis by (cases "r = []") (simp_all add: Cons ToLower_def rune_len_def c Let_def t h lower_cont)
  next
    case False
    then have "(of_char (char_lower c) :: nat) < 128" "(of_char c :: nat) < 128" using lower_char(2) [of c] by (simp_all add: k_def)
    then show ?thesis by (simp add: Cons ToLower_def rune_len_def Let_def)
  qed
qed (simp add: ToLower_def rune_len_def)

lemma lower_control: "has_control (ToLower s) = has_control s"
proof (induction "length s" arbitrary: s rule: less_induct)
  case less
  have d: "drop n (ToLower s) = ToLower (drop n s)" for n by (simp add: ToLower_def drop_map)
  have c: "control_rune (ToLower s) = control_rune s"
    by (cases s; cases "tl s") (simp_all add: control_rune_def ToLower_def lower_char(4,5) lower_high lower_range)
  show ?case
  proof (cases "s = []")
    case False
    then have "has_control (ToLower (drop (max 1 (rune_len s)) s)) = has_control (drop (max 1 (rune_len s)) s)" by (intro less) simp
    then show ?thesis by (subst (1 2) has_control.simps) (simp add: c d lower_rune_len)
  qed simp
qed

text \<open>A list \<open>cleanList\<close> leaves as it is.\<close>

definition entry_ok :: "string \<Rightarrow> bool" where
  "entry_ok v \<longleftrightarrow> v \<noteq> [] \<and> TrimSpace v = v \<and> length v \<le> maxNameLength \<and> \<not> has_control v"

definition list_clean :: "string list \<Rightarrow> bool" where
  "list_clean vs \<longleftrightarrow> list_all entry_ok vs \<and> distinct (map ToLower vs) \<and> length vs \<le> maxListEntries"

lemma fold_unused: "(ToLower v \<notin> set (map ToLower out)) = (\<not> list_ex (\<lambda>u. EqualFold u v) out)"
  by (induction out) (auto simp: EqualFold_def)

lemma clean_entries_clean:
  "clean_entries field vs out = Inr out' \<Longrightarrow> list_all entry_ok out \<Longrightarrow> distinct (map ToLower out) \<Longrightarrow> list_all entry_ok out' \<and> distinct (map ToLower out')"
proof (induction vs arbitrary: out)
  case (Cons v vs)
  let ?v = "TrimSpace v"
  consider "clean_entries field vs out = Inr out'"
    | "clean_entries field vs (out @ [?v]) = Inr out'" "entry_ok ?v" "ToLower ?v \<notin> set (map ToLower out)"
  proof (cases "?v = [] \<or> list_ex (\<lambda>u. EqualFold u ?v) out")
    case True
    then show thesis using Cons.prems(1) that(1) by (simp add: Let_def)
  next
    case False
    then have "clean_entries field vs (out @ [?v]) = Inr out' \<and> \<not> maxNameLength < length ?v \<and> \<not> has_control ?v"
      using Cons.prems(1) by (simp add: Let_def split: if_splits)
    moreover have "ToLower ?v \<notin> set (map ToLower out)" using fold_unused False by blast
    ultimately show thesis using that(2) False by (simp add: entry_ok_def)
  qed
  then show ?case
  proof cases
    case 1
    then show ?thesis using Cons.IH Cons.prems by blast
  next
    case 2
    then show ?thesis using Cons.IH [of "out @ [?v]"] Cons.prems by simp
  qed
qed simp

lemma clean_entries_again: "list_all entry_ok vs \<Longrightarrow> distinct (map ToLower (out @ vs)) \<Longrightarrow> clean_entries field vs out = Inr (out @ vs)"
proof (induction vs arbitrary: out)
  case (Cons v vs)
  have "ToLower v \<notin> set (map ToLower out)" using Cons.prems(2) by auto
  then have "\<not> list_ex (\<lambda>u. EqualFold u v) out" using fold_unused by blast
  moreover have "clean_entries field vs ((out @ [v]) @ []) = Inr ((out @ [v]) @ vs)" using Cons.IH [of "out @ [v]"] Cons.prems by simp
  ultimately show ?case using Cons.prems(1) by (simp add: entry_ok_def Let_def)
qed simp

lemma cleanList_clean: "cleanList vs field = Inr out \<Longrightarrow> list_clean out"
  using clean_entries_clean [of field vs "[]"] by (auto simp: cleanList_def list_clean_def split: sum.splits if_splits)

lemma cleanList_again: "list_clean vs \<Longrightarrow> cleanList vs field = Inr vs"
  using clean_entries_again [of vs "[]"] by (simp add: cleanList_def list_clean_def)

lemma lower_clean: "list_clean vs \<Longrightarrow> list_clean (map ToLower vs)"
proof -
  have "entry_ok (ToLower v)" if "entry_ok v" for v using that by (simp add: entry_ok_def lower_trim lower_control) (simp add: ToLower_def)
  then show "list_clean vs \<Longrightarrow> list_clean (map ToLower vs)" by (auto simp: list_clean_def list_all_iff comp_def)
qed

lemma Normalize_again:
  assumes "Normalize s = Inr t"
  shows "Normalize t = Inr t \<and> 1 \<le> IntervalHours t \<and> IntervalHours t \<le> maxIntervalHours \<and> list_clean (ExcludedModels t) \<and> list_clean (DisabledChannels t)"
proof -
  obtain models channels where c: "cleanList (ExcludedModels s) ''excluded_models'' = Inr models" "cleanList (DisabledChannels s) ''disabled_channels'' = Inr channels"
    and t: "ExcludedModels t = models" "DisabledChannels t = map ToLower channels" "1 \<le> IntervalHours t" "IntervalHours t \<le> maxIntervalHours"
    using assms by (auto simp: Normalize_def Let_def defaultIntervalHours_def maxIntervalHours_def split: if_splits sum.splits)
  have l: "list_clean (ExcludedModels t)" "list_clean (DisabledChannels t)" using c t cleanList_clean lower_clean by simp_all
  have "map ToLower (DisabledChannels t) = DisabledChannels t" by (simp add: t(2) comp_def)
  then show ?thesis using t(3,4) cleanList_again [OF l(1)] cleanList_again [OF l(2)] l by (simp add: Normalize_def Let_def)
qed



subsection \<open>What makes a model native\<close>

definition usable_for :: "NativeSettings \<Rightarrow> (string, channelRecord) amap \<Rightarrow> instant \<Rightarrow> string \<Rightarrow> Credential \<Rightarrow> bool" where
  "usable_for s records now model c \<longleftrightarrow> (let rec = aget records (CredAuthIndex c) in
     \<not> CredDisabled c \<and> serves c rec model \<and> servesKnown c rec model \<and>
     classifyFor rec model (CredAuthIndex c \<in> set (DisabledChannels s)) (IntervalHours s) now = StateSupported)"

text \<open>A serving channel that is not usable, and those that do not count under \<open>RequireAll\<close>.\<close>

definition gap_for :: "NativeSettings \<Rightarrow> (string, channelRecord) amap \<Rightarrow> instant \<Rightarrow> string \<Rightarrow> Credential \<Rightarrow> bool" where
  "gap_for s records now model c \<longleftrightarrow> \<not> CredDisabled c \<and> serves c (aget records (CredAuthIndex c)) model \<and> \<not> usable_for s records now model c"

definition gap_excused :: "NativeSettings \<Rightarrow> (string, channelRecord) amap \<Rightarrow> (string \<Rightarrow> string \<Rightarrow> bool) \<Rightarrow> string \<Rightarrow> Credential \<Rightarrow> bool" where
  "gap_excused s records excludable model c \<longleftrightarrow> CredAuthIndex c \<in> set (DisabledChannels s) \<or>
     confirmed (rec_pair (aget records (CredAuthIndex c)) model) \<and> excludable (CredAuthIndex c) model"

lemma fromProbes_active: "fromProbes probes model hours now \<noteq> StateDisabled"
  by (auto simp: fromProbes_def Let_def case_prod_unfold)

lemma classifyFor_disabled: "classifyFor rec model disabled hours now = StateDisabled \<longleftrightarrow> disabled"
  using fromProbes_active by (auto simp: classifyFor_def Let_def split: option.split)

lemma classifyFor_confirmed: "confirmed (rec_pair rec model) \<Longrightarrow> classifyFor rec model disabled hours now \<noteq> StateSupported"
  by (simp add: classifyFor_def Let_def)

definition shown_gap :: "NativeSettings \<Rightarrow> (string, channelRecord) amap \<Rightarrow> instant \<Rightarrow> string \<Rightarrow> Credential \<Rightarrow> Gap" where
  "shown_gap s records now model c =
     (let st = classifyFor (aget records (CredAuthIndex c)) model (CredAuthIndex c \<in> set (DisabledChannels s)) (IntervalHours s) now
      in \<lparr>GapIndex = CredAuthIndex c, GapState = if st = StateSupported then StateUnknown else st\<rparr>)"

lemma decide_gap_one:
  "fst (decide_gap s records ex now model c (dec, ok, st)) =
     dec\<lparr>Usable := Usable dec @ (if usable_for s records now model c then [CredAuthIndex c] else []),
         Gaps := Gaps dec @ (if gap_for s records now model c then [shown_gap s records now model c] else [])\<rparr>"
  "fst (snd (decide_gap s records ex now model c (dec, ok, st))) = (ok \<and> (gap_for s records now model c \<longrightarrow> gap_excused s records ex model c))"
proof -
  define i rec where "i = CredAuthIndex c" and "rec = aget records i"
  define state where "state = classifyFor rec model (i \<in> set (DisabledChannels s)) (IntervalHours s) now"
  have d: "state = StateDisabled \<longleftrightarrow> i \<in> set (DisabledChannels s)" unfolding state_def by (rule classifyFor_disabled)
  have u: "usable_for s records now model c \<longleftrightarrow> \<not> CredDisabled c \<and> serves c rec model \<and> servesKnown c rec model \<and> state = StateSupported"
    by (simp add: usable_for_def Let_def state_def rec_def i_def)
  have g: "gap_excused s records ex model c \<longleftrightarrow> i \<in> set (DisabledChannels s) \<or> confirmed (rec_pair rec model) \<and> ex i model"
    by (simp add: gap_excused_def rec_def i_def)
  have h: "shown_gap s records now model c = \<lparr>GapIndex = i, GapState = if state = StateSupported then StateUnknown else state\<rparr>"
    by (simp add: shown_gap_def state_def rec_def i_def Let_def)
  have e: "decide_gap s records ex now model c (dec, ok, st) =
     (if CredDisabled c \<or> \<not> serves c rec model then (dec, ok, st)
      else if state = StateSupported \<and> servesKnown c rec model then (dec\<lparr>Usable := Usable dec @ [i]\<rparr>, ok, aset (i, model) state st)
      else (dec\<lparr>Gaps := Gaps dec @ [\<lparr>GapIndex = i, GapState = if state = StateSupported then StateUnknown else state\<rparr>]\<rparr>,
        if (if state = StateSupported then StateUnknown else state) \<noteq> StateDisabled \<and> \<not> (confirmed (rec_pair rec model) \<and> ex i model) then False else ok,
        aset (i, model) state st))"
    by (simp add: decide_gap_def Let_def state_def rec_def i_def)
  show "fst (decide_gap s records ex now model c (dec, ok, st)) =
     dec\<lparr>Usable := Usable dec @ (if usable_for s records now model c then [CredAuthIndex c] else []),
         Gaps := Gaps dec @ (if gap_for s records now model c then [shown_gap s records now model c] else [])\<rparr>"
    unfolding e u h gap_for_def i_def [symmetric] rec_def [symmetric] by simp
  show "fst (snd (decide_gap s records ex now model c (dec, ok, st))) = (ok \<and> (gap_for s records now model c \<longrightarrow> gap_excused s records ex model c))"
    unfolding e u g gap_for_def i_def [symmetric] rec_def [symmetric] using d by auto
qed

lemma decide_gaps:
  "fst (fold (decide_gap s records ex now model) cs (dec, ok, st)) =
     dec\<lparr>Usable := Usable dec @ map CredAuthIndex (filter (usable_for s records now model) cs),
         Gaps := Gaps dec @ map (shown_gap s records now model) (filter (gap_for s records now model) cs)\<rparr> \<and>
   fst (snd (fold (decide_gap s records ex now model) cs (dec, ok, st))) =
     (ok \<and> list_all (gap_excused s records ex model) (filter (gap_for s records now model) cs))"
proof (induction cs arbitrary: dec ok st)
  case (Cons c cs)
  obtain dec1 ok1 st1 where d: "decide_gap s records ex now model c (dec, ok, st) = (dec1, ok1, st1)" by (metis prod_cases3)
  note o = decide_gap_one [of s records ex now model c dec ok st, unfolded d fst_conv snd_conv]
  show ?case using Cons.IH [of dec1 ok1 st1] o by (simp add: d)
qed simp

text \<open>The decision of a model, in full.\<close>

definition model_decision :: "NativeSettings \<Rightarrow> Credential list \<Rightarrow> (string, channelRecord) amap \<Rightarrow> (string \<Rightarrow> string \<Rightarrow> bool) \<Rightarrow> instant \<Rightarrow> string \<Rightarrow> ModelDecision" where
  "model_decision s cs records ex now model =
     decide_mode s model (list_all (gap_excused s records ex model) (filter (gap_for s records now model) cs))
       \<lparr>DecModel = model, DecMode = ModeOff, Usable = map CredAuthIndex (filter (usable_for s records now model) cs),
        Gaps = map (shown_gap s records now model) (filter (gap_for s records now model) cs), DecReason = []\<rparr>"

lemma decide_model_eq:
  "d_models (decide_model s cs records ex now model d) = d_models d @ [model_decision s cs records ex now model]"
  "d_native (decide_model s cs records ex now model d) =
     (if DecMode (model_decision s cs records ex now model) = ModeNative then insert model (d_native d) else d_native d)"
  "d_candidates (decide_model s cs records ex now model d) = insert model (d_candidates d)"
  "d_refused (decide_model s cs records ex now model d) = d_refused d"
  "d_strip (decide_model s cs records ex now model d) = d_strip d"
  "d_enabled (decide_model s cs records ex now model d) = d_enabled d"
proof -
  let ?dec = "\<lparr>DecModel = model, DecMode = ModeOff, Usable = [], Gaps = [], DecReason = []\<rparr>"
  obtain dec ok st where f: "fold (decide_gap s records ex now model) cs (?dec, True, d_modelStates d) = (dec, ok, st)" by (metis prod_cases3)
  have "decide_mode s model ok dec = model_decision s cs records ex now model"
    using decide_gaps [of s records ex now model cs ?dec True "d_modelStates d", unfolded f] by (simp add: model_decision_def)
  then show "d_models (decide_model s cs records ex now model d) = d_models d @ [model_decision s cs records ex now model]"
    "d_native (decide_model s cs records ex now model d) =
     (if DecMode (model_decision s cs records ex now model) = ModeNative then insert model (d_native d) else d_native d)"
    "d_candidates (decide_model s cs records ex now model d) = insert model (d_candidates d)"
    "d_refused (decide_model s cs records ex now model d) = d_refused d"
    "d_strip (decide_model s cs records ex now model d) = d_strip d"
    "d_enabled (decide_model s cs records ex now model d) = d_enabled d"
    by (simp_all add: decide_model_def f Let_def)
qed

lemma decide_channel_keeps:
  "d_models (decide_channel s records now c d) = d_models d" "d_native (decide_channel s records now c d) = d_native d"
  "d_candidates (decide_channel s records now c d) = d_candidates d" "d_enabled (decide_channel s records now c d) = d_enabled d"
  by (simp_all add: decide_channel_def Let_def)

lemma decide_channels_keep:
  "d_models (fold (decide_channel s records now) cs d) = d_models d" "d_native (fold (decide_channel s records now) cs d) = d_native d"
  "d_candidates (fold (decide_channel s records now) cs d) = d_candidates d" "d_enabled (fold (decide_channel s records now) cs d) = d_enabled d"
  by (induction cs arbitrary: d) (simp_all add: decide_channel_keeps)

lemma decide_eq:
  "d_models (decide s cands cs records ex now) = map (model_decision s cs records ex now) cands"
  "d_native (decide s cands cs records ex now) = {m \<in> set cands. DecMode (model_decision s cs records ex now m) = ModeNative}"
  "d_candidates (decide s cands cs records ex now) = set cands"
  "d_enabled (decide s cands cs records ex now) = Enabled s"
proof -
  have "d_models (fold (decide_model s cs records ex now) cands d) = d_models d @ map (model_decision s cs records ex now) cands \<and>
     d_native (fold (decide_model s cs records ex now) cands d) = d_native d \<union> {m \<in> set cands. DecMode (model_decision s cs records ex now m) = ModeNative} \<and>
     d_candidates (fold (decide_model s cs records ex now) cands d) = d_candidates d \<union> set cands \<and>
     d_enabled (fold (decide_model s cs records ex now) cands d) = d_enabled d" for d
    by (induction cands arbitrary: d) (auto simp: decide_model_eq)
  then show "d_models (decide s cands cs records ex now) = map (model_decision s cs records ex now) cands"
    "d_native (decide s cands cs records ex now) = {m \<in> set cands. DecMode (model_decision s cs records ex now m) = ModeNative}"
    "d_candidates (decide s cands cs records ex now) = set cands"
    "d_enabled (decide s cands cs records ex now) = Enabled s"
    by (simp_all add: decide_def decide_channels_keep)
qed

lemma native_mode:
  "DecMode (model_decision s cs records ex now model) = ModeNative \<longleftrightarrow> Enabled s \<and> \<not> list_ex (\<lambda>m. EqualFold m model) (ExcludedModels s) \<and>
     list_ex (usable_for s records now model) cs \<and> (RequireAll s \<longrightarrow> list_all (gap_excused s records ex model) (filter (gap_for s records now model) cs))"
  by (auto simp: model_decision_def decide_mode_def filter_empty_conv list_ex_iff)

text \<open>C31: A model searches natively exactly when native search is on, the operator did not exclude the model
  and some channel known to serve it, and not disabled, is supported for it by its own evidence; with
  \<open>RequireAll\<close>, only when every other channel that may serve it is disabled, or confirmed not to
  search for it and can be taken off it.\<close>

theorem decide_native_exact:
  "model \<in> d_native (decide s candidates credentials records excludable now) \<longleftrightarrow>
     model \<in> set candidates \<and> Enabled s \<and> \<not> list_ex (\<lambda>m. EqualFold m model) (ExcludedModels s) \<and>
     list_ex (usable_for s records now model) credentials \<and>
     (if RequireAll s then list_all (gap_excused s records excludable model) (filter (gap_for s records now model) credentials) else True)"
  by (auto simp: decide_eq native_mode)

end
