(* ===== verification/NativeState.thy ===== *)
theory NativeState
  imports NativeEvidence "HOL-Library.Product_Lexorder"
begin

text \<open>
  The manager of native search, src/internal/search/native/native.go and status.go: its file, the catalog,
  the credential list, refusals seen by client requests, the probe rounds and the status.

  The manager is a record, and every operation that runs under its lock is a function on it; the rounds run
  beside it and change it by the operations \<open>markNotServing\<close>, \<open>recordProbe\<close>, \<open>job_done\<close> and \<open>round_end\<close> in
  any order. One operation reads the clock once. The log is left out, and so are the context that
  cancels a round (a flag of it) and the goroutines. The file holds a value of \<open>fileData\<close>, and
  encoding/json is a parameter of the operations that read or write it.
\<close>


subsection \<open>The manager\<close>

record exclusion =
  ExIndex :: string
  ExModel :: string
  Since :: instant
  Written :: bool
  Trials :: int
  RetryAt :: instant
  TrialAt :: instant
  KeptAt :: instant
  KeptBy :: string
  ExError :: string
  Want :: bool

datatype round_kind = RoundFull | RoundDiscover | RoundRecheck | RoundManual

record roundState =
  RsKind :: round_kind
  RsStarted :: instant
  RsTotal :: nat
  RsDone :: nat
  RsCancelled :: bool

record job =
  JobCredential :: Credential
  JobModels :: "string list"
  JobTrial :: string

record fileData =
  FdVersion :: int
  FdSettings :: NativeSettings
  FdCatalog :: "(string \<times> instant) list"
  FdCredentials :: "Credential list"
  FdChannels :: "channelRecord list"
  FdExclusions :: "exclusion list"
  FdLastFullRound :: instant

record 'f native =
  nm_settings :: NativeSettings
  nm_catalog :: "(string, instant) amap"
  nm_credentials :: "Credential list"
  nm_credErr :: string
  nm_listedAt :: instant
  nm_editedAt :: instant
  nm_records :: "(string, channelRecord) amap"
  nm_exclusions :: "(pair, exclusion) amap"
  nm_editErr :: string
  nm_lastFull :: instant
  nm_dirty :: bool
  nm_round :: "roundState option"
  nm_started :: bool
  nm_startedAt :: instant
  nm_snapshot :: decisions
  nm_file :: "'f disk_file"

definition nativeFileVersion :: int where "nativeFileVersion = 1"
definition catalogRetention :: duration where "catalogRetention = 7 * 24 * hour"
definition catalogTouch :: duration where "catalogTouch = hour"
definition startupGrace :: duration where "startupGrace = 2 * minute"
definition rejectionRecheck :: duration where "rejectionRecheck = 10 * minute"
definition rejectionDebounce :: duration where "rejectionDebounce = minute"
definition pairRecheck :: duration where "pairRecheck = 15 * minute"

datatype native_error = NativePathMissing | NativeUnreadable | NativeMalformed | NativeVersion int | NativeSettingsInvalid settings_error
  | NativeReadOnly | NativeNotEncoded | NativeNotSaved | NativeOff | NativeBusy | UnknownChannel | CredentialsUnknown string
  | UnknownExclusion | EditFailed string


subsection \<open>Decisions\<close>

definition candidatesLocked :: "instant \<Rightarrow> 'f native \<Rightarrow> string list" where
  "candidatesLocked now m = sort (akeys (filter (\<lambda>(_, seen). time_sub now seen \<le> catalogRetention) (nm_catalog m)))"

definition find_credential :: "Credential list \<Rightarrow> string \<Rightarrow> Credential option" where
  "find_credential cs i = find (\<lambda>c. CredAuthIndex c = i) cs"

definition excludableLocked :: "'f native \<Rightarrow> string \<Rightarrow> string \<Rightarrow> bool" where
  "excludableLocked m i model =
     (if \<not> AutoExclude (nm_settings m) then False
      else if (case aget (nm_exclusions m) (i, model) of Some e \<Rightarrow> \<not> IsZero (KeptAt e) | None \<Rightarrow> False) then False
      else case find_credential (nm_credentials m) i of None \<Rightarrow> False | Some c \<Rightarrow> InConfig c \<and> \<not> CredDisabled c)"

definition decisions_of :: "instant \<Rightarrow> 'f native \<Rightarrow> decisions" where
  "decisions_of now m = decide (nm_settings m) (candidatesLocked now m) (nm_credentials m) (nm_records m) (excludableLocked m) now"

definition rebuildLocked :: "instant \<Rightarrow> 'f native \<Rightarrow> 'f native" where
  "rebuildLocked now m = m\<lparr>nm_snapshot := decisions_of now m\<rparr>"


subsection \<open>The file\<close>

definition load_native :: "(fileData \<Rightarrow> 'f \<Rightarrow> fileData option) \<Rightarrow> 'f disk_file \<Rightarrow> native_error + fileData" where
  "load_native decode f =
     (let empty = \<lparr>FdVersion = nativeFileVersion, FdSettings = DefaultSettings, FdCatalog = [], FdCredentials = [], FdChannels = [],
        FdExclusions = [], FdLastFullRound = zero_time\<rparr>
      in case f of
           Absent \<Rightarrow> Inr empty
         | Unreadable \<Rightarrow> Inl NativeUnreadable
         | Content raw \<Rightarrow> (case decode (empty\<lparr>FdVersion := 0\<rparr>) raw of
             None \<Rightarrow> Inl NativeMalformed
           | Some d \<Rightarrow> if FdVersion d \<noteq> nativeFileVersion then Inl (NativeVersion (FdVersion d))
               else (case Normalize (FdSettings d) of
                 Inl e \<Rightarrow> Inl (NativeSettingsInvalid e)
               | Inr s \<Rightarrow> Inr (d\<lparr>FdSettings := s\<rparr>))))"

definition Open_native :: "(fileData \<Rightarrow> 'f \<Rightarrow> fileData option) \<Rightarrow> string \<Rightarrow> instant \<Rightarrow> 'f disk_file \<Rightarrow> native_error + 'f native" where
  "Open_native decode path now f =
     (if TrimSpace path = [] then Inl NativePathMissing
      else case load_native decode f of
        Inl e \<Rightarrow> Inl e
      | Inr d \<Rightarrow> Inr (rebuildLocked now
          \<lparr>nm_settings = FdSettings d,
           nm_catalog = fold (\<lambda>(slug, seen). aset slug seen) (FdCatalog d) [],
           nm_credentials = FdCredentials d, nm_credErr = [], nm_listedAt = zero_time, nm_editedAt = zero_time,
           nm_records = fold (\<lambda>rec. aset (CrAuthIndex (migrate rec)) (migrate rec)) (FdChannels d) [],
           nm_exclusions = fold (\<lambda>e. aset (ExIndex e, ExModel e) e) (FdExclusions d) [],
           nm_editErr = [], nm_lastFull = FdLastFullRound d, nm_dirty = False, nm_round = None, nm_started = False, nm_startedAt = zero_time,
           nm_snapshot = \<lparr>d_enabled = False, d_native = {}, d_candidates = {}, d_strip = {}, d_refused = {}, d_models = [], d_states = [], d_modelStates = []\<rparr>,
           nm_file = f\<rparr>))"

text \<open>\<open>saveLocked\<close>: what it drops from the catalog and the records, and the document it writes.\<close>

definition prune_catalog :: "instant \<Rightarrow> (string, instant) amap \<Rightarrow> (string, instant) amap" where
  "prune_catalog now catalog = filter (\<lambda>(_, seen). time_sub now seen \<le> catalogRetention) catalog"

definition prune_pairs :: "(string, instant) amap \<Rightarrow> channelRecord \<Rightarrow> channelRecord" where
  "prune_pairs catalog rec = rec\<lparr>Pairs := map_option (filter (\<lambda>(model, _). aget catalog model \<noteq> None)) (Pairs rec)\<rparr>"

definition file_data :: "'f native \<Rightarrow> fileData" where
  "file_data m =
     \<lparr>FdVersion = nativeFileVersion, FdSettings = nm_settings m, FdCatalog = sort_key fst (nm_catalog m), FdCredentials = nm_credentials m,
      FdChannels = sort_key CrAuthIndex (map snd (nm_records m)), FdExclusions = sort_key (\<lambda>e. (ExIndex e, ExModel e)) (map snd (nm_exclusions m)),
      FdLastFullRound = nm_lastFull m\<rparr>"

definition saveLocked :: "(fileData \<Rightarrow> 'f option) \<Rightarrow> (write_call \<Rightarrow> bool) \<Rightarrow> bool \<Rightarrow> instant \<Rightarrow> 'f native \<Rightarrow> 'f native \<times> native_error option" where
  "saveLocked encode fails canWrite now m =
     (if \<not> canWrite then (m, Some NativeReadOnly)
      else let catalog = prune_catalog now (nm_catalog m);
               m = m\<lparr>nm_catalog := catalog, nm_records := map (\<lambda>(i, rec). (i, prune_pairs catalog rec)) (nm_records m)\<rparr>
      in case encode (file_data m) of
           None \<Rightarrow> (m, Some NativeNotEncoded)
         | Some raw \<Rightarrow> (case AtomicWrite fails raw (nm_file m) of
             (f, False) \<Rightarrow> (m\<lparr>nm_file := f\<rparr>, Some NativeNotSaved)
           | (f, True) \<Rightarrow> (m\<lparr>nm_file := f, nm_dirty := False\<rparr>, None)))"

definition flushLocked :: "(fileData \<Rightarrow> 'f option) \<Rightarrow> (write_call \<Rightarrow> bool) \<Rightarrow> bool \<Rightarrow> instant \<Rightarrow> 'f native \<Rightarrow> 'f native" where
  "flushLocked encode fails canWrite now m = (if \<not> nm_dirty m \<or> \<not> canWrite then m else fst (saveLocked encode fails canWrite now m))"


subsection \<open>The catalog\<close>

text \<open>The loop of \<open>observeCandidates\<close>; the flag is \<open>added\<close>.\<close>

definition observe_candidate :: "instant \<Rightarrow> string \<Rightarrow> 'f native \<times> bool \<Rightarrow> 'f native \<times> bool" where
  "observe_candidate now slug = (\<lambda>(m, added). case aget (nm_catalog m) slug of
     Some seen \<Rightarrow> if time_sub now seen < catalogTouch then (m, added)
       else (m\<lparr>nm_catalog := aset slug now (nm_catalog m), nm_dirty := True\<rparr>, added \<or> catalogRetention < time_sub now seen)
   | None \<Rightarrow> (m\<lparr>nm_catalog := aset slug now (nm_catalog m), nm_dirty := True\<rparr>, True))"

definition observeCandidates :: "instant \<Rightarrow> string list \<Rightarrow> 'f native \<Rightarrow> 'f native" where
  "observeCandidates now slugs m = (let (m, added) = fold (observe_candidate now) slugs (m, False) in if added then rebuildLocked now m else m)"


subsection \<open>Refusals\<close>

definition Strips :: "'f native \<Rightarrow> string \<Rightarrow> string \<Rightarrow> bool" where
  "Strips m i model = (let d = nm_snapshot m in model \<in> d_candidates d \<and> (i \<in> d_strip d \<or> (i, model) \<in> d_refused d))"

definition noAvailableTool :: string where
  "noAvailableTool = ''required tool choice has no available tool''"

definition refusesTool :: "int \<Rightarrow> string \<Rightarrow> bool" where
  "refusesTool status message0 =
     (if status \<noteq> 400 \<and> status \<noteq> 404 \<and> status \<noteq> 422 then False
      else let message = ToLower message0 in str_contains message ''web_search'' \<or> str_contains message noAvailableTool)"

definition errorLimit :: nat where "errorLimit = 300"

text \<open>The first runes of a text, as a conversion to runes and back leaves them: a byte that is none is the
  replacement character.\<close>

fun take_runes :: "nat \<Rightarrow> string \<Rightarrow> string" where
  "take_runes 0 s = []"
| "take_runes (Suc n) s = (if s = [] then []
     else (if rune_len s = 1 \<and> 128 \<le> (of_char (hd s) :: nat) then map char_of [239, 191, 189 :: nat] else take (max 1 (rune_len s)) s)
       @ take_runes n (drop (max 1 (rune_len s)) s))"

definition truncate_text :: "string \<Rightarrow> string" where
  "truncate_text text0 = (let s = TrimSpace text0 in if RuneCount s \<le> errorLimit then s else take_runes errorLimit s @ map char_of [226, 128, 166 :: nat])"

definition recordLocked :: "string \<Rightarrow> (channelRecord \<Rightarrow> channelRecord) \<Rightarrow> 'f native \<Rightarrow> 'f native" where
  "recordLocked i f m = m\<lparr>nm_records := aset i (f (case aget (nm_records m) i of Some rec \<Rightarrow> rec
     | None \<Rightarrow> \<lparr>CrAuthIndex = i, Probes = [], Pairs = None, LegacyRejection = None, NotServing = [], Served = [], Rotation = 0\<rparr>)) (nm_records m)\<rparr>"

definition ObserveFailure :: "instant \<Rightarrow> string \<Rightarrow> string \<Rightarrow> int \<Rightarrow> string \<Rightarrow> 'f native \<Rightarrow> 'f native" where
  "ObserveFailure now i model status message m =
     (if i = [] \<or> \<not> d_enabled (nm_snapshot m) \<or> model \<notin> d_candidates (nm_snapshot m) then m
      else if \<not> refusesTool status message then m
      else let previous = (case rec_pair (aget (nm_records m) i) model of Some p \<Rightarrow> PairRejection p | None \<Rightarrow> None);
               fresh = (\<lambda>count. rebuildLocked now ((recordLocked i (pairFor model (\<lambda>p. p\<lparr>PairRejection :=
                 Some \<lparr>RejAt = now, RejCount = count, RejModel = model, RejStatus = status, RejError = truncate_text message,
                   RecheckAt = now + rejectionRecheck\<rparr>\<rparr>)) m)\<lparr>nm_dirty := True\<rparr>))
      in case previous of
           None \<Rightarrow> fresh 1
         | Some r \<Rightarrow> if time_sub now (RejAt r) < rejectionDebounce
             then (recordLocked i (pairFor model (\<lambda>p. p\<lparr>PairRejection := Some (r\<lparr>RejCount := wrap64 (RejCount r + 1)\<rparr>)\<rparr>)) m)\<lparr>nm_dirty := True\<rparr>
             else fresh (wrap64 (RejCount r + 1)))"


subsection \<open>Settings and life cycle\<close>

text \<open>\<open>update\<close>: the previous and the stored settings.\<close>

definition update_settings :: "(fileData \<Rightarrow> 'f option) \<Rightarrow> (write_call \<Rightarrow> bool) \<Rightarrow> bool \<Rightarrow> instant \<Rightarrow> NativeSettings \<Rightarrow> 'f native \<Rightarrow>
    'f native \<times> (native_error + NativeSettings \<times> NativeSettings)" where
  "update_settings encode fails canWrite now next m =
     (if \<not> canWrite then (m, Inl NativeReadOnly)
      else case Normalize next of
        Inl e \<Rightarrow> (m, Inl (NativeSettingsInvalid e))
      | Inr normalized \<Rightarrow>
        (let previous = nm_settings m
         in if normalized = previous then (m, Inr (previous, previous))
            else case saveLocked encode fails canWrite now (m\<lparr>nm_settings := normalized\<rparr>) of
              (m, Some e) \<Rightarrow> (m\<lparr>nm_settings := previous\<rparr>, Inl e)
            | (m, None) \<Rightarrow>
              (let m = (if \<not> Enabled normalized then m\<lparr>nm_round := map_option (\<lambda>r. r\<lparr>RsCancelled := True\<rparr>) (nm_round m)\<rparr> else m)
               in (rebuildLocked now m, Inr (previous, normalized)))))"

definition Start :: "instant \<Rightarrow> 'f native \<Rightarrow> 'f native" where
  "Start now m = (if nm_started m then m else m\<lparr>nm_started := True, nm_startedAt := now\<rparr>)"

text \<open>\<open>HandOff\<close> before its wait; then the rounds it leaves, by whether the round under way ended in time.\<close>

definition hand_off :: "(fileData \<Rightarrow> 'f option) \<Rightarrow> (write_call \<Rightarrow> bool) \<Rightarrow> bool \<Rightarrow> instant \<Rightarrow> 'f native \<Rightarrow> 'f native" where
  "hand_off encode fails canWrite now m =
     flushLocked encode fails canWrite now (m\<lparr>nm_started := False, nm_round := map_option (\<lambda>r. r\<lparr>RsCancelled := True\<rparr>) (nm_round m)\<rparr>)"

definition rounds_left :: "'f native \<Rightarrow> bool \<Rightarrow> nat" where
  "rounds_left m ended = (if nm_round m = None \<or> ended then 0 else 1)"

text \<open>\<open>applyCredentialsLocked\<close>; the listing is the credentials or the text of an error.\<close>

definition codex_credentials :: "Credential list \<Rightarrow> Credential list" where
  "codex_credentials listed = sort_key (\<lambda>c. (CredGroup c, CredName c, CredAuthIndex c))
     (filter (\<lambda>c. EqualFold (CredProvider c) ''codex'' \<and> CredAuthIndex c \<noteq> [] \<and> CredID c \<noteq> []) listed)"

definition applyCredentialsLocked :: "instant \<Rightarrow> string + Credential list \<Rightarrow> 'f native \<Rightarrow> 'f native" where
  "applyCredentialsLocked now listing m = (case listing of
     Inl e \<Rightarrow> m\<lparr>nm_credErr := e\<rparr>
   | Inr listed \<Rightarrow>
     (let codex = codex_credentials listed; m = m\<lparr>nm_credErr := [], nm_listedAt := now\<rparr>
      in if codex = nm_credentials m then m
         else m\<lparr>nm_credentials := codex, nm_dirty := True,
           nm_records := filter (\<lambda>(i, _). i \<in> set (map CredAuthIndex codex)) (nm_records m),
           nm_exclusions := filter (\<lambda>(key, _). fst key \<in> set (map CredAuthIndex codex)) (nm_exclusions m)\<rparr>))"

definition refresh :: "instant \<Rightarrow> (string + Credential list) option \<Rightarrow> 'f native \<Rightarrow> 'f native" where
  "refresh now listing m = rebuildLocked now (case listing of None \<Rightarrow> m | Some l \<Rightarrow> applyCredentialsLocked now l m)"


subsection \<open>Choosing what to probe\<close>

definition servedLocked :: "'f native \<Rightarrow> Credential \<Rightarrow> string list \<Rightarrow> string list" where
  "servedLocked m c candidates =
     (let rec = aget (nm_records m) (CredAuthIndex c);
          unverified = filter (\<lambda>model. serves c rec model \<and> CredModels c = None \<and> \<not> servesKnown c rec model) candidates;
          served = filter (\<lambda>model. serves c rec model \<and> \<not> (CredModels c = None \<and> \<not> servesKnown c rec model)) candidates;
          served = (case rec of Some r \<Rightarrow> if 1 < length served
              then (let start = nat (go_rem (Rotation r) (int (length served))) in drop start served @ take start served) else served
            | None \<Rightarrow> served)
      in unverified @ served)"

text \<open>The loop of \<open>focusLocked\<close>: a model on trial ends it.\<close>

fun focus_loop :: "(pair, exclusion) amap \<Rightarrow> Credential \<Rightarrow> channelRecord option \<Rightarrow> instant \<Rightarrow> string list \<Rightarrow> string \<Rightarrow> string \<Rightarrow> string \<times> bool" where
  "focus_loop ex c rec now [] refusal unsettled = (if refusal \<noteq> [] then refusal else unsettled, False)"
| "focus_loop ex c rec now (model # models) refusal unsettled =
     (let p = rec_pair rec model in
      case (case aget ex (CredAuthIndex c, model) of Some e \<Rightarrow> if IsZero (TrialAt e) then None else Some e | None \<Rightarrow> None) of
        Some e \<Rightarrow>
          if (case p of None \<Rightarrow> True | Some p \<Rightarrow> LastProbe p < TrialAt e \<or> LastResult p = Some ResultError \<and> rejectionRecheck \<le> time_sub now (LastProbe p))
          then (model, True) else focus_loop ex c rec now models refusal unsettled
      | None \<Rightarrow> (case p of None \<Rightarrow> focus_loop ex c rec now models refusal unsettled
        | Some p \<Rightarrow>
          if \<not> serves c rec model then focus_loop ex c rec now models refusal unsettled
          else (case PairRejection p of
              Some r \<Rightarrow> focus_loop ex c rec now models (if refusal = [] \<and> RecheckAt r \<le> now then model else refusal) unsettled
            | None \<Rightarrow> if unsettled = [] \<and> NoSearch p = 1 \<and>
                  (if LastResult p = Some ResultError then failingRecheck else pairRecheck) \<le> time_sub now (LastProbe p)
                then focus_loop ex c rec now models refusal model else focus_loop ex c rec now models refusal unsettled)))"

definition focusLocked :: "'f native \<Rightarrow> Credential \<Rightarrow> channelRecord option \<Rightarrow> string list \<Rightarrow> instant \<Rightarrow> string \<times> bool" where
  "focusLocked m c rec candidates now = focus_loop (nm_exclusions m) c rec now candidates [] []"

definition moveFirst :: "string list \<Rightarrow> string \<Rightarrow> string list" where
  "moveFirst models model = (if model \<in> set (tl models) \<and> hd models \<noteq> model then model # remove1 model models else models)"

text \<open>The models a channel's job tries, in order, with the focus and whether it is on trial; then the job, if
  any: the kind of a round is the first one a channel asks for.\<close>

definition due_models :: "instant \<Rightarrow> bool \<Rightarrow> 'f native \<Rightarrow> string list \<Rightarrow> Credential \<Rightarrow> string list \<times> string \<times> bool" where
  "due_models now full m candidates c =
     (let rec = aget (nm_records m) (CredAuthIndex c);
          models = servedLocked m c candidates;
          models = (case rec of Some r \<Rightarrow> if full \<and> CredModels c = None then NotServing r @ models else models | None \<Rightarrow> models);
          (focus, trial) = focusLocked m c rec candidates now
      in (if focus \<noteq> [] then
            (let models = moveFirst models focus in if trial \<and> focus \<notin> set models then focus # models else models)
          else models, focus, trial))"

definition due_job :: "instant \<Rightarrow> bool \<Rightarrow> 'f native \<Rightarrow> string list \<Rightarrow> Credential \<Rightarrow> (job \<times> round_kind) option" where
  "due_job now full m candidates c =
     (if CredDisabled c \<or> Unavailable c then None
      else let rec = aget (nm_records m) (CredAuthIndex c);
               (models, focus, trial) = due_models now full m candidates c;
               j = \<lparr>JobCredential = c, JobModels = models, JobTrial = (if trial then focus else [])\<rparr>
         in if models = [] then None
            else if full then Some (j, RoundFull)
            else (case rec of
                None \<Rightarrow> Some (j, RoundDiscover)
              | Some r \<Rightarrow>
                  if Probes r = [] \<and> \<not> refusing rec then Some (j, RoundDiscover)
                  else if focus \<noteq> [] then Some (j, RoundRecheck)
                  else if \<not> refusing rec \<and> classify rec False (IntervalHours (nm_settings m)) now = StateFailing \<and>
                      failingRecheck \<le> time_sub now (ProbeAt (last (Probes r))) then Some (j, RoundRecheck)
                  else None))"

definition dueLocked :: "instant \<Rightarrow> 'f native \<Rightarrow> (round_kind \<times> job list) option" where
  "dueLocked now m =
     (let candidates = candidatesLocked now m
      in if candidates = [] then None
         else let full = IsZero (nm_lastFull m) \<or> wrap64 (IntervalHours (nm_settings m) * hour) \<le> time_sub now (nm_lastFull m);
                  due = List.map_filter (due_job now full m candidates) (nm_credentials m)
         in (case due of [] \<Rightarrow> None | (_, kind) # _ \<Rightarrow> Some (kind, map fst due)))"

definition startRoundLocked :: "instant \<Rightarrow> round_kind \<Rightarrow> job list \<Rightarrow> 'f native \<Rightarrow> 'f native" where
  "startRoundLocked now kind jobs m = m\<lparr>nm_round := Some \<lparr>RsKind = kind, RsStarted = now, RsTotal = length jobs, RsDone = 0, RsCancelled = False\<rparr>\<rparr>"

definition ProbeNow :: "instant \<Rightarrow> string \<Rightarrow> string + Credential list \<Rightarrow> 'f native \<Rightarrow> 'f native \<times> (native_error + job list)" where
  "ProbeNow now i listing m =
     (if \<not> nm_started m \<or> \<not> Enabled (nm_settings m) then (m, Inl NativeOff)
      else let m = applyCredentialsLocked now listing m
      in case listing of
           Inl e \<Rightarrow> (m, Inl (CredentialsUnknown e))
         | Inr _ \<Rightarrow>
           (if nm_round m \<noteq> None then (m, Inl NativeBusy)
            else let candidates = candidatesLocked now m;
                     jobs = map (\<lambda>c. \<lparr>JobCredential = c, JobModels = servedLocked m c candidates, JobTrial = []\<rparr>)
                       (filter (\<lambda>c. \<not> CredDisabled c \<and> (i = [] \<or> CredAuthIndex c = i) \<and> servedLocked m c candidates \<noteq> []) (nm_credentials m))
            in if jobs = [] then (m, Inl UnknownChannel)
               else (startRoundLocked now (if i = [] then RoundFull else RoundManual) jobs m, Inr jobs)))"

text \<open>The second half of \<open>Tick\<close>, after the exclusions are reconciled.\<close>

definition tick_round :: "(fileData \<Rightarrow> 'f option) \<Rightarrow> (write_call \<Rightarrow> bool) \<Rightarrow> bool \<Rightarrow> instant \<Rightarrow> 'f native \<Rightarrow> 'f native \<times> job list" where
  "tick_round encode fails canWrite now m =
     (let (m, jobs) = (if nm_started m \<and> nm_round m = None \<and> Enabled (nm_settings m) \<and> nm_credErr m = [] \<and> startupGrace \<le> time_sub now (nm_startedAt m)
          then (case dueLocked now m of None \<Rightarrow> (m, []) | Some (kind, jobs) \<Rightarrow> (startRoundLocked now kind jobs m, jobs)) else (m, []))
      in (flushLocked encode fails canWrite now m, jobs))"


subsection \<open>Rounds\<close>

datatype probe_outcome = OutcomeRecorded | OutcomeNotServing | OutcomeCancelled

datatype job_step = MarkNotServing string | RecordProbe Probe | JobDone

text \<open>\<open>runJob\<close> as the changes it makes, by what the probes of its models bring; \<open>unrouted\<close> is the probe it
  records for a model the channel's configuration lists but that has no route.\<close>

fun job_steps :: "(string \<Rightarrow> Probe \<times> probe_outcome) \<Rightarrow> (string \<Rightarrow> Probe) \<Rightarrow> job \<Rightarrow> string list \<Rightarrow> job_step list" where
  "job_steps probe unrouted j [] = [JobDone]"
| "job_steps probe unrouted j (model # models) = (case probe model of
     (_, OutcomeCancelled) \<Rightarrow> []
   | (p, OutcomeRecorded) \<Rightarrow> [RecordProbe p]
   | (_, OutcomeNotServing) \<Rightarrow>
       if model = JobTrial j then [JobDone]
       else if CredModels (JobCredential j) = None then MarkNotServing model # job_steps probe unrouted j models
       else [RecordProbe (unrouted model)])"

definition markNotServing :: "string \<Rightarrow> string \<Rightarrow> 'f native \<Rightarrow> 'f native" where
  "markNotServing i model m =
     (let m' = recordLocked i (\<lambda>rec. if model \<in> set (NotServing rec) then rec else rec\<lparr>NotServing := NotServing rec @ [model]\<rparr>) m
      in if (case aget (nm_records m) i of Some rec \<Rightarrow> model \<in> set (NotServing rec) | None \<Rightarrow> False) then m' else m'\<lparr>nm_dirty := True\<rparr>)"

definition job_done :: "'f native \<Rightarrow> 'f native" where
  "job_done m = m\<lparr>nm_round := map_option (\<lambda>r. r\<lparr>RsDone := RsDone r + 1\<rparr>) (nm_round m)\<rparr>"

definition keep_history :: "Probe list \<Rightarrow> Probe list" where
  "keep_history ps = (if historyLimit < length ps then drop (length ps - historyLimit) ps else ps)"

definition record_probe :: "instant \<Rightarrow> Probe \<Rightarrow> channelRecord \<Rightarrow> channelRecord" where
  "record_probe now probe rec =
     pairFor (ProbeModel probe) (observe probe now)
       (rec\<lparr>NotServing := filter (\<lambda>model. model \<noteq> ProbeModel probe) (NotServing rec),
            Served := (if ProbeModel probe \<in> set (Served rec) then Served rec else Served rec @ [ProbeModel probe]),
            Probes := keep_history (Probes rec @ [probe]), Rotation := wrap64 (Rotation rec + 1)\<rparr>)"

definition recordProbe :: "instant \<Rightarrow> string \<Rightarrow> Probe \<Rightarrow> 'f native \<Rightarrow> 'f native" where
  "recordProbe now i probe m = rebuildLocked now ((job_done (recordLocked i (record_probe now probe) m))\<lparr>nm_dirty := True\<rparr>)"

definition round_end :: "(fileData \<Rightarrow> 'f option) \<Rightarrow> (write_call \<Rightarrow> bool) \<Rightarrow> bool \<Rightarrow> instant \<Rightarrow> 'f native \<Rightarrow> 'f native" where
  "round_end encode fails canWrite now m = (case nm_round m of None \<Rightarrow> m | Some r \<Rightarrow>
     (let m = (if RsKind r = RoundFull \<and> \<not> RsCancelled r then m\<lparr>nm_lastFull := RsStarted r, nm_dirty := True\<rparr> else m)
      in flushLocked encode fails canWrite now (rebuildLocked now (m\<lparr>nm_round := None\<rparr>))))"

end
