(* ===== verification/NativeExclude.thy ===== *)
theory NativeExclude
  imports NativeState
begin

text \<open>
  Automatic exclusion, src/internal/search/native/exclude.go: which models are taken off which channels in
  the proxy's configuration, given back on trial, and kept by the operator.

  \<open>reconcile\<close> works in two halves, since the lock is not held while the configuration is written:
  \<open>reconcile_plan\<close> decides the edits and \<open>reconcile_apply\<close> books their results. An exclusion is
  named by its channel and model; only \<open>reconcile_plan\<close> adds one, and never while a write is under way, so an
  exclusion still listed afterwards is the one the edit was planned for. The code walks its map of
  exclusions in no order; each is planned on its own, and the edits are sorted.
\<close>


subsection \<open>States\<close>

datatype edit_result = EditDone | EditKeyDisabled | EditKeyInherits | EditKeyGone

datatype exclusion_state = ExclusionActive | ExclusionPending | ExclusionTrial | ExclusionBlocked | ExclusionKept

definition KeptByOperator :: string where "KeptByOperator = ''operator''"
definition KeptByConfig :: string where "KeptByConfig = ''config''"
definition trialLimit :: duration where "trialLimit = hour"
definition maxRetry :: duration where "maxRetry = 7 * 24 * hour"

record Edit =
  EdIndex :: string
  EdModel :: string
  Exclude :: bool
  EdReason :: string

definition state_of :: "exclusion \<Rightarrow> exclusion_state" where
  "state_of e =
     (if \<not> IsZero (KeptAt e) then ExclusionKept else if \<not> IsZero (TrialAt e) then ExclusionTrial
      else if Written e then ExclusionActive else if Want e then ExclusionPending else ExclusionBlocked)"

function retry_wait :: "int \<Rightarrow> duration \<Rightarrow> duration" where
  "retry_wait trials wait = (if 0 < trials \<and> wait < maxRetry then retry_wait (trials - 1) (wrap64 (wait * 2)) else wait)"
  by pat_completeness auto
termination
  by (relation "measure (\<lambda>(trials, wait). nat trials)") auto

declare retry_wait.simps [simp del]

definition retryAfter :: "'f native \<Rightarrow> int \<Rightarrow> duration" where
  "retryAfter m trials = min (retry_wait trials (wrap64 (IntervalHours (nm_settings m) * hour))) maxRetry"


subsection \<open>Planning\<close>

record planned =
  PlEdit :: Edit
  PlDrop :: bool

text \<open>The exclusions added for the confirmed gaps of native models.\<close>

definition new_exclusion :: "instant \<Rightarrow> pair \<Rightarrow> exclusion" where
  "new_exclusion now key = \<lparr>ExIndex = fst key, ExModel = snd key, Since = now, Written = False, Trials = 0, RetryAt = zero_time,
     TrialAt = zero_time, KeptAt = zero_time, KeptBy = [], ExError = [], Want = False\<rparr>"

definition add_gap :: "instant \<Rightarrow> string \<Rightarrow> Gap \<Rightarrow> 'f native \<Rightarrow> 'f native" where
  "add_gap now model gap m =
     (let i = GapIndex gap; key = (i, model)
      in if GapState gap = StateDisabled \<or> aget (nm_exclusions m) key \<noteq> None \<or> \<not> excludableLocked m i model \<or>
            \<not> confirmed (rec_pair (aget (nm_records m) i) model) then m
         else m\<lparr>nm_exclusions := aset key (new_exclusion now key) (nm_exclusions m), nm_dirty := True\<rparr>)"

definition add_exclusions :: "instant \<Rightarrow> 'f native \<Rightarrow> 'f native" where
  "add_exclusions now m = fold (\<lambda>dec m. if DecMode dec \<noteq> ModeNative then m else fold (add_gap now (DecModel dec)) (Gaps dec) m)
     (d_models (nm_snapshot m)) m"

text \<open>What the proxy's configuration says of an entry: \<^const>\<open>None\<close> when the entry is the operator's own.\<close>

definition settle_entry :: "instant \<Rightarrow> bool \<Rightarrow> Credential option \<Rightarrow> string \<Rightarrow> exclusion \<Rightarrow> (exclusion \<times> bool) option" where
  "settle_entry now fresh c model e = (case c of
     Some c \<Rightarrow>
       if fresh \<and> InConfig c then
         (let present = list_ex (\<lambda>entry. EqualFold entry model) (CredExcluded c)
          in if Written e \<and> \<not> present then
               (let e = e\<lparr>Written := False, Want := False\<rparr>
                in Some (if IsZero (KeptAt e) then e\<lparr>KeptAt := now, KeptBy := KeptByConfig\<rparr> else e, True))
             else if \<not> Written e \<and> present then None
             else Some (e, False))
       else Some (e, False)
   | None \<Rightarrow> Some (e, False))"

text \<open>Where the exclusion goes: the exclusion with \<open>Want\<close>, the reason and whether the file is to be written.\<close>

definition trial_answered :: "pairRecord option \<Rightarrow> exclusion \<Rightarrow> bool" where
  "trial_answered p e = (case p of None \<Rightarrow> False | Some p \<Rightarrow> \<not> LastProbe p < TrialAt e)"

definition trial_ignored :: "pairRecord option \<Rightarrow> exclusion \<Rightarrow> bool" where
  "trial_ignored p e \<longleftrightarrow> trial_answered p e \<and> (case p of None \<Rightarrow> False | Some p \<Rightarrow> LastResult p = Some ResultNoSearch) \<or>
     (case p of None \<Rightarrow> False | Some p \<Rightarrow> (case PairRejection p of None \<Rightarrow> False | Some r \<Rightarrow> \<not> RejAt r < TrialAt e))"

definition plan_trial :: "instant \<Rightarrow> bool \<Rightarrow> pairRecord option \<Rightarrow> exclusion \<Rightarrow> exclusion \<times> string \<times> bool" where
  "plan_trial now native p e =
     (if trial_answered p e \<and> (case p of None \<Rightarrow> False | Some p \<Rightarrow> LastResult p = Some ResultSearch)
        then (e\<lparr>TrialAt := zero_time, Want := False\<rparr>, ''it searches natively again'', False)
      else if trial_ignored p e \<or> trialLimit \<le> time_sub now (TrialAt e)
        then (e\<lparr>Trials := (if trial_ignored p e then wrap64 (Trials e + 1) else Trials e), TrialAt := zero_time, Want := native\<rparr>,
              ''it still does not search natively'', True)
      else (e\<lparr>Want := False\<rparr>, [], False))"

definition plan_want :: "instant \<Rightarrow> bool \<Rightarrow> bool \<Rightarrow> bool \<Rightarrow> Credential option \<Rightarrow> pairRecord option \<Rightarrow> exclusion \<Rightarrow> exclusion \<times> string \<times> bool" where
  "plan_want now active native candidate c p e =
     (if (case c of Some c \<Rightarrow> CredDisabled c | None \<Rightarrow> False) then (e\<lparr>Want := Written e\<rparr>, [], False)
      else if \<not> IsZero (KeptAt e) then (e\<lparr>Want := False\<rparr>, ''kept by the operator'', False)
      else if \<not> active then (e\<lparr>Want := False\<rparr>, ''automatic exclusion is off'', False)
      else if \<not> IsZero (TrialAt e) then plan_trial now native p e
      else if \<not> candidate then (e\<lparr>Want := False\<rparr>, ''the model left the Codex catalog'', False)
      else if \<not> confirmed p then (e\<lparr>Want := False\<rparr>, ''it searches natively again'', False)
      else if Written e \<and> native \<and> \<not> now < RetryAt e then (e\<lparr>TrialAt := now, Want := False\<rparr>, ''trial: probe whether it searches natively now'', True)
      else if \<not> native then (e\<lparr>Want := False\<rparr>, ''no other channel searches natively for the model'', False)
      else (e\<lparr>Want := True\<rparr>, ''it does not search natively'', False))"

text \<open>One round of the loop: the exclusion that stays, whether the file is to be written, and the edit.\<close>

definition plan_one :: "instant \<Rightarrow> bool \<Rightarrow> bool \<Rightarrow> bool \<Rightarrow> decisions \<Rightarrow> Credential option \<Rightarrow> pairRecord option \<Rightarrow> pair \<Rightarrow> exclusion \<Rightarrow>
    exclusion option \<times> bool \<times> planned option" where
  "plan_one now active canAdd fresh d c p key e0 = (case settle_entry now fresh c (snd key) e0 of
     None \<Rightarrow> (None, True, None)
   | Some (e, chg) \<Rightarrow>
     (let native = snd key \<in> d_native d; candidate = snd key \<in> d_candidates d;
          (e, reason, chg') = plan_want now active native candidate c p e;
          drop = (IsZero (KeptAt e) \<and> IsZero (TrialAt e) \<and> (\<not> active \<or> \<not> confirmed p \<or> \<not> candidate))
      in if drop \<and> \<not> Written e then (None, True, None)
         else (Some e, chg \<or> chg', if Want e \<noteq> Written e \<and> (\<not> Want e \<or> canAdd)
           then Some \<lparr>PlEdit = \<lparr>EdIndex = fst key, EdModel = snd key, Exclude = Want e, EdReason = reason\<rparr>, PlDrop = drop\<rparr> else None)))"

definition plan_active :: "'f native \<Rightarrow> bool" where
  "plan_active m \<longleftrightarrow> Enabled (nm_settings m) \<and> AutoExclude (nm_settings m) \<and> nm_started m"

definition plan_canAdd :: "instant \<Rightarrow> 'f native \<Rightarrow> bool" where
  "plan_canAdd now m \<longleftrightarrow> plan_active m \<and> nm_credErr m = [] \<and> startupGrace \<le> time_sub now (nm_startedAt m)"

definition plan_entry :: "instant \<Rightarrow> 'f native \<Rightarrow> pair \<times> exclusion \<Rightarrow> exclusion option \<times> bool \<times> planned option" where
  "plan_entry now m = (\<lambda>(key, e). plan_one now (plan_active m) (plan_canAdd now m) (nm_editedAt m < nm_listedAt m) (nm_snapshot m)
     (aget (rev (map (\<lambda>c. (CredAuthIndex c, c)) (nm_credentials m))) (fst key)) (rec_pair (aget (nm_records m) (fst key)) (snd key)) key e)"

definition planLocked :: "instant \<Rightarrow> 'f native \<Rightarrow> 'f native \<times> planned list" where
  "planLocked now m0 =
     (let m = (if plan_canAdd now m0 then add_exclusions now m0 else m0);
          results = map (\<lambda>x. (fst x, plan_entry now m x)) (nm_exclusions m)
      in (m\<lparr>nm_exclusions := List.map_filter (\<lambda>(key, e, _). map_option (Pair key) e) results,
            nm_dirty := (nm_dirty m \<or> list_ex (\<lambda>(_, _, chg, _). chg) results)\<rparr>,
          sort_key (\<lambda>p. EdIndex (PlEdit p) @ CHR 0x00 # EdModel (PlEdit p)) (List.map_filter (\<lambda>(_, _, _, p). p) results)))"


subsection \<open>Reconciling\<close>

text \<open>The half before the write: the preparation of \<open>keep\<close>, and the plan.\<close>

definition reconcile_plan :: "bool \<Rightarrow> instant \<Rightarrow> ('f native \<Rightarrow> native_error + 'f native) \<Rightarrow> 'f native \<Rightarrow> 'f native \<times> (native_error + planned list)" where
  "reconcile_plan canWrite now prepare m = (case prepare m of
     Inl e \<Rightarrow> (m, Inl e)
   | Inr m \<Rightarrow> if canWrite then (case planLocked now m of (m, edits) \<Rightarrow> (m, Inr edits)) else (m, Inr []))"

definition with_exclusion :: "pair \<Rightarrow> (exclusion \<Rightarrow> exclusion option) \<Rightarrow> 'f native \<Rightarrow> 'f native" where
  "with_exclusion key f m = (case aget (nm_exclusions m) key of None \<Rightarrow> m
   | Some e \<Rightarrow> (case f e of None \<Rightarrow> m\<lparr>nm_exclusions := adel key (nm_exclusions m)\<rparr>
     | Some e \<Rightarrow> m\<lparr>nm_exclusions := aset key e (nm_exclusions m)\<rparr>))"

definition edit_key :: "planned \<Rightarrow> pair" where
  "edit_key p = (EdIndex (PlEdit p), EdModel (PlEdit p))"

definition disabled_text :: string where
  "disabled_text = ''the key is disabled in CPA (excluded-models \"*\"), so its entries are left as they are''"

definition inherits_text :: string where
  "inherits_text = ''the key takes its group's excluded-models in CPA's config, which a list of its own would stop following; give the key its own excluded-models in CPA to let the model be taken off it''"

definition apply_result :: "instant \<Rightarrow> planned \<times> edit_result \<Rightarrow> 'f native \<Rightarrow> 'f native" where
  "apply_result now = (\<lambda>(p, r) m. with_exclusion (edit_key p) (\<lambda>e. case r of
       EditDone \<Rightarrow> if PlDrop p then None
         else Some (e\<lparr>Written := Exclude (PlEdit p), ExError := [],
           RetryAt := (if Exclude (PlEdit p) then now + retryAfter m (Trials e) else RetryAt e)\<rparr>)
     | EditKeyDisabled \<Rightarrow> Some (e\<lparr>ExError := disabled_text\<rparr>)
     | EditKeyInherits \<Rightarrow> Some (e\<lparr>ExError := inherits_text\<rparr>)
     | EditKeyGone \<Rightarrow> None) m)"

text \<open>The half after it; the answer is the results or the text of an error. A count that does not match
  the edits is an error of its own, whose text leaves the two numbers out.\<close>

definition reconcile_apply :: "instant \<Rightarrow> planned list \<Rightarrow> string + edit_result list \<Rightarrow> 'f native \<Rightarrow> 'f native \<times> (native_error + bool)" where
  "reconcile_apply now edits answer m =
     (let failed = (\<lambda>err. ((fold (\<lambda>p. with_exclusion (edit_key p) (\<lambda>e. Some (e\<lparr>ExError := err\<rparr>))) edits m)\<lparr>nm_dirty := True, nm_editErr := err\<rparr>,
            Inl (EditFailed err)))
      in if edits = [] then (m, Inr False)
         else case answer of
           Inl err \<Rightarrow> failed err
         | Inr results \<Rightarrow> if length results \<noteq> length edits then failed ''CPA config edit answered a different number of edits''
             else (fold (apply_result now) (zip edits results) (m\<lparr>nm_dirty := True, nm_editErr := [], nm_editedAt := now\<rparr>), Inr True))"

text \<open>The preparation of \<open>Release\<close> (\<open>keep\<close>) and \<open>Resume\<close>.\<close>

definition keep_prepare :: "instant \<Rightarrow> pair \<Rightarrow> bool \<Rightarrow> 'f native \<Rightarrow> native_error + 'f native" where
  "keep_prepare now key keep m = (case aget (nm_exclusions m) key of
     None \<Rightarrow> Inl UnknownExclusion
   | Some e \<Rightarrow> Inr (if IsZero (KeptAt e) = keep
       then rebuildLocked now (m\<lparr>nm_dirty := True, nm_exclusions := aset key
         (e\<lparr>TrialAt := zero_time, KeptAt := (if keep then now else zero_time), KeptBy := (if keep then KeptByOperator else [])\<rparr>) (nm_exclusions m)\<rparr>)
       else m))"

definition keep_plan :: "bool \<Rightarrow> instant \<Rightarrow> string \<Rightarrow> string \<Rightarrow> bool \<Rightarrow> 'f native \<Rightarrow> 'f native \<times> (native_error + planned list)" where
  "keep_plan canWrite now i model keep m =
     (if \<not> canWrite then (m, Inl NativeReadOnly)
      else reconcile_plan canWrite now (keep_prepare now (ToLower (TrimSpace i), TrimSpace model) keep) m)"

text \<open>The whole of \<open>reconcile\<close> when nothing happens during the write.\<close>

definition reconcile :: "bool \<Rightarrow> instant \<Rightarrow> ('f native \<Rightarrow> native_error + 'f native) \<Rightarrow> (Edit list \<Rightarrow> string + edit_result list) \<Rightarrow> 'f native \<Rightarrow>
    'f native \<times> (native_error + bool)" where
  "reconcile canWrite now prepare EditExcluded m = (case reconcile_plan canWrite now prepare m of
     (m, Inl e) \<Rightarrow> (m, Inl e)
   | (m, Inr edits) \<Rightarrow> reconcile_apply now edits (EditExcluded (map PlEdit edits)) m)"


subsection \<open>What an edit rests on\<close>

lemma settle_entry_keeps:
  "settle_entry now fresh c model e = Some (e', chg) \<Longrightarrow> (Written e' \<longrightarrow> Written e) \<and> ExIndex e' = ExIndex e \<and> ExModel e' = ExModel e \<and>
     TrialAt e' = TrialAt e"
  by (auto simp: settle_entry_def Let_def split: option.splits if_splits)

lemma plan_trial_result:
  "plan_trial now native p e = (e', reason, chg) \<Longrightarrow> Written e' = Written e \<and> KeptAt e' = KeptAt e \<and> ExIndex e' = ExIndex e \<and> ExModel e' = ExModel e \<and>
     (Want e' \<longrightarrow> native \<and> TrialAt e' = zero_time) \<and> (TrialAt e' = zero_time \<or> TrialAt e' = TrialAt e \<and> time_sub now (TrialAt e) < trialLimit)"
  by (auto simp: plan_trial_def split: if_splits)

lemma plan_want_result:
  assumes "plan_want now active native candidate c p e = (e', reason, chg)"
  shows "Written e' = Written e \<and> KeptAt e' = KeptAt e \<and> ExIndex e' = ExIndex e \<and> ExModel e' = ExModel e \<and>
     (Want e' \<longrightarrow> Written e \<or> native \<and> IsZero (KeptAt e) \<and> IsZero (TrialAt e') \<and> active) \<and>
     ((case c of Some c \<Rightarrow> \<not> CredDisabled c | None \<Rightarrow> True) \<longrightarrow> IsZero (KeptAt e) \<longrightarrow> active \<longrightarrow>
       IsZero (TrialAt e') \<or> TrialAt e' = now \<or> TrialAt e' = TrialAt e \<and> time_sub now (TrialAt e) < trialLimit)"
proof (cases "(case c of Some c \<Rightarrow> CredDisabled c | None \<Rightarrow> False)")
  case True
  then show ?thesis using assms by (auto simp: plan_want_def split: option.splits)
next
  case False
  show ?thesis
  proof (cases "IsZero (KeptAt e) \<and> active \<and> \<not> IsZero (TrialAt e)")
    case True
    then have "plan_trial now native p e = (e', reason, chg)" using assms False by (simp add: plan_want_def)
    from plan_trial_result [OF this] True show ?thesis by (auto simp: IsZero_def)
  next
    case kept: False
    then show ?thesis using assms False by (auto simp: plan_want_def split: if_splits)
  qed
qed

lemma plan_one_kept:
  assumes "plan_one now active canAdd fresh d c p key e = (Some e', chg, pl)"
  obtains e1 chg1 reason chg2 where "settle_entry now fresh c (snd key) e = Some (e1, chg1)"
    "plan_want now active (snd key \<in> d_native d) (snd key \<in> d_candidates d) c p e1 = (e', reason, chg2)"
    "\<not> (IsZero (KeptAt e') \<and> IsZero (TrialAt e') \<and> (\<not> active \<or> \<not> confirmed p \<or> snd key \<notin> d_candidates d) \<and> \<not> Written e')"
    "pl = (if Want e' \<noteq> Written e' \<and> (\<not> Want e' \<or> canAdd)
       then Some \<lparr>PlEdit = \<lparr>EdIndex = fst key, EdModel = snd key, Exclude = Want e', EdReason = reason\<rparr>,
         PlDrop = (IsZero (KeptAt e') \<and> IsZero (TrialAt e') \<and> (\<not> active \<or> \<not> confirmed p \<or> snd key \<notin> d_candidates d))\<rparr> else None)"
proof (cases "settle_entry now fresh c (snd key) e")
  case None
  then show thesis using assms by (simp add: plan_one_def)
next
  case (Some s)
  obtain e1 chg1 where s: "s = (e1, chg1)" by (cases s)
  obtain e2 reason chg2 where w: "plan_want now active (snd key \<in> d_native d) (snd key \<in> d_candidates d) c p e1 = (e2, reason, chg2)" by (metis prod_cases3)
  have "e2 = e'" using assms by (simp add: plan_one_def Some s w Let_def split: if_splits)
  show thesis
    by (rule that [of e1 chg1 reason chg2]) (use assms Some s w \<open>e2 = e'\<close> in \<open>auto simp: plan_one_def Let_def split: if_splits\<close>)
qed

lemma plan_one_edit:
  assumes "plan_one now active canAdd fresh d c p key e = (e', chg, Some pl)"
  shows "edit_key pl = key"
    "Exclude (PlEdit pl) \<Longrightarrow> canAdd \<and> active \<and> snd key \<in> d_native d \<and> snd key \<in> d_candidates d \<and> confirmed p \<and>
       (\<exists>e''. e' = Some e'' \<and> \<not> Written e'' \<and> IsZero (KeptAt e'') \<and> IsZero (TrialAt e''))"
    "\<not> Exclude (PlEdit pl) \<Longrightarrow> Written e"
proof -
  obtain e2 where e': "e' = Some e2"
    using assms by (cases e') (auto simp: plan_one_def Let_def case_prod_unfold split: option.splits if_splits)
  note assms' = assms [unfolded e']
  from assms' obtain e1 chg1 reason chg2 where s: "settle_entry now fresh c (snd key) e = Some (e1, chg1)"
    "plan_want now active (snd key \<in> d_native d) (snd key \<in> d_candidates d) c p e1 = (e2, reason, chg2)"
    "\<not> (IsZero (KeptAt e2) \<and> IsZero (TrialAt e2) \<and> (\<not> active \<or> \<not> confirmed p \<or> snd key \<notin> d_candidates d) \<and> \<not> Written e2)"
    and pl: "Some pl = (if Want e2 \<noteq> Written e2 \<and> (\<not> Want e2 \<or> canAdd)
       then Some \<lparr>PlEdit = \<lparr>EdIndex = fst key, EdModel = snd key, Exclude = Want e2, EdReason = reason\<rparr>,
         PlDrop = (IsZero (KeptAt e2) \<and> IsZero (TrialAt e2) \<and> (\<not> active \<or> \<not> confirmed p \<or> snd key \<notin> d_candidates d))\<rparr> else None)"
    by (rule plan_one_kept)
  note w = plan_want_result [OF s(2)]
  note k = settle_entry_keeps [OF s(1)]
  from pl have c: "Want e2 \<noteq> Written e2" "\<not> Want e2 \<or> canAdd" "Exclude (PlEdit pl) = Want e2" "edit_key pl = key"
    by (auto simp: edit_key_def split: if_splits)
  show "edit_key pl = key" by (rule c(4))
  show "Exclude (PlEdit pl) \<Longrightarrow> canAdd \<and> active \<and> snd key \<in> d_native d \<and> snd key \<in> d_candidates d \<and> confirmed p \<and>
       (\<exists>e''. e' = Some e'' \<and> \<not> Written e'' \<and> IsZero (KeptAt e'') \<and> IsZero (TrialAt e''))"
    using c(1-3) w s(3) e' by auto
  show "\<not> Exclude (PlEdit pl) \<Longrightarrow> Written e" using c(1,3) w k by blast
qed

definition same_evidence :: "'f native \<Rightarrow> 'f native \<Rightarrow> bool" where
  "same_evidence a b \<longleftrightarrow> nm_settings a = nm_settings b \<and> nm_credentials a = nm_credentials b \<and> nm_records a = nm_records b \<and>
     nm_snapshot a = nm_snapshot b \<and> nm_started a = nm_started b \<and> nm_startedAt a = nm_startedAt b \<and> nm_credErr a = nm_credErr b \<and>
     nm_editedAt a = nm_editedAt b \<and> nm_listedAt a = nm_listedAt b \<and> nm_catalog a = nm_catalog b"

lemma same_evidence_refl: "same_evidence m m"
  by (simp add: same_evidence_def)

lemma same_evidence_trans: "same_evidence a b \<Longrightarrow> same_evidence b c \<Longrightarrow> same_evidence a c"
  by (simp add: same_evidence_def)

lemma add_gap_same: "same_evidence (add_gap now model gap m) m"
  by (simp add: same_evidence_def add_gap_def Let_def)

lemma add_gaps_same: "same_evidence (fold (add_gap now model) gs m) m"
proof (induction gs arbitrary: m)
  case (Cons g gs)
  then show ?case using same_evidence_trans add_gap_same by (metis fold_simps(2))
qed (simp add: same_evidence_refl)

lemma add_exclusions_same: "same_evidence (add_exclusions now m) m"
proof -
  have "same_evidence (fold (\<lambda>dec m. if DecMode dec \<noteq> ModeNative then m else fold (add_gap now (DecModel dec)) (Gaps dec) m) ds m) m" for ds
  proof (induction ds arbitrary: m)
    case (Cons d ds)
    have "same_evidence (if DecMode d \<noteq> ModeNative then m else fold (add_gap now (DecModel d)) (Gaps d) m) m"
      by (simp add: add_gaps_same same_evidence_refl)
    from same_evidence_trans [OF Cons.IH this] show ?case by simp
  qed (simp add: same_evidence_refl)
  then show ?thesis by (simp add: add_exclusions_def)
qed

text \<open>The exclusions a plan adds are not in the configuration yet.\<close>

lemma add_gap_unwritten: "(key, e) \<in> set (nm_exclusions (add_gap now model gap m)) \<Longrightarrow> Written e \<Longrightarrow> (key, e) \<in> set (nm_exclusions m)"
  unfolding add_gap_def Let_def by (auto split: if_splits simp: new_exclusion_def dest!: aset_members)

lemma added_unwritten: "(key, e) \<in> set (nm_exclusions (add_exclusions now m)) \<Longrightarrow> Written e \<Longrightarrow> (key, e) \<in> set (nm_exclusions m)"
proof -
  have gaps: "(key, e) \<in> set (nm_exclusions (fold (add_gap now model) gs m)) \<Longrightarrow> Written e \<Longrightarrow> (key, e) \<in> set (nm_exclusions m)" for model gs m
  proof (induction gs arbitrary: m)
    case (Cons g gs)
    from Cons.IH [of "add_gap now model g m"] Cons.prems show ?case by simp (rule add_gap_unwritten)
  qed simp
  have "(key, e) \<in> set (nm_exclusions (fold (\<lambda>dec m. if DecMode dec \<noteq> ModeNative then m else fold (add_gap now (DecModel dec)) (Gaps dec) m) ds m)) \<Longrightarrow> Written e \<Longrightarrow>
      (key, e) \<in> set (nm_exclusions m)" for ds m
  proof (induction ds arbitrary: m)
    case (Cons d ds)
    let ?m = "if DecMode d \<noteq> ModeNative then m else fold (add_gap now (DecModel d)) (Gaps d) m"
    have "(key, e) \<in> set (nm_exclusions ?m)" using Cons.IH [of ?m] Cons.prems by simp
    then show ?case using gaps [of "DecModel d" "Gaps d" m] Cons.prems(2) by (simp split: if_splits)
  qed simp
  then show "(key, e) \<in> set (nm_exclusions (add_exclusions now m)) \<Longrightarrow> Written e \<Longrightarrow> (key, e) \<in> set (nm_exclusions m)"
    by (simp add: add_exclusions_def)
qed

text \<open>Where the edits of a plan come from.\<close>

lemma set_map_filter: "set (List.map_filter f xs) = {y. \<exists>x \<in> set xs. f x = Some y}"
  by (induction xs) (auto simp: List.map_filter_simps split: option.splits)

lemma keys_map_filter: "map fst (List.map_filter (\<lambda>x. map_option (Pair (k x)) (f x)) xs) = map k (filter (\<lambda>x. f x \<noteq> None) xs)"
  by (induction xs) (auto simp: List.map_filter_simps split: option.splits)

lemma map_filter_map: "List.map_filter f (map g xs) = List.map_filter (\<lambda>x. f (g x)) xs"
  by (induction xs) (auto simp: List.map_filter_simps split: option.splits)

lemma plan_parts:
  assumes "planLocked now m = (m', edits)"
  obtains ma where "same_evidence ma m" "ma = (if plan_canAdd now m then add_exclusions now m else m)"
    "plan_active ma = plan_active m" "plan_canAdd now ma = plan_canAdd now m"
    "set edits = {pl. \<exists>key e r chg. (key, e) \<in> set (nm_exclusions ma) \<and> plan_entry now ma (key, e) = (r, chg, Some pl)}"
    "set (nm_exclusions m') = {(key, e'). \<exists>e chg pl. (key, e) \<in> set (nm_exclusions ma) \<and> plan_entry now ma (key, e) = (Some e', chg, pl)}"
    "m' = ma\<lparr>nm_exclusions := nm_exclusions m', nm_dirty := nm_dirty m'\<rparr>"
    "map fst (nm_exclusions m') = map fst (filter (\<lambda>x. fst (plan_entry now ma x) \<noteq> None) (nm_exclusions ma))"
proof -
  define ma where "ma = (if plan_canAdd now m then add_exclusions now m else m)"
  have same: "same_evidence ma m" by (simp add: ma_def add_exclusions_same same_evidence_refl)
  then have act: "plan_active ma = plan_active m" "plan_canAdd now ma = plan_canAdd now m"
    by (simp_all add: plan_active_def plan_canAdd_def same_evidence_def)
  let ?results = "map (\<lambda>x. (fst x, plan_entry now ma x)) (nm_exclusions ma)"
  have m': "m' = ma\<lparr>nm_exclusions := List.map_filter (\<lambda>(key, e, _). map_option (Pair key) e) ?results,
      nm_dirty := (nm_dirty ma \<or> list_ex (\<lambda>(_, _, chg, _). chg) ?results)\<rparr>"
    and ed: "edits = sort_key (\<lambda>p. EdIndex (PlEdit p) @ CHR 0x00 # EdModel (PlEdit p)) (List.map_filter (\<lambda>(_, _, _, p). p) ?results)"
    using assms by (simp_all add: planLocked_def ma_def Let_def)
  have edits: "set edits = {pl. \<exists>key e r chg. (key, e) \<in> set (nm_exclusions ma) \<and> plan_entry now ma (key, e) = (r, chg, Some pl)}"
  proof -
    have "set edits = set (List.map_filter (\<lambda>(_, _, _, p). p) ?results)" unfolding ed by simp
    also have "\<dots> = {pl. \<exists>x \<in> set (nm_exclusions ma). snd (snd (plan_entry now ma x)) = Some pl}"
      by (simp only: set_map_filter map_filter_map case_prod_unfold snd_conv)
    also have "\<dots> = {pl. \<exists>key e r chg. (key, e) \<in> set (nm_exclusions ma) \<and> plan_entry now ma (key, e) = (r, chg, Some pl)}"
    proof -
      have "snd (snd t) = Some pl \<longleftrightarrow> (\<exists>r chg. t = (r, chg, Some pl))" for t :: "exclusion option \<times> bool \<times> planned option" and pl
        by (cases t) auto
      then show ?thesis by (simp add: Bex_def split_paired_Ex)
    qed
    finally show ?thesis .
  qed
  have ex: "set (nm_exclusions m') = {(key, e'). \<exists>e chg pl. (key, e) \<in> set (nm_exclusions ma) \<and> plan_entry now ma (key, e) = (Some e', chg, pl)}"
    (is "_ = ?R")
  proof -
    have "set (nm_exclusions m') = {x. \<exists>y \<in> set (nm_exclusions ma). map_option (Pair (fst y)) (fst (plan_entry now ma y)) = Some x}"
      unfolding m' by (simp add: set_map_filter map_filter_map case_prod_unfold)
    also have "\<dots> = ?R"
    proof -
      have "map_option (Pair k) (fst t) = Some x \<longleftrightarrow> (\<exists>e chg pl. x = (k, e) \<and> t = (Some e, chg, pl))"
        for t :: "exclusion option \<times> bool \<times> planned option" and k :: pair and x by (cases t) auto
      then show ?thesis by (auto simp: Bex_def) blast
    qed
    finally show ?thesis .
  qed
  have keys: "map fst (nm_exclusions m') = map fst (filter (\<lambda>x. fst (plan_entry now ma x) \<noteq> None) (nm_exclusions ma))"
    unfolding m' by (simp add: map_filter_map case_prod_unfold keys_map_filter)
  show thesis by (rule that [OF same ma_def act edits ex _ keys]) (simp add: m')
qed


lemma plan_edit_facts:
  assumes "planLocked now m = (m', edits)" "pl \<in> set edits"
  obtains e r chg ma where "same_evidence ma m" "(edit_key pl, e) \<in> set (nm_exclusions ma)" "plan_entry now ma (edit_key pl, e) = (r, chg, Some pl)"
    "ma = (if plan_canAdd now m then add_exclusions now m else m)"
proof -
  from assms(1) obtain ma where ma: "same_evidence ma m" "ma = (if plan_canAdd now m then add_exclusions now m else m)"
    "set edits = {pl. \<exists>key e r chg. (key, e) \<in> set (nm_exclusions ma) \<and> plan_entry now ma (key, e) = (r, chg, Some pl)}"
    by (rule plan_parts) blast
  from assms(2) obtain key e r chg where "(key, e) \<in> set (nm_exclusions ma)" "plan_entry now ma (key, e) = (r, chg, Some pl)"
    unfolding ma(3) by blast
  moreover from this(2) have "edit_key pl = key" unfolding plan_entry_def by (auto dest: plan_one_edit(1))
  ultimately show thesis using that [of ma e r chg] ma by simp
qed

text \<open>An edit that takes a model off a channel, planned on decisions made from the manager's own evidence.\<close>

lemma exclude_edit:
  assumes "planLocked now m = (m', edits)" "pl \<in> set edits" "Exclude (PlEdit pl)"
    "nm_snapshot m = decide (nm_settings m) cands (nm_credentials m) (nm_records m) ex t"
  shows "plan_canAdd now m \<and> confirmed (rec_pair (aget (nm_records m) (EdIndex (PlEdit pl))) (EdModel (PlEdit pl))) \<and>
    (\<exists>c \<in> set (nm_credentials m). usable_for (nm_settings m) (nm_records m) t (EdModel (PlEdit pl)) c \<and> CredAuthIndex c \<noteq> EdIndex (PlEdit pl))"
proof -
  obtain e r chg ma where ma: "same_evidence ma m" and e: "(edit_key pl, e) \<in> set (nm_exclusions ma)"
    "plan_entry now ma (edit_key pl, e) = (r, chg, Some pl)" using plan_edit_facts [OF assms(1,2)] by metis
  let ?i = "EdIndex (PlEdit pl)" and ?model = "EdModel (PlEdit pl)"
  have k: "fst (edit_key pl) = ?i" "snd (edit_key pl) = ?model" by (simp_all add: edit_key_def)
  note f = plan_one_edit(2) [OF e(2) [unfolded plan_entry_def prod.case] assms(3), unfolded k]
  have conf: "confirmed (rec_pair (aget (nm_records m) ?i) ?model)" using f ma by (simp add: same_evidence_def)
  have "?model \<in> d_native (nm_snapshot m)" using f ma by (simp add: same_evidence_def)
  then have "list_ex (usable_for (nm_settings m) (nm_records m) t ?model) (nm_credentials m)" by (simp add: assms(4) decide_eq native_mode)
  then obtain c where c: "c \<in> set (nm_credentials m)" "usable_for (nm_settings m) (nm_records m) t ?model c" by (auto simp: list_ex_iff)
  have "CredAuthIndex c \<noteq> ?i" using c(2) classifyFor_confirmed [OF conf] by (auto simp: usable_for_def Let_def)
  moreover have "plan_canAdd now m" using f ma by (simp add: plan_canAdd_def plan_active_def same_evidence_def)
  ultimately show ?thesis using conf c by blast
qed

lemma refresh_snapshot:
  "nm_snapshot (refresh t listing m) = decide (nm_settings (refresh t listing m)) (candidatesLocked t (refresh t listing m)) (nm_credentials (refresh t listing m))
     (nm_records (refresh t listing m)) (excludableLocked (refresh t listing m)) t"
proof -
  have "excludableLocked (m\<lparr>nm_snapshot := d\<rparr>) = excludableLocked m" for m :: "'a native" and d by (simp add: excludableLocked_def fun_eq_iff)
  then show ?thesis by (simp add: refresh_def rebuildLocked_def decisions_of_def candidatesLocked_def)
qed

text \<open>C30: A tick takes a model off a channel only on settled, complete evidence: automatic exclusion is on and
  past its grace, the channel is confirmed not to search for the model, and another channel that is not
  disabled, known to serve the model, is supported for it; so no exclusion leaves a model without a channel
  that searches. It gives a model back only where it took it off itself.\<close>

theorem exclude_edit_safe:
  assumes "planLocked now (refresh t listing m0) = (m', edits)" "pl \<in> set edits"
  shows "if Exclude (PlEdit pl)
    then plan_canAdd now (refresh t listing m0) \<and>
      confirmed (rec_pair (aget (nm_records (refresh t listing m0)) (EdIndex (PlEdit pl))) (EdModel (PlEdit pl))) \<and>
      list_ex (\<lambda>c. CredAuthIndex c \<noteq> EdIndex (PlEdit pl) \<and>
          usable_for (nm_settings (refresh t listing m0)) (nm_records (refresh t listing m0)) t (EdModel (PlEdit pl)) c)
        (nm_credentials (refresh t listing m0))
    else list_ex (\<lambda>(key, e). key = edit_key pl \<and> Written e) (nm_exclusions (refresh t listing m0))"
proof (cases "Exclude (PlEdit pl)")
  case True
  then show ?thesis using exclude_edit [OF assms True refresh_snapshot] by (auto simp: list_ex_iff)
next
  case False
  obtain e r chg ma where ma: "same_evidence ma (refresh t listing m0)" and e: "(edit_key pl, e) \<in> set (nm_exclusions ma)"
    "plan_entry now ma (edit_key pl, e) = (r, chg, Some pl)" "ma = (if plan_canAdd now (refresh t listing m0) then add_exclusions now (refresh t listing m0) else refresh t listing m0)"
    using plan_edit_facts [OF assms] by metis
  have w: "Written e" using plan_one_edit(3) [OF e(2) [unfolded plan_entry_def prod.case] False] .
  have "(edit_key pl, e) \<in> set (nm_exclusions (refresh t listing m0))" using e(1,3) w added_unwritten by metis
  then show ?thesis using w False by (auto simp: list_ex_iff)
qed


subsection \<open>Trials\<close>

lemma plan_entry_trial:
  assumes "plan_entry now m (key, e) = (Some e', chg, pl)" "plan_active m" "IsZero (KeptAt e')"
    "case aget (rev (map (\<lambda>c. (CredAuthIndex c, c)) (nm_credentials m))) (fst key) of Some c \<Rightarrow> \<not> CredDisabled c | None \<Rightarrow> True"
  shows "IsZero (TrialAt e') \<or> time_sub now (TrialAt e') < trialLimit"
proof -
  obtain e1 reason chg2 where s: "plan_want now (plan_active m) (snd key \<in> d_native (nm_snapshot m)) (snd key \<in> d_candidates (nm_snapshot m))
      (aget (rev (map (\<lambda>c. (CredAuthIndex c, c)) (nm_credentials m))) (fst key)) (rec_pair (aget (nm_records m) (fst key)) (snd key)) e1 = (e', reason, chg2)"
    by (rule plan_one_kept [OF assms(1) [unfolded plan_entry_def prod.case]])
  have zero: "time_sub now now < trialLimit" by (simp add: time_sub_def trialLimit_def maxInt64_def minInt64_def)
  from plan_want_result [OF s] assms(2-4) zero show ?thesis by auto
qed

text \<open>C36: No trial outlives its hour: after a plan, every exclusion on trial began it less than an hour ago,
  unless automatic exclusion is off, the operator keeps the channel or the proxy routes nothing to it.\<close>

theorem trials_end:
  assumes "planLocked now m = (m', edits)" "plan_active m" "(key, e) \<in> set (nm_exclusions m')" "IsZero (KeptAt e)"
    "list_all (\<lambda>c. CredAuthIndex c = fst key \<longrightarrow> \<not> CredDisabled c) (nm_credentials m)"
  shows "state_of e \<noteq> ExclusionTrial \<or> time_sub now (TrialAt e) < trialLimit"
proof -
  from assms(1) obtain ma where ma: "same_evidence ma m" "plan_active ma = plan_active m"
    "set (nm_exclusions m') = {(key, e'). \<exists>e chg pl. (key, e) \<in> set (nm_exclusions ma) \<and> plan_entry now ma (key, e) = (Some e', chg, pl)}"
    by (rule plan_parts) blast
  from assms(3) obtain e0 chg pl where p: "plan_entry now ma (key, e0) = (Some e, chg, pl)" unfolding ma(3) by auto
  have c: "case aget (rev (map (\<lambda>c. (CredAuthIndex c, c)) (nm_credentials ma))) (fst key) of Some c \<Rightarrow> \<not> CredDisabled c | None \<Rightarrow> True"
  proof (cases "aget (rev (map (\<lambda>c. (CredAuthIndex c, c)) (nm_credentials ma))) (fst key)")
    case (Some c)
    from map_of_SomeD [OF this] have "c \<in> set (nm_credentials m)" "CredAuthIndex c = fst key" using ma(1) by (auto simp: same_evidence_def)
    then show ?thesis using assms(5) Some by (auto simp: list_all_iff)
  qed simp
  have "IsZero (TrialAt e) \<or> time_sub now (TrialAt e) < trialLimit"
    by (rule plan_entry_trial [OF p _ assms(4) c]) (use ma(2) assms(2) in simp)
  then show ?thesis by (auto simp: state_of_def)
qed

text \<open>The wait for the next trial in closed form.\<close>

lemma wrap_retry: "0 < wait \<Longrightarrow> wait < maxRetry \<Longrightarrow> wrap64 (wait * 2) = wait * 2"
  by (rule wrap64_id) (simp add: int64_def maxRetry_def)

lemma retry_wait_min: "0 < wait \<Longrightarrow> min (retry_wait trials wait) maxRetry = min (wait * 2 ^ nat trials) maxRetry"
proof (induction trials wait rule: retry_wait.induct)
  case (1 trials wait)
  show ?case
  proof (cases "0 < trials \<and> wait < maxRetry")
    case True
    then have "nat trials = Suc (nat (trials - 1))" by linarith
    moreover have "min (retry_wait (trials - 1) (wait * 2)) maxRetry = min (wait * 2 * 2 ^ nat (trials - 1)) maxRetry"
      using 1(1) [OF True] 1(2) True wrap_retry by simp
    ultimately show ?thesis using True 1(2) wrap_retry by (subst retry_wait.simps) (simp add: mult.assoc)
  next
    case False
    then have "retry_wait trials wait = wait" by (subst retry_wait.simps) auto
    moreover have "wait \<le> wait * 2 ^ nat trials" using 1(2) by (simp add: mult_le_cancel_left1)
    ultimately show ?thesis using False by (cases "0 < trials") (auto simp: min.absorb2)
  qed
qed

text \<open>The wait for the next trial is the probe interval, doubled with every trial that failed, and at
  most a week, whatever the number of trials: nothing wraps around.\<close>

theorem retryAfter_exact:
  assumes "1 \<le> IntervalHours (nm_settings m)" "IntervalHours (nm_settings m) \<le> maxIntervalHours"
  shows "retryAfter m trials = min (IntervalHours (nm_settings m) * hour * 2 ^ nat trials) maxRetry"
proof -
  have "wrap64 (IntervalHours (nm_settings m) * hour) = IntervalHours (nm_settings m) * hour"
    by (rule wrap64_id) (use assms in \<open>simp add: int64_def maxIntervalHours_def\<close>)
  then show ?thesis using retry_wait_min [of "IntervalHours (nm_settings m) * hour" trials] assms by (simp add: retryAfter_def)
qed


subsection \<open>Examples\<close>

definition sample_cred :: "string \<Rightarrow> Credential" where
  "sample_cred i = \<lparr>CredAuthIndex = i, CredID = i, CredProvider = ''codex'', CredName = i, CredGroup = [], CredModels = Some [''g''],
     CredDisabled = False, Unavailable = False, InConfig = True, CredExcluded = []\<rparr>"

definition sample_probe :: "instant \<Rightarrow> probe_result \<Rightarrow> Probe" where
  "sample_probe t r = \<lparr>ProbeAt = t, ProbeModel = ''g'', ProbeResult = r, ProbeStatus = 200, ProbeError = [], LatencyMS = 1, Searches = 0,
     ProbeInput = 0, ProbeOutput = 0\<rparr>"

text \<open>Two channels of a model: \<open>a\<close> answered twice without a search, \<open>b\<close> searched.\<close>

definition sample_record :: "string \<Rightarrow> Probe list \<Rightarrow> int \<Rightarrow> channelRecord" where
  "sample_record i ps n = \<lparr>CrAuthIndex = i, Probes = ps, Pairs = Some [(''g'', \<lparr>NoSearch = n, LastProbe = 9 * hour, LastResult = None, PairRejection = None\<rparr>)],
     LegacyRejection = None, NotServing = [], Served = [''g''], Rotation = 1\<rparr>"

definition sample_data :: fileData where
  "sample_data = \<lparr>FdVersion = 1, FdSettings = DefaultSettings, FdCatalog = [(''g'', 9 * hour)], FdCredentials = [sample_cred ''a'', sample_cred ''b''],
     FdChannels = [sample_record ''a'' [sample_probe (8 * hour) ResultNoSearch, sample_probe (9 * hour) ResultNoSearch] 2,
       sample_record ''b'' [sample_probe (9 * hour) ResultSearch] 0], FdExclusions = [], FdLastFullRound = 9 * hour\<rparr>"

definition two_channels :: "nat native" where
  "two_channels = (case Open_native (\<lambda>_ _. Some sample_data) ''f'' (9 * hour) (Content 0) of Inr m \<Rightarrow> m)"

lemma two_channels_opened: "Open_native (\<lambda>_ _. Some sample_data) ''f'' (9 * hour) (Content (0 :: nat)) = Inr two_channels"
proof -
  have "TrimSpace ''f'' \<noteq> []" by code_simp
  moreover have "Normalize DefaultSettings = Inr DefaultSettings" by code_simp
  ultimately show ?thesis by (simp add: two_channels_def Open_native_def load_native_def Let_def sample_data_def nativeFileVersion_def)
qed

lemma two_channels_plan:
  "snd (planLocked (10 * hour) (refresh (10 * hour) None (Start (9 * hour) two_channels))) =
     [\<lparr>PlEdit = \<lparr>EdIndex = ''a'', EdModel = ''g'', Exclude = True, EdReason = ''it does not search natively''\<rparr>, PlDrop = False\<rparr>]"
  by code_simp

lemma exclude_edit_safe_witness:
  "confirmed (rec_pair (aget (nm_records (refresh (10 * hour) None (Start (9 * hour) two_channels))) ''a'') ''g'')"
proof -
  let ?pl = "\<lparr>PlEdit = \<lparr>EdIndex = ''a'', EdModel = ''g'', Exclude = True, EdReason = ''it does not search natively''\<rparr>, PlDrop = False\<rparr>"
  have "planLocked (10 * hour) (refresh (10 * hour) None (Start (9 * hour) two_channels)) =
      (fst (planLocked (10 * hour) (refresh (10 * hour) None (Start (9 * hour) two_channels))), [?pl])"
    by (simp only: two_channels_plan [symmetric] prod.collapse)
  from exclude_edit_safe [OF this, of ?pl] show ?thesis by simp
qed

definition on_trial :: "nat native" where
  "on_trial = (Start (8 * hour) two_channels)\<lparr>nm_exclusions := [((''a'', ''g''), (new_exclusion 0 (''a'', ''g''))\<lparr>TrialAt := 9 * hour + 1\<rparr>)]\<rparr>"

lemma trials_end_witness:
  "state_of ((new_exclusion 0 (''a'', ''g''))\<lparr>TrialAt := 9 * hour + 1\<rparr>) = ExclusionTrial \<and> time_sub (9 * hour + minute) (9 * hour + 1) < trialLimit"
proof -
  let ?e = "(new_exclusion 0 (''a'', ''g''))\<lparr>TrialAt := 9 * hour + 1\<rparr>"
  have a: "plan_active on_trial" "list_all (\<lambda>c. CredAuthIndex c = ''a'' \<longrightarrow> \<not> CredDisabled c) (nm_credentials on_trial)" by code_simp+
  have "map fst (nm_exclusions (fst (planLocked (9 * hour + minute) on_trial))) = [(''a'', ''g'')]"
    "map snd (nm_exclusions (fst (planLocked (9 * hour + minute) on_trial))) = [?e]" by code_simp+
  then have "((''a'', ''g''), ?e) \<in> set (nm_exclusions (fst (planLocked (9 * hour + minute) on_trial)))"
    by (metis list.set_intros(1) zip_map_fst_snd zip_Cons_Cons)
  moreover have "IsZero (KeptAt ?e)" "state_of ?e = ExclusionTrial" by code_simp+
  ultimately show ?thesis using trials_end [OF prod.collapse [symmetric] a(1)] a(2) by fastforce
qed

lemma retryAfter_exact_witness: "retryAfter two_channels 3 = 96 * hour"
proof -
  have i: "IntervalHours (nm_settings two_channels) = 12" by code_simp
  show ?thesis using retryAfter_exact [of two_channels 3] by (simp add: i maxIntervalHours_def maxRetry_def)
qed

end
