(* ===== verification/NativeReach.thy ===== *)
theory NativeReach
  imports NativeExclude
begin

text \<open>
  The states the manager of native search can be in: every operation of NativeState and NativeExclude, in
  any order, the halves of a reconcile apart. And the course of a refusal, from the client request that met it
  to the probe that clears it.
\<close>


subsection \<open>The invariant\<close>

definition settings_ok :: "NativeSettings \<Rightarrow> bool" where
  "settings_ok s \<longleftrightarrow> Normalize s = Inr s"

definition pairs_ok :: "channelRecord \<Rightarrow> bool" where
  "pairs_ok rec \<longleftrightarrow> amap_ok (rec_pairs (Some rec))"

definition record_ok :: "channelRecord \<Rightarrow> bool" where
  "record_ok rec \<longleftrightarrow> pairs_ok rec \<and> LegacyRejection rec = None"

definition records_ok :: "(string, channelRecord) amap \<Rightarrow> bool" where
  "records_ok rs \<longleftrightarrow> amap_ok rs \<and> list_all (\<lambda>(i, rec). CrAuthIndex rec = i \<and> record_ok rec) rs"

definition exclusions_ok :: "(pair, exclusion) amap \<Rightarrow> bool" where
  "exclusions_ok ex \<longleftrightarrow> amap_ok ex \<and> list_all (\<lambda>(key, e). key = (ExIndex e, ExModel e)) ex"

definition native_ok :: "'f native \<Rightarrow> bool" where
  "native_ok m \<longleftrightarrow> settings_ok (nm_settings m) \<and> amap_ok (nm_catalog m) \<and> records_ok (nm_records m) \<and> exclusions_ok (nm_exclusions m)"

lemma Normalize_ok: "Normalize s = Inr t \<Longrightarrow> settings_ok t"
  using Normalize_again by (simp add: settings_ok_def)

lemma records_ok_get: "records_ok rs \<Longrightarrow> aget rs i = Some rec \<Longrightarrow> CrAuthIndex rec = i \<and> record_ok rec"
  by (auto simp: records_ok_def list_all_iff dest!: map_of_SomeD)

lemma records_ok_set: "records_ok rs \<Longrightarrow> CrAuthIndex rec = i \<Longrightarrow> record_ok rec \<Longrightarrow> records_ok (aset i rec rs)"
  unfolding records_ok_def list_all_iff by (auto dest!: aset_members)

lemma records_ok_filter: "records_ok rs \<Longrightarrow> records_ok (filter P rs)"
  by (auto simp: records_ok_def list_all_iff)

lemma exclusions_ok_set: "exclusions_ok ex \<Longrightarrow> key = (ExIndex e, ExModel e) \<Longrightarrow> exclusions_ok (aset key e ex)"
  unfolding exclusions_ok_def list_all_iff by (auto dest!: aset_members)

lemma exclusions_ok_filter: "exclusions_ok ex \<Longrightarrow> exclusions_ok (filter P ex)"
  by (auto simp: exclusions_ok_def list_all_iff)

lemma exclusions_ok_del: "exclusions_ok ex \<Longrightarrow> exclusions_ok (adel key ex)"
  unfolding exclusions_ok_def list_all_iff by (auto dest!: adel_members)

lemma exclusions_ok_get: "exclusions_ok ex \<Longrightarrow> aget ex key = Some e \<Longrightarrow> key = (ExIndex e, ExModel e)"
  by (auto simp: exclusions_ok_def list_all_iff dest!: map_of_SomeD)

subsubsection \<open>Records\<close>

lemma pairFor_ok: "record_ok rec \<Longrightarrow> record_ok (pairFor model f rec)"
  by (auto simp: record_ok_def pairs_ok_def pairFor_def rec_pairs_def Let_def split: option.splits)

lemma pairFor_same [simp]: "CrAuthIndex (pairFor model f rec) = CrAuthIndex rec" "Probes (pairFor model f rec) = Probes rec"
  by (simp_all add: pairFor_def Let_def)

lemma recordLocked_ok:
  assumes "native_ok m" "\<And>rec. CrAuthIndex (f rec) = CrAuthIndex rec" "\<And>rec. record_ok rec \<Longrightarrow> record_ok (f rec)"
  shows "native_ok (recordLocked i f m)"
proof -
  have "records_ok (nm_records (recordLocked i f m))"
  proof (cases "aget (nm_records m) i")
    case None
    then show ?thesis using assms by (auto simp: native_ok_def recordLocked_def record_ok_def pairs_ok_def rec_pairs_def intro!: records_ok_set)
  next
    case (Some rec)
    then show ?thesis using assms records_ok_get [of "nm_records m" i rec] by (auto simp: native_ok_def recordLocked_def intro!: records_ok_set)
  qed
  then show ?thesis using assms(1) by (simp add: native_ok_def recordLocked_def)
qed

lemma native_ok_cong: "native_ok m \<Longrightarrow> nm_settings m' = nm_settings m \<Longrightarrow> nm_catalog m' = nm_catalog m \<Longrightarrow> nm_records m' = nm_records m \<Longrightarrow>
    nm_exclusions m' = nm_exclusions m \<Longrightarrow> native_ok m'"
  by (simp add: native_ok_def)

lemma rebuild_ok [simp]: "native_ok (rebuildLocked now m) = native_ok m"
  by (simp add: native_ok_def rebuildLocked_def)

lemma pairFor_pairs: "pairs_ok rec \<Longrightarrow> pairs_ok (pairFor model f rec)"
  by (auto simp: pairs_ok_def pairFor_def rec_pairs_def Let_def split: option.splits)

lemma migrate_ok:
  assumes "pairs_ok rec"
  shows "record_ok (migrate rec)" "CrAuthIndex (migrate rec) = CrAuthIndex rec"
proof -
  have f: "pairs_ok (fold (\<lambda>probe. pairFor (ProbeModel probe) (observe probe (ProbeAt probe))) ps rec) \<and>
      CrAuthIndex (fold (\<lambda>probe. pairFor (ProbeModel probe) (observe probe (ProbeAt probe))) ps rec) = CrAuthIndex rec"
    if "pairs_ok rec" for ps rec
    using that by (induction ps arbitrary: rec) (simp_all add: pairFor_pairs)
  define rec1 where "rec1 = (if Pairs rec = None then fold (\<lambda>probe. pairFor (ProbeModel probe) (observe probe (ProbeAt probe))) (Probes rec) rec else rec)"
  define rec2 where "rec2 = (case LegacyRejection rec1 of None \<Rightarrow> rec1 | Some r \<Rightarrow> pairFor (RejModel r) (\<lambda>p. p\<lparr>PairRejection := Some r\<rparr>) rec1)"
  have m: "migrate rec = (if Pairs rec \<noteq> None \<and> LegacyRejection rec = None then rec else rec2\<lparr>LegacyRejection := None\<rparr>)"
    unfolding migrate_def rec2_def rec1_def Let_def by simp
  have "pairs_ok rec1 \<and> CrAuthIndex rec1 = CrAuthIndex rec" using f [OF assms] assms by (simp add: rec1_def)
  then have "pairs_ok rec2 \<and> CrAuthIndex rec2 = CrAuthIndex rec" by (auto simp: rec2_def pairFor_pairs split: option.split)
  then have "pairs_ok (rec2\<lparr>LegacyRejection := None\<rparr>) \<and> CrAuthIndex rec2 = CrAuthIndex rec" by (simp add: pairs_ok_def rec_pairs_def)
  then show "record_ok (migrate rec)" "CrAuthIndex (migrate rec) = CrAuthIndex rec"
    using assms by (simp_all add: m record_ok_def)
qed

text \<open>What decoding a file gives: maps.\<close>

definition decode_ok :: "(fileData \<Rightarrow> 'f \<Rightarrow> fileData option) \<Rightarrow> bool" where
  "decode_ok decode \<longleftrightarrow> (\<forall>d raw d'. decode d raw = Some d' \<longrightarrow> list_all (\<lambda>rec. pairs_ok rec) (FdChannels d'))"

lemma Default_ok: "settings_ok DefaultSettings"
  unfolding settings_ok_def by code_simp

lemma load_native_ok:
  assumes "decode_ok decode" "load_native decode f = Inr d"
  shows "settings_ok (FdSettings d) \<and> list_all (\<lambda>rec. pairs_ok rec) (FdChannels d)"
proof (cases f)
  case (Content raw)
  then obtain d0 s where "decode \<lparr>FdVersion = 0, FdSettings = DefaultSettings, FdCatalog = [], FdCredentials = [], FdChannels = [],
      FdExclusions = [], FdLastFullRound = zero_time\<rparr> raw = Some d0" "Normalize (FdSettings d0) = Inr s" "d = d0\<lparr>FdSettings := s\<rparr>"
    using assms(2) by (auto simp: load_native_def Let_def split: option.splits if_splits sum.splits)
  then show ?thesis using assms(1) Normalize_ok unfolding decode_ok_def by fastforce
qed (use assms(2) Default_ok in \<open>auto simp: load_native_def Let_def\<close>)

lemma Open_ok:
  assumes "decode_ok decode" "Open_native decode path now f = Inr m"
  shows "native_ok m"
proof -
  obtain d where d: "load_native decode f = Inr d" using assms(2) by (auto simp: Open_native_def split: if_splits sum.splits)
  note ok = load_native_ok [OF assms(1) d]
  have cat: "amap_ok (fold (\<lambda>(slug, seen). aset slug seen) cs ca)" if "amap_ok ca" for cs and ca :: "(string, instant) amap"
    using that by (induction cs arbitrary: ca) (simp_all add: case_prod_unfold)
  have recs: "records_ok (fold (\<lambda>rec. aset (CrAuthIndex (migrate rec)) (migrate rec)) rs ra)"
    if "records_ok ra" "list_all (\<lambda>rec. pairs_ok rec) rs" for rs ra
    using that by (induction rs arbitrary: ra) (simp_all add: records_ok_set migrate_ok(1))
  have exs: "exclusions_ok (fold (\<lambda>e. aset (ExIndex e, ExModel e) e) es xa)" if "exclusions_ok xa" for es xa
    using that by (induction es arbitrary: xa) (simp_all add: exclusions_ok_set)
  have nil: "records_ok []" "exclusions_ok []" by (simp_all add: records_ok_def exclusions_ok_def)
  show ?thesis using assms(2) d ok cat [of "[]"] recs [OF nil(1)] exs [OF nil(2)]
    by (auto simp: Open_native_def native_ok_def rebuildLocked_def split: if_splits)
qed


subsubsection \<open>Operations\<close>

lemma prune_ok: "records_ok rs \<Longrightarrow> records_ok (map (\<lambda>(i, rec). (i, prune_pairs catalog rec)) rs)"
  by (auto simp: records_ok_def record_ok_def pairs_ok_def list_all_iff amap_ok_def prune_pairs_def rec_pairs_def comp_def case_prod_unfold distinct_map_filter split: option.splits)

lemma saveLocked_ok: "native_ok m \<Longrightarrow> native_ok (fst (saveLocked encode fails canWrite now m))"
  by (auto simp: saveLocked_def Let_def native_ok_def prune_ok prune_catalog_def split: option.split prod.split bool.split)

lemma flushLocked_ok: "native_ok m \<Longrightarrow> native_ok (flushLocked encode fails canWrite now m)"
  by (simp add: flushLocked_def saveLocked_ok)

lemma observeCandidates_ok: "native_ok m \<Longrightarrow> native_ok (observeCandidates now slugs m)"
proof -
  have "native_ok m \<Longrightarrow> native_ok (fst (fold (observe_candidate now) slugs (m, added)))" for added and m :: "'b native"
  proof (induction slugs arbitrary: m added)
    case (Cons slug slugs)
    obtain m1 added1 where o: "observe_candidate now slug (m, added) = (m1, added1)" by force
    have "native_ok m1" using o Cons.prems by (auto simp: observe_candidate_def native_ok_def split: option.splits if_splits)
    from Cons.IH [OF this] show ?case by (simp add: o)
  qed simp
  then show "native_ok m \<Longrightarrow> native_ok (observeCandidates now slugs m)" by (simp add: observeCandidates_def case_prod_unfold Let_def)
qed

lemma recorded_ok: "native_ok m \<Longrightarrow> native_ok (recordLocked i (pairFor model f) m)"
  by (rule recordLocked_ok) (simp_all add: pairFor_ok)

lemma dirty_ok: "native_ok (m\<lparr>nm_dirty := b\<rparr>) = native_ok m"
  by (simp add: native_ok_def)

lemma ObserveFailure_ok: "native_ok m \<Longrightarrow> native_ok (ObserveFailure now i model status message m)"
  unfolding ObserveFailure_def Let_def by (auto simp: recorded_ok dirty_ok split: option.split)

lemma update_settings_ok:
  assumes "native_ok m"
  shows "native_ok (fst (update_settings encode fails canWrite now next m))"
proof (cases "Normalize next")
  case (Inr s)
  have "native_ok (m\<lparr>nm_settings := s\<rparr>)" using assms Normalize_ok [OF Inr] by (simp add: native_ok_def)
  from saveLocked_ok [OF this] have n: "native_ok (fst (saveLocked encode fails canWrite now (m\<lparr>nm_settings := s\<rparr>)))" .
  obtain m1 e where sv: "saveLocked encode fails canWrite now (m\<lparr>nm_settings := s\<rparr>) = (m1, e)" by force
  have "native_ok (m1\<lparr>nm_settings := nm_settings m\<rparr>)" using n sv assms by (simp add: native_ok_def)
  moreover have "native_ok (m1\<lparr>nm_round := r\<rparr>)" for r using n sv by (simp add: native_ok_def)
  ultimately show ?thesis using assms n sv Inr by (auto simp: update_settings_def Let_def split: option.split)
qed (use assms in \<open>simp add: update_settings_def\<close>)

lemma applyCredentials_ok: "native_ok m \<Longrightarrow> native_ok (applyCredentialsLocked now listing m)"
  by (auto simp: applyCredentialsLocked_def Let_def native_ok_def records_ok_filter exclusions_ok_filter split: sum.split)

lemma refresh_ok: "native_ok m \<Longrightarrow> native_ok (refresh now listing m)"
  by (auto simp: refresh_def applyCredentials_ok split: option.split)

lemma ProbeNow_ok: "native_ok m \<Longrightarrow> native_ok (fst (ProbeNow now i listing m))"
proof -
  assume m: "native_ok m"
  have "native_ok (startRoundLocked now kind jobs m)" if "native_ok m" for kind jobs and m :: "'a native" using that by (simp add: startRoundLocked_def native_ok_def)
  with applyCredentials_ok [OF m] m show ?thesis by (auto simp: ProbeNow_def Let_def split: sum.split)
qed

lemma tick_round_ok: "native_ok m \<Longrightarrow> native_ok (fst (tick_round encode fails canWrite now m))"
proof -
  assume m: "native_ok m"
  have "native_ok (startRoundLocked now kind jobs m)" for kind jobs using m by (simp add: startRoundLocked_def native_ok_def)
  with m show ?thesis by (auto simp: tick_round_def Let_def flushLocked_ok split: option.split prod.split)
qed

lemma markNotServing_ok: "native_ok m \<Longrightarrow> native_ok (markNotServing i model m)"
proof -
  assume m: "native_ok m"
  have "native_ok (recordLocked i (\<lambda>rec. if model \<in> set (NotServing rec) then rec else rec\<lparr>NotServing := NotServing rec @ [model]\<rparr>) m)"
    by (rule recordLocked_ok [OF m]) (auto simp: record_ok_def pairs_ok_def rec_pairs_def)
  then show ?thesis by (simp add: markNotServing_def Let_def dirty_ok)
qed

lemma record_probe_ok: "record_ok rec \<Longrightarrow> record_ok (record_probe now probe rec)"
  unfolding record_probe_def by (rule pairFor_ok) (simp add: record_ok_def pairs_ok_def rec_pairs_def)

lemma recordProbe_ok: "native_ok m \<Longrightarrow> native_ok (recordProbe now i probe m)"
proof -
  assume m: "native_ok m"
  have "native_ok (recordLocked i (record_probe now probe) m)"
    by (rule recordLocked_ok [OF m]) (simp_all add: record_probe_ok, simp add: record_probe_def)
  then have "native_ok ((job_done (recordLocked i (record_probe now probe) m))\<lparr>nm_dirty := True\<rparr>)" by (simp add: job_done_def native_ok_def)
  then show ?thesis by (simp add: recordProbe_def)
qed

lemma round_end_ok: "native_ok m \<Longrightarrow> native_ok (round_end encode fails canWrite now m)"
proof (cases "nm_round m")
  case (Some r)
  assume m: "native_ok m"
  have "native_ok ((if RsKind r = RoundFull \<and> \<not> RsCancelled r then m\<lparr>nm_lastFull := RsStarted r, nm_dirty := True\<rparr> else m)\<lparr>nm_round := None\<rparr>)"
    using m by (simp add: native_ok_def)
  then show ?thesis by (simp add: round_end_def Some Let_def flushLocked_ok)
qed (simp add: round_end_def)

lemma add_exclusions_ok: "exclusions_ok (nm_exclusions m) \<Longrightarrow> exclusions_ok (nm_exclusions (add_exclusions now m))"
proof -
  have one: "exclusions_ok (nm_exclusions m) \<Longrightarrow> exclusions_ok (nm_exclusions (add_gap now model gap m))" for model gap and m :: "'b native"
    by (auto simp: add_gap_def Let_def new_exclusion_def intro: exclusions_ok_set)
  have gaps: "exclusions_ok (nm_exclusions m) \<Longrightarrow> exclusions_ok (nm_exclusions (fold (add_gap now model) gs m))" for model gs and m :: "'b native"
    by (induction gs arbitrary: m) (simp_all add: one)
  have "exclusions_ok (nm_exclusions m) \<Longrightarrow> exclusions_ok (nm_exclusions
      (fold (\<lambda>dec m. if DecMode dec \<noteq> ModeNative then m else fold (add_gap now (DecModel dec)) (Gaps dec) m) ds m))" for ds and m :: "'b native"
    by (induction ds arbitrary: m) (simp_all add: gaps)
  then show "exclusions_ok (nm_exclusions m) \<Longrightarrow> exclusions_ok (nm_exclusions (add_exclusions now m))" by (simp add: add_exclusions_def)
qed

lemma planLocked_ok:
  assumes "native_ok m" "planLocked now m = (m', edits)"
  shows "native_ok m'"
proof -
  from assms(2) obtain ma where ma: "same_evidence ma m" "ma = (if plan_canAdd now m then add_exclusions now m else m)"
    "set (nm_exclusions m') = {(key, e'). \<exists>e chg pl. (key, e) \<in> set (nm_exclusions ma) \<and> plan_entry now ma (key, e) = (Some e', chg, pl)}"
    "m' = ma\<lparr>nm_exclusions := nm_exclusions m', nm_dirty := nm_dirty m'\<rparr>"
    "map fst (nm_exclusions m') = map fst (filter (\<lambda>x. fst (plan_entry now ma x) \<noteq> None) (nm_exclusions ma))"
    by (rule plan_parts) blast
  have a: "exclusions_ok (nm_exclusions ma)" using assms(1) ma(2) add_exclusions_ok by (auto simp: native_ok_def)
  have names: "ExIndex e' = ExIndex e \<and> ExModel e' = ExModel e" if "plan_entry now ma (key, e) = (Some e', chg, pl)" for key e e' chg pl
  proof -
    from that obtain e1 chg1 reason chg2 where s: "settle_entry now (nm_editedAt ma < nm_listedAt ma)
        (aget (rev (map (\<lambda>c. (CredAuthIndex c, c)) (nm_credentials ma))) (fst key)) (snd key) e = Some (e1, chg1)"
      "plan_want now (plan_active ma) (snd key \<in> d_native (nm_snapshot ma)) (snd key \<in> d_candidates (nm_snapshot ma))
        (aget (rev (map (\<lambda>c. (CredAuthIndex c, c)) (nm_credentials ma))) (fst key)) (rec_pair (aget (nm_records ma) (fst key)) (snd key)) e1 = (e', reason, chg2)"
      unfolding plan_entry_def prod.case by (rule plan_one_kept)
    show ?thesis using settle_entry_keeps [OF s(1)] plan_want_result [OF s(2)] by simp
  qed
  have "amap_ok (nm_exclusions m')" unfolding amap_ok_def ma(5) using a by (auto simp: exclusions_ok_def amap_ok_def distinct_map_filter)
  moreover have "list_all (\<lambda>(key, e). key = (ExIndex e, ExModel e)) (nm_exclusions m')"
    unfolding list_all_iff ma(3) using a names by (fastforce simp: exclusions_ok_def list_all_iff)
  ultimately have "exclusions_ok (nm_exclusions m')" by (simp add: exclusions_ok_def)
  moreover have "nm_settings m' = nm_settings m" "nm_records m' = nm_records m" "nm_catalog m' = nm_catalog m"
    using ma(1) by (subst ma(4), simp add: same_evidence_def)+
  ultimately show ?thesis using assms(1) by (simp add: native_ok_def)
qed

lemma keep_prepare_ok: "native_ok m \<Longrightarrow> keep_prepare now key keep m = Inr m' \<Longrightarrow> native_ok m'"
proof (cases "aget (nm_exclusions m) key")
  case (Some e)
  assume m: "native_ok m" "keep_prepare now key keep m = Inr m'"
  let ?e = "e\<lparr>TrialAt := zero_time, KeptAt := (if keep then now else zero_time), KeptBy := (if keep then KeptByOperator else [])\<rparr>"
  have "key = (ExIndex ?e, ExModel ?e)" using exclusions_ok_get [OF _ Some] m(1) by (simp add: native_ok_def)
  then have "native_ok (m\<lparr>nm_dirty := True, nm_exclusions := aset key ?e (nm_exclusions m)\<rparr>)" using m(1) by (simp add: native_ok_def exclusions_ok_set)
  then show ?thesis using m by (auto simp: keep_prepare_def Some split: if_splits)
qed (simp add: keep_prepare_def)

lemma reconcile_plan_ok:
  assumes "native_ok m" "\<And>m'. prepare m = Inr m' \<Longrightarrow> native_ok m'"
  shows "native_ok (fst (reconcile_plan canWrite now prepare m))"
proof (cases "prepare m")
  case (Inr m1)
  obtain m2 edits where "planLocked now m1 = (m2, edits)" by force
  with planLocked_ok [OF assms(2) [OF Inr] this] assms(2) [OF Inr] show ?thesis by (simp add: reconcile_plan_def Inr)
qed (use assms(1) in \<open>simp add: reconcile_plan_def\<close>)

lemma with_exclusion_ok:
  assumes "native_ok m" "\<And>e e'. f e = Some e' \<Longrightarrow> ExIndex e' = ExIndex e \<and> ExModel e' = ExModel e"
  shows "native_ok (with_exclusion key f m)"
proof (cases "aget (nm_exclusions m) key")
  case (Some e)
  have x: "exclusions_ok (nm_exclusions m)" using assms(1) by (simp add: native_ok_def)
  show ?thesis
  proof (cases "f e")
    case None
    then show ?thesis using Some assms(1) by (simp add: with_exclusion_def native_ok_def exclusions_ok_del)
  next
    case (Some e')
    then have "key = (ExIndex e', ExModel e')" using assms(2) exclusions_ok_get [OF x \<open>aget (nm_exclusions m) key = Some e\<close>] by simp
    then show ?thesis using Some \<open>aget (nm_exclusions m) key = Some e\<close> assms(1) by (simp add: with_exclusion_def native_ok_def exclusions_ok_set)
  qed
qed (use assms(1) in \<open>simp add: with_exclusion_def\<close>)

lemma apply_result_ok: "native_ok m \<Longrightarrow> native_ok (apply_result now x m)"
  unfolding apply_result_def case_prod_unfold by (rule with_exclusion_ok) (auto split: edit_result.splits if_splits)

lemma fold_ok: "native_ok m \<Longrightarrow> (\<And>x m. native_ok m \<Longrightarrow> native_ok (f x m)) \<Longrightarrow> native_ok (fold f xs m)"
  by (induction xs arbitrary: m) simp_all

lemma reconcile_apply_ok:
  assumes "native_ok m"
  shows "native_ok (fst (reconcile_apply now edits answer m))"
proof -
  have "native_ok (fold (\<lambda>p. with_exclusion (edit_key p) (\<lambda>e. Some (e\<lparr>ExError := err\<rparr>))) edits m)" for err
    by (rule fold_ok [OF assms]) (rule with_exclusion_ok, auto)
  moreover have "native_ok (fold (apply_result now) xs (m\<lparr>nm_dirty := True, nm_editErr := [], nm_editedAt := now\<rparr>))" for xs
    by (rule fold_ok) (use assms apply_result_ok in \<open>auto simp: native_ok_def\<close>)
  ultimately show ?thesis using assms
    by (auto simp: reconcile_apply_def Let_def native_ok_def split: sum.split)
qed


subsection \<open>Reachable managers\<close>

inductive native_reach :: "(fileData \<Rightarrow> 'f option) \<Rightarrow> (fileData \<Rightarrow> 'f \<Rightarrow> fileData option) \<Rightarrow> 'f native \<Rightarrow> bool"
  for encode decode where
  opened: "Open_native decode path now f = Inr m \<Longrightarrow> native_reach encode decode m"
| catalog_seen: "native_reach encode decode m \<Longrightarrow> native_reach encode decode (observeCandidates now slugs m)"
| failure_seen: "native_reach encode decode m \<Longrightarrow> native_reach encode decode (ObserveFailure now i model status message m)"
| settings_updated: "native_reach encode decode m \<Longrightarrow> native_reach encode decode (fst (update_settings encode fails canWrite now next m))"
| search_started: "native_reach encode decode m \<Longrightarrow> native_reach encode decode (Start now m)"
| handed_off: "native_reach encode decode m \<Longrightarrow> native_reach encode decode (hand_off encode fails canWrite now m)"
| refreshed: "native_reach encode decode m \<Longrightarrow> native_reach encode decode (refresh now listing m)"
| probed_now: "native_reach encode decode m \<Longrightarrow> native_reach encode decode (fst (ProbeNow now i listing m))"
| round_started: "native_reach encode decode m \<Longrightarrow> native_reach encode decode (fst (tick_round encode fails canWrite now m))"
| not_served: "native_reach encode decode m \<Longrightarrow> native_reach encode decode (markNotServing i model m)"
| probe_recorded: "native_reach encode decode m \<Longrightarrow> native_reach encode decode (recordProbe now i probe m)"
| job_ended: "native_reach encode decode m \<Longrightarrow> native_reach encode decode (job_done m)"
| round_ended: "native_reach encode decode m \<Longrightarrow> native_reach encode decode (round_end encode fails canWrite now m)"
| planned: "native_reach encode decode m \<Longrightarrow> native_reach encode decode (fst (reconcile_plan canWrite now Inr m))"
| keep_planned: "native_reach encode decode m \<Longrightarrow> native_reach encode decode (fst (keep_plan canWrite now i model keep m))"
| applied: "native_reach encode decode m \<Longrightarrow> native_reach encode decode (fst (reconcile_apply now edits answer m))"

lemma native_reach_ok: "native_reach encode decode m \<Longrightarrow> decode_ok decode \<Longrightarrow> native_ok m"
proof (induction rule: native_reach.induct)
  case (search_started m now)
  then show ?case by (simp add: Start_def native_ok_def)
next
  case (handed_off m fails canWrite now)
  then have "native_ok (m\<lparr>nm_started := False, nm_round := map_option (\<lambda>r. r\<lparr>RsCancelled := True\<rparr>) (nm_round m)\<rparr>)" by (simp add: native_ok_def)
  then show ?case unfolding hand_off_def by (rule flushLocked_ok)
next
  case (job_ended m)
  then show ?case by (simp add: job_done_def native_ok_def)
next
  case (planned m canWrite now)
  then show ?case by (intro reconcile_plan_ok) auto
next
  case (keep_planned m canWrite now i model keep)
  then show ?case by (auto simp: keep_plan_def intro!: reconcile_plan_ok dest: keep_prepare_ok)
qed (simp_all add: Open_ok observeCandidates_ok ObserveFailure_ok update_settings_ok refresh_ok ProbeNow_ok tick_round_ok markNotServing_ok
  recordProbe_ok round_end_ok reconcile_apply_ok)



definition sample_native :: "nat native" where
  "sample_native = (case Open_native (\<lambda>_ _. None) ''f'' 0 Absent of Inr m \<Rightarrow> m)"

lemma sample_opened: "Open_native (\<lambda>_ _. None) ''f'' 0 Absent = Inr sample_native"
proof -
  have "TrimSpace ''f'' \<noteq> []" by code_simp
  then show ?thesis by (simp add: sample_native_def Open_native_def load_native_def Let_def)
qed



subsection \<open>The course of a refusal\<close>

lemma refused_fold: "(i, model) \<in> fold (\<lambda>(model, p) acc. if PairRejection p \<noteq> None then insert (j, model) acc else acc) ps acc \<longleftrightarrow>
    (i, model) \<in> acc \<or> i = j \<and> (\<exists>p. (model, p) \<in> set ps \<and> PairRejection p \<noteq> None)"
proof (induction ps arbitrary: acc)
  case (Cons x ps)
  then show ?case by (cases x) auto
qed simp

lemma channel_refused: "(i, model) \<in> d_refused (decide_channel s records now c d) \<longleftrightarrow> (i, model) \<in> d_refused d \<or>
    Enabled s \<and> CredAuthIndex c = i \<and> (\<exists>p. (model, p) \<in> set (rec_pairs (aget records i)) \<and> PairRejection p \<noteq> None)"
proof (cases "aget records (CredAuthIndex c) = None \<or> \<not> Enabled s")
  case True
  then show ?thesis by (auto simp: decide_channel_def Let_def rec_pairs_def)
next
  case False
  then have e: "d_refused (decide_channel s records now c d) =
      fold (\<lambda>(model, p) acc. if PairRejection p \<noteq> None then insert (CredAuthIndex c, model) acc else acc) (rec_pairs (aget records (CredAuthIndex c))) (d_refused d)"
    by (simp add: decide_channel_def Let_def del: not_None_eq)
  show ?thesis unfolding e refused_fold using False by blast
qed

lemma channel_strip: "i \<in> d_strip (decide_channel s records now c d) \<longleftrightarrow> i \<in> d_strip d \<or> Enabled s \<and> CredAuthIndex c = i \<and> i \<in> set (DisabledChannels s)"
  by (auto simp: decide_channel_def Let_def)

lemma decide_strips:
  "(i, model) \<in> d_refused (decide s cands cs records ex now) \<longleftrightarrow>
     Enabled s \<and> i \<in> CredAuthIndex ` set cs \<and> (\<exists>p. (model, p) \<in> set (rec_pairs (aget records i)) \<and> PairRejection p \<noteq> None)"
  "i \<in> d_strip (decide s cands cs records ex now) \<longleftrightarrow> Enabled s \<and> i \<in> CredAuthIndex ` set cs \<and> i \<in> set (DisabledChannels s)"
proof -
  have m: "d_refused (fold (decide_model s cs records ex now) cands d) = d_refused d \<and> d_strip (fold (decide_model s cs records ex now) cands d) = d_strip d" for d
    by (induction cands arbitrary: d) (simp_all add: decide_model_eq)
  have r: "(i, model) \<in> d_refused (fold (decide_channel s records now) cs d) \<longleftrightarrow> (i, model) \<in> d_refused d \<or>
      Enabled s \<and> i \<in> CredAuthIndex ` set cs \<and> (\<exists>p. (model, p) \<in> set (rec_pairs (aget records i)) \<and> PairRejection p \<noteq> None)" for d
    by (induction cs arbitrary: d) (auto simp: channel_refused)
  have t: "i \<in> d_strip (fold (decide_channel s records now) cs d) \<longleftrightarrow> i \<in> d_strip d \<or> Enabled s \<and> i \<in> CredAuthIndex ` set cs \<and> i \<in> set (DisabledChannels s)" for d
    by (induction cs arbitrary: d) (auto simp: channel_strip)
  show "(i, model) \<in> d_refused (decide s cands cs records ex now) \<longleftrightarrow>
     Enabled s \<and> i \<in> CredAuthIndex ` set cs \<and> (\<exists>p. (model, p) \<in> set (rec_pairs (aget records i)) \<and> PairRejection p \<noteq> None)"
    "i \<in> d_strip (decide s cands cs records ex now) \<longleftrightarrow> Enabled s \<and> i \<in> CredAuthIndex ` set cs \<and> i \<in> set (DisabledChannels s)"
    by (simp_all add: decide_def m r t)
qed

text \<open>With maps, the pairs with a refusal are those a lookup finds.\<close>

lemma pair_lookup: "amap_ok (rec_pairs rec) \<Longrightarrow> (\<exists>p. (model, p) \<in> set (rec_pairs rec) \<and> PairRejection p \<noteq> None) \<longleftrightarrow>
    (\<exists>p. rec_pair rec model = Some p \<and> PairRejection p \<noteq> None)"
  unfolding rec_pair_def by (metis aget_SomeI map_of_SomeD)

lemma record_pairs_ok: "native_ok m \<Longrightarrow> amap_ok (rec_pairs (aget (nm_records m) i))"
  by (cases "aget (nm_records m) i") (auto simp: native_ok_def rec_pairs_def dest!: records_ok_get simp: record_ok_def pairs_ok_def)

lemma strips_rebuilt:
  assumes "native_ok m"
  shows "Strips (rebuildLocked now m) i model \<longleftrightarrow> model \<in> set (candidatesLocked now m) \<and> Enabled (nm_settings m) \<and> i \<in> CredAuthIndex ` set (nm_credentials m) \<and>
    (i \<in> set (DisabledChannels (nm_settings m)) \<or> (\<exists>p. rec_pair (aget (nm_records m) i) model = Some p \<and> PairRejection p \<noteq> None))"
  using pair_lookup [OF record_pairs_ok [OF assms], of model i]
  by (auto simp: Strips_def rebuildLocked_def decisions_of_def decide_eq decide_strips Let_def)

lemma pairFor_get: "rec_pair (Some (pairFor model f rec)) model' =
    (if model' = model then Some (f (case rec_pair (Some rec) model of None \<Rightarrow> empty_pair | Some p \<Rightarrow> p)) else rec_pair (Some rec) model')"
  by (simp add: rec_pair_def rec_pairs_def pairFor_def Let_def split: option.splits)

lemma recorded_get: "aget (nm_records (recordLocked i f m)) i = Some (f (case aget (nm_records m) i of Some rec \<Rightarrow> rec
     | None \<Rightarrow> \<lparr>CrAuthIndex = i, Probes = [], Pairs = None, LegacyRejection = None, NotServing = [], Served = [], Rotation = 0\<rparr>))"
  by (simp add: recordLocked_def)



lemma two_channels_reach: "native_reach encode (\<lambda>_ _. Some sample_data) two_channels" "decode_ok (\<lambda>_ _. Some sample_data)"
proof -
  show "native_reach encode (\<lambda>_ _. Some sample_data) two_channels" by (rule opened [OF two_channels_opened])
  have "list_all pairs_ok (FdChannels sample_data)" by code_simp
  then show "decode_ok (\<lambda>_ _. Some sample_data)" by (simp add: decode_ok_def)
qed



subsection \<open>Full rounds\<close>

lemma served_set: "set (servedLocked m c candidates) = {model \<in> set candidates. serves c (aget (nm_records m) (CredAuthIndex c)) model}"
proof -
  have r: "set (drop n xs @ take n xs) = set xs" for n and xs :: "string list"
    by (metis Un_commute append_take_drop_id set_append)
  show ?thesis by (cases "aget (nm_records m) (CredAuthIndex c)") (auto simp: servedLocked_def Let_def r [simplified])
qed

lemma moveFirst_set: "set (moveFirst models model) = set models"
proof (cases "model \<in> set (tl models) \<and> hd models \<noteq> model")
  case True
  then have "model \<in> set models" by (cases models) auto
  then have "mset (model # remove1 model models) = mset models" by simp
  then show ?thesis using True by (metis moveFirst_def set_mset_mset)
qed (auto simp: moveFirst_def)

lemma due_models_keep:
  assumes "model \<in> set (servedLocked m c candidates)"
  shows "model \<in> set (fst (due_models now full m candidates c))"
proof -
  obtain focus trial where f: "focusLocked m c (aget (nm_records m) (CredAuthIndex c)) candidates now = (focus, trial)" by force
  show ?thesis using assms by (auto simp: due_models_def Let_def f moveFirst_set split: option.split)
qed

lemma due_full:
  assumes "\<not> CredDisabled c" "\<not> Unavailable c" "model \<in> set (servedLocked m c candidates)"
  shows "\<exists>j. due_job now True m candidates c = Some (j, RoundFull) \<and> JobCredential j = c \<and> model \<in> set (JobModels j)"
proof -
  obtain models focus trial where d: "due_models now True m candidates c = (models, focus, trial)" by (metis prod_cases3)
  then have "model \<in> set models" using due_models_keep [OF assms(3), of now True] by simp
  then show ?thesis using assms(1,2) by (auto simp: due_job_def Let_def d)
qed

lemma due_job_full: "due_job now True m candidates c = Some (j, kind) \<Longrightarrow> kind = RoundFull"
  by (auto simp: due_job_def Let_def case_prod_unfold split: if_splits option.splits)

lemma full_round_jobs:
  assumes "IsZero (nm_lastFull m) \<or> wrap64 (IntervalHours (nm_settings m) * hour) \<le> time_sub now (nm_lastFull m)"
    "c \<in> set (nm_credentials m)" "\<not> CredDisabled c" "\<not> Unavailable c"
    "model \<in> set (candidatesLocked now m)" "serves c (aget (nm_records m) (CredAuthIndex c)) model"
  shows "\<exists>jobs. dueLocked now m = Some (RoundFull, jobs) \<and> (\<exists>j \<in> set jobs. JobCredential j = c \<and> model \<in> set (JobModels j))"
proof -
  let ?cands = "candidatesLocked now m"
  let ?due = "List.map_filter (due_job now True m ?cands) (nm_credentials m)"
  have "model \<in> set (servedLocked m c ?cands)" using assms(5,6) by (simp add: served_set)
  from due_full [OF assms(3,4) this, of now] obtain j where j: "due_job now True m ?cands c = Some (j, RoundFull)" "JobCredential j = c" "model \<in> set (JobModels j)" by blast
  then have d: "(j, RoundFull) \<in> set ?due" using assms(2) by (auto simp: set_map_filter)
  have kinds: "\<forall>x \<in> set ?due. snd x = RoundFull" using due_job_full by (force simp: set_map_filter)
  obtain x xs where x: "?due = x # xs" using d by (cases ?due) auto
  have "dueLocked now m = Some (RoundFull, map fst ?due)"
    using assms(1,5) kinds by (cases x) (auto simp: dueLocked_def Let_def x)
  then show ?thesis using d j by (intro exI [of _ "map fst ?due"]) force
qed

lemma full_due:
  assumes "IsZero (nm_lastFull m) \<or> wrap64 (IntervalHours (nm_settings m) * hour) \<le> time_sub now (nm_lastFull m)"
    "c \<in> set (nm_credentials m)" "\<not> CredDisabled c" "\<not> Unavailable c"
    "model \<in> set (candidatesLocked now m)" "serves c (aget (nm_records m) (CredAuthIndex c)) model"
  shows "\<exists>jobs. dueLocked now m = Some (RoundFull, jobs)"
  using full_round_jobs [OF assms] by blast





subsection \<open>A restart\<close>

text \<open>What encoding/json leaves of a document: empty lists and maps that are omitted when empty come back
  absent, and \<open>want\<close> is not written. \<open>texts\<close> are the documents whose text is UTF-8.\<close>

definition written_record :: "channelRecord \<Rightarrow> channelRecord" where
  "written_record rec = rec\<lparr>Pairs := (if Pairs rec = Some [] then None else Pairs rec)\<rparr>"

definition written_credential :: "Credential \<Rightarrow> Credential" where
  "written_credential c = c\<lparr>CredModels := (if CredModels c = Some [] then None else CredModels c)\<rparr>"

definition written_exclusion :: "exclusion \<Rightarrow> exclusion" where
  "written_exclusion e = e\<lparr>Want := False\<rparr>"

definition native_codec :: "(fileData \<Rightarrow> bool) \<Rightarrow> (fileData \<Rightarrow> 'f option) \<Rightarrow> (fileData \<Rightarrow> 'f \<Rightarrow> fileData option) \<Rightarrow> bool" where
  "native_codec texts encode decode \<longleftrightarrow> (\<forall>d d0 raw. texts d \<longrightarrow> encode d = Some raw \<longrightarrow>
     decode d0 raw = Some (d\<lparr>FdCredentials := map written_credential (FdCredentials d), FdChannels := map written_record (FdChannels d),
       FdExclusions := map written_exclusion (FdExclusions d)\<rparr>))"

lemma fold_aset_get:
  assumes "distinct (map k xs)"
  shows "aget (fold (\<lambda>x. aset (k x) (f x)) xs m) i = (case find (\<lambda>x. k x = i) xs of Some x \<Rightarrow> Some (f x) | None \<Rightarrow> aget m i)"
  using assms
proof (induction xs arbitrary: m)
  case (Cons x xs)
  show ?case
  proof (cases "k x = i")
    case True
    then have "i \<notin> k ` set xs" using Cons.prems by auto
    then have "find (\<lambda>x. k x = i) xs = None" by (auto simp: find_None_iff intro: imageI)
    then show ?thesis using Cons True by simp
  next
    case False
    then show ?thesis using Cons.IH [of "aset (k x) (f x) m"] Cons.prems by (auto split: option.split)
  qed
qed simp

lemma find_unique:
  assumes "distinct (map k xs)" "x \<in> set xs"
  shows "find (\<lambda>y. k y = k x) xs = Some x"
  using assms by (induction xs) auto

text \<open>Sorting the values of a map whose entries name their keys, and reading them back.\<close>

lemma values_restored:
  assumes "amap_ok m" "\<forall>(i, v) \<in> set m. k v = i" "\<forall>v. k (g v) = k v"
  shows "aget (fold (\<lambda>v. aset (k v) (h v)) (map g (sort_key r (map snd m))) []) i = map_option (\<lambda>v. h (g v)) (aget m i)"
proof -
  let ?vs = "map g (sort_key r (map snd m))"
  have km: "map k (map snd m) = map fst m" using assms(2) by auto
  have d: "distinct (map k (map snd m))" unfolding km using assms(1) by (simp add: amap_ok_def)
  have "mset (map k (sort_key r (map snd m))) = mset (map k (map snd m))" by (metis mset_map mset_sort)
  then have "distinct (map k (sort_key r (map snd m)))" using d using mset_eq_imp_distinct_iff by blast
  then have dv: "distinct (map k ?vs)" using assms(3) by (simp add: comp_def)
  show ?thesis
  proof (cases "aget m i")
    case (Some v)
    from map_of_SomeD [OF this] have v: "(i, v) \<in> set m" .
    then have "k v = i" using assms(2) by auto
    then have kg: "k (g v) = i" using assms(3) by simp
    have "v \<in> set (map snd m)" using v by force
    then have "g v \<in> set ?vs" by simp
    from find_unique [OF dv this] have "find (\<lambda>y. k y = i) ?vs = Some (g v)" by (simp add: kg)
    then show ?thesis using fold_aset_get [OF dv, of h "[]" i] Some by simp
  next
    case None
    then have n: "i \<notin> fst ` set m" by (simp add: map_of_eq_None_iff)
    have "k y \<noteq> i" if "y \<in> set ?vs" for y using that n assms(2,3) by force
    then have "find (\<lambda>y. k y = i) ?vs = None" by (auto simp: find_None_iff)
    then show ?thesis using fold_aset_get [OF dv, of h "[]" i] None by simp
  qed
qed

lemma written_same [simp]: "CrAuthIndex (written_record rec) = CrAuthIndex rec" "ExIndex (written_exclusion e) = ExIndex e" "ExModel (written_exclusion e) = ExModel e"
  by (simp_all add: written_record_def written_exclusion_def)

lemma written_pairs_ok: "pairs_ok rec \<Longrightarrow> pairs_ok (written_record rec)"
  by (auto simp: pairs_ok_def rec_pairs_def written_record_def)



definition saved_example :: "nat native \<times> native_error option" where
  "saved_example = saveLocked (\<lambda>_. Some 1) (\<lambda>_. False) True (9 * hour) two_channels"


end
