(* ===== verification/NativeStale.thy ===== *)
theory NativeStale
  imports NativeReach
begin

text \<open>
  A race of automatic exclusion (exclude.go and the credential lists of native.go): what a credential list
  that was asked for before an edit of the proxy's configuration does when it is taken over after it.
\<close>



subsection \<open>A list from before an edit\<close>

definition listed_credential :: "'f native \<Rightarrow> string \<Rightarrow> Credential option" where
  "listed_credential m i = aget (rev (map (\<lambda>c. (CredAuthIndex c, c)) (nm_credentials m))) i"

definition holds_entry :: "Credential \<Rightarrow> string \<Rightarrow> bool" where
  "holds_entry c model \<longleftrightarrow> list_ex (\<lambda>entry. EqualFold entry model) (CredExcluded c)"

lemma added_keeps: "aget (nm_exclusions m) key = Some e \<Longrightarrow> aget (nm_exclusions (add_exclusions now m)) key = Some e"
proof -
  have one: "aget (nm_exclusions m) key = Some e \<Longrightarrow> aget (nm_exclusions (add_gap now model gap m)) key = Some e" for model gap and m :: "'b native"
    by (auto simp: add_gap_def Let_def)
  have gaps: "aget (nm_exclusions m) key = Some e \<Longrightarrow> aget (nm_exclusions (fold (add_gap now model) gs m)) key = Some e" for model gs and m :: "'b native"
    by (induction gs arbitrary: m) (simp_all add: one)
  have "aget (nm_exclusions m) key = Some e \<Longrightarrow> aget (nm_exclusions
      (fold (\<lambda>dec m. if DecMode dec \<noteq> ModeNative then m else fold (add_gap now (DecModel dec)) (Gaps dec) m) ds m)) key = Some e" for ds and m :: "'b native"
    by (induction ds arbitrary: m) (simp_all add: gaps)
  then show "aget (nm_exclusions m) key = Some e \<Longrightarrow> aget (nm_exclusions (add_exclusions now m)) key = Some e" by (simp add: add_exclusions_def)
qed

text \<open>What a plan makes of one exclusion of a well-formed manager.\<close>

lemma planned_entry:
  assumes "native_ok m" "planLocked now m = (m', edits)" "aget (nm_exclusions m) key = Some e"
    "plan_one now (plan_active m) (plan_canAdd now m) (nm_editedAt m < nm_listedAt m) (nm_snapshot m) (listed_credential m (fst key))
      (rec_pair (aget (nm_records m) (fst key)) (snd key)) key e = (r, chg, pl)"
  shows "aget (nm_exclusions m') key = r" "list_all (\<lambda>p. edit_key p = key \<longrightarrow> pl = Some p) edits"
proof -
  from assms(2) obtain ma where ma: "same_evidence ma m" "ma = (if plan_canAdd now m then add_exclusions now m else m)"
    "plan_active ma = plan_active m" "plan_canAdd now ma = plan_canAdd now m"
    "set edits = {pl. \<exists>key e r chg. (key, e) \<in> set (nm_exclusions ma) \<and> plan_entry now ma (key, e) = (r, chg, Some pl)}"
    "set (nm_exclusions m') = {(key, e'). \<exists>e chg pl. (key, e) \<in> set (nm_exclusions ma) \<and> plan_entry now ma (key, e) = (Some e', chg, pl)}"
    by (rule plan_parts) blast
  have e: "aget (nm_exclusions ma) key = Some e" using ma(2) added_keeps [OF assms(3)] assms(3) by simp
  have oka: "amap_ok (nm_exclusions ma)" using ma(2) assms(1) add_exclusions_ok [of m now] by (simp add: native_ok_def exclusions_ok_def)
  have ok': "amap_ok (nm_exclusions m')" using planLocked_ok [OF assms(1,2)] by (simp add: native_ok_def exclusions_ok_def)
  have pe: "plan_entry now ma (key, e) = (r, chg, pl)"
    using assms(4) ma(1,3,4) by (simp add: plan_entry_def listed_credential_def same_evidence_def)
  have uniq: "e2 = e" if "(key, e2) \<in> set (nm_exclusions ma)" for e2 using aget_SomeI [OF oka that] e by simp
  have "aget (nm_exclusions m') key = Some e' \<longleftrightarrow> r = Some e'" for e'
  proof -
    have "aget (nm_exclusions m') key = Some e' \<longleftrightarrow> (key, e') \<in> set (nm_exclusions m')" using aget_SomeI [OF ok'] by (metis map_of_SomeD)
    also have "\<dots> \<longleftrightarrow> (\<exists>e2 chg pl. (key, e2) \<in> set (nm_exclusions ma) \<and> plan_entry now ma (key, e2) = (Some e', chg, pl))"
      unfolding ma(6) by simp
    also have "\<dots> \<longleftrightarrow> (\<exists>chg pl. plan_entry now ma (key, e) = (Some e', chg, pl))" using uniq map_of_SomeD [OF e] by blast
    also have "\<dots> \<longleftrightarrow> r = Some e'" by (simp add: pe)
    finally show ?thesis .
  qed
  then show "aget (nm_exclusions m') key = r" by (metis not_None_eq)
  show "list_all (\<lambda>p. edit_key p = key \<longrightarrow> pl = Some p) edits"
  proof -
    have "pl = Some p" if p: "p \<in> set edits" "edit_key p = key" for p
    proof -
      obtain key2 e2 r2 chg2 where k: "(key2, e2) \<in> set (nm_exclusions ma)" "plan_entry now ma (key2, e2) = (r2, chg2, Some p)" using p(1) unfolding ma(5) by blast
      then have "key2 = key" using p(2) unfolding plan_entry_def by (auto dest: plan_one_edit(1))
      then show ?thesis using k uniq pe by auto
    qed
    then show ?thesis by (auto simp: list_all_iff)
  qed
qed


text \<open>The entry is missing from a list that counts as fresh: the exclusion turns into one the operator keeps. Then the entry is
  in a list again: it counts as the operator's own.\<close>

lemma missing_kept:
  assumes "Written e" "IsZero (KeptAt e)" "\<not> IsZero now" "InConfig c" "\<not> CredDisabled c" "\<not> holds_entry c (snd key)"
  shows "plan_one now active canAdd True d (Some c) p key e = (Some (e\<lparr>Written := False, Want := False, KeptAt := now, KeptBy := KeptByConfig\<rparr>), True, None)"
  using assms by (simp add: plan_one_def settle_entry_def plan_want_def Let_def holds_entry_def)

lemma present_forgotten:
  "\<not> Written e \<Longrightarrow> InConfig c \<Longrightarrow> holds_entry c (snd key) \<Longrightarrow> plan_one now active canAdd True d (Some c) p key e = (None, True, None)"
  by (simp add: plan_one_def settle_entry_def Let_def holds_entry_def)


text \<open>A run that gets there: a list is asked for, the plan takes the model off \<open>a\<close>, the list is taken over, and
  then comes one that shows the entry.\<close>

definition stale_start :: "nat native" where
  "stale_start = refresh (10 * hour) None (Start (9 * hour) two_channels)"

definition stale_edited :: "nat native" where
  "stale_edited = fst (reconcile_apply (10 * hour + second) (snd (planLocked (10 * hour) stale_start)) (Inr [EditDone]) (fst (planLocked (10 * hour) stale_start)))"

definition stale_taken :: "nat native" where
  "stale_taken = refresh (10 * hour + 2 * second) (Some (Inr [sample_cred ''a'', sample_cred ''b''])) stale_edited"

definition stale_shown :: "nat native" where
  "stale_shown = refresh (10 * hour + minute) (Some (Inr [(sample_cred ''a'')\<lparr>CredExcluded := [''g'']\<rparr>, sample_cred ''b''])) (fst (planLocked (10 * hour + 3 * second) stale_taken))"


end
