(* ===== verification/NativeCatalog.thy ===== *)
theory NativeCatalog
  imports NativeState AdaptBody
begin

text \<open>
  The bodies and streams of native search, src/internal/search/native/catalog.go and probe.go: the catalog
  in which Responses Lite is switched off, the request body the search tool is taken out of, and what a
  probe makes of the event stream it gets.

  encoding/json is a parameter wherever a value is decoded or encoded: \<open>unmarshalList\<close> reads the raw
  elements of an array, \<open>toolType\<close> the type of a tool, and so on; their \<^const>\<open>None\<close> is an error.
\<close>


subsection \<open>The catalog\<close>

record catalogEntry =
  EntrySlug :: string
  EntryLite :: "bool option"
  EntryVisibility :: string

definition candidate :: "catalogEntry \<Rightarrow> bool" where
  "candidate e \<longleftrightarrow> EntrySlug e \<noteq> [] \<and> EntryLite e = Some True \<and> \<not> EqualFold (EntryVisibility e) ''hide''"

text \<open>One model of the catalog: the slug when it is a candidate, and the model as it is written back.\<close>

definition rewrite_model :: "(string \<Rightarrow> catalogEntry option) \<Rightarrow> (string \<Rightarrow> (string, string) amap option) \<Rightarrow> ((string, string) amap \<Rightarrow> string option) \<Rightarrow>
    string set \<Rightarrow> string \<Rightarrow> string list \<times> string \<times> bool" where
  "rewrite_model unmarshalEntry unmarshalMap marshalMap native raw = (case unmarshalEntry raw of
     None \<Rightarrow> ([], raw, False)
   | Some e \<Rightarrow>
       if \<not> candidate e then ([], raw, False)
       else if EntrySlug e \<notin> native then ([EntrySlug e], raw, False)
       else (case unmarshalMap raw of
           None \<Rightarrow> ([EntrySlug e], raw, False)
         | Some members \<Rightarrow> (case marshalMap (aset ''use_responses_lite'' ''false'' members) of
             None \<Rightarrow> ([EntrySlug e], raw, False)
           | Some out \<Rightarrow> ([EntrySlug e], out, True))))"

text \<open>\<open>rewriteCatalog\<close>: \<^const>\<open>None\<close> for a body that is no catalog, else the candidates and the new body, if any.\<close>

definition rewriteCatalog :: "(string \<Rightarrow> catalogEntry option) \<Rightarrow> (string \<Rightarrow> (string, string) amap option) \<Rightarrow> ((string, string) amap \<Rightarrow> string option) \<Rightarrow>
    (string \<Rightarrow> string list option) \<Rightarrow> (string list \<Rightarrow> string option) \<Rightarrow> string \<Rightarrow> string set \<Rightarrow> (string list \<times> string option) option" where
  "rewriteCatalog unmarshalEntry unmarshalMap marshalMap unmarshalList marshalList body native =
     (let trimmed = TrimSpace body
      in if trimmed = [] \<or> hd trimmed \<noteq> CHR ''{'' \<or> \<not> str_contains trimmed (dquote # ''models'' @ [dquote]) then None
         else case unmarshalMap trimmed of
           None \<Rightarrow> None
         | Some outer \<Rightarrow> (case Option.bind (aget outer ''models'') unmarshalList of
             None \<Rightarrow> None
           | Some models \<Rightarrow>
             (let rs = map (rewrite_model unmarshalEntry unmarshalMap marshalMap native) models;
                  candidates = concat (map fst rs)
              in if \<not> list_ex (\<lambda>(_, _, changed). changed) rs then Some (candidates, None)
                 else (case marshalList (map (fst \<circ> snd) rs) of
                     None \<Rightarrow> Some (candidates, None)
                   | Some encoded \<Rightarrow> Some (candidates, marshalMap (aset ''models'' encoded outer))))))"

definition RewriteCatalog :: "(string \<Rightarrow> catalogEntry option) \<Rightarrow> (string \<Rightarrow> (string, string) amap option) \<Rightarrow> ((string, string) amap \<Rightarrow> string option) \<Rightarrow>
    (string \<Rightarrow> string list option) \<Rightarrow> (string list \<Rightarrow> string option) \<Rightarrow> instant \<Rightarrow> string \<Rightarrow> 'f native \<Rightarrow> 'f native \<times> string option" where
  "RewriteCatalog unmarshalEntry unmarshalMap marshalMap unmarshalList marshalList now body m =
     (case rewriteCatalog unmarshalEntry unmarshalMap marshalMap unmarshalList marshalList body (d_native (nm_snapshot m)) of
        None \<Rightarrow> (m, None)
      | Some (candidates, rewritten) \<Rightarrow> (observeCandidates now candidates m, rewritten))"


subsection \<open>Taking the tool out\<close>

definition isWebSearchTool :: "(string \<Rightarrow> string option) \<Rightarrow> string \<Rightarrow> bool" where
  "isWebSearchTool toolType raw = (case toolType raw of None \<Rightarrow> False | Some t \<Rightarrow> HasPrefix t ''web_search'')"

text \<open>\<open>isSearchCall\<close>: \<^const>\<open>None\<close> when the item is an object that cannot be read.\<close>

definition search_call_type :: string where
  "search_call_type = dquote # ''web_search_call'' @ [dquote]"

definition isSearchCall :: "string \<Rightarrow> bool option" where
  "isSearchCall item =
     (if item = [] \<or> hd item \<noteq> CHR ''{'' then Some False
      else case Members item (\<lambda>key first past search. if key \<noteq> ''type'' then (search, True) else (slice item first past = search_call_type, False)) False of
        (search, True) \<Rightarrow> Some search
      | (_, False) \<Rightarrow> None)"

text \<open>The loop of \<open>withoutSearchCalls\<close>: the text written so far, whether an item was removed and whether all could be read.\<close>

definition keep_item :: "string \<Rightarrow> nat \<Rightarrow> nat \<Rightarrow> string \<times> bool \<times> bool \<Rightarrow> (string \<times> bool \<times> bool) \<times> bool" where
  "keep_item input first past = (\<lambda>(out, removed, readable). case isSearchCall (slice input first past) of
     None \<Rightarrow> ((out, removed, False), False)
   | Some True \<Rightarrow> ((out, True, readable), True)
   | Some False \<Rightarrow> (((if 1 < length out then out @ '','' else out) @ slice input first past, removed, readable), True))"

definition withoutSearchCalls :: "string \<Rightarrow> string option" where
  "withoutSearchCalls input =
     (if \<not> str_contains input search_call_type then None
      else case Elements input (keep_item input) (''['', False, True) of
        ((out, removed, readable), scanned) \<Rightarrow>
          if \<not> scanned \<or> \<not> readable \<or> \<not> removed then None else Some (out @ '']''))"

text \<open>The spans of the values under \<open>tools\<close>, \<open>tool_choice\<close> and \<open>input\<close>, the last of each.\<close>

type_synonym span = "nat \<times> nat"

definition note_span :: "string \<Rightarrow> nat \<Rightarrow> nat \<Rightarrow> span option \<times> span option \<times> span option \<Rightarrow> (span option \<times> span option \<times> span option) \<times> bool" where
  "note_span key first past = (\<lambda>(tools, choice, input).
     (if key = ''tools'' then (Some (first, past), choice, input)
      else if key = ''tool_choice'' then (tools, Some (first, past), input)
      else if key = ''input'' then (tools, choice, Some (first, past))
      else (tools, choice, input), True))"

type_synonym replacement = "nat \<times> nat \<times> string"

definition strip_tools :: "(string \<Rightarrow> string list option) \<Rightarrow> (string list \<Rightarrow> string option) \<Rightarrow> (string \<Rightarrow> string option) \<Rightarrow> string \<Rightarrow> string option option" where
  "strip_tools unmarshalList marshalList toolType raw = (case unmarshalList raw of
     None \<Rightarrow> None
   | Some list \<Rightarrow>
     (let kept = filter (\<lambda>t. \<not> isWebSearchTool toolType t) list
      in if length kept < length list then (case marshalList kept of None \<Rightarrow> None | Some encoded \<Rightarrow> Some (Some encoded)) else Some None))"

definition strip_choice :: "(string \<Rightarrow> string option) \<Rightarrow> string \<Rightarrow> string option" where
  "strip_choice toolType raw = (if isWebSearchTool toolType raw then Some (dquote # ''auto'' @ [dquote]) else None)"

text \<open>Writing the body with its replacements, from an index on.\<close>

fun splice :: "string \<Rightarrow> nat \<Rightarrow> replacement list \<Rightarrow> string" where
  "splice body pos [] = drop pos body"
| "splice body pos ((first, past, value) # rs) = take (first - pos) (drop pos body) @ value @ splice body past rs"

definition replace_span :: "string \<Rightarrow> (string \<Rightarrow> string option) \<Rightarrow> span option \<Rightarrow> replacement list" where
  "replace_span body f sp = (case sp of None \<Rightarrow> [] | Some (first, past) \<Rightarrow>
     (case f (slice body first past) of None \<Rightarrow> [] | Some v \<Rightarrow> [(first, past, v)]))"

definition stripWebSearch :: "(string \<Rightarrow> string list option) \<Rightarrow> (string list \<Rightarrow> string option) \<Rightarrow> (string \<Rightarrow> string option) \<Rightarrow> string \<Rightarrow> string option" where
  "stripWebSearch unmarshalList marshalList toolType body =
     (case Members body note_span (None, None, None) of
        (_, False) \<Rightarrow> None
      | ((tools, choice, input), True) \<Rightarrow>
        (let unreadable = (case tools of None \<Rightarrow> False | Some (first, past) \<Rightarrow> strip_tools unmarshalList marshalList toolType (slice body first past) = None);
             rs = replace_span body (\<lambda>raw. case strip_tools unmarshalList marshalList toolType raw of Some r \<Rightarrow> r | None \<Rightarrow> None) tools
               @ replace_span body (strip_choice toolType) choice @ replace_span body withoutSearchCalls input
         in if unreadable \<or> rs = [] then None else Some (splice body 0 (sort_key fst rs))))"


subsection \<open>Probes\<close>

record event =
  EvType :: string
  EvItem :: string
  EvStatus :: string
  EvError :: string
  EvDetails :: string
  EvInput :: int
  EvOutput :: int

fun split_on :: "char \<Rightarrow> string \<Rightarrow> string list" where
  "split_on sep [] = [[]]"
| "split_on sep (c # s) = (if c = sep then [] # split_on sep s else (case split_on sep s of [] \<Rightarrow> [[c]] | l # ls \<Rightarrow> (c # l) # ls))"

record reading =
  RdResult :: probe_result
  RdSearches :: int
  RdInput :: int
  RdOutput :: int
  RdMessage :: string

text \<open>The loop of \<open>readEvents\<close> over the lines.\<close>

fun read_events :: "(string \<Rightarrow> event option) \<Rightarrow> string list \<Rightarrow> bool \<Rightarrow> int \<Rightarrow> int \<Rightarrow> int \<Rightarrow> reading" where
  "read_events unmarshal [] final searches input output =
     (if \<not> final then \<lparr>RdResult = ResultError, RdSearches = searches, RdInput = input, RdOutput = output,
        RdMessage = ''the stream ended before the response completed''\<rparr>
      else if 0 < searches then \<lparr>RdResult = ResultSearch, RdSearches = searches, RdInput = input, RdOutput = output, RdMessage = []\<rparr>
      else \<lparr>RdResult = ResultNoSearch, RdSearches = 0, RdInput = input, RdOutput = output, RdMessage = []\<rparr>)"
| "read_events unmarshal (line # ls) final searches input output =
     (let l = TrimSpace line
      in if \<not> HasPrefix l ''data:'' then read_events unmarshal ls final searches input output
         else let data = TrimSpace (TrimPrefix l ''data:'')
         in case unmarshal data of
              None \<Rightarrow> read_events unmarshal ls final searches input output
            | Some ev \<Rightarrow>
                if EvType ev = ''response.output_item.done'' then
                  read_events unmarshal ls final (if EvItem ev = ''web_search_call'' then wrap64 (searches + 1) else searches) input output
                else if EvType ev = ''response.completed'' \<or> EvType ev = ''response.incomplete'' \<or> EvType ev = ''response.failed'' then
                  (if EvStatus ev \<noteq> [] \<and> EvStatus ev \<noteq> ''completed'' then
                     \<lparr>RdResult = ResultError, RdSearches = searches, RdInput = EvInput ev, RdOutput = EvOutput ev,
                       RdMessage = ''response '' @ EvStatus ev @ '': '' @ (if EvError ev = [] \<or> EvError ev = ''null'' then EvDetails ev else EvError ev)\<rparr>
                   else read_events unmarshal ls True searches (EvInput ev) (EvOutput ev))
                else if EvType ev = ''error'' then
                  \<lparr>RdResult = ResultError, RdSearches = searches, RdInput = input, RdOutput = output, RdMessage = ''upstream error: '' @ data\<rparr>
                else read_events unmarshal ls final searches input output)"

definition readEvents :: "(string \<Rightarrow> event option) \<Rightarrow> string \<Rightarrow> reading" where
  "readEvents unmarshal events = read_events unmarshal (split_on (CHR 0x0A) events) False 0 0 0"

definition retryable :: "int \<Rightarrow> bool" where
  "retryable status \<longleftrightarrow> status = 0 \<or> status = 429 \<or> 500 \<le> status"

text \<open>What one request to the upstream comes back with; the text of a failure is the one recorded.\<close>

datatype stream_answer = StreamCancelled | StreamNotServing | StreamFailed int string | StreamEvents int string

record attempt =
  AtStarted :: instant
  AtLatency :: int
  AtAnswer :: stream_answer

definition attempt_probe :: "(string \<Rightarrow> event option) \<Rightarrow> string \<Rightarrow> attempt \<Rightarrow> Probe" where
  "attempt_probe unmarshal model a =
     (let p = \<lparr>ProbeAt = AtStarted a, ProbeModel = model, ProbeResult = ResultError, ProbeStatus = 0, ProbeError = [], LatencyMS = AtLatency a,
        Searches = 0, ProbeInput = 0, ProbeOutput = 0\<rparr>
      in case AtAnswer a of
           StreamFailed status err \<Rightarrow> p\<lparr>ProbeStatus := status, ProbeError := truncate_text err\<rparr>
         | StreamEvents status events \<Rightarrow>
             (let r = readEvents unmarshal events
              in p\<lparr>ProbeStatus := status, ProbeResult := RdResult r, Searches := RdSearches r, ProbeInput := RdInput r, ProbeOutput := RdOutput r,
                ProbeError := truncate_text (RdMessage r)\<rparr>)
         | _ \<Rightarrow> p)"

text \<open>\<open>probeChannel\<close> with its two attempts; \<open>cancelled\<close> says the round was stopped during the pause between them.\<close>

definition probeChannel :: "(string \<Rightarrow> event option) \<Rightarrow> string \<Rightarrow> attempt \<Rightarrow> bool \<Rightarrow> attempt \<Rightarrow> Probe option \<times> probe_outcome" where
  "probeChannel unmarshal model one cancelled two =
     (let settle = (\<lambda>a. case AtAnswer a of StreamCancelled \<Rightarrow> Some (None, OutcomeCancelled) | StreamNotServing \<Rightarrow> Some (None, OutcomeNotServing)
            | _ \<Rightarrow> None)
      in case settle one of Some r \<Rightarrow> r
         | None \<Rightarrow>
           (let p = attempt_probe unmarshal model one
            in if ProbeResult p \<noteq> ResultError \<or> \<not> retryable (ProbeStatus p) then (Some p, OutcomeRecorded)
               else if cancelled then (None, OutcomeCancelled)
               else case settle two of Some r \<Rightarrow> r | None \<Rightarrow> (Some (attempt_probe unmarshal model two), OutcomeRecorded)))"


subsection \<open>What is left of a body\<close>

text \<open>The replacement of one member's value, by its key.\<close>

definition strip_value :: "(string \<Rightarrow> string list option) \<Rightarrow> (string list \<Rightarrow> string option) \<Rightarrow> (string \<Rightarrow> string option) \<Rightarrow> string \<Rightarrow> string \<Rightarrow> string option" where
  "strip_value unmarshalList marshalList toolType key v =
     (if key = ''tools'' then (case strip_tools unmarshalList marshalList toolType v of Some r \<Rightarrow> r | None \<Rightarrow> None)
      else if key = ''tool_choice'' then strip_choice toolType v
      else if key = ''input'' then withoutSearchCalls v
      else None)"

definition with_value :: "(string \<Rightarrow> string \<Rightarrow> string option) \<Rightarrow> member \<Rightarrow> member" where
  "with_value f = (\<lambda>(a, k, b, c, v, d). (a, k, b, c, (case f k v of None \<Rightarrow> v | Some w \<Rightarrow> w), d))"

text \<open>The replacements of a list of members, in order, the first of which starts at an index.\<close>

definition member_reps :: "(string \<Rightarrow> string \<Rightarrow> string option) \<Rightarrow> nat \<Rightarrow> member list \<Rightarrow> replacement list" where
  "member_reps f n ms = List.map_filter (\<lambda>((k, first, past), (_, _, _, _, v, _)). map_option (\<lambda>w. (first, past, w)) (f k v)) (zip (member_spans n ms) ms)"

lemma member_reps_simps [simp]:
  "member_reps f n [] = []"
  "member_reps f n ((a, k, b, c, v, d) # ms) =
     (let st = n + length a + length k + length b + length c + 3
      in (case f k v of None \<Rightarrow> [] | Some w \<Rightarrow> [(st, st + length v, w)]) @ member_reps f (st + length v + length d + 1) ms)"
  by (simp_all add: member_reps_def List.map_filter_simps Let_def split: option.split)

lemma drop_front: "drop (length xs) (xs @ ys) = ys"
  by simp

lemma take_front: "take (length xs) (xs @ ys) = xs"
  by simp

lemma splice_skip: "\<forall>(first, past, w) \<in> set rs. length p \<le> first \<Longrightarrow> length q \<le> length p \<Longrightarrow> splice (p @ body) (length q) rs = drop (length q) p @ splice (p @ body) (length p) rs"
proof (cases rs)
  case (Cons x rs')
  obtain first past w where x: "x = (first, past, w)" by (cases x)
  assume a: "\<forall>(first, past, w) \<in> set rs. length p \<le> first" "length q \<le> length p"
  then have "length p \<le> first" by (simp add: Cons x)
  then have "take (first - length q) (drop (length q) (p @ body)) = drop (length q) p @ take (first - length p) body"
    using a(2) by simp
  then show ?thesis using \<open>length p \<le> first\<close> by (simp add: Cons x)
qed simp

lemma member_reps_later: "(first, past, w) \<in> set (member_reps f n ms) \<Longrightarrow> n \<le> first"
proof (induction ms arbitrary: n)
  case (Cons m ms)
  obtain a k b c v d where m: "m = (a, k, b, c, v, d)" by (cases m)
  show ?case using Cons.prems Cons.IH [of "n + length a + length k + length b + length c + 3 + length v + length d + 1"]
    by (auto simp: m Let_def split: option.splits)
qed simp

text \<open>Splicing the replacements into the text of the members is writing the members with their new values.\<close>

lemma splice_members:
  assumes "ms \<noteq> []"
  shows "splice (p @ join_comma (map member_text ms) @ r) (length p) (member_reps f (length p) ms) = join_comma (map member_text (map (with_value f) ms)) @ r"
  using assms
proof (induction ms arbitrary: p)
  case (Cons m ms)
  obtain a k b c v d where m: "m = (a, k, b, c, v, d)" by (cases m)
  let ?head = "a @ [dquote] @ k @ [dquote] @ b @ '':'' @ c"
  let ?tail = "if ms = [] then r else CHR '','' # join_comma (map member_text ms) @ r"
  have txts: "p @ join_comma (map member_text (m # ms)) @ r = p @ ?head @ v @ d @ ?tail"
    by (cases ms) (simp_all add: m json_quoted_def)
  let ?st = "length p + length a + length k + length b + length c + 3"
  have st: "?st = length (p @ ?head)" by simp
  let ?rest = "member_reps f (?st + length v + length d + 1) ms"
  have later: "\<forall>(first, past, w) \<in> set ?rest. ?st + length v + length d + 1 \<le> first" using member_reps_later by blast
  have rest: "splice (p @ ?head @ v @ d @ ?tail) (length (p @ ?head @ v)) ?rest = d @ (if ms = [] then r else CHR '','' # join_comma (map member_text (map (with_value f) ms)) @ r)"
  proof (cases "ms = []")
    case False
    have rest_at: "?st + length v + length d + 1 = length (p @ ?head @ v @ d @ '','')" by simp
    have "splice ((p @ ?head @ v @ d @ '','') @ join_comma (map member_text ms) @ r) (length (p @ ?head @ v)) ?rest =
        drop (length (p @ ?head @ v)) (p @ ?head @ v @ d @ '','') @ splice ((p @ ?head @ v @ d @ '','') @ join_comma (map member_text ms) @ r) (length (p @ ?head @ v @ d @ '','')) ?rest"
      by (rule splice_skip) (use later in auto)
    also have "splice ((p @ ?head @ v @ d @ '','') @ join_comma (map member_text ms) @ r) (length (p @ ?head @ v @ d @ '','')) ?rest =
        join_comma (map member_text (map (with_value f) ms)) @ r"
      using Cons.IH [OF False, of "p @ ?head @ v @ d @ '',''"] unfolding rest_at .
    also have "drop (length (p @ ?head @ v)) (p @ ?head @ v @ d @ '','') = d @ '',''"
      using drop_front [of "p @ ?head @ v" "d @ '',''"] by (simp only: append_assoc)
    finally show ?thesis using False by simp
  next
    case True
    then show ?thesis using drop_front [of "p @ ?head @ v" "d @ r"] by (simp del: drop_append length_append)
  qed
  have wm: "map (with_value f) (m # ms) = (a, k, b, c, (case f k v of None \<Rightarrow> v | Some w \<Rightarrow> w), d) # map (with_value f) ms" by (simp add: m with_value_def)
  show ?case
  proof (cases "f k v")
    case None
    have "splice (p @ ?head @ v @ d @ ?tail) (length p) ?rest = (?head @ v) @ splice (p @ ?head @ v @ d @ ?tail) (length (p @ ?head @ v)) ?rest"
      using splice_skip [of ?rest "p @ ?head @ v" p "d @ ?tail"] later by fastforce
    then show ?thesis unfolding txts wm using rest None by (cases ms) (simp_all add: m Let_def json_quoted_def)
  next
    case (Some w)
    have "?st - length p = length ?head" by simp
    moreover have "drop (length p) (p @ ?head @ v @ d @ ?tail) = ?head @ v @ d @ ?tail" by (rule drop_front)
    ultimately have cut: "take (?st - length p) (drop (length p) (p @ ?head @ v @ d @ ?tail)) = ?head" by (simp only: take_front)
    have past: "?st + length v = length (p @ ?head @ v)" by simp
    have "splice (p @ ?head @ v @ d @ ?tail) (length p) ((?st, ?st + length v, w) # ?rest) = ?head @ w @ splice (p @ ?head @ v @ d @ ?tail) (length (p @ ?head @ v)) ?rest"
      by (simp only: splice.simps cut past)
    then show ?thesis unfolding txts wm using rest Some by (cases ms) (simp_all add: m Let_def json_quoted_def)
  qed
qed simp

text \<open>The spans noted are those of the last member of each name.\<close>

lemma note_span_eq: "note_span k first past (t, c, i) =
    ((if k = ''tools'' then Some (first, past) else t, if k = ''tool_choice'' then Some (first, past) else c,
      if k = ''input'' then Some (first, past) else i), True)"
  by (simp add: note_span_def)

lemma note_spans: "visit_all (\<lambda>(k, first, past). note_span k first past) sp (t, c, i) =
    ((case map_of (rev sp) ''tools'' of None \<Rightarrow> t | Some x \<Rightarrow> Some x),
     (case map_of (rev sp) ''tool_choice'' of None \<Rightarrow> c | Some x \<Rightarrow> Some x),
     (case map_of (rev sp) ''input'' of None \<Rightarrow> i | Some x \<Rightarrow> Some x))"
proof (induction sp arbitrary: t c i)
  case (Cons x sp)
  obtain k first past where x: "x = (k, first, past)" by (cases x)
  have "(case map_of (rev sp) n of None \<Rightarrow> (if k = n then Some (first, past) else z) | Some y \<Rightarrow> Some y) =
      (case map_of (rev (x # sp)) n of None \<Rightarrow> z | Some y \<Rightarrow> Some y)" for n z
    by (cases "map_of (rev sp) n") (simp_all add: x map_add_def)
  then show ?case unfolding x visit_all.simps prod.case note_span_eq if_True Cons.IH by simp
qed simp

lemma map_of_rev: "distinct (map fst xs) \<Longrightarrow> map_of (rev xs) = map_of xs"
  by (simp add: map_of_inject_set rev_map [symmetric])

text \<open>The replacements of a body read off its spans: in the order of the spans, and in that of the names.\<close>

definition span_reps :: "string \<Rightarrow> (string \<Rightarrow> string \<Rightarrow> string option) \<Rightarrow> (string \<times> span) list \<Rightarrow> replacement list" where
  "span_reps body f sp = concat (map (\<lambda>(k, first, past). replace_span body (f k) (Some (first, past))) sp)"

definition named_reps :: "string \<Rightarrow> (string \<Rightarrow> string \<Rightarrow> string option) \<Rightarrow> (string \<times> span) list \<Rightarrow> string list \<Rightarrow> replacement list" where
  "named_reps body f sp names = concat (map (\<lambda>k. replace_span body (f k) (map_of sp k)) names)"

lemma replace_span_in: "(first, past, w) \<in> set (replace_span body g s) \<longleftrightarrow> s = Some (first, past) \<and> g (slice body first past) = Some w"
  by (auto simp: replace_span_def split: option.splits)

lemma span_reps_in: "(first, past, w) \<in> set (span_reps body f sp) \<longleftrightarrow> (\<exists>k. (k, first, past) \<in> set sp \<and> f k (slice body first past) = Some w)"
  by (fastforce simp: span_reps_def replace_span_in simp del: split_paired_Ex)

lemma named_reps_in: "(first, past, w) \<in> set (named_reps body f sp names) \<longleftrightarrow>
    (\<exists>k \<in> set names. map_of sp k = Some (first, past) \<and> f k (slice body first past) = Some w)"
  by (auto simp: named_reps_def replace_span_in)

lemma replace_span_starts: "fst ` set (replace_span body g s) \<subseteq> (case s of None \<Rightarrow> {} | Some (first, past) \<Rightarrow> {first})"
  by (auto simp: replace_span_def split: option.splits)

lemma replace_span_distinct: "distinct (map fst (replace_span body g s))"
  by (auto simp: replace_span_def split: option.splits)

lemma starts_unique:
  assumes "distinct (map (fst \<circ> snd) sp)" "map_of sp k = Some (first, past)" "map_of sp k' = Some (first, past')"
  shows "k = k'"
proof -
  have "(k, first, past) \<in> set sp" "(k', first, past') \<in> set sp" using assms(2,3) by (auto dest: map_of_SomeD)
  then show ?thesis using assms(1) by (auto simp: distinct_map dest: inj_onD [where x = "(k, first, past)" and y = "(k', first, past')"])
qed

lemma named_reps_distinct:
  assumes "distinct (map (fst \<circ> snd) sp)" "distinct names"
  shows "distinct (map fst (named_reps body f sp names))"
  using assms(2)
proof (induction names)
  case Nil
  then show ?case by (simp add: named_reps_def)
next
  case (Cons k names)
  have "fst ` set (replace_span body (f k) (map_of sp k)) \<inter> fst ` set (named_reps body f sp names) = {}"
  proof -
    have "k' = k" if "k' \<in> set names" "map_of sp k = Some (first, past)" "map_of sp k' = Some (first, past')" for k' first past past'
      using starts_unique [OF assms(1) that(2,3)] by simp
    then have "\<not> (k' \<in> set names \<and> map_of sp k = Some (first, past) \<and> map_of sp k' = Some (first, past'))" for k' first past past'
      using Cons.prems by auto
    then show ?thesis by (force simp: replace_span_in named_reps_in)
  qed
  then show ?case using Cons.IH Cons.prems replace_span_distinct [of body "f k" "map_of sp k"]
    by (simp add: named_reps_def)
qed

lemma span_starts: "sorted_wrt (<) (map (fst \<circ> snd) (member_spans n ms))" "\<forall>s \<in> set (map (fst \<circ> snd) (member_spans n ms)). n \<le> s"
proof (induction n ms rule: member_spans.induct)
  case (2 n a k b c v d ms)
  let ?st = "n + length a + length k + length b + length c + 3"
  note sorted = 2(1) [OF refl] and later = 2(2) [OF refl]
  {
    case 1
    have "\<forall>s \<in> set (map (fst \<circ> snd) (member_spans (?st + length v + length d + 1) ms)). ?st < s" using later by fastforce
    then show ?case using sorted by (simp add: Let_def)
  next
    case 2
    have "\<forall>s \<in> set (map (fst \<circ> snd) (member_spans (?st + length v + length d + 1) ms)). n \<le> s" using later by fastforce
    then show ?case by (simp add: Let_def)
  }
qed simp_all

lemma span_reps_starts: "sorted_wrt (<) (map (fst \<circ> snd) sp) \<Longrightarrow> sorted_wrt (<) (map fst (span_reps body f sp))"
proof (induction sp)
  case (Cons x sp)
  obtain k first past where x: "x = (k, first, past)" by (cases x)
  have "\<forall>y \<in> fst ` set (span_reps body f sp). first < y" using Cons.prems by (force simp: x span_reps_in)
  then show ?case using Cons by (auto simp: x span_reps_def replace_span_def sorted_wrt_append split: option.splits)
qed (simp add: span_reps_def)

lemma sorted_replacements:
  assumes "sorted_wrt (<) (map (fst \<circ> snd) sp)" "distinct (map fst sp)" "distinct names" "\<And>k v. k \<notin> set names \<Longrightarrow> f k v = None"
  shows "sort_key fst (named_reps body f sp names) = span_reps body f sp"
proof -
  have sd: "sorted (map fst (span_reps body f sp)) \<and> distinct (map fst (span_reps body f sp))"
    using span_reps_starts [OF assms(1)] strict_sorted_iff by blast
  have nd: "distinct (map fst (named_reps body f sp names))"
    by (rule named_reps_distinct [OF _ assms(3)]) (use assms(1) strict_sorted_iff in blast)
  have "(k, first, past) \<in> set sp \<longleftrightarrow> map_of sp k = Some (first, past)" for k first past
    using assms(2) by (simp add: map_of_eq_Some_iff)
  then have "(first, past, w) \<in> set (named_reps body f sp names) \<longleftrightarrow> (first, past, w) \<in> set (span_reps body f sp)" for first past w
    using assms(4) by (force simp: named_reps_in span_reps_in)
  then have same: "set (named_reps body f sp names) = set (span_reps body f sp)" by auto
  show ?thesis
    by (rule map_sorted_distinct_set_unique [of fst]) (use sd nd same in \<open>auto simp: distinct_map\<close>)
qed

lemma span_reps_members:
  assumes "map (\<lambda>(k, first, past). (k, slice body first past)) (member_spans n ms) = map (\<lambda>(_, k, _, _, v, _). (k, v)) ms"
  shows "span_reps body f (member_spans n ms) = member_reps f n ms"
  using assms
proof (induction ms arbitrary: n)
  case (Cons m ms)
  obtain a k b c v d where m: "m = (a, k, b, c, v, d)" by (cases m)
  show ?case using Cons by (auto simp: m Let_def span_reps_def replace_span_def split: option.split)
qed (simp add: span_reps_def)

definition member_keys :: "member list \<Rightarrow> string list" where
  "member_keys = map (\<lambda>(_, k, _). k)"

definition tools_readable :: "(string \<Rightarrow> string list option) \<Rightarrow> (string list \<Rightarrow> string option) \<Rightarrow> (string \<Rightarrow> string option) \<Rightarrow> member list \<Rightarrow> bool" where
  "tools_readable unmarshalList marshalList toolType =
     list_all (\<lambda>(_, k, _, _, v, _). k = ''tools'' \<longrightarrow> strip_tools unmarshalList marshalList toolType v \<noteq> None)"

lemma member_reps_nil: "member_reps f n ms = [] \<longleftrightarrow> list_all (\<lambda>(_, k, _, _, v, _). f k v = None) ms"
proof (induction ms arbitrary: n)
  case (Cons m ms)
  then show ?case by (cases m) (auto simp: Let_def split: option.split)
qed simp

lemma span_texts_in: "(k, v) \<in> set (map (\<lambda>(k, first, past). (k, slice body first past)) sp) \<longleftrightarrow>
    (\<exists>first past. (k, first, past) \<in> set sp \<and> v = slice body first past)"
  by (induction sp) auto

lemma tools_readable_in: "tools_readable unmarshalList marshalList toolType ms \<longleftrightarrow>
    (\<forall>v. (''tools'', v) \<in> set (map (\<lambda>(_, k, _, _, v, _). (k, v)) ms) \<longrightarrow> strip_tools unmarshalList marshalList toolType v \<noteq> None)"
  unfolding tools_readable_def by (induction ms) (auto simp del: set_map list.set_map)

lemma sort_key_nil: "sort_key f xs = [] \<longleftrightarrow> xs = []"
  using length_sort [of f xs] by (metis length_0_conv)

lemma stripped_body_members:
  assumes ws: "json_ws a0" "json_ws a" and ok: "list_all member_ok ms" and keys: "distinct (member_keys ms)"
  shows "stripWebSearch unmarshalList marshalList toolType (a0 @ object_text a ms @ r) =
    (if \<not> tools_readable unmarshalList marshalList toolType ms
        \<or> list_all (\<lambda>(_, k, _, _, v, _). strip_value unmarshalList marshalList toolType k v = None) ms then None
     else Some (a0 @ object_text a (map (with_value (strip_value unmarshalList marshalList toolType)) ms) @ r))"
proof -
  let ?body = "a0 @ object_text a ms @ r" and ?n = "length a0 + 1"
  let ?sp = "member_spans ?n ms" and ?names = "[''tools'', ''tool_choice'', ''input'']"
  let ?f = "strip_value unmarshalList marshalList toolType"
  have dk: "distinct (map fst ?sp)" using keys by (simp add: spans_keys member_keys_def)
  have spans: "Members ?body note_span (None, None, None) = ((map_of ?sp ''tools'', map_of ?sp ''tool_choice'', map_of ?sp ''input''), True)"
    unfolding Members_eq [OF ws ok] note_spans map_of_rev [OF dk] by (simp split: option.split)
  have reps: "sort_key fst (named_reps ?body ?f ?sp ?names) = member_reps ?f ?n ms"
  proof -
    have "span_reps ?body ?f ?sp = member_reps ?f ?n ms" by (rule span_reps_members [OF slice_texts])
    moreover have "sort_key fst (named_reps ?body ?f ?sp ?names) = span_reps ?body ?f ?sp"
      by (rule sorted_replacements) (use span_starts dk in \<open>auto simp: strip_value_def\<close>)
    ultimately show ?thesis by simp
  qed
  have three: "named_reps ?body ?f ?sp ?names =
      replace_span ?body (\<lambda>raw. case strip_tools unmarshalList marshalList toolType raw of Some r \<Rightarrow> r | None \<Rightarrow> None) (map_of ?sp ''tools'')
      @ replace_span ?body (strip_choice toolType) (map_of ?sp ''tool_choice'') @ replace_span ?body withoutSearchCalls (map_of ?sp ''input'')"
    unfolding named_reps_def strip_value_def by simp
  have at_tools: "(''tools'', v) \<in> set (map (\<lambda>(_, k, _, _, v, _). (k, v)) ms) \<longleftrightarrow>
      (\<exists>first past. map_of ?sp ''tools'' = Some (first, past) \<and> v = slice ?body first past)" for v
    unfolding slice_texts [of a0 a ms r, symmetric] span_texts_in map_of_eq_Some_iff [OF dk] ..
  have unreadable: "(case map_of ?sp ''tools'' of None \<Rightarrow> False
      | Some (first, past) \<Rightarrow> strip_tools unmarshalList marshalList toolType (slice ?body first past) = None) \<longleftrightarrow> \<not> tools_readable unmarshalList marshalList toolType ms"
    unfolding tools_readable_in at_tools by (cases "map_of ?sp ''tools''") auto
  have nil: "named_reps ?body ?f ?sp ?names = [] \<longleftrightarrow> list_all (\<lambda>(_, k, _, _, v, _). ?f k v = None) ms"
    unfolding member_reps_nil [symmetric, of ?f ms ?n] reps [symmetric] sort_key_nil ..
  have written: "splice ?body 0 (member_reps ?f ?n ms) = a0 @ object_text a (map (with_value ?f) ms) @ r" if "ms \<noteq> []"
  proof -
    let ?p = "a0 @ ''{''"
    have body: "?body = ?p @ join_comma (map member_text ms) @ (''}'' @ r)" using that by (simp add: object_text_def)
    have np: "?n = length ?p" by simp
    have "splice ?body (length ([] :: string)) (member_reps ?f ?n ms) = drop (length ([] :: string)) ?p @ splice ?body (length ?p) (member_reps ?f ?n ms)"
      unfolding body np by (rule splice_skip) (use member_reps_later in blast, simp)
    also have "splice ?body (length ?p) (member_reps ?f ?n ms) = join_comma (map member_text (map (with_value ?f) ms)) @ (''}'' @ r)"
      unfolding body np by (rule splice_members [OF that])
    finally show ?thesis using that by (simp add: object_text_def)
  qed
  show ?thesis
    unfolding stripWebSearch_def spans prod.case Let_def bool.case three [symmetric] unreadable nil reps
    using written by (cases "ms = []") simp_all
qed




subsection \<open>What a probe concludes\<close>

text \<open>An event that ends a response as it should.\<close>

definition completes :: "event \<Rightarrow> bool" where
  "completes ev \<longleftrightarrow> (EvType ev = ''response.completed'' \<or> EvType ev = ''response.incomplete'' \<or> EvType ev = ''response.failed'')
     \<and> (EvStatus ev = [] \<or> EvStatus ev = ''completed'')"

definition event_of :: "(string \<Rightarrow> event option) \<Rightarrow> string \<Rightarrow> event option" where
  "event_of unmarshal line = (let l = TrimSpace line
     in if HasPrefix l ''data:'' then unmarshal (TrimSpace (TrimPrefix l ''data:'')) else None)"

lemma read_events_final:
  assumes "RdResult (read_events unmarshal ls final searches inp outp) \<noteq> ResultError"
  shows "final \<or> (\<exists>line \<in> set ls. \<exists>ev. event_of unmarshal line = Some ev \<and> completes ev)"
  using assms
proof (induction ls arbitrary: final searches inp outp)
  case Nil
  then show ?case by (auto split: if_splits)
next
  case (Cons line ls)
  show ?case
  proof (cases "event_of unmarshal line")
    case None
    then have "read_events unmarshal (line # ls) final searches inp outp = read_events unmarshal ls final searches inp outp"
      by (auto simp: event_of_def Let_def split: if_splits)
    then show ?thesis using Cons by fastforce
  next
    case (Some ev)
    then have ev: "HasPrefix (TrimSpace line) ''data:''" "unmarshal (TrimSpace (TrimPrefix (TrimSpace line) ''data:'')) = Some ev"
      by (auto simp: event_of_def Let_def split: if_splits)
    show ?thesis
    proof (cases "completes ev")
      case True
      then show ?thesis using Some by auto
    next
      case False
      obtain f s i t where "RdResult (read_events unmarshal ls f s i t) \<noteq> ResultError" "f \<longrightarrow> final"
        using Cons.prems ev False by (auto simp: Let_def completes_def split: if_splits)
      then show ?thesis using Cons.IH by fastforce
    qed
  qed
qed

text \<open>A verdict on the tool needs a stream that ended as it should; anything else is an error.\<close>

lemma probe_verdict:
  assumes "probeChannel unmarshal model one cancelled two = (Some p, outcome)" "ProbeResult p \<noteq> ResultError"
  shows "\<exists>a \<in> {one, two}. \<exists>status events. AtAnswer a = StreamEvents status events \<and> p = attempt_probe unmarshal model a
    \<and> (\<exists>line \<in> set (split_on (CHR 0x0A) events). \<exists>ev. event_of unmarshal line = Some ev \<and> completes ev)"
proof -
  have "\<exists>a \<in> {one, two}. p = attempt_probe unmarshal model a"
    using assms(1) by (auto simp: probeChannel_def Let_def split: stream_answer.splits if_splits)
  then obtain a where a: "a \<in> {one, two}" "p = attempt_probe unmarshal model a" by blast
  from assms(2) obtain status events where "AtAnswer a = StreamEvents status events" "RdResult (readEvents unmarshal events) \<noteq> ResultError"
    unfolding a(2) by (cases "AtAnswer a") (simp_all add: attempt_probe_def Let_def)
  with read_events_final a show ?thesis unfolding readEvents_def by blast
qed

end
