(* ===== verification/NativeTick.thy ===== *)
theory NativeTick
  imports NativeReach
begin

text \<open>
  What native search shows and runs by the minute: src/internal/search/native/status.go, the exclusion
  status of exclude.go, and \<open>Update\<close> and \<open>Tick\<close> of native.go, which put the steps of the manager together.
  Go's iteration over the pairs of a record is in the order of the association list; it decides only
  which of two refusals of the same instant is shown.
\<close>


subsection \<open>Update and tick\<close>

text \<open>\<open>Update\<close>: a change of the settings reconciles the exclusions at once; a failed edit is not returned.\<close>

definition Update_native :: "(fileData \<Rightarrow> 'f option) \<Rightarrow> (write_call \<Rightarrow> bool) \<Rightarrow> bool \<Rightarrow> instant \<Rightarrow> (Edit list \<Rightarrow> string + edit_result list) \<Rightarrow>
    NativeSettings \<Rightarrow> 'f native \<Rightarrow> 'f native \<times> (native_error + NativeSettings \<times> NativeSettings)" where
  "Update_native encode fails canWrite now EditExcluded next m = (case update_settings encode fails canWrite now next m of
     (m, Inl e) \<Rightarrow> (m, Inl e)
   | (m, Inr (previous, stored)) \<Rightarrow>
       ((if previous \<noteq> stored then fst (reconcile canWrite now Inr EditExcluded m) else m), Inr (previous, stored)))"

text \<open>\<open>Tick\<close>, with the credentials as listed before and after the edit.\<close>

definition Tick_native :: "(fileData \<Rightarrow> 'f option) \<Rightarrow> (write_call \<Rightarrow> bool) \<Rightarrow> bool \<Rightarrow> instant \<Rightarrow> (Edit list \<Rightarrow> string + edit_result list) \<Rightarrow>
    string + Credential list \<Rightarrow> string + Credential list \<Rightarrow> 'f native \<Rightarrow> 'f native \<times> job list" where
  "Tick_native encode fails canWrite now EditExcluded listed relisted m =
     (let started = nm_started m;
          m = refresh now (if started then Some listed else None) m
      in case reconcile canWrite now Inr EditExcluded m of
           (m, edited) \<Rightarrow> tick_round encode fails canWrite now (if edited = Inr True \<and> started then refresh now (Some relisted) m else m))"


subsection \<open>The status\<close>

record ExclusionStatus =
  EsIndex :: string
  EsName :: string
  EsGroup :: string
  EsModel :: string
  EsState :: exclusion_state
  EsSince :: instant
  EsTrials :: int
  EsRetryAt :: instant
  EsTrialAt :: instant
  EsKeptAt :: instant
  EsKeptBy :: string
  EsError :: string
  EsNoSearch :: int
  EsRejection :: "Rejection option"

definition exclusion_status :: "'f native \<Rightarrow> pair \<times> exclusion \<Rightarrow> ExclusionStatus" where
  "exclusion_status m = (\<lambda>((i, model), e).
     (let c = find_credential (nm_credentials m) i; p = rec_pair (aget (nm_records m) i) model
      in \<lparr>EsIndex = i, EsName = (case c of None \<Rightarrow> [] | Some c \<Rightarrow> CredName c), EsGroup = (case c of None \<Rightarrow> [] | Some c \<Rightarrow> CredGroup c),
          EsModel = model, EsState = state_of e, EsSince = Since e, EsTrials = Trials e,
          EsRetryAt = (if state_of e = ExclusionActive then RetryAt e else zero_time),
          EsTrialAt = TrialAt e, EsKeptAt = KeptAt e, EsKeptBy = KeptBy e, EsError = ExError e,
          EsNoSearch = (case p of None \<Rightarrow> 0 | Some p \<Rightarrow> NoSearch p), EsRejection = (case p of None \<Rightarrow> None | Some p \<Rightarrow> PairRejection p)\<rparr>))"

definition exclusionStatusLocked :: "'f native \<Rightarrow> ExclusionStatus list" where
  "exclusionStatusLocked m = sort_key (\<lambda>s. EsModel s @ [CHR 0x00] @ EsIndex s) (map (exclusion_status m) (nm_exclusions m))"

definition later_rejection :: "string \<times> pairRecord \<Rightarrow> Rejection option \<Rightarrow> Rejection option" where
  "later_rejection = (\<lambda>(_, p) latest. case PairRejection p of
     None \<Rightarrow> latest
   | Some r \<Rightarrow> if (case latest of None \<Rightarrow> True | Some l \<Rightarrow> RejAt l < RejAt r) then Some r else latest)"

definition latestRejection :: "channelRecord option \<Rightarrow> Rejection option" where
  "latestRejection rec = fold later_rejection (rec_pairs rec) None"

record ChannelStatus =
  ChIndex :: string
  ChName :: string
  ChGroup :: string
  ChModels :: "string list"
  ChModelStates :: "(string, search_state) amap"
  ChState :: search_state
  ChCPADisabled :: bool
  ChUnavailable :: bool
  ChProbes :: "Probe list"
  ChRejection :: "Rejection option"

record NativeStatus =
  StSettings :: NativeSettings
  StModels :: "ModelDecision list"
  StChannels :: "ChannelStatus list"
  StExclusions :: "ExclusionStatus list"
  StExclusionError :: string
  StRound :: "(round_kind \<times> instant \<times> nat \<times> nat) option"
  StLastFullRound :: instant
  StNextFullRound :: instant
  StRunning :: bool
  StCredentialsError :: string

definition nextFullRound :: "'f native \<Rightarrow> instant" where
  "nextFullRound m =
     (if nm_started m \<and> Enabled (nm_settings m) then
        (let next = nm_lastFull m + wrap64 (IntervalHours (nm_settings m) * hour); earliest = nm_startedAt m + startupGrace
         in if IsZero (nm_lastFull m) \<or> next < earliest then earliest else next)
      else zero_time)"

definition channel_status :: "'f native \<Rightarrow> string list \<Rightarrow> Credential \<Rightarrow> ChannelStatus option" where
  "channel_status m candidates c =
     (let i = CredAuthIndex c; rec = aget (nm_records m) i; d = nm_snapshot m;
          served = filter (serves c rec) candidates
      in if served = [] then None
         else Some \<lparr>ChIndex = i, ChName = CredName c, ChGroup = CredGroup c, ChModels = served,
           ChModelStates = List.map_filter (\<lambda>model. map_option (Pair model) (aget (d_modelStates d) (i, model))) served,
           ChState = (case aget (d_states d) i of None \<Rightarrow> StateUnknown | Some s \<Rightarrow> s),
           ChCPADisabled = CredDisabled c, ChUnavailable = Unavailable c,
           ChProbes = (case rec of None \<Rightarrow> [] | Some r \<Rightarrow> rev (Probes r)), ChRejection = latestRejection rec\<rparr>)"

definition Status :: "instant \<Rightarrow> 'f native \<Rightarrow> NativeStatus" where
  "Status now m =
     \<lparr>StSettings = nm_settings m, StModels = d_models (nm_snapshot m),
      StChannels = List.map_filter (channel_status m (candidatesLocked now m)) (nm_credentials m),
      StExclusions = exclusionStatusLocked m, StExclusionError = nm_editErr m,
      StRound = map_option (\<lambda>r. (RsKind r, RsStarted r, RsDone r, RsTotal r)) (nm_round m),
      StLastFullRound = nm_lastFull m, StNextFullRound = nextFullRound m, StRunning = nm_started m, StCredentialsError = nm_credErr m\<rparr>"


subsection \<open>The manager's invariant\<close>

lemma reconcile_ok:
  assumes "native_ok m" "\<And>m m'. native_ok m \<Longrightarrow> prepare m = Inr m' \<Longrightarrow> native_ok m'"
  shows "native_ok (fst (reconcile canWrite now prepare EditExcluded m))"
  using reconcile_plan_ok [OF assms(1), of prepare canWrite now, OF assms(2) [OF assms(1)]]
  by (auto simp: reconcile_def reconcile_apply_ok split: prod.splits sum.splits)

lemma Update_native_ok:
  assumes "native_ok m"
  shows "native_ok (fst (Update_native encode fails canWrite now EditExcluded next m))"
  using update_settings_ok [OF assms, of encode fails canWrite now "next"]
  by (auto simp: Update_native_def intro!: reconcile_ok split: prod.splits sum.splits)

lemma Tick_native_ok:
  assumes "native_ok m"
  shows "native_ok (fst (Tick_native encode fails canWrite now EditExcluded listed relisted m))"
proof -
  let ?m = "refresh now (if nm_started m then Some listed else None) m"
  have "native_ok (fst (reconcile canWrite now Inr EditExcluded ?m))"
    by (rule reconcile_ok) (use assms in \<open>auto simp: refresh_ok\<close>)
  then show ?thesis
    by (auto simp: Tick_native_def Let_def refresh_ok tick_round_ok split: prod.split)
qed


subsection \<open>The status tells what a tick will do\<close>

lemma round_flush [simp]: "nm_round (flushLocked encode fails canWrite now m) = nm_round m"
  by (auto simp: flushLocked_def saveLocked_def Let_def split: option.split prod.split bool.split)

lemma interval_bounds:
  assumes "native_ok m"
  shows "0 \<le> IntervalHours (nm_settings m) * hour" "IntervalHours (nm_settings m) * hour \<le> maxInt64"
    "wrap64 (IntervalHours (nm_settings m) * hour) = IntervalHours (nm_settings m) * hour"
proof -
  have "1 \<le> IntervalHours (nm_settings m)" "IntervalHours (nm_settings m) \<le> maxIntervalHours"
    using assms Normalize_again [of "nm_settings m"] by (auto simp: native_ok_def settings_ok_def)
  then show "0 \<le> IntervalHours (nm_settings m) * hour" "IntervalHours (nm_settings m) * hour \<le> maxInt64"
    "wrap64 (IntervalHours (nm_settings m) * hour) = IntervalHours (nm_settings m) * hour"
    by (auto simp: maxIntervalHours_def maxInt64_def int64_def intro!: wrap64_id)
qed

lemma due_job_kind: "due_job now False m candidates c = Some (j, kind) \<Longrightarrow> kind \<noteq> RoundFull"
  by (auto simp: due_job_def Let_def case_prod_unfold split: if_splits option.splits)

lemma dueLocked_full:
  assumes "dueLocked now m = Some (RoundFull, jobs)"
  shows "IsZero (nm_lastFull m) \<or> wrap64 (IntervalHours (nm_settings m) * hour) \<le> time_sub now (nm_lastFull m)" (is ?full)
proof (rule ccontr)
  assume n: "\<not> ?full"
  let ?due = "List.map_filter (due_job now False m (candidatesLocked now m)) (nm_credentials m)"
  obtain j xs where "?due = (j, RoundFull) # xs"
    using assms n by (auto simp: dueLocked_def Let_def split: if_splits list.splits)
  then have "(j, RoundFull) \<in> set ?due" by simp
  then show False using due_job_kind by (force simp: set_map_filter)
qed

lemma tick_starts_full:
  assumes "native_ok m" "nm_started m" "Enabled (nm_settings m)" "nm_round m = None" "nm_credErr m = []"
    "c \<in> set (nm_credentials m)" "\<not> CredDisabled c" "\<not> Unavailable c"
    "model \<in> set (candidatesLocked now m)" "serves c (aget (nm_records m) (CredAuthIndex c)) model"
  shows "map_option RsKind (nm_round (fst (tick_round encode fails canWrite now m))) = Some RoundFull \<longleftrightarrow> nextFullRound m \<le> now"
proof -
  let ?full = "IsZero (nm_lastFull m) \<or> wrap64 (IntervalHours (nm_settings m) * hour) \<le> time_sub now (nm_lastFull m)"
  have grace: "startupGrace \<le> time_sub now (nm_startedAt m) \<longleftrightarrow> nm_startedAt m + startupGrace \<le> now"
    using time_sub_ge [of startupGrace now "nm_startedAt m"] by (auto simp: startupGrace_def maxInt64_def)
  have interval: "IntervalHours (nm_settings m) * hour \<le> time_sub now (nm_lastFull m) \<longleftrightarrow>
      nm_lastFull m + IntervalHours (nm_settings m) * hour \<le> now"
    unfolding time_sub_ge [OF interval_bounds(1,2) [OF assms(1)]] by auto
  have "nextFullRound m \<le> now \<longleftrightarrow> startupGrace \<le> time_sub now (nm_startedAt m) \<and> ?full"
    unfolding grace interval nextFullRound_def interval_bounds(3) [OF assms(1)] by (auto simp: Let_def assms(2,3))
  moreover have "map_option RsKind (nm_round (fst (tick_round encode fails canWrite now m))) = Some RoundFull \<longleftrightarrow>
      startupGrace \<le> time_sub now (nm_startedAt m) \<and> (\<exists>jobs. dueLocked now m = Some (RoundFull, jobs))"
    by (auto simp: tick_round_def Let_def assms(2-5) startRoundLocked_def split: option.split prod.split)
  moreover have "(\<exists>jobs. dueLocked now m = Some (RoundFull, jobs)) \<longleftrightarrow> ?full"
  proof
    assume ?full
    then have "\<exists>j. dueLocked now m = Some (RoundFull, j)" using full_due [OF _ assms(6-10)] by blast
    then show "\<exists>jobs. dueLocked now m = Some (RoundFull, jobs)" .
  qed (use dueLocked_full in blast)
  ultimately show ?thesis by simp
qed

text \<open>C38: The status announces exactly when the next full round starts: in every state the manager can be in,
  when rounds run, none is under way and some enabled channel may serve a catalog model, the tick at an
  instant starts a full round if and only if the announced time has come.\<close>

theorem next_full_round:
  assumes "native_ok m" "nm_started m" "Enabled (nm_settings m)" "nm_round m = None" "nm_credErr m = []"
    "c \<in> set (nm_credentials m)" "\<not> CredDisabled c" "\<not> Unavailable c"
    "model \<in> set (candidatesLocked now m)" "serves c (aget (nm_records m) (CredAuthIndex c)) model"
  shows "map_option RsKind (nm_round (fst (tick_round encode fails canWrite now m))) = Some RoundFull \<longleftrightarrow> StNextFullRound (Status now m) \<le> now"
  unfolding Status_def NativeStatus.select_convs by (rule tick_starts_full [OF assms])

lemma next_full_round_witness:
  "map_option RsKind (nm_round (fst (tick_round (\<lambda>_. None) (\<lambda>_. False) True (24 * hour) (two_channels\<lparr>nm_started := True, nm_startedAt := hour, nm_round := None\<rparr>)))) = Some RoundFull"
proof -
  let ?m = "two_channels\<lparr>nm_started := True, nm_startedAt := hour, nm_round := None\<rparr>"
  have "native_ok two_channels" using native_reach_ok [OF two_channels_reach] .
  then have "native_ok ?m" by (rule native_ok_cong) simp_all
  moreover have "Enabled (nm_settings ?m)" "nm_credErr ?m = []" "''g'' \<in> set (candidatesLocked (24 * hour) ?m)"
    "serves (sample_cred ''a'') (aget (nm_records ?m) (CredAuthIndex (sample_cred ''a''))) ''g''"
    "\<not> CredDisabled (sample_cred ''a'')" "\<not> Unavailable (sample_cred ''a'')" "StNextFullRound (Status (24 * hour) ?m) \<le> 24 * hour"
    by code_simp+
  moreover have "nm_credentials ?m = [sample_cred ''a'', sample_cred ''b'']" by code_simp
  ultimately show ?thesis using next_full_round [of ?m "sample_cred ''a''" "''g''" "24 * hour" "\<lambda>_. None" "\<lambda>_. False" True] by simp
qed

end
