(* ===== verification/Spec2Isabelle.thy ===== *)
theory Spec2Isabelle
  imports StatsCsv Startup AuditLog NativeStale NativeCatalog NativeTick
begin

text \<open>
  Verification development of cpa-key-policy (policy package).
\<close>

end
